(* ===== verification/Prelude.thy ===== *)
theory Prelude
  imports Main "HOL-Library.Word" "HOL-Library.Monad_Syntax"
begin

text \<open>
  Shared vocabulary of the development: the C types the sources use (bytes, \<open>int\<close>,
  \<open>size_t\<close>, pointers), the memory of one kind of struct as a partial map from
  addresses to structs, and the generic lemmas on words, lists and options that the
  component theories use. A failed memory access (a null pointer, or an address at which no
  struct of that kind is allocated) is the value \<^term>\<open>None\<close> of the option monad.
\<close>

unbundle bit_operations_syntax

section \<open>C types\<close>

type_synonym byte = "8 word"
type_synonym u16 = "16 word"
type_synonym u32 = "32 word"
type_synonym cint = "32 word"
type_synonym size_t = "64 word"
type_synonym ptr = "64 word"

abbreviation NULL :: ptr where "NULL \<equiv> 0"

section \<open>Memory\<close>

type_synonym 'a heap = "ptr \<rightharpoonup> 'a"

definition rd :: "'a heap \<Rightarrow> ptr \<Rightarrow> 'a option" where
  "rd h p = (if p = NULL then None else h p)"

definition wr :: "'a heap \<Rightarrow> ptr \<Rightarrow> ('a \<Rightarrow> 'a) \<Rightarrow> 'a heap option" where
  "wr h p f = (case rd h p of None \<Rightarrow> None | Some v \<Rightarrow> Some (h(p \<mapsto> f v)))"

named_theorems heap_simps \<open>symbolic execution of memory accesses\<close>

lemma rd_Some [heap_simps]: "p \<noteq> NULL \<Longrightarrow> h p = Some v \<Longrightarrow> rd h p = Some v"
  by (simp add: rd_def)

lemma wr_Some [heap_simps]: "p \<noteq> NULL \<Longrightarrow> h p = Some v \<Longrightarrow> wr h p f = Some (h(p \<mapsto> f v))"
  by (simp add: rd_def wr_def)

lemma rd_NULL [simp]: "rd h NULL = None"
  by (simp add: rd_def)

lemma wr_dom: "wr h p f = Some h' \<Longrightarrow> dom h' = dom h"
  by (auto simp: wr_def rd_def split: option.splits if_splits)

lemma wr_frame: "wr h p f = Some h' \<Longrightarrow> q \<noteq> p \<Longrightarrow> h' q = h q"
  by (auto simp: wr_def rd_def split: option.splits if_splits)

section \<open>Machine arithmetic\<close>

lemma unat_add_lt:
  fixes a b :: "'a::len word"
  assumes "unat a + unat b < 2 ^ LENGTH('a)"
  shows "unat (a + b) = unat a + unat b"
  using assms by (simp add: unat_word_ariths)

lemma unat_sub_le:
  fixes a b :: "'a::len word"
  assumes "unat b \<le> unat a"
  shows "unat (a - b) = unat a - unat b"
  using assms by (simp add: unat_sub word_le_nat_alt)

lemma unat_of_nat_lt: "n < 2 ^ LENGTH('a::len) \<Longrightarrow> unat (of_nat n :: 'a word) = n"
  by (simp add: unat_of_nat take_bit_nat_eq_self)

lemma word_eq_0_unat: "(w :: 'a::len word) = 0 \<longleftrightarrow> unat w = 0"
  by (simp add: unat_eq_0)

section \<open>Lists\<close>

lemma sorted_wrt_remove1: "sorted_wrt P xs \<Longrightarrow> sorted_wrt P (remove1 x xs)"
  by (induction xs) (auto dest: notin_set_remove1)

lemma map_remove1_inj:
  "inj_on f (insert x (set xs)) \<Longrightarrow> map f (remove1 x xs) = remove1 (f x) (map f xs)"
proof (induction xs)
  case (Cons a xs)
  then have IH: "map f (remove1 x xs) = remove1 (f x) (map f xs)"
    by (auto intro: inj_on_subset)
  have "f x = f a \<longleftrightarrow> x = a" by (rule inj_on_eq_iff [OF Cons.prems]) simp_all
  then show ?case using IH by simp
qed simp

lemma sorted_wrt_less_inj:
  fixes f :: "'a \<Rightarrow> 'b::order"
  assumes "sorted_wrt (\<lambda>p q. f q < f p) xs"
  shows "inj_on f (set xs)"
  using assms
proof (induction xs)
  case (Cons a xs)
  then have "f b \<noteq> f a" if "b \<in> set xs" for b using that by force
  then show ?case using Cons by (auto simp: inj_on_insert image_iff)
qed simp

section \<open>Runs and data refinement\<close>

text \<open>A component is a partial step function over its operations; a run stops at the first
  operation that has no result.\<close>

fun run :: "('s \<Rightarrow> 'o \<Rightarrow> 's option) \<Rightarrow> 's \<Rightarrow> 'o list \<Rightarrow> 's option" where
  "run step s [] = Some s"
| "run step s (op # ops) = (case step s op of None \<Rightarrow> None | Some s' \<Rightarrow> run step s' ops)"

text \<open>A concrete component implements an abstract one: wherever the abstract step is
  allowed, the concrete one succeeds, keeps its invariant and commutes with the abstraction.\<close>

locale data_refinement =
  fixes cstep :: "'c \<Rightarrow> 'o \<Rightarrow> 'c option"
    and astep :: "'a \<Rightarrow> 'o \<Rightarrow> 'a option"
    and inv :: "'c \<Rightarrow> bool"
    and abs :: "'c \<Rightarrow> 'a"
  assumes step_refines: "inv c \<Longrightarrow> astep (abs c) op = Some a' \<Longrightarrow>
    \<exists>c'. cstep c op = Some c' \<and> inv c' \<and> abs c' = a'"
begin

lemma run_refines:
  "inv c \<Longrightarrow> run astep (abs c) ops = Some a' \<Longrightarrow>
     \<exists>c'. run cstep c ops = Some c' \<and> inv c' \<and> abs c' = a'"
proof (induction ops arbitrary: c)
  case Nil
  then show ?case by simp
next
  case (Cons op ops)
  then obtain a1 where a1: "astep (abs c) op = Some a1" "run astep a1 ops = Some a'"
    by (auto split: option.splits)
  then obtain c1 where "cstep c op = Some c1" "inv c1" "abs c1 = a1"
    using step_refines Cons.prems(1) by blast
  then show ?case using Cons.IH [of c1] a1 by simp
qed

end

end
