(* ===== verification/RBTree.thy ===== *)
theory RBTree
  imports Prelude
begin

text \<open>
  The intrusive red-black tree of \<open>core/src/hev-rbtree.c\<close> and \<open>hev-rbtree.h\<close>, at
  the level of its pointers: a node holds its parent's address and its colour in one word
  (\<open>__parent_color\<close>), and every operation is a sequence of reads and writes of nodes in
  memory. The theories \<open>RBTreeShape\<close>, \<open>RBTreeInsert\<close> and \<open>RBTreeErase\<close> prove these
  definitions correct. Reading or writing through a null or dangling pointer gives
  \<^term>\<open>None\<close>; a loop that does not end has the value \<^term>\<open>None\<close> as well.
\<close>

section \<open>Nodes\<close>

record HevRBTreeNode =
  parent_color :: "64 word"
  r_right :: ptr
  r_left :: ptr

record HevRBTree =
  rb_root :: ptr
  rb_mem :: "HevRBTreeNode heap"

abbreviation (input) HEV_RBTREE_RED :: "64 word" where "HEV_RBTREE_RED \<equiv> 0"
abbreviation (input) HEV_RBTREE_BLACK :: "64 word" where "HEV_RBTREE_BLACK \<equiv> 1"

definition nd :: "HevRBTree \<Rightarrow> ptr \<Rightarrow> HevRBTreeNode option" where
  "nd s p = rd (rb_mem s) p"

definition upd_nd :: "HevRBTree \<Rightarrow> ptr \<Rightarrow> (HevRBTreeNode \<Rightarrow> HevRBTreeNode) \<Rightarrow> HevRBTree option" where
  "upd_nd s p f = map_option (\<lambda>h. s\<lparr>rb_mem := h\<rparr>) (wr (rb_mem s) p f)"

definition get_left :: "HevRBTree \<Rightarrow> ptr \<Rightarrow> ptr option" where
  "get_left s p = map_option r_left (nd s p)"

definition get_right :: "HevRBTree \<Rightarrow> ptr \<Rightarrow> ptr option" where
  "get_right s p = map_option r_right (nd s p)"

definition get_pc :: "HevRBTree \<Rightarrow> ptr \<Rightarrow> 64 word option" where
  "get_pc s p = map_option parent_color (nd s p)"

definition set_left :: "HevRBTree \<Rightarrow> ptr \<Rightarrow> ptr \<Rightarrow> HevRBTree option" where
  "set_left s p q = upd_nd s p (\<lambda>n. n\<lparr>r_left := q\<rparr>)"

definition set_right :: "HevRBTree \<Rightarrow> ptr \<Rightarrow> ptr \<Rightarrow> HevRBTree option" where
  "set_right s p q = upd_nd s p (\<lambda>n. n\<lparr>r_right := q\<rparr>)"

definition set_pc :: "HevRBTree \<Rightarrow> ptr \<Rightarrow> 64 word \<Rightarrow> HevRBTree option" where
  "set_pc s p w = upd_nd s p (\<lambda>n. n\<lparr>parent_color := w\<rparr>)"

lemmas node_access_defs = nd_def upd_nd_def get_left_def get_right_def get_pc_def set_left_def
  set_right_def set_pc_def

section \<open>Colours and parents\<close>

definition hev_rbtree_node_color :: "HevRBTree \<Rightarrow> ptr \<Rightarrow> 64 word option" where
  "hev_rbtree_node_color s node = do { pc \<leftarrow> get_pc s node; Some (pc AND 1) }"

definition hev_rbtree_node_is_red :: "HevRBTree \<Rightarrow> ptr \<Rightarrow> bool option" where
  "hev_rbtree_node_is_red s node = do {
     c \<leftarrow> hev_rbtree_node_color s node; Some (c AND HEV_RBTREE_BLACK = 0) }"

definition hev_rbtree_node_is_black :: "HevRBTree \<Rightarrow> ptr \<Rightarrow> bool option" where
  "hev_rbtree_node_is_black s node = do {
     c \<leftarrow> hev_rbtree_node_color s node; Some (c AND HEV_RBTREE_BLACK \<noteq> 0) }"

definition pc_is_black :: "64 word \<Rightarrow> bool" where
  "pc_is_black pc \<longleftrightarrow> pc AND HEV_RBTREE_BLACK \<noteq> 0"

definition pc_parent :: "64 word \<Rightarrow> ptr" where
  "pc_parent pc = pc AND NOT 3"

definition hev_rbtree_node_red_parent :: "HevRBTree \<Rightarrow> ptr \<Rightarrow> ptr option" where
  "hev_rbtree_node_red_parent s node = get_pc s node"

definition hev_rbtree_node_parent :: "HevRBTree \<Rightarrow> ptr \<Rightarrow> ptr option" where
  "hev_rbtree_node_parent s node = do { pc \<leftarrow> get_pc s node; Some (pc AND NOT 3) }"

definition hev_rbtree_node_empty :: "HevRBTree \<Rightarrow> ptr \<Rightarrow> bool option" where
  "hev_rbtree_node_empty s node = do { pc \<leftarrow> get_pc s node; Some (pc = node) }"

definition hev_rbtree_node_set_black :: "HevRBTree \<Rightarrow> ptr \<Rightarrow> HevRBTree option" where
  "hev_rbtree_node_set_black s node = do {
     pc \<leftarrow> get_pc s node; set_pc s node (pc OR HEV_RBTREE_BLACK) }"

definition hev_rbtree_node_set_parent :: "HevRBTree \<Rightarrow> ptr \<Rightarrow> ptr \<Rightarrow> HevRBTree option" where
  "hev_rbtree_node_set_parent s node parent = do {
     c \<leftarrow> hev_rbtree_node_color s node; set_pc s node (c OR parent) }"

definition hev_rbtree_node_set_parent_color ::
  "HevRBTree \<Rightarrow> ptr \<Rightarrow> ptr \<Rightarrow> 64 word \<Rightarrow> HevRBTree option" where
  "hev_rbtree_node_set_parent_color s node parent color = set_pc s node (parent OR color)"

definition hev_rbtree_change_child ::
  "HevRBTree \<Rightarrow> ptr \<Rightarrow> ptr \<Rightarrow> ptr \<Rightarrow> HevRBTree option" where
  "hev_rbtree_change_child s old new parent =
     (if parent \<noteq> NULL then do {
        l \<leftarrow> get_left s parent;
        if l = old then set_left s parent new else set_right s parent new }
      else Some (s\<lparr>rb_root := new\<rparr>))"

definition hev_rbtree_rotate_set_parents ::
  "HevRBTree \<Rightarrow> ptr \<Rightarrow> ptr \<Rightarrow> 64 word \<Rightarrow> HevRBTree option" where
  "hev_rbtree_rotate_set_parents s old new color = do {
     parent \<leftarrow> hev_rbtree_node_parent s old;
     pc \<leftarrow> get_pc s old;
     s \<leftarrow> set_pc s new pc;
     s \<leftarrow> hev_rbtree_node_set_parent_color s old new color;
     hev_rbtree_change_child s old new parent }"

text \<open>The C idiom \<open>if (tmp) set_parent_color (tmp, ...)\<close> and the tests
  \<open>tmp && is_red (tmp)\<close>, \<open>!tmp || is_black (tmp)\<close>, which do not touch the node when
  the pointer is null.\<close>

definition set_parent_color_opt ::
  "HevRBTree \<Rightarrow> ptr \<Rightarrow> ptr \<Rightarrow> 64 word \<Rightarrow> HevRBTree option" where
  "set_parent_color_opt s tmp parent color =
     (if tmp \<noteq> NULL then hev_rbtree_node_set_parent_color s tmp parent color else Some s)"

definition is_red_opt :: "HevRBTree \<Rightarrow> ptr \<Rightarrow> bool option" where
  "is_red_opt s tmp = (if tmp \<noteq> NULL then hev_rbtree_node_is_red s tmp else Some False)"

definition is_black_opt :: "HevRBTree \<Rightarrow> ptr \<Rightarrow> bool option" where
  "is_black_opt s tmp = (if tmp \<noteq> NULL then hev_rbtree_node_is_black s tmp else Some True)"

section \<open>Linking a node\<close>

text \<open>The third argument of \<open>hev_rbtree_node_link\<close> is the address of a pointer: the
  root of the tree or one of the child fields of a node.\<close>

datatype link = LinkRoot | LinkLeft ptr | LinkRight ptr

fun load_link :: "HevRBTree \<Rightarrow> link \<Rightarrow> ptr option" where
  "load_link s LinkRoot = Some (rb_root s)"
| "load_link s (LinkLeft p) = get_left s p"
| "load_link s (LinkRight p) = get_right s p"

fun store_link :: "HevRBTree \<Rightarrow> link \<Rightarrow> ptr \<Rightarrow> HevRBTree option" where
  "store_link s LinkRoot q = Some (s\<lparr>rb_root := q\<rparr>)"
| "store_link s (LinkLeft p) q = set_left s p q"
| "store_link s (LinkRight p) q = set_right s p q"

definition hev_rbtree_node_link :: "HevRBTree \<Rightarrow> ptr \<Rightarrow> ptr \<Rightarrow> link \<Rightarrow> HevRBTree option" where
  "hev_rbtree_node_link s node parent lnk = do {
     s \<leftarrow> set_pc s node parent;
     s \<leftarrow> set_right s node NULL;
     s \<leftarrow> set_left s node NULL;
     store_link s lnk node }"

section \<open>Insertion\<close>

text \<open>Cases 2 and 3 of the rebalancing, when the parent is a left child.\<close>

definition insert_rotate_left :: "HevRBTree \<Rightarrow> ptr \<Rightarrow> ptr \<Rightarrow> ptr \<Rightarrow> HevRBTree option" where
  "insert_rotate_left s node parent gparent = do {
     tmp \<leftarrow> get_right s parent;
     (s, parent, tmp) \<leftarrow>
       (if node = tmp then do {
          tmp \<leftarrow> get_left s node;
          s \<leftarrow> set_right s parent tmp;
          s \<leftarrow> set_left s node parent;
          s \<leftarrow> set_parent_color_opt s tmp parent HEV_RBTREE_BLACK;
          s \<leftarrow> hev_rbtree_node_set_parent_color s parent node HEV_RBTREE_RED;
          tmp \<leftarrow> get_right s node;
          Some (s, node, tmp) }
        else Some (s, parent, tmp));
     s \<leftarrow> set_left s gparent tmp;
     s \<leftarrow> set_right s parent gparent;
     s \<leftarrow> set_parent_color_opt s tmp gparent HEV_RBTREE_BLACK;
     hev_rbtree_rotate_set_parents s gparent parent HEV_RBTREE_RED }"

text \<open>The mirror image, when the parent is a right child.\<close>

definition insert_rotate_right :: "HevRBTree \<Rightarrow> ptr \<Rightarrow> ptr \<Rightarrow> ptr \<Rightarrow> HevRBTree option" where
  "insert_rotate_right s node parent gparent = do {
     tmp \<leftarrow> get_left s parent;
     (s, parent, tmp) \<leftarrow>
       (if node = tmp then do {
          tmp \<leftarrow> get_right s node;
          s \<leftarrow> set_left s parent tmp;
          s \<leftarrow> set_right s node parent;
          s \<leftarrow> set_parent_color_opt s tmp parent HEV_RBTREE_BLACK;
          s \<leftarrow> hev_rbtree_node_set_parent_color s parent node HEV_RBTREE_RED;
          tmp \<leftarrow> get_left s node;
          Some (s, node, tmp) }
        else Some (s, parent, tmp));
     s \<leftarrow> set_right s gparent tmp;
     s \<leftarrow> set_left s parent gparent;
     s \<leftarrow> set_parent_color_opt s tmp gparent HEV_RBTREE_BLACK;
     hev_rbtree_rotate_set_parents s gparent parent HEV_RBTREE_RED }"

text \<open>Case 1: colour flips; the loop goes on at the grandparent.\<close>

definition insert_flip :: "HevRBTree \<Rightarrow> ptr \<Rightarrow> ptr \<Rightarrow> ptr \<Rightarrow> (HevRBTree \<times> ptr) option" where
  "insert_flip s tmp parent gparent = do {
     s \<leftarrow> hev_rbtree_node_set_parent_color s tmp gparent HEV_RBTREE_BLACK;
     s \<leftarrow> hev_rbtree_node_set_parent_color s parent gparent HEV_RBTREE_BLACK;
     parent \<leftarrow> hev_rbtree_node_parent s gparent;
     s \<leftarrow> hev_rbtree_node_set_parent_color s gparent parent HEV_RBTREE_RED;
     Some (s, parent) }"

partial_function (option) insert_color_loop ::
  "HevRBTree \<Rightarrow> ptr \<Rightarrow> ptr \<Rightarrow> HevRBTree option" where
  "insert_color_loop s node parent =
     (if parent = NULL then hev_rbtree_node_set_parent_color s node NULL HEV_RBTREE_BLACK
      else do {
        black \<leftarrow> hev_rbtree_node_is_black s parent;
        if black then Some s
        else do {
          gparent \<leftarrow> hev_rbtree_node_red_parent s parent;
          tmp \<leftarrow> get_right s gparent;
          if parent \<noteq> tmp then do {
            red \<leftarrow> is_red_opt s tmp;
            if red then do {
              sp \<leftarrow> insert_flip s tmp parent gparent;
              insert_color_loop (fst sp) gparent (snd sp) }
            else insert_rotate_left s node parent gparent }
          else do {
            tmp \<leftarrow> get_left s gparent;
            red \<leftarrow> is_red_opt s tmp;
            if red then do {
              sp \<leftarrow> insert_flip s tmp parent gparent;
              insert_color_loop (fst sp) gparent (snd sp) }
            else insert_rotate_right s node parent gparent } } })"

definition hev_rbtree_insert_color :: "HevRBTree \<Rightarrow> ptr \<Rightarrow> HevRBTree option" where
  "hev_rbtree_insert_color s node = do {
     parent \<leftarrow> hev_rbtree_node_red_parent s node;
     insert_color_loop s node parent }"

section \<open>Replacement\<close>

definition set_parent_opt :: "HevRBTree \<Rightarrow> ptr \<Rightarrow> ptr \<Rightarrow> HevRBTree option" where
  "set_parent_opt s tmp parent =
     (if tmp \<noteq> NULL then hev_rbtree_node_set_parent s tmp parent else Some s)"

definition hev_rbtree_replace :: "HevRBTree \<Rightarrow> ptr \<Rightarrow> ptr \<Rightarrow> HevRBTree option" where
  "hev_rbtree_replace s victim new = do {
     parent \<leftarrow> hev_rbtree_node_parent s victim;
     v \<leftarrow> nd s victim;
     s \<leftarrow> upd_nd s new (\<lambda>_. v);
     l \<leftarrow> get_left s victim;
     s \<leftarrow> set_parent_opt s l new;
     r \<leftarrow> get_right s victim;
     s \<leftarrow> set_parent_opt s r new;
     hev_rbtree_change_child s victim new parent }"

section \<open>Removal\<close>

text \<open>The loop of case 3 of \<open>_hev_rbtree_erase\<close>: down the left children from
  \<open>successor\<close>, whose left child \<open>tmp\<close> is not null.\<close>

partial_function (option) successor_loop ::
  "HevRBTree \<Rightarrow> ptr \<Rightarrow> ptr \<Rightarrow> (ptr \<times> ptr) option" where
  "successor_loop s successor tmp = do {
     tmp' \<leftarrow> get_left s tmp;
     if tmp' \<noteq> NULL then successor_loop s tmp tmp' else Some (successor, tmp) }"

text \<open>A node with two children is replaced by its successor, which is unlinked first: the
  results are the successor's parent, the successor and its right child.\<close>

definition erase_successor :: "HevRBTree \<Rightarrow> ptr \<Rightarrow> (HevRBTree \<times> ptr \<times> ptr \<times> ptr) option" where
  "erase_successor s child = do {
     tmp \<leftarrow> get_left s child;
     if tmp = NULL then do {
       child2 \<leftarrow> get_right s child;
       Some (s, child, child, child2) }
     else do {
       (parent, successor) \<leftarrow> successor_loop s child tmp;
       child2 \<leftarrow> get_right s successor;
       s \<leftarrow> set_left s parent child2;
       s \<leftarrow> set_right s successor child;
       s \<leftarrow> hev_rbtree_node_set_parent s child successor;
       Some (s, parent, successor, child2) } }"

text \<open>Then it takes the place and the colour of the node; the result names the node at which to
  rebalance, or null.\<close>

definition erase_relink ::
  "HevRBTree \<Rightarrow> ptr \<Rightarrow> ptr \<Rightarrow> ptr \<Rightarrow> ptr \<Rightarrow> (HevRBTree \<times> ptr) option" where
  "erase_relink s node parent successor child2 = do {
     tmp \<leftarrow> get_left s node;
     s \<leftarrow> set_left s successor tmp;
     s \<leftarrow> hev_rbtree_node_set_parent s tmp successor;
     pc \<leftarrow> get_pc s node;
     s \<leftarrow> hev_rbtree_change_child s node successor (pc_parent pc);
     (s, rebalance) \<leftarrow>
       (if child2 \<noteq> NULL then do {
          s \<leftarrow> hev_rbtree_node_set_parent_color s child2 parent HEV_RBTREE_BLACK;
          Some (s, NULL) }
        else do {
          black \<leftarrow> hev_rbtree_node_is_black s successor;
          Some (s, if black then parent else NULL) });
     s \<leftarrow> set_pc s successor pc;
     Some (s, rebalance) }"

definition erase_node :: "HevRBTree \<Rightarrow> ptr \<Rightarrow> (HevRBTree \<times> ptr) option" where
  "erase_node s node = do {
     child \<leftarrow> get_right s node;
     tmp \<leftarrow> get_left s node;
     if tmp = NULL then do {
       pc \<leftarrow> get_pc s node;
       s \<leftarrow> hev_rbtree_change_child s node child (pc_parent pc);
       if child \<noteq> NULL then do {
         s \<leftarrow> set_pc s child pc;
         Some (s, NULL) }
       else Some (s, if pc_is_black pc then pc_parent pc else NULL) }
     else if child = NULL then do {
       pc \<leftarrow> get_pc s node;
       s \<leftarrow> set_pc s tmp pc;
       s \<leftarrow> hev_rbtree_change_child s node tmp (pc_parent pc);
       Some (s, NULL) }
     else do {
       (s, parent, successor, child2) \<leftarrow> erase_successor s child;
       erase_relink s node parent successor child2 } }"

text \<open>Case 1 of \<open>_hev_rbtree_erase_color\<close>: a red sibling is rotated up; the result is
  the new sibling. For a node that is a left child, and the mirror image.\<close>

definition erase_case1_left :: "HevRBTree \<Rightarrow> ptr \<Rightarrow> ptr \<Rightarrow> (HevRBTree \<times> ptr) option" where
  "erase_case1_left s parent sibling = do {
     red \<leftarrow> hev_rbtree_node_is_red s sibling;
     if red then do {
       tmp1 \<leftarrow> get_left s sibling;
       s \<leftarrow> set_right s parent tmp1;
       s \<leftarrow> set_left s sibling parent;
       s \<leftarrow> hev_rbtree_node_set_parent_color s tmp1 parent HEV_RBTREE_BLACK;
       s \<leftarrow> hev_rbtree_rotate_set_parents s parent sibling HEV_RBTREE_RED;
       Some (s, tmp1) }
     else Some (s, sibling) }"

definition erase_case1_right :: "HevRBTree \<Rightarrow> ptr \<Rightarrow> ptr \<Rightarrow> (HevRBTree \<times> ptr) option" where
  "erase_case1_right s parent sibling = do {
     red \<leftarrow> hev_rbtree_node_is_red s sibling;
     if red then do {
       tmp1 \<leftarrow> get_right s sibling;
       s \<leftarrow> set_left s parent tmp1;
       s \<leftarrow> set_right s sibling parent;
       s \<leftarrow> hev_rbtree_node_set_parent_color s tmp1 parent HEV_RBTREE_BLACK;
       s \<leftarrow> hev_rbtree_rotate_set_parents s parent sibling HEV_RBTREE_RED;
       Some (s, tmp1) }
     else Some (s, sibling) }"

text \<open>Case 2: the sibling turns red. The loop ends at a red parent, which turns black, and at
  the root; otherwise it goes on at the parent.\<close>

definition erase_case2 :: "HevRBTree \<Rightarrow> ptr \<Rightarrow> ptr \<Rightarrow> (HevRBTree \<times> ptr) option" where
  "erase_case2 s parent sibling = do {
     s \<leftarrow> hev_rbtree_node_set_parent_color s sibling parent HEV_RBTREE_RED;
     red \<leftarrow> hev_rbtree_node_is_red s parent;
     if red then do {
       s \<leftarrow> hev_rbtree_node_set_black s parent;
       Some (s, NULL) }
     else do {
       parent' \<leftarrow> hev_rbtree_node_parent s parent;
       Some (s, parent') } }"

text \<open>Case 3 (rotate at the sibling, whose inner child \<open>tmp2\<close> is red), then case 4
  (rotate at the parent).\<close>

definition erase_case3_left :: "HevRBTree \<Rightarrow> ptr \<Rightarrow> ptr \<Rightarrow> ptr \<Rightarrow> HevRBTree option" where
  "erase_case3_left s parent sibling tmp2 = do {
     tmp1 \<leftarrow> get_right s tmp2;
     s \<leftarrow> set_left s sibling tmp1;
     s \<leftarrow> set_right s tmp2 sibling;
     s \<leftarrow> set_right s parent tmp2;
     set_parent_color_opt s tmp1 sibling HEV_RBTREE_BLACK }"

definition erase_case3_right :: "HevRBTree \<Rightarrow> ptr \<Rightarrow> ptr \<Rightarrow> ptr \<Rightarrow> HevRBTree option" where
  "erase_case3_right s parent sibling tmp2 = do {
     tmp1 \<leftarrow> get_left s tmp2;
     s \<leftarrow> set_right s sibling tmp1;
     s \<leftarrow> set_left s tmp2 sibling;
     s \<leftarrow> set_left s parent tmp2;
     set_parent_color_opt s tmp1 sibling HEV_RBTREE_BLACK }"

definition erase_case4_left :: "HevRBTree \<Rightarrow> ptr \<Rightarrow> ptr \<Rightarrow> ptr \<Rightarrow> HevRBTree option" where
  "erase_case4_left s parent sibling tmp1 = do {
     tmp2 \<leftarrow> get_left s sibling;
     s \<leftarrow> set_right s parent tmp2;
     s \<leftarrow> set_left s sibling parent;
     s \<leftarrow> hev_rbtree_node_set_parent_color s tmp1 sibling HEV_RBTREE_BLACK;
     s \<leftarrow> set_parent_opt s tmp2 parent;
     hev_rbtree_rotate_set_parents s parent sibling HEV_RBTREE_BLACK }"

definition erase_case4_right :: "HevRBTree \<Rightarrow> ptr \<Rightarrow> ptr \<Rightarrow> ptr \<Rightarrow> HevRBTree option" where
  "erase_case4_right s parent sibling tmp1 = do {
     tmp2 \<leftarrow> get_right s sibling;
     s \<leftarrow> set_left s parent tmp2;
     s \<leftarrow> set_right s sibling parent;
     s \<leftarrow> hev_rbtree_node_set_parent_color s tmp1 sibling HEV_RBTREE_BLACK;
     s \<leftarrow> set_parent_opt s tmp2 parent;
     hev_rbtree_rotate_set_parents s parent sibling HEV_RBTREE_BLACK }"

text \<open>Cases 2 to 4, for a black sibling. The result names the parent at which the loop goes on,
  or null when it ends.\<close>

definition erase_black_left :: "HevRBTree \<Rightarrow> ptr \<Rightarrow> ptr \<Rightarrow> (HevRBTree \<times> ptr) option" where
  "erase_black_left s parent sibling = do {
     tmp1 \<leftarrow> get_right s sibling;
     b1 \<leftarrow> is_black_opt s tmp1;
     if b1 then do {
       tmp2 \<leftarrow> get_left s sibling;
       b2 \<leftarrow> is_black_opt s tmp2;
       if b2 then erase_case2 s parent sibling
       else do {
         s \<leftarrow> erase_case3_left s parent sibling tmp2;
         s \<leftarrow> erase_case4_left s parent tmp2 sibling;
         Some (s, NULL) } }
     else do {
       s \<leftarrow> erase_case4_left s parent sibling tmp1;
       Some (s, NULL) } }"

definition erase_black_right :: "HevRBTree \<Rightarrow> ptr \<Rightarrow> ptr \<Rightarrow> (HevRBTree \<times> ptr) option" where
  "erase_black_right s parent sibling = do {
     tmp1 \<leftarrow> get_left s sibling;
     b1 \<leftarrow> is_black_opt s tmp1;
     if b1 then do {
       tmp2 \<leftarrow> get_right s sibling;
       b2 \<leftarrow> is_black_opt s tmp2;
       if b2 then erase_case2 s parent sibling
       else do {
         s \<leftarrow> erase_case3_right s parent sibling tmp2;
         s \<leftarrow> erase_case4_right s parent tmp2 sibling;
         Some (s, NULL) } }
     else do {
       s \<leftarrow> erase_case4_right s parent sibling tmp1;
       Some (s, NULL) } }"

text \<open>The loop. Its two branches tell whether \<open>node\<close> is the left or the right child of
  \<open>parent\<close>; when it goes on, the parent is the next node.\<close>

partial_function (option) erase_color_loop ::
  "HevRBTree \<Rightarrow> ptr \<Rightarrow> ptr \<Rightarrow> HevRBTree option" where
  "erase_color_loop s node parent = do {
     sibling \<leftarrow> get_right s parent;
     if node \<noteq> sibling then do {
       sv \<leftarrow> erase_case1_left s parent sibling;
       sp \<leftarrow> erase_black_left (fst sv) parent (snd sv);
       if snd sp \<noteq> NULL then erase_color_loop (fst sp) parent (snd sp) else Some (fst sp) }
     else do {
       sibling \<leftarrow> get_left s parent;
       sv \<leftarrow> erase_case1_right s parent sibling;
       sp \<leftarrow> erase_black_right (fst sv) parent (snd sv);
       if snd sp \<noteq> NULL then erase_color_loop (fst sp) parent (snd sp) else Some (fst sp) } }"

definition hev_rbtree_erase :: "HevRBTree \<Rightarrow> ptr \<Rightarrow> HevRBTree option" where
  "hev_rbtree_erase s node = do {
     (s, rebalance) \<leftarrow> erase_node s node;
     if rebalance \<noteq> NULL then erase_color_loop s NULL rebalance else Some s }"

section \<open>Traversal\<close>

partial_function (option) leftmost :: "HevRBTree \<Rightarrow> ptr \<Rightarrow> ptr option" where
  "leftmost s n = do { l \<leftarrow> get_left s n; if l \<noteq> NULL then leftmost s l else Some n }"

partial_function (option) rightmost :: "HevRBTree \<Rightarrow> ptr \<Rightarrow> ptr option" where
  "rightmost s n = do { r \<leftarrow> get_right s n; if r \<noteq> NULL then rightmost s r else Some n }"

definition hev_rbtree_first :: "HevRBTree \<Rightarrow> ptr option" where
  "hev_rbtree_first s = (if rb_root s = NULL then Some NULL else leftmost s (rb_root s))"

definition hev_rbtree_last :: "HevRBTree \<Rightarrow> ptr option" where
  "hev_rbtree_last s = (if rb_root s = NULL then Some NULL else rightmost s (rb_root s))"

partial_function (option) climb_right :: "HevRBTree \<Rightarrow> ptr \<Rightarrow> ptr option" where
  "climb_right s node = do {
     parent \<leftarrow> hev_rbtree_node_parent s node;
     if parent = NULL then Some parent
     else do {
       r \<leftarrow> get_right s parent;
       if node = r then climb_right s parent else Some parent } }"

partial_function (option) climb_left :: "HevRBTree \<Rightarrow> ptr \<Rightarrow> ptr option" where
  "climb_left s node = do {
     parent \<leftarrow> hev_rbtree_node_parent s node;
     if parent = NULL then Some parent
     else do {
       l \<leftarrow> get_left s parent;
       if node = l then climb_left s parent else Some parent } }"

definition hev_rbtree_node_next :: "HevRBTree \<Rightarrow> ptr \<Rightarrow> ptr option" where
  "hev_rbtree_node_next s node = do {
     e \<leftarrow> hev_rbtree_node_empty s node;
     if e then Some NULL
     else do {
       r \<leftarrow> get_right s node;
       if r \<noteq> NULL then leftmost s r else climb_right s node } }"

definition hev_rbtree_node_prev :: "HevRBTree \<Rightarrow> ptr \<Rightarrow> ptr option" where
  "hev_rbtree_node_prev s node = do {
     e \<leftarrow> hev_rbtree_node_empty s node;
     if e then Some NULL
     else do {
       l \<leftarrow> get_left s node;
       if l \<noteq> NULL then rightmost s l else climb_left s node } }"

end
