(* ===== verification/RBTreeShape.thy ===== *)
theory RBTreeShape
  imports RBTree
begin

text \<open>
  The shape of the memory of a red-black tree: a tree of node addresses and colours
  (\<^verbatim>\<open>rbt\<close>), the position of a subtree as the list of its ancestors with their other
  subtrees, innermost first (\<^verbatim>\<open>frame list\<close>), and the predicates that say that the
  memory holds a subtree or the surroundings of one. The loops of the C code walk up the
  ancestors, so they are proved correct by induction over that list.
\<close>

section \<open>Trees of addresses\<close>

datatype color = Red | Black

datatype rbt = Lf | Nd color rbt ptr rbt

fun ad :: "rbt \<Rightarrow> ptr" where
  "ad Lf = NULL"
| "ad (Nd c l p r) = p"

fun colr :: "rbt \<Rightarrow> color" where
  "colr Lf = Black"
| "colr (Nd c l p r) = c"

fun paint :: "color \<Rightarrow> rbt \<Rightarrow> rbt" where
  "paint c Lf = Lf"
| "paint c (Nd c' l p r) = Nd c l p r"

fun io :: "rbt \<Rightarrow> ptr list" where
  "io Lf = []"
| "io (Nd c l p r) = io l @ p # io r"

fun invc :: "rbt \<Rightarrow> bool" where
  "invc Lf = True"
| "invc (Nd c l p r) = ((c = Red \<longrightarrow> colr l = Black \<and> colr r = Black) \<and> invc l \<and> invc r)"

fun bh :: "rbt \<Rightarrow> nat" where
  "bh Lf = 0"
| "bh (Nd c l p r) = bh l + (if c = Black then 1 else 0)"

fun invh :: "rbt \<Rightarrow> bool" where
  "invh Lf = True"
| "invh (Nd c l p r) = (bh l = bh r \<and> invh l \<and> invh r)"

definition rb_ok :: "rbt \<Rightarrow> bool" where
  "rb_ok t \<longleftrightarrow> invc t \<and> invh t \<and> colr t = Black"

lemma not_Black [simp]: "c \<noteq> Black \<longleftrightarrow> c = Red"
  by (cases c) auto

lemma not_Red [simp]: "c \<noteq> Red \<longleftrightarrow> c = Black"
  by (cases c) auto

lemma ad_paint [simp]: "ad (paint c t) = ad t"
  and io_paint [simp]: "io (paint c t) = io t"
  and colr_paint: "t \<noteq> Lf \<Longrightarrow> colr (paint c t) = c"
  and invh_paint [simp]: "invh (paint c t) = invh t"
  and paint_Lf [simp]: "paint c t = Lf \<longleftrightarrow> t = Lf"
  and colr_paint_Black [simp]: "colr (paint Black t) = Black"
  by (cases t; simp)+

lemma paint_same [simp]: "colr t = c \<Longrightarrow> paint c t = t"
  by (cases t) auto

lemma invc_paint_Black: "invc t \<Longrightarrow> invc (paint Black t)"
  by (cases t) auto

lemma bh_paint_Black: "bh (paint Black t) = (if colr t = Red then Suc (bh t) else bh t)"
  by (cases t) auto

lemma colr_Red_Nd: "colr t = Red \<Longrightarrow> \<exists>l p r. t = Nd Red l p r"
  by (cases t) auto

section \<open>Surroundings of a subtree\<close>

datatype frame = FL color ptr rbt | FR color rbt ptr

fun fcol :: "frame \<Rightarrow> color" where
  "fcol (FL c p r) = c"
| "fcol (FR c l p) = c"

fun fptr :: "frame \<Rightarrow> ptr" where
  "fptr (FL c p r) = p"
| "fptr (FR c l p) = p"

fun plug :: "frame list \<Rightarrow> rbt \<Rightarrow> rbt" where
  "plug [] t = t"
| "plug (FL c p r # k) t = plug k (Nd c t p r)"
| "plug (FR c l p # k) t = plug k (Nd c l p t)"

fun cpar :: "frame list \<Rightarrow> ptr" where
  "cpar [] = NULL"
| "cpar (f # k) = fptr f"

fun iol :: "frame list \<Rightarrow> ptr list" where
  "iol [] = []"
| "iol (FL c p r # k) = iol k"
| "iol (FR c l p # k) = iol k @ io l @ [p]"

fun ior :: "frame list \<Rightarrow> ptr list" where
  "ior [] = []"
| "ior (FL c p r # k) = p # io r @ ior k"
| "ior (FR c l p # k) = ior k"

fun cinvc :: "frame list \<Rightarrow> bool" where
  "cinvc [] = True"
| "cinvc (FL c p r # k) = (invc r \<and> cinvc k \<and>
     (c = Red \<longrightarrow> colr r = Black \<and> k \<noteq> [] \<and> fcol (hd k) = Black))"
| "cinvc (FR c l p # k) = (invc l \<and> cinvc k \<and>
     (c = Red \<longrightarrow> colr l = Black \<and> k \<noteq> [] \<and> fcol (hd k) = Black))"

fun cinvh :: "frame list \<Rightarrow> nat \<Rightarrow> bool" where
  "cinvh [] n = True"
| "cinvh (FL c p r # k) n = (invh r \<and> bh r = n \<and> cinvh k (if c = Black then Suc n else n))"
| "cinvh (FR c l p # k) n = (invh l \<and> bh l = n \<and> cinvh k (if c = Black then Suc n else n))"

lemma io_plug: "io (plug k t) = iol k @ io t @ ior k"
  by (induction k t rule: plug.induct) auto

lemma plug_append: "plug (k @ k') t = plug k' (plug k t)"
  by (induction k t rule: plug.induct) auto

lemma invh_plug: "cinvh k (bh t) \<Longrightarrow> invh t \<Longrightarrow> invh (plug k t)"
proof (induction k t rule: plug.induct)
  case (2 c p r k t)
  have "cinvh k (bh (Nd c t p r))" "invh (Nd c t p r)" using "2.prems" by (cases c; auto)+
  then show ?case using "2.IH" by simp
next
  case (3 c l p k t)
  have "cinvh k (bh (Nd c l p t))" "invh (Nd c l p t)" using "3.prems" by (cases c; auto)+
  then show ?case using "3.IH" by simp
qed simp

lemma invh_plugD: "invh (plug k t) \<Longrightarrow> invh t \<and> cinvh k (bh t)"
proof (induction k t rule: plug.induct)
  case (2 c p r k t)
  from "2.IH" "2.prems" show ?case by (cases c) auto
next
  case (3 c l p k t)
  from "3.IH" "3.prems" show ?case by (cases c) auto
qed simp

lemma invc_plug:
  "cinvc k \<Longrightarrow> invc t \<Longrightarrow> (colr t = Red \<longrightarrow> k \<noteq> [] \<and> fcol (hd k) = Black) \<Longrightarrow>
     invc (plug k t) \<and> colr (plug k t) = Black"
proof (induction k t rule: plug.induct)
  case (2 c p r k t)
  show ?case using "2.prems" by (simp, intro "2.IH") (auto split: if_splits)
next
  case (3 c l p k t)
  show ?case using "3.prems" by (simp, intro "3.IH") (auto split: if_splits)
qed (cases "colr t"; simp)

lemma invc_plugD:
  "invc (plug k t) \<Longrightarrow> colr (plug k t) = Black \<Longrightarrow>
     invc t \<and> cinvc k \<and> (colr t = Red \<longrightarrow> k \<noteq> [] \<and> fcol (hd k) = Black)"
proof (induction k t rule: plug.induct)
  case (2 c p r k t)
  from "2.IH" "2.prems" show ?case by (cases c) simp_all
next
  case (3 c l p k t)
  from "3.IH" "3.prems" show ?case by (cases c) simp_all
qed simp

lemma rb_ok_plug:
  "cinvc k \<Longrightarrow> cinvh k (bh t) \<Longrightarrow> invc t \<Longrightarrow> invh t \<Longrightarrow>
     (colr t = Red \<longrightarrow> k \<noteq> [] \<and> fcol (hd k) = Black) \<Longrightarrow> rb_ok (plug k t)"
  using invc_plug invh_plug by (auto simp: rb_ok_def)

lemma rb_ok_plugD:
  assumes "rb_ok (plug k t)"
  shows "cinvc k" "cinvh k (bh t)" "invc t" "invh t"
    "colr t = Red \<longrightarrow> k \<noteq> [] \<and> fcol (hd k) = Black"
  using assms invc_plugD [of k t] invh_plugD [of k t] by (auto simp: rb_ok_def)

text \<open>Every node of a tree is the root of a subtree at some position.\<close>

lemma in_io_plug: "p \<in> set (io t) \<Longrightarrow> \<exists>k c l r. t = plug k (Nd c l p r)"
proof (induction t)
  case (Nd c l q r)
  then consider "p = q" | "p \<in> set (io l)" | "p \<in> set (io r)" by auto
  then show ?case
  proof cases
    case 1
    then show ?thesis by (metis plug.simps(1))
  next
    case 2
    with Nd.IH(1) obtain k c' l' r' where "l = plug k (Nd c' l' p r')" by blast
    then have "Nd c l q r = plug (k @ [FL c q r]) (Nd c' l' p r')" by (simp add: plug_append)
    then show ?thesis by blast
  next
    case 3
    with Nd.IH(2) obtain k c' l' r' where "r = plug k (Nd c' l' p r')" by blast
    then have "Nd c l q r = plug (k @ [FR c l q]) (Nd c' l' p r')" by (simp add: plug_append)
    then show ?thesis by blast
  qed
qed simp

section \<open>The memory of a tree\<close>

definition aligned :: "ptr \<Rightarrow> bool" where
  "aligned p \<longleftrightarrow> p AND 3 = 0"

fun col :: "color \<Rightarrow> 64 word" where
  "col Red = 0"
| "col Black = 1"

fun tr :: "HevRBTreeNode heap \<Rightarrow> ptr \<Rightarrow> rbt \<Rightarrow> bool" where
  "tr h par Lf = True"
| "tr h par (Nd c l p r) =
     (p \<noteq> NULL \<and> aligned p \<and>
      h p = Some \<lparr>parent_color = par OR col c, r_right = ad r, r_left = ad l\<rparr> \<and>
      tr h p l \<and> tr h p r)"

fun ctr :: "HevRBTree \<Rightarrow> frame list \<Rightarrow> ptr \<Rightarrow> bool" where
  "ctr s [] x = (rb_root s = x)"
| "ctr s (FL c p r # k) x =
     (p \<noteq> NULL \<and> aligned p \<and>
      rb_mem s p = Some \<lparr>parent_color = cpar k OR col c, r_right = ad r, r_left = x\<rparr> \<and>
      tr (rb_mem s) p r \<and> ctr s k p)"
| "ctr s (FR c l p # k) x =
     (p \<noteq> NULL \<and> aligned p \<and>
      rb_mem s p = Some \<lparr>parent_color = cpar k OR col c, r_right = x, r_left = ad l\<rparr> \<and>
      tr (rb_mem s) p l \<and> ctr s k p)"

definition rb_rep :: "HevRBTree \<Rightarrow> rbt \<Rightarrow> bool" where
  "rb_rep s t \<longleftrightarrow> distinct (io t) \<and> tr (rb_mem s) NULL t \<and> rb_root s = ad t"

lemma aligned_NULL [simp]: "aligned NULL"
  by (simp add: aligned_def)

lemma aligned_pc:
  assumes "aligned p"
  shows "(p OR col c) AND NOT 3 = p" and "(p OR col c) AND 1 = col c"
proof -
  have a: "p AND 3 = 0" using assms by (simp add: aligned_def)
  have "p = (p AND 3) OR (p AND NOT 3)"
    by (simp add: bit_eq_iff bit_simps) blast
  then have p: "p AND NOT 3 = p" using a by simp
  have c: "col c AND NOT 3 = 0" by (cases c) simp_all
  show "(p OR col c) AND NOT 3 = p"
    by (simp only: bit.conj_disj_distrib2 p c or.right_neutral)
  have "p AND 1 = (p AND 3) AND 1" by (simp add: and.assoc)
  then have p1: "p AND 1 = 0" using a by simp
  have c1: "col c AND 1 = col c" by (cases c) simp_all
  show "(p OR col c) AND 1 = col c"
    by (simp only: bit.conj_disj_distrib2 p1 c1 or.left_neutral)
qed

lemma col_eq_0 [simp]: "col c = 0 \<longleftrightarrow> c = Red"
  by (cases c) simp_all

lemma col_AND_1 [simp]: "col c AND 1 = 0 \<longleftrightarrow> c = Red"
  by (cases c) simp_all

lemma tr_frame: "(\<And>x. x \<in> set (io t) \<Longrightarrow> h' x = h x) \<Longrightarrow> tr h' par t = tr h par t"
  by (induction t arbitrary: par) auto

lemma tr_upd [simp]: "x \<notin> set (io t) \<Longrightarrow> tr (h(x := v)) par t = tr h par t"
  by (rule tr_frame) auto

lemma tr_ad: "tr h par t \<Longrightarrow> ad t = NULL \<longleftrightarrow> t = Lf"
  by (cases t) auto

lemma tr_mem: "tr h par t \<Longrightarrow> x \<in> set (io t) \<Longrightarrow> x \<noteq> NULL \<and> aligned x \<and> (\<exists>n. h x = Some n)"
  by (induction t arbitrary: par) auto

lemma ad_in: "t \<noteq> Lf \<Longrightarrow> ad t \<in> set (io t)"
  by (cases t) auto

lemma cpar_cases: "cpar k = NULL \<or> cpar k \<in> set (iol k @ ior k)"
  by (cases k rule: cpar.cases; cases "hd k") auto

lemma ctr_frame:
  "rb_root s' = rb_root s \<Longrightarrow> (\<And>x. x \<in> set (iol k @ ior k) \<Longrightarrow> rb_mem s' x = rb_mem s x) \<Longrightarrow>
     ctr s' k a = ctr s k a"
proof (induction s k a rule: ctr.induct)
  case (2 s c p r k x)
  have "tr (rb_mem s') p r = tr (rb_mem s) p r" by (rule tr_frame) (simp add: "2.prems")
  moreover have "ctr s' k p = ctr s k p" using "2.prems" by (intro "2.IH") auto
  ultimately show ?case using "2.prems" by simp
next
  case (3 s c l p k x)
  have "tr (rb_mem s') p l = tr (rb_mem s) p l" by (rule tr_frame) (simp add: "3.prems")
  moreover have "ctr s' k p = ctr s k p" using "3.prems" by (intro "3.IH") auto
  ultimately show ?case using "3.prems" by simp
qed simp

lemma ctr_cpar: "ctr s k x \<Longrightarrow> aligned (cpar k) \<and> (cpar k = NULL \<longleftrightarrow> k = [])"
  by (cases k rule: cpar.cases; cases "hd k") auto

lemma ctr_mem:
  "ctr s k a \<Longrightarrow> x \<in> set (iol k @ ior k) \<Longrightarrow>
     x \<noteq> NULL \<and> aligned x \<and> (\<exists>n. rb_mem s x = Some n)"
  by (induction s k a rule: ctr.induct) (auto dest: tr_mem)

lemma rep_plug:
  "tr (rb_mem s) NULL (plug k t) \<and> rb_root s = ad (plug k t) \<longleftrightarrow>
     ctr s k (ad t) \<and> tr (rb_mem s) (cpar k) t"
  by (induction k t rule: plug.induct) auto

lemma rb_rep_plug:
  "rb_rep s (plug k t) \<longleftrightarrow>
     distinct (iol k @ io t @ ior k) \<and> ctr s k (ad t) \<and> tr (rb_mem s) (cpar k) t"
  using rep_plug [of s k t] by (auto simp: rb_rep_def io_plug)

lemma rb_rep_frame:
  "rb_root s' = rb_root s \<Longrightarrow> (\<And>x. x \<in> set (io t) \<Longrightarrow> rb_mem s' x = rb_mem s x) \<Longrightarrow> rb_rep s' t = rb_rep s t"
  using tr_frame [of t "rb_mem s'" "rb_mem s" NULL] by (simp add: rb_rep_def)

lemma rb_rep_upd [simp]: "x \<notin> set (io t) \<Longrightarrow> rb_rep (s\<lparr>rb_mem := (rb_mem s)(x := v)\<rparr>) t = rb_rep s t"
  by (rule rb_rep_frame) auto

lemma rb_rep_mem: "rb_rep s t \<Longrightarrow> x \<in> set (io t) \<Longrightarrow> x \<noteq> NULL \<and> aligned x \<and> (\<exists>n. rb_mem s x = Some n)"
  by (auto simp: rb_rep_def dest: tr_mem)

section \<open>Symbolic execution\<close>

text \<open>Disjointness of the address sets of subtrees, as a normal form of the simplifier.\<close>

lemmas disj_sets = Int_Un_distrib Int_Un_distrib2 Int_commute

named_theorems rb_exec \<open>node accesses at a node whose contents are known\<close>

lemma node_access [rb_exec]:
  assumes "p \<noteq> NULL" "rb_mem s p = Some n"
  shows "nd s p = Some n" "get_left s p = Some (r_left n)" "get_right s p = Some (r_right n)"
    "get_pc s p = Some (parent_color n)"
    "upd_nd s p f = Some (s\<lparr>rb_mem := (rb_mem s)(p \<mapsto> f n)\<rparr>)"
    "set_left s p q = Some (s\<lparr>rb_mem := (rb_mem s)(p \<mapsto> n\<lparr>r_left := q\<rparr>)\<rparr>)"
    "set_right s p q = Some (s\<lparr>rb_mem := (rb_mem s)(p \<mapsto> n\<lparr>r_right := q\<rparr>)\<rparr>)"
    "set_pc s p w = Some (s\<lparr>rb_mem := (rb_mem s)(p \<mapsto> n\<lparr>parent_color := w\<rparr>)\<rparr>)"
    "hev_rbtree_node_set_parent_color s p par w =
       Some (s\<lparr>rb_mem := (rb_mem s)(p \<mapsto> n\<lparr>parent_color := par OR w\<rparr>)\<rparr>)"
    "hev_rbtree_node_red_parent s p = Some (parent_color n)"
  using assms by (simp_all add: node_access_defs heap_simps hev_rbtree_node_set_parent_color_def
      hev_rbtree_node_red_parent_def)

lemma node_colour [rb_exec]:
  assumes "p \<noteq> NULL" "rb_mem s p = Some n" "parent_color n = par OR col c" "aligned par"
  shows "hev_rbtree_node_is_red s p = Some (c = Red)" "hev_rbtree_node_is_black s p = Some (c = Black)"
    "hev_rbtree_node_parent s p = Some par"
    "hev_rbtree_node_set_parent s p q =
       Some (s\<lparr>rb_mem := (rb_mem s)(p \<mapsto> n\<lparr>parent_color := q OR col c\<rparr>)\<rparr>)"
  using assms aligned_pc [OF assms(4), of c]
  by (simp_all add: hev_rbtree_node_is_red_def hev_rbtree_node_is_black_def
      hev_rbtree_node_color_def hev_rbtree_node_parent_def hev_rbtree_node_set_parent_def
      node_access or.commute)

lemma pc_bits [rb_exec]:
  assumes "aligned par"
  shows "pc_parent (par OR col c) = par" "pc_is_black (par OR col c) \<longleftrightarrow> c = Black"
  using aligned_pc [OF assms, of c] by (simp_all add: pc_parent_def pc_is_black_def)

lemma pc_bits_num [rb_exec]:
  assumes "aligned par"
  shows "pc_parent (par OR 1) = par" "pc_is_black (par OR 1)" "pc_parent par = par" "\<not> pc_is_black par"
  using pc_bits [OF assms, of Black] pc_bits [OF assms, of Red] by simp_all

lemma col_eqs: "HEV_RBTREE_RED = col Red" "HEV_RBTREE_BLACK = col Black"
  by simp_all

definition same_off :: "ptr set \<Rightarrow> HevRBTree \<Rightarrow> HevRBTree \<Rightarrow> bool" where
  "same_off X s s' \<longleftrightarrow> dom (rb_mem s') = dom (rb_mem s) \<and> (\<forall>x. x \<notin> X \<longrightarrow> rb_mem s' x = rb_mem s x)"

lemma same_offD: "same_off X s s' \<Longrightarrow> x \<notin> X \<Longrightarrow> rb_mem s' x = rb_mem s x"
  by (simp add: same_off_def)

lemma same_off_trans: "same_off X s s' \<Longrightarrow> same_off Y s' s'' \<Longrightarrow> X \<union> Y \<subseteq> Z \<Longrightarrow> same_off Z s s''"
  unfolding same_off_def by (metis UnCI subsetD)

lemma same_off_tr: "same_off X s s' \<Longrightarrow> set (io t) \<inter> X = {} \<Longrightarrow> tr (rb_mem s') q t = tr (rb_mem s) q t"
  by (rule tr_frame) (auto simp: same_off_def)

lemma same_off_upd: "rb_mem s p = Some n \<Longrightarrow> same_off {p} s (s\<lparr>rb_mem := (rb_mem s)(p \<mapsto> m)\<rparr>)"
  by (auto simp: same_off_def)

lemma same_off_wr:
  "same_off Y (s\<lparr>rb_mem := h\<rparr>) s' \<Longrightarrow> dom h = dom (rb_mem s) \<Longrightarrow> (\<And>x. x \<notin> X \<Longrightarrow> h x = rb_mem s x) \<Longrightarrow>
     same_off (X \<union> Y) s s'"
  by (simp add: same_off_def)

text \<open>Replacing a child in the surroundings of a subtree.\<close>

lemma change_child:
  assumes "ctr s k old" "distinct (iol k @ ior k)" "old \<noteq> NULL" "old \<notin> set (iol k @ ior k)"
  shows "\<exists>s'. hev_rbtree_change_child s old new (cpar k) = Some s' \<and> ctr s' k new \<and>
    same_off (set (iol k @ ior k)) s s'"
proof (cases k)
  case Nil
  then show ?thesis by (simp add: hev_rbtree_change_child_def same_off_def)
next
  case (Cons f k')
  show ?thesis
  proof (cases f)
    case (FL c p r)
    let ?s = "s\<lparr>rb_mem := (rb_mem s)(p \<mapsto> \<lparr>parent_color = cpar k' OR col c, r_right = ad r, r_left = new\<rparr>)\<rparr>"
    have "ctr ?s k' p = ctr s k' p" by (rule ctr_frame) (use assms(2) Cons FL in auto)
    then show ?thesis using assms Cons FL
      by (auto simp: hev_rbtree_change_child_def rb_exec same_off_def)
  next
    case (FR c l p)
    let ?s = "s\<lparr>rb_mem := (rb_mem s)(p \<mapsto> \<lparr>parent_color = cpar k' OR col c, r_right = new, r_left = ad l\<rparr>)\<rparr>"
    have "ctr ?s k' p = ctr s k' p" by (rule ctr_frame) (use assms(2) Cons FR in auto)
    moreover have "ad l \<noteq> old" using assms(3,4) Cons FR ad_in [of l] by (cases "l = Lf") auto
    ultimately show ?thesis using assms Cons FR
      by (auto simp: hev_rbtree_change_child_def rb_exec same_off_def)
  qed
qed

text \<open>The common end of every rotation: \<open>new\<close> takes the place of \<open>old\<close>.\<close>

lemma rotate_set_parents:
  assumes c: "ctr s k old" "distinct (iol k @ ior k)"
    and old: "old \<noteq> NULL" "old \<notin> set (iol k @ ior k)" "rb_mem s old = Some no"
      "parent_color no = cpar k OR col cl"
    and new: "new \<noteq> NULL" "new \<notin> set (iol k @ ior k)" "rb_mem s new = Some nn" "new \<noteq> old"
  shows "\<exists>s'. hev_rbtree_rotate_set_parents s old new w = Some s' \<and> ctr s' k new \<and>
    rb_mem s' old = Some (no\<lparr>parent_color := new OR w\<rparr>) \<and>
    rb_mem s' new = Some (nn\<lparr>parent_color := cpar k OR col cl\<rparr>) \<and>
    same_off (set (iol k @ ior k) \<union> {old, new}) s s'"
proof -
  let ?s2 = "s\<lparr>rb_mem := (rb_mem s)(new \<mapsto> nn\<lparr>parent_color := cpar k OR col cl\<rparr>,
    old \<mapsto> no\<lparr>parent_color := new OR w\<rparr>)\<rparr>"
  have al: "aligned (cpar k)" using ctr_cpar [OF c(1)] by simp
  have "ctr ?s2 k old = ctr s k old" by (rule ctr_frame) (use old new in auto)
  then obtain s' where s': "hev_rbtree_change_child ?s2 old new (cpar k) = Some s'" "ctr s' k new"
      "same_off (set (iol k @ ior k)) ?s2 s'"
    using change_child [of ?s2 k old new] c old by auto
  have "hev_rbtree_rotate_set_parents s old new w = Some s'"
    using s'(1) old new al by (simp add: hev_rbtree_rotate_set_parents_def rb_exec)
  then show ?thesis using s' old new by (auto simp: same_off_def)
qed

text \<open>Giving a subtree, which may be empty, a new parent.\<close>

lemma set_parent_color_opt_tr:
  assumes "tr (rb_mem s) q t" "distinct (io t)"
  shows "\<exists>s'. set_parent_color_opt s (ad t) par (col c) = Some s' \<and> rb_root s' = rb_root s \<and>
    tr (rb_mem s') par (paint c t) \<and> same_off (set (io t)) s s'"
  using assms by (cases t) (auto simp: set_parent_color_opt_def rb_exec same_off_def)

lemma set_parent_opt_tr:
  assumes "tr (rb_mem s) q t" "aligned q" "distinct (io t)"
  shows "\<exists>s'. set_parent_opt s (ad t) par = Some s' \<and> rb_root s' = rb_root s \<and>
    tr (rb_mem s') par t \<and> same_off (set (io t)) s s'"
  using assms by (cases t) (auto simp: set_parent_opt_def rb_exec same_off_def)

lemma is_red_opt_tr:
  assumes "tr (rb_mem s) q t" "aligned q"
  shows "is_red_opt s (ad t) = Some (colr t = Red)" "is_black_opt s (ad t) = Some (colr t = Black)"
  using assms by (cases t; simp add: is_red_opt_def is_black_opt_def rb_exec)+

lemma same_off_ctr:
  "same_off X s s' \<Longrightarrow> rb_root s' = rb_root s \<Longrightarrow> set (iol k @ ior k) \<inter> X = {} \<Longrightarrow>
     ctr s' k a = ctr s k a"
  by (rule ctr_frame) (auto simp: same_off_def)

end
