(* ===== verification/RBTreeWalk.thy ===== *)
theory RBTreeWalk
  imports RBTreeShape
begin

text \<open>
  Correctness of the traversal operations of \<open>hev-rbtree.c\<close> (first, last, next, prev) and of
  \<open>hev_rbtree_replace\<close>, against the in-order sequence of the tree.
\<close>

section \<open>Down one side\<close>

lemma leftmost_tr: "tr (rb_mem s) q t \<Longrightarrow> t \<noteq> Lf \<Longrightarrow> leftmost s (ad t) = Some (hd (io t))"
proof (induction t arbitrary: q)
  case (Nd c l p r)
  then have m: "p \<noteq> NULL" "rb_mem s p = Some \<lparr>parent_color = q OR col c, r_right = ad r, r_left = ad l\<rparr>" by auto
  show ?case
  proof (cases "l = Lf")
    case False
    moreover have "io l \<noteq> []" using False by (cases l) auto
    moreover have "ad l \<noteq> NULL" "leftmost s (ad l) = Some (hd (io l))" using Nd False by (auto simp: tr_ad)
    ultimately show ?thesis using m by (simp, subst leftmost.simps) (simp add: rb_exec)
  qed (use m in \<open>simp, subst leftmost.simps, simp add: rb_exec\<close>)
qed simp

lemma rightmost_tr: "tr (rb_mem s) q t \<Longrightarrow> t \<noteq> Lf \<Longrightarrow> rightmost s (ad t) = Some (last (io t))"
proof (induction t arbitrary: q)
  case (Nd c l p r)
  then have m: "p \<noteq> NULL" "rb_mem s p = Some \<lparr>parent_color = q OR col c, r_right = ad r, r_left = ad l\<rparr>" by auto
  show ?case
  proof (cases "r = Lf")
    case False
    moreover have "io r \<noteq> []" using False by (cases r) auto
    moreover have "ad r \<noteq> NULL" "rightmost s (ad r) = Some (last (io r))" using Nd False by (auto simp: tr_ad)
    ultimately show ?thesis using m by (simp, subst rightmost.simps) (simp add: rb_exec)
  qed (use m in \<open>simp, subst rightmost.simps, simp add: rb_exec\<close>)
qed simp

section \<open>Up to the next ancestor\<close>

definition first_of :: "ptr list \<Rightarrow> ptr" where
  "first_of xs = (if xs = [] then NULL else hd xs)"

definition last_of :: "ptr list \<Rightarrow> ptr" where
  "last_of xs = (if xs = [] then NULL else last xs)"

lemma parent_at:
  assumes "rb_rep s (plug k t)" "t \<noteq> Lf"
  shows "hev_rbtree_node_parent s (ad t) = Some (cpar k)"
proof -
  have "aligned (cpar k)" using assms(1) ctr_cpar by (auto simp: rb_rep_plug)
  then show ?thesis using assms by (cases t) (auto simp: rb_rep_plug intro: node_colour(3))
qed

lemma climb_right_plug:
  "rb_rep s (plug k t) \<Longrightarrow> t \<noteq> Lf \<Longrightarrow> climb_right s (ad t) = Some (first_of (ior k))"
proof (induction k t rule: plug.induct)
  case (1 t)
  then show ?case using parent_at [of s "[]" t] by (subst climb_right.simps) (simp add: first_of_def)
next
  case (2 c p r k t)
  have "ad r \<noteq> ad t" using "2.prems" ad_in [of t] ad_in [of r] tr_ad [of "rb_mem s" p t]
    by (cases "r = Lf") (auto simp: rb_rep_plug)
  then show ?case using "2.prems" parent_at [OF "2.prems"]
    by (subst climb_right.simps) (auto simp: rb_rep_plug rb_exec first_of_def)
next
  case (3 c l p k t)
  have "climb_right s (ad t) = climb_right s p" using "3.prems" parent_at [OF "3.prems"]
    by (subst climb_right.simps) (auto simp: rb_rep_plug rb_exec)
  then show ?case using "3.IH" "3.prems" by simp
qed

lemma climb_left_plug:
  "rb_rep s (plug k t) \<Longrightarrow> t \<noteq> Lf \<Longrightarrow> climb_left s (ad t) = Some (last_of (iol k))"
proof (induction k t rule: plug.induct)
  case (1 t)
  then show ?case using parent_at [of s "[]" t] by (subst climb_left.simps) (simp add: last_of_def)
next
  case (2 c p r k t)
  have "climb_left s (ad t) = climb_left s p" using "2.prems" parent_at [OF "2.prems"]
    by (subst climb_left.simps) (auto simp: rb_rep_plug rb_exec)
  then show ?case using "2.IH" "2.prems" by simp
next
  case (3 c l p k t)
  have "ad l \<noteq> ad t" using "3.prems" ad_in [of t] ad_in [of l] tr_ad [of "rb_mem s" p t]
    by (cases "l = Lf") (auto simp: rb_rep_plug)
  then show ?case using "3.prems" parent_at [OF "3.prems"]
    by (subst climb_left.simps) (auto simp: rb_rep_plug rb_exec last_of_def)
qed

text \<open>A node of a tree is never marked empty.\<close>

lemma node_empty_plug:
  assumes "rb_rep s (plug k (Nd c l n r))"
  shows "hev_rbtree_node_empty s n = Some False"
proof -
  note R = assms [unfolded rb_rep_plug, simplified]
  have al: "aligned (cpar k)" "aligned n" using R ctr_cpar by auto
  have "n \<noteq> cpar k" using R cpar_cases [of k] by auto
  then have "cpar k OR col c \<noteq> n"
    using aligned_pc [OF al(1), of c] aligned_pc [OF al(2), of Red] by auto
  then show ?thesis using R by (simp add: hev_rbtree_node_empty_def rb_exec)
qed

lemma node_next_plug:
  assumes "rb_rep s (plug k (Nd c l n r))"
  shows "hev_rbtree_node_next s n = Some (first_of (io r @ ior k))"
proof -
  note R = assms [unfolded rb_rep_plug, simplified]
  have r: "tr (rb_mem s) n r" using R by simp
  have "io r = [] \<longleftrightarrow> r = Lf" by (cases r) auto
  then show ?thesis
    using R node_empty_plug [OF assms] climb_right_plug [OF assms] leftmost_tr [OF r] tr_ad [OF r]
    by (cases "r = Lf") (simp_all add: hev_rbtree_node_next_def rb_exec first_of_def)
qed

lemma node_prev_plug:
  assumes "rb_rep s (plug k (Nd c l n r))"
  shows "hev_rbtree_node_prev s n = Some (last_of (iol k @ io l))"
proof -
  note R = assms [unfolded rb_rep_plug, simplified]
  have l: "tr (rb_mem s) n l" using R by simp
  have "io l = [] \<longleftrightarrow> l = Lf" by (cases l) auto
  then show ?thesis
    using R node_empty_plug [OF assms] climb_left_plug [OF assms] rightmost_tr [OF l] tr_ad [OF l]
    by (cases "l = Lf") (simp_all add: hev_rbtree_node_prev_def rb_exec last_of_def)
qed

lemma first_rep: "rb_rep s t \<Longrightarrow> hev_rbtree_first s = Some (first_of (io t))"
  using leftmost_tr [of s NULL t] tr_ad [of "rb_mem s" NULL t]
  by (cases t) (auto simp: hev_rbtree_first_def rb_rep_def first_of_def)

lemma last_rep: "rb_rep s t \<Longrightarrow> hev_rbtree_last s = Some (last_of (io t))"
  using rightmost_tr [of s NULL t] tr_ad [of "rb_mem s" NULL t]
  by (cases t) (auto simp: hev_rbtree_last_def rb_rep_def last_of_def)

lemma distinct_split:
  "distinct (xs @ n # ys) \<Longrightarrow> xs @ n # ys = as @ n # bs \<Longrightarrow> xs = as \<and> ys = bs"
  by (auto simp: append_eq_append_conv2 append_eq_Cons_conv Cons_eq_append_conv)

text \<open>Iteration with first and next (and last and prev) visits exactly the in-order
  sequence: the first and last node are its ends, the successor and the predecessor of a
  node are its neighbours in it, and null marks the ends.\<close>

theorem rbtree_walk_correct:
  assumes "rb_rep s t" and "io t = xs @ node # ys"
  shows "hev_rbtree_first s = Some (hd (xs @ [node])) \<and> hev_rbtree_last s = Some (last (node # ys)) \<and>
    hev_rbtree_node_next s node = Some (if ys = [] then NULL else hd ys) \<and>
    hev_rbtree_node_prev s node = Some (if xs = [] then NULL else last xs)"
proof -
  have D: "distinct (xs @ node # ys)" using assms by (auto simp: rb_rep_def)
  have "node \<in> set (io t)" using assms(2) by simp
  then obtain k c l r where t: "t = plug k (Nd c l node r)" using in_io_plug by blast
  have "xs @ node # ys = (iol k @ io l) @ node # (io r @ ior k)" using assms(2) t by (simp add: io_plug)
  then have "xs = iol k @ io l \<and> ys = io r @ ior k" using distinct_split [OF D] by blast
  then show ?thesis
    using node_next_plug [of s k c l node r] node_prev_plug [of s k c l node r] first_rep [OF assms(1)]
      last_rep [OF assms(1)] assms t
    by (simp add: first_of_def last_of_def hd_append)
qed

definition three_nodes :: HevRBTree where
  "three_nodes = \<lparr>rb_root = 32, rb_mem =
     [32 \<mapsto> \<lparr>parent_color = 1, r_right = 64, r_left = 16\<rparr>,
      16 \<mapsto> \<lparr>parent_color = 32, r_right = 0, r_left = 0\<rparr>,
      64 \<mapsto> \<lparr>parent_color = 32, r_right = 0, r_left = 0\<rparr>]\<rparr>"

theorem rbtree_walk_correct_witness:
  "hev_rbtree_first three_nodes = Some 16 \<and> hev_rbtree_last three_nodes = Some 64 \<and>
    hev_rbtree_node_next three_nodes 16 = Some 32 \<and> hev_rbtree_node_prev three_nodes 16 = Some NULL"
proof -
  have "rb_rep three_nodes (Nd Black (Nd Red Lf 16 Lf) 32 (Nd Red Lf 64 Lf))"
    by (simp add: rb_rep_def three_nodes_def aligned_def)
  from rbtree_walk_correct [OF this, of "[]" 16 "[32, 64]"] show ?thesis by simp
qed

section \<open>Replacement\<close>

lemma rbtree_replace:
  assumes rep: "rb_rep s (plug k (Nd c l victim r))"
    and new: "new \<noteq> NULL" "aligned new" "new \<notin> set (io (plug k (Nd c l victim r)))" "rb_mem s new \<noteq> None"
  shows "\<exists>s'. hev_rbtree_replace s victim new = Some s' \<and> rb_rep s' (plug k (Nd c l new r)) \<and>
    same_off (insert new (set (io (plug k (Nd c l victim r))))) s s'"
proof -
  note R = rep [unfolded rb_rep_plug, simplified]
  note D = rep [unfolded rb_rep_def, THEN conjunct1, unfolded io_plug, simplified]
  note N = new(3) [unfolded io_plug, simplified]
  have m: "victim \<noteq> NULL" "aligned victim" "ctr s k victim" "new \<noteq> victim" "victim \<noteq> new"
    "rb_mem s victim = Some \<lparr>parent_color = cpar k OR col c, r_right = ad r, r_left = ad l\<rparr>"
    "distinct (iol k @ ior k)" "victim \<notin> set (iol k @ ior k)" "distinct (io l)" "distinct (io r)" using R N by auto
  let ?n = "\<lparr>parent_color = cpar k OR col c, r_right = ad r, r_left = ad l\<rparr>"
  obtain w where w: "rb_mem s new = Some w" using new(4) by blast
  let ?s1 = "s\<lparr>rb_mem := (rb_mem s)(new \<mapsto> ?n)\<rparr>"
  have "tr (rb_mem ?s1) victim l" using R N by simp
  then obtain s2 where s2: "set_parent_opt ?s1 (ad l) new = Some s2" "rb_root s2 = rb_root s"
      "tr (rb_mem s2) new l" "same_off (set (io l)) ?s1 s2"
    using set_parent_opt_tr [of ?s1 victim l new] m(2,9) by auto
  have o2: "same_off ({new} \<union> set (io l)) s s2" by (rule same_off_wr [OF s2(4)]) (use w in auto)
  have "set (io r) \<inter> ({new} \<union> set (io l)) = {}" using D N by (simp add: disj_sets)
  then have "tr (rb_mem s2) victim r" using R by (simp add: same_off_tr [OF o2])
  then obtain s3 where s3: "set_parent_opt s2 (ad r) new = Some s3" "rb_root s3 = rb_root s"
      "tr (rb_mem s3) new r" "same_off (set (io r)) s2 s3"
    using set_parent_opt_tr [of s2 victim r new] m(2,10) s2(2) by auto
  have o3: "same_off ({new} \<union> set (io l) \<union> set (io r)) s s3" by (rule same_off_trans [OF o2 s3(4)]) auto
  have dj: "set (iol k @ ior k) \<inter> ({new} \<union> set (io l) \<union> set (io r)) = {}" "set (io l) \<inter> set (io r) = {}"
      "set (io l) \<inter> set (iol k @ ior k) = {}" "set (io r) \<inter> set (iol k @ ior k) = {}"
      "new \<notin> set (iol k @ ior k)" "new \<notin> set (io l)" "new \<notin> set (io r)"
      "victim \<notin> {new} \<union> set (io l)" "victim \<notin> {new} \<union> set (io l) \<union> set (io r)"
    using D N m(5) by (simp_all add: disj_sets)
  then have c3: "ctr s3 k victim" using m(3) s3(2) by (simp add: same_off_ctr [OF o3])
  obtain s' where s': "hev_rbtree_change_child s3 victim new (cpar k) = Some s'" "ctr s' k new"
      "same_off (set (iol k @ ior k)) s3 s'" using change_child [OF c3 m(7,1,8)] by blast
  have v: "rb_mem s2 victim = rb_mem s victim" "rb_mem s3 victim = rb_mem s victim"
    using same_offD [OF o2 dj(8)] same_offD [OF o3 dj(9)] by auto
  have "hev_rbtree_node_parent s victim = Some (cpar k)" using parent_at [OF rep] by simp
  then have run: "hev_rbtree_replace s victim new = Some s'"
    using m(1,5,6) new(1) w s2(1) s3(1) s'(1) v by (simp add: hev_rbtree_replace_def rb_exec)
  have n': "rb_mem s' new = Some ?n"
    using same_offD [OF s2(4) dj(6)] same_offD [OF s3(4) dj(7)] same_offD [OF s'(3) dj(5)] by simp
  have "tr (rb_mem s') new l" "tr (rb_mem s') new r"
    using s2(3) s3(3) dj(2,3,4) by (simp_all add: same_off_tr [OF s3(4)] same_off_tr [OF s'(3)])
  moreover have "same_off (insert new (set (io (plug k (Nd c l victim r))))) s s'"
    by (rule same_off_trans [OF o3 s'(3)]) (auto simp: io_plug)
  ultimately show ?thesis using run n' s'(2) new(1,2) D N by (auto simp: rb_rep_plug)
qed

end
