(* ===== verification/RBTreeInsert.thy ===== *)
theory RBTreeInsert
  imports RBTreeShape
begin

text \<open>
  Correctness of \<open>hev_rbtree_insert_color\<close>: the rebalancing as a function on trees and
  positions, that it keeps the in-order sequence and restores the red-black invariants, and
  that the pointer program implements it.
\<close>

section \<open>Rebalancing as a function\<close>

text \<open>The focus is a red node; only it and its parent may both be red.\<close>

fun ins_fix :: "frame list \<Rightarrow> rbt \<Rightarrow> rbt" where
  "ins_fix (FL Red p r # FL c g u # k) t =
     (if colr u = Red then ins_fix k (Nd Red (Nd Black t p r) g (paint Black u))
      else plug k (Nd c t p (Nd Red r g u)))"
| "ins_fix (FR Red l p # FL c g u # k) (Nd Red a n b) =
     (if colr u = Red then ins_fix k (Nd Red (Nd Black l p (Nd Red a n b)) g (paint Black u))
      else plug k (Nd c (Nd Red l p a) n (Nd Red b g u)))"
| "ins_fix (FR Red l p # FR c u g # k) t =
     (if colr u = Red then ins_fix k (Nd Red (paint Black u) g (Nd Black l p t))
      else plug k (Nd c (Nd Red u g l) p t))"
| "ins_fix (FL Red p r # FR c u g # k) (Nd Red a n b) =
     (if colr u = Red then ins_fix k (Nd Red (paint Black u) g (Nd Black (Nd Red a n b) p r))
      else plug k (Nd c (Nd Red u g a) n (Nd Red b p r)))"
| "ins_fix [] t = paint Black t"
| "ins_fix k t = plug k t"

lemma io_ins_fix: "t \<noteq> Lf \<Longrightarrow> io (ins_fix k t) = io (plug k t)"
  by (induction k t rule: ins_fix.induct) (auto simp: io_plug)

lemma cinvc_single: "cinvc [f] \<Longrightarrow> fcol f = Black"
  by (cases f; cases "fcol f") auto

lemma rb_ok_ins_fix:
  "cinvc k \<Longrightarrow> cinvh k (bh t) \<Longrightarrow> invc t \<Longrightarrow> invh t \<Longrightarrow> colr t = Red \<Longrightarrow> rb_ok (ins_fix k t)"
proof (induction k t rule: ins_fix.induct)
  case (1 p r c g u k t)
  have "c = Black" using "1.prems" by simp
  with "1.prems" show ?case
    by (cases "colr u"; simp)
      (intro "1.IH" rb_ok_plug; simp add: bh_paint_Black invc_paint_Black)+
next
  case (2 l p c g u k a n b)
  have "c = Black" using "2.prems" by simp
  with "2.prems" show ?case
    by (cases "colr u"; simp)
      (intro "2.IH" rb_ok_plug; simp add: bh_paint_Black invc_paint_Black)+
next
  case (3 l p c u g k t)
  have "c = Black" using "3.prems" by simp
  with "3.prems" show ?case
    by (cases "colr u"; simp)
      (intro "3.IH" rb_ok_plug; simp add: bh_paint_Black invc_paint_Black)+
next
  case (4 p r c u g k a n b)
  have "c = Black" using "4.prems" by simp
  with "4.prems" show ?case
    by (cases "colr u"; simp)
      (intro "4.IH" rb_ok_plug; simp add: bh_paint_Black invc_paint_Black)+
next
  case (5 t)
  then show ?case by (cases t) (auto simp: rb_ok_def)
qed (simp only: ins_fix.simps, rule rb_ok_plug, assumption+, force dest: cinvc_single)+

section \<open>The pointer program\<close>

lemma insert_rotate_left_outer:
  assumes rep: "rb_rep s (plug (FL Red p r # FL c g u # k) t)" and t: "t \<noteq> Lf" and r: "colr r = Black"
  shows "\<exists>s'. insert_rotate_left s (ad t) p g = Some s' \<and>
    rb_rep s' (plug k (Nd c t p (Nd Red r g u))) \<and>
    same_off (set (io (plug (FL Red p r # FL c g u # k) t))) s s'"
proof -
  note R = rep [unfolded rb_rep_plug, simplified]
  note D = rep [unfolded rb_rep_def, THEN conjunct1, unfolded io_plug, simplified]
  have dk: "distinct (iol k @ ior k)" and ne: "p \<noteq> g" "g \<noteq> p" using R by auto
  have nt: "ad t \<noteq> ad r" using R t ad_in [of t] ad_in [of r] tr_ad by (cases "r = Lf") auto
  let ?s1 = "s\<lparr>rb_mem := (rb_mem s)(g \<mapsto> \<lparr>parent_color = cpar k OR col c, r_right = ad u, r_left = ad r\<rparr>, p \<mapsto> \<lparr>parent_color = g, r_right = g, r_left = ad t\<rparr>)\<rparr>"
  have "tr (rb_mem ?s1) p r" "distinct (io r)" using R by auto
  then obtain s2 where s2: "set_parent_color_opt ?s1 (ad r) g (col Black) = Some s2"
      "rb_root s2 = rb_root s" "tr (rb_mem s2) g r" "same_off (set (io r)) ?s1 s2"
    using set_parent_color_opt_tr [of ?s1 p r g Black] r by auto
  have "ctr s2 k g = ctr ?s1 k g" using s2 R by (intro same_off_ctr [OF s2(4)]) auto
  also have "\<dots> = ctr s k g" using R by (intro ctr_frame) auto
  finally have c: "ctr s2 k g" using R by simp
  have m2: "rb_mem s2 g = Some \<lparr>parent_color = cpar k OR col c, r_right = ad u, r_left = ad r\<rparr>" "rb_mem s2 p = Some \<lparr>parent_color = g, r_right = g, r_left = ad t\<rparr>"
    using same_offD [OF s2(4), of g] same_offD [OF s2(4), of p] R by auto
  obtain s' where s': "hev_rbtree_rotate_set_parents s2 g p 0 = Some s'" "ctr s' k p"
      "rb_mem s' g = Some (\<lparr>parent_color = cpar k OR col c, r_right = ad u, r_left = ad r\<rparr>\<lparr>parent_color := p OR 0\<rparr>)"
      "rb_mem s' p = Some (\<lparr>parent_color = g, r_right = g, r_left = ad t\<rparr>\<lparr>parent_color := cpar k OR col c\<rparr>)"
      "same_off (set (iol k @ ior k) \<union> {g, p}) s2 s'"
    using rotate_set_parents [OF c dk _ _ m2(1) _ _ _ m2(2), of c 0] R by auto
  have dj: "set (io t) \<inter> (set (iol k @ ior k) \<union> {g, p}) = {}" "set (io r) \<inter> (set (iol k @ ior k) \<union> {g, p}) = {}"
      "set (io u) \<inter> (set (iol k @ ior k) \<union> {g, p}) = {}" "set (io t) \<inter> set (io r) = {}" "set (io u) \<inter> set (io r) = {}"
    using D by (simp_all add: disj_sets)
  have "insert_rotate_left s (ad t) p g = Some s'"
    using R ne nt s2(1) s'(1) by (simp add: insert_rotate_left_def rb_exec)
  moreover have "tr (rb_mem s') p t" "tr (rb_mem s') g r" "tr (rb_mem s') g u"
    using R s2(3) dj by (simp_all add: same_off_tr [OF s2(4)] same_off_tr [OF s'(5)])
  moreover have "same_off (set (io (plug (FL Red p r # FL c g u # k) t))) s s'"
    using s2(4) s'(5) R by (auto simp: same_off_def io_plug)
  ultimately show ?thesis using R s' by (auto simp: rb_rep_plug)
qed

lemma insert_rotate_left_inner:
  assumes rep: "rb_rep s (plug (FR Red r p # FL c g u # k) (Nd Red a n b))"
    and ab: "colr a = Black" "colr b = Black"
  shows "\<exists>s'. insert_rotate_left s n p g = Some s' \<and>
    rb_rep s' (plug k (Nd c (Nd Red r p a) n (Nd Red b g u))) \<and>
    same_off (set (io (plug (FR Red r p # FL c g u # k) (Nd Red a n b)))) s s'"
proof -
  note R = rep [unfolded rb_rep_plug, simplified]
  note D = rep [unfolded rb_rep_def, THEN conjunct1, unfolded io_plug, simplified]
  have dk: "distinct (iol k @ ior k)" and ne: "p \<noteq> g" "g \<noteq> p" "n \<noteq> p" "p \<noteq> n" "n \<noteq> g" "g \<noteq> n" "n \<noteq> NULL" "p \<noteq> NULL" "g \<noteq> NULL" using R by auto
  have mem: "\<exists>x. rb_mem s p = Some x" "\<exists>x. rb_mem s n = Some x" using R by auto
  let ?s1 = "s\<lparr>rb_mem := (rb_mem s)(p \<mapsto> \<lparr>parent_color = g, r_right = ad a, r_left = ad r\<rparr>, n \<mapsto> \<lparr>parent_color = p, r_right = ad b, r_left = p\<rparr>)\<rparr>"
  have "tr (rb_mem ?s1) n a" "distinct (io a)" using R by auto
  then obtain s2 where s2: "set_parent_color_opt ?s1 (ad a) p (col Black) = Some s2"
      "rb_root s2 = rb_root s" "tr (rb_mem s2) p a" "same_off (set (io a)) ?s1 s2"
    using set_parent_color_opt_tr [of ?s1 n a p Black] ab by auto
  have m2: "rb_mem s2 p = Some \<lparr>parent_color = g, r_right = ad a, r_left = ad r\<rparr>" "rb_mem s2 n = Some \<lparr>parent_color = p, r_right = ad b, r_left = p\<rparr>"
      "rb_mem s2 g = Some \<lparr>parent_color = cpar k OR col c, r_right = ad u, r_left = p\<rparr>"
    using same_offD [OF s2(4)] R by auto
  let ?s3 = "s2\<lparr>rb_mem := (rb_mem s2)(p \<mapsto> \<lparr>parent_color = n, r_right = ad a, r_left = ad r\<rparr>, g \<mapsto> \<lparr>parent_color = cpar k OR col c, r_right = ad u, r_left = ad b\<rparr>, n \<mapsto> \<lparr>parent_color = p, r_right = g, r_left = p\<rparr>)\<rparr>"
  have "tr (rb_mem s2) n b" using R same_off_tr [OF s2(4), of b n] by auto
  then have "tr (rb_mem ?s3) n b" "distinct (io b)" using R by auto
  then obtain s4 where s4: "set_parent_color_opt ?s3 (ad b) g (col Black) = Some s4"
      "rb_root s4 = rb_root s" "tr (rb_mem s4) g b" "same_off (set (io b)) ?s3 s4"
    using set_parent_color_opt_tr [of ?s3 n b g Black] ab s2(2) by auto
  have o2: "same_off ({p, n} \<union> set (io a)) s s2"
    by (rule same_off_wr [OF s2(4)]) (use mem in auto)
  have o4: "same_off ({p, g, n} \<union> set (io b)) s2 s4"
    by (rule same_off_wr [OF s4(4)]) (use m2 in auto)
  have off: "same_off (set (io a @ io b) \<union> {n, p, g}) s s4"
    by (rule same_off_trans [OF o2 o4]) auto
  have "set (iol k @ ior k) \<inter> (set (io a @ io b) \<union> {n, p, g}) = {}" using D by (simp add: disj_sets)
  then have c: "ctr s4 k g" using R s4(2) same_off_ctr [OF off, of k g] by simp
  have m4: "rb_mem s4 p = Some \<lparr>parent_color = n, r_right = ad a, r_left = ad r\<rparr>" "rb_mem s4 n = Some \<lparr>parent_color = p, r_right = g, r_left = p\<rparr>"
      "rb_mem s4 g = Some \<lparr>parent_color = cpar k OR col c, r_right = ad u, r_left = ad b\<rparr>"
    using same_offD [OF s4(4)] R by auto
  obtain s' where s': "hev_rbtree_rotate_set_parents s4 g n 0 = Some s'" "ctr s' k n"
      "rb_mem s' g = Some (\<lparr>parent_color = cpar k OR col c, r_right = ad u, r_left = ad b\<rparr>\<lparr>parent_color := n OR 0\<rparr>)"
      "rb_mem s' n = Some (\<lparr>parent_color = p, r_right = g, r_left = p\<rparr>\<lparr>parent_color := cpar k OR col c\<rparr>)"
      "same_off (set (iol k @ ior k) \<union> {g, n}) s4 s'"
    using rotate_set_parents [OF c dk _ _ m4(3) _ _ _ m4(2), of c 0] R by auto
  have dj: "set (io a) \<inter> (set (iol k @ ior k) \<union> {g, n}) = {}" "set (io b) \<inter> (set (iol k @ ior k) \<union> {g, n}) = {}"
      "set (io r) \<inter> (set (iol k @ ior k) \<union> {g, n}) = {}" "set (io u) \<inter> (set (iol k @ ior k) \<union> {g, n}) = {}"
      "set (io a) \<inter> set (io b) = {}" "p \<notin> set (io a)" "set (io r) \<inter> (set (io a @ io b) \<union> {n, p, g}) = {}"
      "set (io u) \<inter> (set (io a @ io b) \<union> {n, p, g}) = {}"
    using D by (simp_all add: disj_sets)
  have "tr (rb_mem s) p r" "tr (rb_mem s) g u" using R by auto
  then have trs: "tr (rb_mem s') p a" "tr (rb_mem s') g b" "tr (rb_mem s') p r" "tr (rb_mem s') g u"
    using s2(3) s4(3) dj
    by (simp_all add: same_off_tr [OF off] same_off_tr [OF s4(4)] same_off_tr [OF s'(5)])
  have "insert_rotate_left s n p g = Some s'"
    using R ne s2(1) m2 s4(1) s'(1) by (simp add: insert_rotate_left_def rb_exec fun_upd_twist)
  moreover have "rb_mem s' p = Some \<lparr>parent_color = n, r_right = ad a, r_left = ad r\<rparr>"
    using m4 R same_offD [OF s'(5), of p] by auto
  moreover note trs
  moreover have "same_off (set (io (plug (FR Red r p # FL c g u # k) (Nd Red a n b)))) s s'"
    by (rule same_off_trans [OF off s'(5)]) (auto simp: io_plug)
  ultimately show ?thesis using R s' by (auto simp: rb_rep_plug)
qed

lemma insert_rotate_right_outer:
  assumes rep: "rb_rep s (plug (FR Red r p # FR c u g # k) t)" and t: "t \<noteq> Lf" and r: "colr r = Black"
  shows "\<exists>s'. insert_rotate_right s (ad t) p g = Some s' \<and>
    rb_rep s' (plug k (Nd c (Nd Red u g r) p t)) \<and>
    same_off (set (io (plug (FR Red r p # FR c u g # k) t))) s s'"
proof -
  note R = rep [unfolded rb_rep_plug, simplified]
  note D = rep [unfolded rb_rep_def, THEN conjunct1, unfolded io_plug, simplified]
  have dk: "distinct (iol k @ ior k)" and ne: "p \<noteq> g" "g \<noteq> p" using R by auto
  have nt: "ad t \<noteq> ad r" using R t ad_in [of t] ad_in [of r] tr_ad by (cases "r = Lf") auto
  let ?s1 = "s\<lparr>rb_mem := (rb_mem s)(g \<mapsto> \<lparr>parent_color = cpar k OR col c, r_right = ad r, r_left = ad u\<rparr>, p \<mapsto> \<lparr>parent_color = g, r_right = ad t, r_left = g\<rparr>)\<rparr>"
  have "tr (rb_mem ?s1) p r" "distinct (io r)" using R by auto
  then obtain s2 where s2: "set_parent_color_opt ?s1 (ad r) g (col Black) = Some s2"
      "rb_root s2 = rb_root s" "tr (rb_mem s2) g r" "same_off (set (io r)) ?s1 s2"
    using set_parent_color_opt_tr [of ?s1 p r g Black] r by auto
  have "ctr s2 k g = ctr ?s1 k g" using s2 R by (intro same_off_ctr [OF s2(4)]) auto
  also have "\<dots> = ctr s k g" using R by (intro ctr_frame) auto
  finally have c: "ctr s2 k g" using R by simp
  have m2: "rb_mem s2 g = Some \<lparr>parent_color = cpar k OR col c, r_right = ad r, r_left = ad u\<rparr>" "rb_mem s2 p = Some \<lparr>parent_color = g, r_right = ad t, r_left = g\<rparr>"
    using same_offD [OF s2(4), of g] same_offD [OF s2(4), of p] R by auto
  obtain s' where s': "hev_rbtree_rotate_set_parents s2 g p 0 = Some s'" "ctr s' k p"
      "rb_mem s' g = Some (\<lparr>parent_color = cpar k OR col c, r_right = ad r, r_left = ad u\<rparr>\<lparr>parent_color := p OR 0\<rparr>)"
      "rb_mem s' p = Some (\<lparr>parent_color = g, r_right = ad t, r_left = g\<rparr>\<lparr>parent_color := cpar k OR col c\<rparr>)"
      "same_off (set (iol k @ ior k) \<union> {g, p}) s2 s'"
    using rotate_set_parents [OF c dk _ _ m2(1) _ _ _ m2(2), of c 0] R by auto
  have dj: "set (io t) \<inter> (set (iol k @ ior k) \<union> {g, p}) = {}" "set (io r) \<inter> (set (iol k @ ior k) \<union> {g, p}) = {}"
      "set (io u) \<inter> (set (iol k @ ior k) \<union> {g, p}) = {}" "set (io t) \<inter> set (io r) = {}" "set (io u) \<inter> set (io r) = {}"
    using D by (simp_all add: disj_sets)
  have "insert_rotate_right s (ad t) p g = Some s'"
    using R ne nt s2(1) s'(1) by (simp add: insert_rotate_right_def rb_exec)
  moreover have "tr (rb_mem s') p t" "tr (rb_mem s') g r" "tr (rb_mem s') g u"
    using R s2(3) dj by (simp_all add: same_off_tr [OF s2(4)] same_off_tr [OF s'(5)])
  moreover have "same_off (set (io (plug (FR Red r p # FR c u g # k) t))) s s'"
    using s2(4) s'(5) R by (auto simp: same_off_def io_plug)
  ultimately show ?thesis using R s' by (auto simp: rb_rep_plug)
qed

lemma insert_rotate_right_inner:
  assumes rep: "rb_rep s (plug (FL Red p r # FR c u g # k) (Nd Red a n b))"
    and ab: "colr a = Black" "colr b = Black"
  shows "\<exists>s'. insert_rotate_right s n p g = Some s' \<and>
    rb_rep s' (plug k (Nd c (Nd Red u g a) n (Nd Red b p r))) \<and>
    same_off (set (io (plug (FL Red p r # FR c u g # k) (Nd Red a n b)))) s s'"
proof -
  note R = rep [unfolded rb_rep_plug, simplified]
  note D = rep [unfolded rb_rep_def, THEN conjunct1, unfolded io_plug, simplified]
  have dk: "distinct (iol k @ ior k)" and ne: "p \<noteq> g" "g \<noteq> p" "n \<noteq> p" "p \<noteq> n" "n \<noteq> g" "g \<noteq> n" "n \<noteq> NULL" "p \<noteq> NULL" "g \<noteq> NULL" using R by auto
  have mem: "\<exists>x. rb_mem s p = Some x" "\<exists>x. rb_mem s n = Some x" using R by auto
  let ?s1 = "s\<lparr>rb_mem := (rb_mem s)(p \<mapsto> \<lparr>parent_color = g, r_right = ad r, r_left = ad b\<rparr>, n \<mapsto> \<lparr>parent_color = p, r_right = p, r_left = ad a\<rparr>)\<rparr>"
  have "tr (rb_mem ?s1) n b" "distinct (io b)" using R by auto
  then obtain s2 where s2: "set_parent_color_opt ?s1 (ad b) p (col Black) = Some s2"
      "rb_root s2 = rb_root s" "tr (rb_mem s2) p b" "same_off (set (io b)) ?s1 s2"
    using set_parent_color_opt_tr [of ?s1 n b p Black] ab by auto
  have m2: "rb_mem s2 p = Some \<lparr>parent_color = g, r_right = ad r, r_left = ad b\<rparr>" "rb_mem s2 n = Some \<lparr>parent_color = p, r_right = p, r_left = ad a\<rparr>"
      "rb_mem s2 g = Some \<lparr>parent_color = cpar k OR col c, r_right = p, r_left = ad u\<rparr>"
    using same_offD [OF s2(4)] R by auto
  let ?s3 = "s2\<lparr>rb_mem := (rb_mem s2)(p \<mapsto> \<lparr>parent_color = n, r_right = ad r, r_left = ad b\<rparr>, g \<mapsto> \<lparr>parent_color = cpar k OR col c, r_right = ad a, r_left = ad u\<rparr>, n \<mapsto> \<lparr>parent_color = p, r_right = p, r_left = g\<rparr>)\<rparr>"
  have "tr (rb_mem s2) n a" using R same_off_tr [OF s2(4), of a n] by auto
  then have "tr (rb_mem ?s3) n a" "distinct (io a)" using R by auto
  then obtain s4 where s4: "set_parent_color_opt ?s3 (ad a) g (col Black) = Some s4"
      "rb_root s4 = rb_root s" "tr (rb_mem s4) g a" "same_off (set (io a)) ?s3 s4"
    using set_parent_color_opt_tr [of ?s3 n a g Black] ab s2(2) by auto
  have o2: "same_off ({p, n} \<union> set (io b)) s s2"
    by (rule same_off_wr [OF s2(4)]) (use mem in auto)
  have o4: "same_off ({p, g, n} \<union> set (io a)) s2 s4"
    by (rule same_off_wr [OF s4(4)]) (use m2 in auto)
  have off: "same_off (set (io b @ io a) \<union> {n, p, g}) s s4"
    by (rule same_off_trans [OF o2 o4]) auto
  have "set (iol k @ ior k) \<inter> (set (io b @ io a) \<union> {n, p, g}) = {}" using D by (simp add: disj_sets)
  then have c: "ctr s4 k g" using R s4(2) same_off_ctr [OF off, of k g] by simp
  have m4: "rb_mem s4 p = Some \<lparr>parent_color = n, r_right = ad r, r_left = ad b\<rparr>" "rb_mem s4 n = Some \<lparr>parent_color = p, r_right = p, r_left = g\<rparr>"
      "rb_mem s4 g = Some \<lparr>parent_color = cpar k OR col c, r_right = ad a, r_left = ad u\<rparr>"
    using same_offD [OF s4(4)] R by auto
  obtain s' where s': "hev_rbtree_rotate_set_parents s4 g n 0 = Some s'" "ctr s' k n"
      "rb_mem s' g = Some (\<lparr>parent_color = cpar k OR col c, r_right = ad a, r_left = ad u\<rparr>\<lparr>parent_color := n OR 0\<rparr>)"
      "rb_mem s' n = Some (\<lparr>parent_color = p, r_right = p, r_left = g\<rparr>\<lparr>parent_color := cpar k OR col c\<rparr>)"
      "same_off (set (iol k @ ior k) \<union> {g, n}) s4 s'"
    using rotate_set_parents [OF c dk _ _ m4(3) _ _ _ m4(2), of c 0] R by auto
  have dj: "set (io a) \<inter> (set (iol k @ ior k) \<union> {g, n}) = {}" "set (io b) \<inter> (set (iol k @ ior k) \<union> {g, n}) = {}"
      "set (io r) \<inter> (set (iol k @ ior k) \<union> {g, n}) = {}" "set (io u) \<inter> (set (iol k @ ior k) \<union> {g, n}) = {}"
      "set (io b) \<inter> set (io a) = {}" "p \<notin> set (io b)" "set (io r) \<inter> (set (io b @ io a) \<union> {n, p, g}) = {}"
      "set (io u) \<inter> (set (io b @ io a) \<union> {n, p, g}) = {}"
    using D by (simp_all add: disj_sets)
  have "tr (rb_mem s) p r" "tr (rb_mem s) g u" using R by auto
  then have trs: "tr (rb_mem s') p b" "tr (rb_mem s') g a" "tr (rb_mem s') p r" "tr (rb_mem s') g u"
    using s2(3) s4(3) dj
    by (simp_all add: same_off_tr [OF off] same_off_tr [OF s4(4)] same_off_tr [OF s'(5)])
  have "insert_rotate_right s n p g = Some s'"
    using R ne s2(1) m2 s4(1) s'(1) by (simp add: insert_rotate_right_def rb_exec fun_upd_twist)
  moreover have "rb_mem s' p = Some \<lparr>parent_color = n, r_right = ad r, r_left = ad b\<rparr>"
    using m4 R same_offD [OF s'(5), of p] by auto
  moreover note trs
  moreover have "same_off (set (io (plug (FL Red p r # FR c u g # k) (Nd Red a n b)))) s s'"
    by (rule same_off_trans [OF off s'(5)]) (auto simp: io_plug)
  ultimately show ?thesis using R s' by (auto simp: rb_rep_plug)
qed

text \<open>The colour flip of case 1, for a node below the left and below the right child.\<close>

lemma insert_flip:
  assumes g: "rb_mem s g = Some \<lparr>parent_color = cpar k OR col c, r_right = gr, r_left = gl\<rparr>"
      "g \<noteq> NULL" "ctr s k g" "g \<notin> set (iol k @ ior k)"
    and p: "rb_mem s p = Some np" "p \<noteq> NULL" "p \<noteq> g" "p \<notin> set (iol k @ ior k)"
    and u: "tr (rb_mem s) g u" "colr u = Red" "distinct (io u)" "g \<notin> set (io u)" "p \<notin> set (io u)"
      "set (io u) \<inter> set (iol k @ ior k) = {}"
  shows "\<exists>s'. insert_flip s (ad u) p g = Some (s', cpar k) \<and> ctr s' k g \<and>
    rb_mem s' g = Some \<lparr>parent_color = cpar k OR col Red, r_right = gr, r_left = gl\<rparr> \<and>
    rb_mem s' p = Some (np\<lparr>parent_color := g OR col Black\<rparr>) \<and>
    tr (rb_mem s') g (paint Black u) \<and> same_off (set (io u) \<union> {p, g}) s s'"
proof -
  obtain l x r where u': "u = Nd Red l x r" using colr_Red_Nd u(2) by blast
  have ux: "x \<noteq> NULL" "x \<noteq> p" "x \<noteq> g" "x \<noteq> NULL" "rb_mem s x = Some \<lparr>parent_color = g, r_right = ad r, r_left = ad l\<rparr>"
    using u u' by auto
  have al: "aligned (cpar k)" using ctr_cpar [OF g(3)] by simp
  let ?s = "s\<lparr>rb_mem := (rb_mem s)(x \<mapsto> \<lparr>parent_color = g OR col Black, r_right = ad r, r_left = ad l\<rparr>,
    p \<mapsto> np\<lparr>parent_color := g OR col Black\<rparr>,
    g \<mapsto> \<lparr>parent_color = cpar k OR col Red, r_right = gr, r_left = gl\<rparr>)\<rparr>"
  have "insert_flip s (ad u) p g = Some (?s, cpar k)"
    using g(1,2) p(1-3) ux u' al by (simp add: insert_flip_def rb_exec)
  moreover have "ctr ?s k g = ctr s k g" using g(4) p(4) u(6) u' by (intro ctr_frame) auto
  moreover have "tr (rb_mem ?s) g (paint Black u)" using u u' by auto
  moreover have "same_off (set (io u) \<union> {p, g}) s ?s" using u' ux g(1) p(1) by (auto simp: same_off_def)
  ultimately show ?thesis using g(3) p(3) by auto
qed



lemma insert_flip_left:
  assumes rep: "rb_rep s (plug k (Nd c (Nd Red a p b) g u))" and u: "colr u = Red"
  shows "\<exists>s'. insert_flip s (ad u) p g = Some (s', cpar k) \<and>
    rb_rep s' (plug k (Nd Red (Nd Black a p b) g (paint Black u))) \<and>
    same_off (set (io (plug k (Nd c (Nd Red a p b) g u)))) s s'"
proof -
  note R = rep [unfolded rb_rep_plug, simplified]
  note D = rep [unfolded rb_rep_def, THEN conjunct1, unfolded io_plug, simplified]
  have "rb_mem s g = Some \<lparr>parent_color = cpar k OR col c, r_right = ad u, r_left = p\<rparr>"
    and "rb_mem s p = Some \<lparr>parent_color = g, r_right = ad b, r_left = ad a\<rparr>"
    using R by auto
  then obtain s' where s': "insert_flip s (ad u) p g = Some (s', cpar k)" "ctr s' k g"
      "rb_mem s' g = Some \<lparr>parent_color = cpar k OR col Red, r_right = ad u, r_left = p\<rparr>"
      "rb_mem s' p = Some \<lparr>parent_color = g OR col Black, r_right = ad b, r_left = ad a\<rparr>"
      "tr (rb_mem s') g (paint Black u)" "same_off (set (io u) \<union> {p, g}) s s'"
    using insert_flip [of s g k c "ad u" "p" p _ u] R u D by (auto simp: disj_sets)
  have "set (io a) \<inter> (set (io u) \<union> {p, g}) = {}" "set (io b) \<inter> (set (io u) \<union> {p, g}) = {}"
    using D by (simp_all add: disj_sets)
  then have "tr (rb_mem s') p a" "tr (rb_mem s') p b" using R by (simp_all add: same_off_tr [OF s'(6)])
  moreover have "same_off (set (io (plug k (Nd c (Nd Red a p b) g u)))) s s'"
    using s'(6) by (auto simp: same_off_def io_plug)
  ultimately show ?thesis using R s' by (auto simp: rb_rep_plug)
qed

lemma insert_color_step_left:
  assumes rep: "rb_rep s (plug k (Nd c (Nd Red a p b) g u))"
  shows "insert_color_loop s n p =
    (if colr u = Red then do { sp \<leftarrow> insert_flip s (ad u) p g; insert_color_loop (fst sp) g (snd sp) }
     else insert_rotate_left s n p g)"
proof -
  note R = rep [unfolded rb_rep_plug, simplified]
  have m: "p \<noteq> NULL" "g \<noteq> NULL" "aligned g" "rb_mem s p = Some \<lparr>parent_color = g OR col Red, r_right = ad b, r_left = ad a\<rparr>"
      "rb_mem s g = Some \<lparr>parent_color = cpar k OR col c, r_right = ad u, r_left = p\<rparr>"
      "is_red_opt s (ad u) = Some (colr u = Red)"
    using R is_red_opt_tr [of s g u] by auto
  have "p \<noteq> ad u" using R ad_in [of u] by (cases "u = Lf") auto
  moreover have "hev_rbtree_node_is_black s p = Some False" using node_colour(2) [OF m(1,4) _ m(3), of Red] by simp
  ultimately show ?thesis using m by (subst insert_color_loop.simps) (simp add: rb_exec)
qed

lemma insert_flip_right:
  assumes rep: "rb_rep s (plug k (Nd c u g (Nd Red a p b)))" and u: "colr u = Red"
  shows "\<exists>s'. insert_flip s (ad u) p g = Some (s', cpar k) \<and>
    rb_rep s' (plug k (Nd Red (paint Black u) g (Nd Black a p b))) \<and>
    same_off (set (io (plug k (Nd c u g (Nd Red a p b))))) s s'"
proof -
  note R = rep [unfolded rb_rep_plug, simplified]
  note D = rep [unfolded rb_rep_def, THEN conjunct1, unfolded io_plug, simplified]
  have "rb_mem s g = Some \<lparr>parent_color = cpar k OR col c, r_right = p, r_left = ad u\<rparr>"
    and "rb_mem s p = Some \<lparr>parent_color = g, r_right = ad b, r_left = ad a\<rparr>"
    using R by auto
  then obtain s' where s': "insert_flip s (ad u) p g = Some (s', cpar k)" "ctr s' k g"
      "rb_mem s' g = Some \<lparr>parent_color = cpar k OR col Red, r_right = p, r_left = ad u\<rparr>"
      "rb_mem s' p = Some \<lparr>parent_color = g OR col Black, r_right = ad b, r_left = ad a\<rparr>"
      "tr (rb_mem s') g (paint Black u)" "same_off (set (io u) \<union> {p, g}) s s'"
    using insert_flip [of s g k c "p" "ad u" p _ u] R u D by (auto simp: disj_sets)
  have "set (io a) \<inter> (set (io u) \<union> {p, g}) = {}" "set (io b) \<inter> (set (io u) \<union> {p, g}) = {}"
    using D by (simp_all add: disj_sets)
  then have "tr (rb_mem s') p a" "tr (rb_mem s') p b" using R by (simp_all add: same_off_tr [OF s'(6)])
  moreover have "same_off (set (io (plug k (Nd c u g (Nd Red a p b))))) s s'"
    using s'(6) by (auto simp: same_off_def io_plug)
  ultimately show ?thesis using R s' by (auto simp: rb_rep_plug)
qed

lemma insert_color_step_right:
  assumes rep: "rb_rep s (plug k (Nd c u g (Nd Red a p b)))"
  shows "insert_color_loop s n p =
    (if colr u = Red then do { sp \<leftarrow> insert_flip s (ad u) p g; insert_color_loop (fst sp) g (snd sp) }
     else insert_rotate_right s n p g)"
proof -
  note R = rep [unfolded rb_rep_plug, simplified]
  have m: "p \<noteq> NULL" "g \<noteq> NULL" "aligned g" "rb_mem s p = Some \<lparr>parent_color = g OR col Red, r_right = ad b, r_left = ad a\<rparr>"
      "rb_mem s g = Some \<lparr>parent_color = cpar k OR col c, r_right = p, r_left = ad u\<rparr>"
      "is_red_opt s (ad u) = Some (colr u = Red)"
    using R is_red_opt_tr [of s g u] by auto
  have "p \<noteq> ad u" using R ad_in [of u] by (cases "u = Lf") auto
  moreover have "hev_rbtree_node_is_black s p = Some False" using node_colour(2) [OF m(1,4) _ m(3), of Red] by simp
  ultimately show ?thesis using m by (subst insert_color_loop.simps) (simp add: rb_exec)
qed

text \<open>One turn of the loop that flips colours, followed by the rest of the loop.\<close>

lemma insert_color_black:
  assumes "rb_rep s (plug (f # k) t)" "fcol f = Black"
  shows "\<exists>s'. insert_color_loop s n (cpar (f # k)) = Some s' \<and> rb_rep s' (plug (f # k) t) \<and>
    same_off X s s'"
proof -
  have al: "aligned (cpar k)" using assms(1) by (cases f) (auto simp: rb_rep_plug dest: ctr_cpar)
  with assms obtain x where "fptr f \<noteq> NULL" "rb_mem s (fptr f) = Some x" "parent_color x = cpar k OR col Black"
    by (cases f) (auto simp: rb_rep_plug)
  then have "fptr f \<noteq> NULL" "hev_rbtree_node_is_black s (fptr f) = Some True" using node_colour(2) [OF _ _ _ al, of _ _ _ Black] by auto
  then have "insert_color_loop s n (fptr f) = Some s" by (subst insert_color_loop.simps) simp
  then show ?thesis using assms(1) by (simp add: same_off_def)
qed

lemma insert_flip_continue:
  assumes "insert_color_loop s n p = do { sp \<leftarrow> insert_flip s x p g; insert_color_loop (fst sp) g (snd sp) }"
    and "\<exists>s1. insert_flip s x p g = Some (s1, q) \<and> rb_rep s1 t1 \<and> same_off X s s1"
    and "\<And>s1. rb_rep s1 t1 \<Longrightarrow> \<exists>s'. insert_color_loop s1 g q = Some s' \<and> rb_rep s' t' \<and> same_off X s1 s'"
  shows "\<exists>s'. insert_color_loop s n p = Some s' \<and> rb_rep s' t' \<and> same_off X s s'"
  using assms by (fastforce intro: same_off_trans)

lemma insert_color_loop:
  "rb_rep s (plug k t) \<Longrightarrow> colr t = Red \<Longrightarrow> invc t \<Longrightarrow> cinvc k \<Longrightarrow>
     \<exists>s'. insert_color_loop s (ad t) (cpar k) = Some s' \<and> rb_rep s' (ins_fix k t) \<and>
       same_off (set (io (plug k t))) s s'"
proof (induction k t arbitrary: s rule: ins_fix.induct)
  case (1 p r c g u k t)
  note rep = "1.prems"(1) [simplified]
  show ?case
  proof (cases "colr u = Red")
    case True
    have "\<exists>s'. insert_color_loop s1 g (cpar k) = Some s' \<and> rb_rep s' (ins_fix k (Nd Red (Nd Black t p r) g (paint Black u))) \<and>
        same_off (set (io (plug k (Nd Red (Nd Black t p r) g (paint Black u))))) s1 s'"
      if "rb_rep s1 (plug k (Nd Red (Nd Black t p r) g (paint Black u)))" for s1
      using "1.IH" [OF True that] "1.prems" by (simp add: invc_paint_Black)
    then show ?thesis
      using insert_flip_continue [OF _ insert_flip_left [OF rep True]] insert_color_step_left [OF rep] True
      by (simp add: io_plug)
  next
    case False
    have "t \<noteq> Lf" using "1.prems" by auto
    with False show ?thesis
      using insert_rotate_left_outer [OF "1.prems"(1)] "1.prems" insert_color_step_left [OF rep] by simp
  qed
next
  case (2 l p c g u k a n b)
  note rep = "2.prems"(1) [simplified]
  show ?case
  proof (cases "colr u = Red")
    case True
    have "\<exists>s'. insert_color_loop s1 g (cpar k) = Some s' \<and> rb_rep s' (ins_fix k (Nd Red (Nd Black l p (Nd Red a n b)) g (paint Black u))) \<and>
        same_off (set (io (plug k (Nd Red (Nd Black l p (Nd Red a n b)) g (paint Black u))))) s1 s'"
      if "rb_rep s1 (plug k (Nd Red (Nd Black l p (Nd Red a n b)) g (paint Black u)))" for s1
      using "2.IH" [OF True that] "2.prems" by (simp add: invc_paint_Black)
    then show ?thesis
      using insert_flip_continue [OF _ insert_flip_left [OF rep True]] insert_color_step_left [OF rep] True
      by (simp add: io_plug)
  next
    case False
    then show ?thesis
      using insert_rotate_left_inner [OF "2.prems"(1)] "2.prems" insert_color_step_left [OF rep] by simp
  qed
next
  case (3 l p c u g k t)
  note rep = "3.prems"(1) [simplified]
  show ?case
  proof (cases "colr u = Red")
    case True
    have "\<exists>s'. insert_color_loop s1 g (cpar k) = Some s' \<and> rb_rep s' (ins_fix k (Nd Red (paint Black u) g (Nd Black l p t))) \<and>
        same_off (set (io (plug k (Nd Red (paint Black u) g (Nd Black l p t))))) s1 s'"
      if "rb_rep s1 (plug k (Nd Red (paint Black u) g (Nd Black l p t)))" for s1
      using "3.IH" [OF True that] "3.prems" by (simp add: invc_paint_Black)
    then show ?thesis
      using insert_flip_continue [OF _ insert_flip_right [OF rep True]] insert_color_step_right [OF rep] True
      by (simp add: io_plug)
  next
    case False
    have "t \<noteq> Lf" using "3.prems" by auto
    with False show ?thesis
      using insert_rotate_right_outer [OF "3.prems"(1)] "3.prems" insert_color_step_right [OF rep] by simp
  qed
next
  case (4 p r c u g k a n b)
  note rep = "4.prems"(1) [simplified]
  show ?case
  proof (cases "colr u = Red")
    case True
    have "\<exists>s'. insert_color_loop s1 g (cpar k) = Some s' \<and> rb_rep s' (ins_fix k (Nd Red (paint Black u) g (Nd Black (Nd Red a n b) p r))) \<and>
        same_off (set (io (plug k (Nd Red (paint Black u) g (Nd Black (Nd Red a n b) p r))))) s1 s'"
      if "rb_rep s1 (plug k (Nd Red (paint Black u) g (Nd Black (Nd Red a n b) p r)))" for s1
      using "4.IH" [OF True that] "4.prems" by (simp add: invc_paint_Black)
    then show ?thesis
      using insert_flip_continue [OF _ insert_flip_right [OF rep True]] insert_color_step_right [OF rep] True
      by (simp add: io_plug)
  next
    case False
    then show ?thesis
      using insert_rotate_right_inner [OF "4.prems"(1)] "4.prems" insert_color_step_right [OF rep] by simp
  qed
next
  case (5 t)
  obtain l p r where t: "t = Nd Red l p r" using "5.prems"(2) colr_Red_Nd by blast
  with "5.prems" show ?case
    by (subst insert_color_loop.simps) (auto simp: rb_exec rb_rep_def same_off_def)
qed (simp only: ins_fix.simps, rule insert_color_black, assumption, force dest: cinvc_single)+

section \<open>Insertion of a node\<close>

text \<open>The link field that an empty position is reached through.\<close>

fun klink :: "frame list \<Rightarrow> link" where
  "klink [] = LinkRoot"
| "klink (FL c p r # k) = LinkLeft p"
| "klink (FR c l p # k) = LinkRight p"

definition fresh_node :: "HevRBTree \<Rightarrow> rbt \<Rightarrow> ptr \<Rightarrow> bool" where
  "fresh_node s t node \<longleftrightarrow> node \<noteq> NULL \<and> aligned node \<and> node \<notin> set (io t) \<and> rb_mem s node \<noteq> None"

lemma node_link:
  assumes rep: "rb_rep s (plug k Lf)" and n: "fresh_node s (plug k Lf) node"
  shows "\<exists>s'. hev_rbtree_node_link s node (cpar k) (klink k) = Some s' \<and>
    rb_rep s' (plug k (Nd Red Lf node Lf)) \<and> same_off (insert node (set (io (plug k Lf)))) s s'"
proof -
  note R = rep [unfolded rb_rep_plug, simplified]
  obtain x where x: "node \<noteq> NULL" "aligned node" "rb_mem s node = Some x"
    and f: "node \<notin> set (iol k @ ior k)" using n by (auto simp: fresh_node_def io_plug)
  let ?s1 = "s\<lparr>rb_mem := (rb_mem s)(node \<mapsto> \<lparr>parent_color = cpar k, r_right = NULL, r_left = NULL\<rparr>)\<rparr>"
  have "ctr ?s1 k NULL = ctr s k NULL" using f by (intro ctr_frame) auto
  then have c1: "ctr ?s1 k NULL" using R by simp
  have x1: "rb_mem ?s1 node = Some \<lparr>parent_color = cpar k, r_right = NULL, r_left = NULL\<rparr>" by simp
  have "\<exists>s'. store_link ?s1 (klink k) node = Some s' \<and> ctr s' k node \<and>
      rb_mem s' node = rb_mem ?s1 node \<and> same_off (set (iol k @ ior k)) ?s1 s'"
  proof (cases k rule: klink.cases)
    case (2 c p r k')
    have "ctr (?s1\<lparr>rb_mem := (rb_mem ?s1)(p \<mapsto> y)\<rparr>) k' p = ctr ?s1 k' p" for y
      by (rule ctr_frame) (use R 2 in auto)
    then show ?thesis using c1 R f 2 by (auto simp: rb_exec same_off_def)
  next
    case (3 c l p k')
    have "ctr (?s1\<lparr>rb_mem := (rb_mem ?s1)(p \<mapsto> y)\<rparr>) k' p = ctr ?s1 k' p" for y
      by (rule ctr_frame) (use R 3 in auto)
    then show ?thesis using c1 R f 3 by (auto simp: rb_exec same_off_def)
  qed (simp add: same_off_def)
  then obtain s' where s': "store_link ?s1 (klink k) node = Some s'" "ctr s' k node"
    "rb_mem s' node = rb_mem ?s1 node" "same_off (set (iol k @ ior k)) ?s1 s'" by blast
  have "hev_rbtree_node_link s node (cpar k) (klink k) = Some s'"
    using s'(1) x by (cases x) (simp add: hev_rbtree_node_link_def rb_exec)
  moreover have "same_off ({node} \<union> set (iol k @ ior k)) s s'"
    by (rule same_off_wr [OF s'(4)]) (use x in auto)
  ultimately show ?thesis using s' R x f by (auto simp: rb_rep_plug io_plug)
qed

lemma insert_color_link:
  assumes rep: "rb_rep s (plug k (Nd Red Lf node Lf))" and ok: "rb_ok (plug k Lf)"
  shows "\<exists>s' t'. hev_rbtree_insert_color s node = Some s' \<and> rb_rep s' t' \<and> rb_ok t' \<and>
    io t' = iol k @ node # ior k \<and> same_off (set (iol k @ node # ior k)) s s'"
proof -
  let ?n = "Nd Red Lf node Lf"
  note ok' = rb_ok_plugD [OF ok]
  have "hev_rbtree_insert_color s node = insert_color_loop s node (cpar k)"
    using rep by (auto simp: hev_rbtree_insert_color_def rb_rep_plug rb_exec)
  moreover obtain s' where "insert_color_loop s node (cpar k) = Some s'" "rb_rep s' (ins_fix k ?n)"
      "same_off (set (io (plug k ?n))) s s'"
    using insert_color_loop [OF rep] ok' by auto
  moreover have "rb_ok (ins_fix k ?n)" by (rule rb_ok_ins_fix) (use ok' in auto)
  ultimately show ?thesis using io_ins_fix [of ?n k] by (auto simp: io_plug)
qed

lemma rbtree_insert:
  assumes "rb_rep s (plug k Lf)" and "rb_ok (plug k Lf)" and "fresh_node s (plug k Lf) node"
  shows "\<exists>s1 s' t'. hev_rbtree_node_link s node (cpar k) (klink k) = Some s1 \<and>
    hev_rbtree_insert_color s1 node = Some s' \<and> rb_rep s' t' \<and> rb_ok t' \<and>
    io t' = iol k @ node # ior k \<and> same_off (set (iol k @ node # ior k)) s s'"
proof -
  obtain s1 where s1: "hev_rbtree_node_link s node (cpar k) (klink k) = Some s1"
      "rb_rep s1 (plug k (Nd Red Lf node Lf))" "same_off (insert node (set (io (plug k Lf)))) s s1"
    using node_link [OF assms(1,3)] by blast
  obtain s' t' where s': "hev_rbtree_insert_color s1 node = Some s'" "rb_rep s' t'" "rb_ok t'"
      "io t' = iol k @ node # ior k" "same_off (set (iol k @ node # ior k)) s1 s'"
    using insert_color_link [OF s1(2) assms(2)] by blast
  have "same_off (set (iol k @ node # ior k)) s s'"
    by (rule same_off_trans [OF s1(3) s'(5)]) (simp add: io_plug)
  then show ?thesis using s1(1) s' by blast
qed

text \<open>C14: linking a fresh node at any empty position \<open>k\<close> of a red-black tree and running
  \<open>hev_rbtree_insert_color\<close> ends, dereferences only allocated nodes, and leaves in memory a
  red-black tree (red nodes have black children, equal black heights, black root) whose
  in-order sequence has the node at that position; memory outside the tree is untouched.\<close>

theorem rbtree_insert_correct:
  assumes "rb_rep s (plug k Lf)" and "rb_ok (plug k Lf)" and "fresh_node s (plug k Lf) node"
  shows "\<exists>s1 s' t'. hev_rbtree_node_link s node (cpar k) (klink k) = Some s1 \<and>
    hev_rbtree_insert_color s1 node = Some s' \<and> rb_rep s' t' \<and> rb_ok t' \<and>
    io t' = iol k @ node # ior k \<and> same_off (set (iol k @ node # ior k)) s s'"
  using rbtree_insert [OF assms] .

text \<open>The witness: a third node below the left child of a tree of two nodes, which rotates.\<close>

definition two_nodes :: HevRBTree where
  "two_nodes = \<lparr>rb_root = 32, rb_mem =
     [32 \<mapsto> \<lparr>parent_color = 1, r_right = 0, r_left = 16\<rparr>,
      16 \<mapsto> \<lparr>parent_color = 32, r_right = 0, r_left = 0\<rparr>,
      8 \<mapsto> \<lparr>parent_color = 0, r_right = 0, r_left = 0\<rparr>]\<rparr>"

theorem rbtree_insert_correct_witness:
  "\<exists>s1 s' t'. hev_rbtree_node_link two_nodes 8 16 (LinkLeft 16) = Some s1 \<and>
    hev_rbtree_insert_color s1 8 = Some s' \<and> rb_rep s' t' \<and> rb_ok t' \<and>
    io t' = [8, 16, 32] \<and> same_off {8, 16, 32} two_nodes s'"
proof -
  let ?k = "[FL Red 16 Lf, FL Black 32 Lf]"
  have "rb_rep two_nodes (plug ?k Lf)" by (simp add: rb_rep_def two_nodes_def aligned_def)
  moreover have "rb_ok (plug ?k Lf)" by (simp add: rb_ok_def)
  moreover have "fresh_node two_nodes (plug ?k Lf) 8" by (simp add: fresh_node_def two_nodes_def aligned_def)
  ultimately show ?thesis using rbtree_insert_correct [of two_nodes ?k 8] by simp
qed

end
