(* ===== verification/RBTreeErase.thy ===== *)
theory RBTreeErase
  imports RBTreeShape
begin

text \<open>
  Correctness of \<open>hev_rbtree_erase\<close>: the unlinking of a node, the rebalancing as a function
  on trees and positions, that it restores the red-black invariants, and that the pointer
  program implements it.
\<close>

section \<open>Rotations\<close>

lemma erase_case1_left:
  assumes rep: "rb_rep s (plug k (Nd c t p (Nd Red sl x sr)))" and sl: "sl \<noteq> Lf" "colr sl = Black"
  shows "\<exists>s'. erase_case1_left s p x = Some (s', ad sl) \<and> rb_rep s' (plug k (Nd c (Nd Red t p sl) x sr)) \<and>
    same_off (set (io (plug k (Nd c t p (Nd Red sl x sr))))) s s'"
proof -
  note R = rep [unfolded rb_rep_plug, simplified]
  note D = rep [unfolded rb_rep_def, THEN conjunct1, unfolded io_plug, simplified]
  have dk: "distinct (iol k @ ior k)" and ne: "p \<noteq> x" "x \<noteq> p" and al: "aligned p" using R by auto
  have mem: "\<exists>v. rb_mem s p = Some v" "\<exists>v. rb_mem s x = Some v" using R by auto
  let ?s1 = "s\<lparr>rb_mem := (rb_mem s)(p \<mapsto> \<lparr>parent_color = cpar k OR col c, r_right = ad sl, r_left = ad t\<rparr>, x \<mapsto> \<lparr>parent_color = p, r_right = ad sr, r_left = p\<rparr>)\<rparr>"
  have "tr (rb_mem ?s1) x sl" "distinct (io sl)" using R by auto
  then obtain s2 where s2: "set_parent_color_opt ?s1 (ad sl) p (col Black) = Some s2"
      "rb_root s2 = rb_root s" "tr (rb_mem s2) p sl" "same_off (set (io sl)) ?s1 s2"
    using set_parent_color_opt_tr [of ?s1 x sl p Black] sl by auto
  have off: "same_off ({p, x} \<union> set (io sl)) s s2" by (rule same_off_wr [OF s2(4)]) (use mem in auto)
  have "set (iol k @ ior k) \<inter> ({p, x} \<union> set (io sl)) = {}" using D by (simp add: disj_sets)
  then have c: "ctr s2 k p" using R s2(2) same_off_ctr [OF off, of k p] by simp
  have m2: "rb_mem s2 p = Some \<lparr>parent_color = cpar k OR col c, r_right = ad sl, r_left = ad t\<rparr>" "rb_mem s2 x = Some \<lparr>parent_color = p, r_right = ad sr, r_left = p\<rparr>"
    using same_offD [OF s2(4), of p] same_offD [OF s2(4), of x] R by auto
  obtain s' where s': "hev_rbtree_rotate_set_parents s2 p x 0 = Some s'" "ctr s' k x"
      "rb_mem s' p = Some (\<lparr>parent_color = cpar k OR col c, r_right = ad sl, r_left = ad t\<rparr>\<lparr>parent_color := x OR 0\<rparr>)"
      "rb_mem s' x = Some (\<lparr>parent_color = p, r_right = ad sr, r_left = p\<rparr>\<lparr>parent_color := cpar k OR col c\<rparr>)"
      "same_off (set (iol k @ ior k) \<union> {p, x}) s2 s'"
    using rotate_set_parents [OF c dk _ _ m2(1) _ _ _ m2(2), of c 0] R by auto
  have dj: "set (io t) \<inter> ({p, x} \<union> set (io sl)) = {}" "set (io sr) \<inter> ({p, x} \<union> set (io sl)) = {}"
      "set (io t) \<inter> (set (iol k @ ior k) \<union> {p, x}) = {}" "set (io sr) \<inter> (set (iol k @ ior k) \<union> {p, x}) = {}"
      "set (io sl) \<inter> (set (iol k @ ior k) \<union> {p, x}) = {}"
    using D by (simp_all add: disj_sets)
  have "ad sl \<noteq> NULL" using R sl tr_ad by auto
  moreover have "hev_rbtree_node_is_red s x = Some True"
    using node_colour(1) [of x s _ p Red] R by simp
  ultimately have "erase_case1_left s p x = Some (s', ad sl)"
    using R ne s2(1) s'(1) by (simp add: erase_case1_left_def rb_exec set_parent_color_opt_def)
  moreover have "tr (rb_mem s') p t" "tr (rb_mem s') p sl" "tr (rb_mem s') x sr"
    using R s2(3) dj by (simp_all add: same_off_tr [OF off] same_off_tr [OF s'(5)])
  moreover have "same_off (set (io (plug k (Nd c t p (Nd Red sl x sr))))) s s'"
    by (rule same_off_trans [OF off s'(5)]) (auto simp: io_plug)
  ultimately show ?thesis using R s' by (auto simp: rb_rep_plug)
qed

lemma erase_case4_left:
  assumes rep: "rb_rep s (plug k (Nd c t p (Nd Black sl x sr)))" and sr: "colr sr = Red"
  shows "\<exists>s'. erase_case4_left s p x (ad sr) = Some s' \<and> rb_rep s' (plug k (Nd c (Nd Black t p sl) x (paint Black sr))) \<and>
    same_off (set (io (plug k (Nd c t p (Nd Black sl x sr))))) s s'"
proof -
  note R = rep [unfolded rb_rep_plug, simplified]
  note D = rep [unfolded rb_rep_def, THEN conjunct1, unfolded io_plug, simplified]
  have dk: "distinct (iol k @ ior k)" and ne: "p \<noteq> x" "x \<noteq> p" and al: "aligned x" using R by auto
  have mem: "\<exists>v. rb_mem s p = Some v" "\<exists>v. rb_mem s x = Some v" using R by auto
  have nl: "ad sr \<noteq> NULL" using R sr tr_ad [of "rb_mem s" x sr] by auto
  let ?s1 = "s\<lparr>rb_mem := (rb_mem s)(p \<mapsto> \<lparr>parent_color = cpar k OR col c, r_right = ad sl, r_left = ad t\<rparr>, x \<mapsto> \<lparr>parent_color = p OR col Black, r_right = ad sr, r_left = p\<rparr>)\<rparr>"
  have "tr (rb_mem ?s1) x sr" "distinct (io sr)" using R by auto
  then obtain s2 where s2: "set_parent_color_opt ?s1 (ad sr) x (col Black) = Some s2"
      "rb_root s2 = rb_root s" "tr (rb_mem s2) x (paint Black sr)" "same_off (set (io sr)) ?s1 s2"
    using set_parent_color_opt_tr [of ?s1 x sr x Black] by auto
  have o2: "same_off ({p, x} \<union> set (io sr)) s s2" by (rule same_off_wr [OF s2(4)]) (use mem in auto)
  have "set (io sl) \<inter> ({p, x} \<union> set (io sr)) = {}" using D by (simp add: disj_sets)
  then have "tr (rb_mem s2) x sl" "distinct (io sl)" using R by (simp_all add: same_off_tr [OF o2])
  then obtain s3 where s3: "set_parent_opt s2 (ad sl) p = Some s3"
      "rb_root s3 = rb_root s" "tr (rb_mem s3) p sl" "same_off (set (io sl)) s2 s3"
    using set_parent_opt_tr [of s2 x sl p] al s2(2) by auto
  have off: "same_off ({p, x} \<union> set (io sl) \<union> set (io sr)) s s3" by (rule same_off_trans [OF o2 s3(4)]) auto
  have "set (iol k @ ior k) \<inter> ({p, x} \<union> set (io sl) \<union> set (io sr)) = {}" using D by (simp add: disj_sets)
  then have c: "ctr s3 k p" using R s3(2) same_off_ctr [OF off, of k p] by simp
  have m3: "rb_mem s3 p = Some \<lparr>parent_color = cpar k OR col c, r_right = ad sl, r_left = ad t\<rparr>" "rb_mem s3 x = Some \<lparr>parent_color = p OR col Black, r_right = ad sr, r_left = p\<rparr>"
    using same_offD [OF s2(4), of p] same_offD [OF s2(4), of x] same_offD [OF s3(4), of p] same_offD [OF s3(4), of x] R by auto
  obtain s' where s': "hev_rbtree_rotate_set_parents s3 p x 1 = Some s'" "ctr s' k x"
      "rb_mem s' p = Some (\<lparr>parent_color = cpar k OR col c, r_right = ad sl, r_left = ad t\<rparr>\<lparr>parent_color := x OR 1\<rparr>)"
      "rb_mem s' x = Some (\<lparr>parent_color = p OR col Black, r_right = ad sr, r_left = p\<rparr>\<lparr>parent_color := cpar k OR col c\<rparr>)"
      "same_off (set (iol k @ ior k) \<union> {p, x}) s3 s'"
    using rotate_set_parents [OF c dk _ _ m3(1) _ _ _ m3(2), of c 1] R by auto
  have dj: "set (io t) \<inter> ({p, x} \<union> set (io sl) \<union> set (io sr)) = {}" "set (io sr) \<inter> set (io sl) = {}"
      "set (io t) \<inter> (set (iol k @ ior k) \<union> {p, x}) = {}" "set (io sr) \<inter> (set (iol k @ ior k) \<union> {p, x}) = {}"
      "set (io sl) \<inter> (set (iol k @ ior k) \<union> {p, x}) = {}"
    using D by (simp_all add: disj_sets)
  have "erase_case4_left s p x (ad sr) = Some s'"
    using R ne nl s2(1) s3(1) s'(1) by (simp add: erase_case4_left_def rb_exec set_parent_color_opt_def)
  moreover have "tr (rb_mem s') p t" "tr (rb_mem s') p sl" "tr (rb_mem s') x (paint Black sr)"
    using R s2(3) s3(3) dj by (simp_all add: same_off_tr [OF off] same_off_tr [OF s3(4)] same_off_tr [OF s'(5)])
  moreover have "same_off (set (io (plug k (Nd c t p (Nd Black sl x sr))))) s s'"
    by (rule same_off_trans [OF off s'(5)]) (auto simp: io_plug)
  ultimately show ?thesis using R s' by (auto simp: rb_rep_plug)
qed

lemma erase_case34_left:
  assumes rep: "rb_rep s (plug k (Nd c t p (Nd Black (Nd Red a y b) x sr)))" and b: "colr b = Black"
  shows "\<exists>s3 s'. erase_case3_left s p x y = Some s3 \<and> erase_case4_left s3 p y x = Some s' \<and>
    rb_rep s' (plug k (Nd c (Nd Black t p a) y (Nd Black b x sr))) \<and> same_off (set (io (plug k (Nd c t p (Nd Black (Nd Red a y b) x sr))))) s s'"
proof -
  note R = rep [unfolded rb_rep_plug, simplified]
  note D = rep [unfolded rb_rep_def, THEN conjunct1, unfolded io_plug, simplified]
  have dk: "distinct (iol k @ ior k)" and al: "aligned y"
    and ne: "p \<noteq> x" "x \<noteq> p" "p \<noteq> y" "y \<noteq> p" "x \<noteq> y" "y \<noteq> x" "x \<noteq> NULL" "y \<noteq> NULL" "p \<noteq> NULL" using R by auto
  have mem: "\<exists>v. rb_mem s p = Some v" "\<exists>v. rb_mem s x = Some v" "\<exists>v. rb_mem s y = Some v" using R by auto
  let ?s1 = "s\<lparr>rb_mem := (rb_mem s)(x \<mapsto> \<lparr>parent_color = p OR col Black, r_right = ad sr, r_left = ad b\<rparr>, y \<mapsto> \<lparr>parent_color = x, r_right = x, r_left = ad a\<rparr>, p \<mapsto> \<lparr>parent_color = cpar k OR col c, r_right = y, r_left = ad t\<rparr>)\<rparr>"
  have "tr (rb_mem ?s1) y b" "distinct (io b)" using R by auto
  then obtain s2 where s2: "set_parent_color_opt ?s1 (ad b) x (col Black) = Some s2"
      "rb_root s2 = rb_root s" "tr (rb_mem s2) x b" "same_off (set (io b)) ?s1 s2"
    using set_parent_color_opt_tr [of ?s1 y b x Black] b by auto
  have m2: "rb_mem s2 p = Some \<lparr>parent_color = cpar k OR col c, r_right = y, r_left = ad t\<rparr>" "rb_mem s2 y = Some \<lparr>parent_color = x, r_right = x, r_left = ad a\<rparr>"
      "rb_mem s2 x = Some \<lparr>parent_color = p OR col Black, r_right = ad sr, r_left = ad b\<rparr>"
    using same_offD [OF s2(4), of p] same_offD [OF s2(4), of x] same_offD [OF s2(4), of y] R by auto
  have e3: "erase_case3_left s p x y = Some s2"
    using R ne s2(1) by (simp add: erase_case3_left_def rb_exec)
  have o2: "same_off ({p, x, y} \<union> set (io b)) s s2" by (rule same_off_wr [OF s2(4)]) (use mem in auto)
  let ?s3 = "s2\<lparr>rb_mem := (rb_mem s2)(p \<mapsto> \<lparr>parent_color = cpar k OR col c, r_right = ad a, r_left = ad t\<rparr>, y \<mapsto> \<lparr>parent_color = x, r_right = x, r_left = p\<rparr>, x \<mapsto> \<lparr>parent_color = y OR col Black, r_right = ad sr, r_left = ad b\<rparr>)\<rparr>"
  have "set (io a) \<inter> ({p, x, y} \<union> set (io b)) = {}" using D by (simp add: disj_sets)
  then have "tr (rb_mem ?s3) y a" "distinct (io a)" using R same_off_tr [OF o2, of a y] by auto
  then obtain s4 where s4: "set_parent_opt ?s3 (ad a) p = Some s4"
      "rb_root s4 = rb_root s" "tr (rb_mem s4) p a" "same_off (set (io a)) ?s3 s4"
    using set_parent_opt_tr [of ?s3 y a p] al s2(2) by auto
  have o4: "same_off ({p, x, y} \<union> set (io a)) s2 s4" by (rule same_off_wr [OF s4(4)]) (use m2 in auto)
  have off: "same_off ({p, x, y} \<union> set (io a) \<union> set (io b)) s s4" by (rule same_off_trans [OF o2 o4]) auto
  have "set (iol k @ ior k) \<inter> ({p, x, y} \<union> set (io a) \<union> set (io b)) = {}" using D by (simp add: disj_sets)
  then have c: "ctr s4 k p" using R s4(2) same_off_ctr [OF off, of k p] by simp
  have m4: "rb_mem s4 p = Some \<lparr>parent_color = cpar k OR col c, r_right = ad a, r_left = ad t\<rparr>" "rb_mem s4 y = Some \<lparr>parent_color = x, r_right = x, r_left = p\<rparr>"
      "rb_mem s4 x = Some \<lparr>parent_color = y OR col Black, r_right = ad sr, r_left = ad b\<rparr>"
    using same_offD [OF s4(4), of p] same_offD [OF s4(4), of x] same_offD [OF s4(4), of y] R by auto
  obtain s' where s': "hev_rbtree_rotate_set_parents s4 p y 1 = Some s'" "ctr s' k y"
      "rb_mem s' p = Some (\<lparr>parent_color = cpar k OR col c, r_right = ad a, r_left = ad t\<rparr>\<lparr>parent_color := y OR 1\<rparr>)"
      "rb_mem s' y = Some (\<lparr>parent_color = x, r_right = x, r_left = p\<rparr>\<lparr>parent_color := cpar k OR col c\<rparr>)"
      "same_off (set (iol k @ ior k) \<union> {p, y}) s4 s'"
    using rotate_set_parents [OF c dk _ _ m4(1) _ _ _ m4(2), of c 1] R by auto
  have dj: "set (io t) \<inter> ({p, x, y} \<union> set (io a) \<union> set (io b)) = {}" "set (io sr) \<inter> ({p, x, y} \<union> set (io a) \<union> set (io b)) = {}"
      "set (io b) \<inter> ({p, x, y} \<union> set (io a)) = {}"
      "set (io t) \<inter> (set (iol k @ ior k) \<union> {p, y}) = {}" "set (io sr) \<inter> (set (iol k @ ior k) \<union> {p, y}) = {}"
      "set (io a) \<inter> (set (iol k @ ior k) \<union> {p, y}) = {}" "set (io b) \<inter> (set (iol k @ ior k) \<union> {p, y}) = {}"
      "x \<notin> set (iol k @ ior k) \<union> {p, y}"
    using D ne by (simp_all add: disj_sets)
  have "erase_case4_left s2 p y x = Some s'"
    using ne m2 s4(1) s'(1) by (simp add: erase_case4_left_def rb_exec)
  moreover have "tr (rb_mem s') p t" "tr (rb_mem s') p a" "tr (rb_mem s') x b" "tr (rb_mem s') x sr"
    using R s2(3) s4(3) dj by (simp_all add: same_off_tr [OF off] same_off_tr [OF o4] same_off_tr [OF s'(5)])
  moreover have "rb_mem s' x = Some \<lparr>parent_color = y OR col Black, r_right = ad sr, r_left = ad b\<rparr>"
    using m4(3) same_offD [OF s'(5) dj(8)] by simp
  moreover have "same_off (set (io (plug k (Nd c t p (Nd Black (Nd Red a y b) x sr))))) s s'"
    by (rule same_off_trans [OF off s'(5)]) (auto simp: io_plug)
  ultimately show ?thesis using R s' e3 by (auto simp: rb_rep_plug)
qed

lemma erase_case1_right:
  assumes rep: "rb_rep s (plug k (Nd c (Nd Red sr x sl) p t))" and sl: "sl \<noteq> Lf" "colr sl = Black"
  shows "\<exists>s'. erase_case1_right s p x = Some (s', ad sl) \<and> rb_rep s' (plug k (Nd c sr x (Nd Red sl p t))) \<and>
    same_off (set (io (plug k (Nd c (Nd Red sr x sl) p t)))) s s'"
proof -
  note R = rep [unfolded rb_rep_plug, simplified]
  note D = rep [unfolded rb_rep_def, THEN conjunct1, unfolded io_plug, simplified]
  have dk: "distinct (iol k @ ior k)" and ne: "p \<noteq> x" "x \<noteq> p" and al: "aligned p" using R by auto
  have mem: "\<exists>v. rb_mem s p = Some v" "\<exists>v. rb_mem s x = Some v" using R by auto
  let ?s1 = "s\<lparr>rb_mem := (rb_mem s)(p \<mapsto> \<lparr>parent_color = cpar k OR col c, r_right = ad t, r_left = ad sl\<rparr>, x \<mapsto> \<lparr>parent_color = p, r_right = p, r_left = ad sr\<rparr>)\<rparr>"
  have "tr (rb_mem ?s1) x sl" "distinct (io sl)" using R by auto
  then obtain s2 where s2: "set_parent_color_opt ?s1 (ad sl) p (col Black) = Some s2"
      "rb_root s2 = rb_root s" "tr (rb_mem s2) p sl" "same_off (set (io sl)) ?s1 s2"
    using set_parent_color_opt_tr [of ?s1 x sl p Black] sl by auto
  have off: "same_off ({p, x} \<union> set (io sl)) s s2" by (rule same_off_wr [OF s2(4)]) (use mem in auto)
  have "set (iol k @ ior k) \<inter> ({p, x} \<union> set (io sl)) = {}" using D by (simp add: disj_sets)
  then have c: "ctr s2 k p" using R s2(2) same_off_ctr [OF off, of k p] by simp
  have m2: "rb_mem s2 p = Some \<lparr>parent_color = cpar k OR col c, r_right = ad t, r_left = ad sl\<rparr>" "rb_mem s2 x = Some \<lparr>parent_color = p, r_right = p, r_left = ad sr\<rparr>"
    using same_offD [OF s2(4), of p] same_offD [OF s2(4), of x] R by auto
  obtain s' where s': "hev_rbtree_rotate_set_parents s2 p x 0 = Some s'" "ctr s' k x"
      "rb_mem s' p = Some (\<lparr>parent_color = cpar k OR col c, r_right = ad t, r_left = ad sl\<rparr>\<lparr>parent_color := x OR 0\<rparr>)"
      "rb_mem s' x = Some (\<lparr>parent_color = p, r_right = p, r_left = ad sr\<rparr>\<lparr>parent_color := cpar k OR col c\<rparr>)"
      "same_off (set (iol k @ ior k) \<union> {p, x}) s2 s'"
    using rotate_set_parents [OF c dk _ _ m2(1) _ _ _ m2(2), of c 0] R by auto
  have dj: "set (io t) \<inter> ({p, x} \<union> set (io sl)) = {}" "set (io sr) \<inter> ({p, x} \<union> set (io sl)) = {}"
      "set (io t) \<inter> (set (iol k @ ior k) \<union> {p, x}) = {}" "set (io sr) \<inter> (set (iol k @ ior k) \<union> {p, x}) = {}"
      "set (io sl) \<inter> (set (iol k @ ior k) \<union> {p, x}) = {}"
    using D by (simp_all add: disj_sets)
  have "ad sl \<noteq> NULL" using R sl tr_ad by auto
  moreover have "hev_rbtree_node_is_red s x = Some True"
    using node_colour(1) [of x s _ p Red] R by simp
  ultimately have "erase_case1_right s p x = Some (s', ad sl)"
    using R ne s2(1) s'(1) by (simp add: erase_case1_right_def rb_exec set_parent_color_opt_def)
  moreover have "tr (rb_mem s') p t" "tr (rb_mem s') p sl" "tr (rb_mem s') x sr"
    using R s2(3) dj by (simp_all add: same_off_tr [OF off] same_off_tr [OF s'(5)])
  moreover have "same_off (set (io (plug k (Nd c (Nd Red sr x sl) p t)))) s s'"
    by (rule same_off_trans [OF off s'(5)]) (auto simp: io_plug)
  ultimately show ?thesis using R s' by (auto simp: rb_rep_plug)
qed

lemma erase_case4_right:
  assumes rep: "rb_rep s (plug k (Nd c (Nd Black sr x sl) p t))" and sr: "colr sr = Red"
  shows "\<exists>s'. erase_case4_right s p x (ad sr) = Some s' \<and> rb_rep s' (plug k (Nd c (paint Black sr) x (Nd Black sl p t))) \<and>
    same_off (set (io (plug k (Nd c (Nd Black sr x sl) p t)))) s s'"
proof -
  note R = rep [unfolded rb_rep_plug, simplified]
  note D = rep [unfolded rb_rep_def, THEN conjunct1, unfolded io_plug, simplified]
  have dk: "distinct (iol k @ ior k)" and ne: "p \<noteq> x" "x \<noteq> p" and al: "aligned x" using R by auto
  have mem: "\<exists>v. rb_mem s p = Some v" "\<exists>v. rb_mem s x = Some v" using R by auto
  have nl: "ad sr \<noteq> NULL" using R sr tr_ad [of "rb_mem s" x sr] by auto
  let ?s1 = "s\<lparr>rb_mem := (rb_mem s)(p \<mapsto> \<lparr>parent_color = cpar k OR col c, r_right = ad t, r_left = ad sl\<rparr>, x \<mapsto> \<lparr>parent_color = p OR col Black, r_right = p, r_left = ad sr\<rparr>)\<rparr>"
  have "tr (rb_mem ?s1) x sr" "distinct (io sr)" using R by auto
  then obtain s2 where s2: "set_parent_color_opt ?s1 (ad sr) x (col Black) = Some s2"
      "rb_root s2 = rb_root s" "tr (rb_mem s2) x (paint Black sr)" "same_off (set (io sr)) ?s1 s2"
    using set_parent_color_opt_tr [of ?s1 x sr x Black] by auto
  have o2: "same_off ({p, x} \<union> set (io sr)) s s2" by (rule same_off_wr [OF s2(4)]) (use mem in auto)
  have "set (io sl) \<inter> ({p, x} \<union> set (io sr)) = {}" using D by (simp add: disj_sets)
  then have "tr (rb_mem s2) x sl" "distinct (io sl)" using R by (simp_all add: same_off_tr [OF o2])
  then obtain s3 where s3: "set_parent_opt s2 (ad sl) p = Some s3"
      "rb_root s3 = rb_root s" "tr (rb_mem s3) p sl" "same_off (set (io sl)) s2 s3"
    using set_parent_opt_tr [of s2 x sl p] al s2(2) by auto
  have off: "same_off ({p, x} \<union> set (io sl) \<union> set (io sr)) s s3" by (rule same_off_trans [OF o2 s3(4)]) auto
  have "set (iol k @ ior k) \<inter> ({p, x} \<union> set (io sl) \<union> set (io sr)) = {}" using D by (simp add: disj_sets)
  then have c: "ctr s3 k p" using R s3(2) same_off_ctr [OF off, of k p] by simp
  have m3: "rb_mem s3 p = Some \<lparr>parent_color = cpar k OR col c, r_right = ad t, r_left = ad sl\<rparr>" "rb_mem s3 x = Some \<lparr>parent_color = p OR col Black, r_right = p, r_left = ad sr\<rparr>"
    using same_offD [OF s2(4), of p] same_offD [OF s2(4), of x] same_offD [OF s3(4), of p] same_offD [OF s3(4), of x] R by auto
  obtain s' where s': "hev_rbtree_rotate_set_parents s3 p x 1 = Some s'" "ctr s' k x"
      "rb_mem s' p = Some (\<lparr>parent_color = cpar k OR col c, r_right = ad t, r_left = ad sl\<rparr>\<lparr>parent_color := x OR 1\<rparr>)"
      "rb_mem s' x = Some (\<lparr>parent_color = p OR col Black, r_right = p, r_left = ad sr\<rparr>\<lparr>parent_color := cpar k OR col c\<rparr>)"
      "same_off (set (iol k @ ior k) \<union> {p, x}) s3 s'"
    using rotate_set_parents [OF c dk _ _ m3(1) _ _ _ m3(2), of c 1] R by auto
  have dj: "set (io t) \<inter> ({p, x} \<union> set (io sl) \<union> set (io sr)) = {}" "set (io sr) \<inter> set (io sl) = {}"
      "set (io t) \<inter> (set (iol k @ ior k) \<union> {p, x}) = {}" "set (io sr) \<inter> (set (iol k @ ior k) \<union> {p, x}) = {}"
      "set (io sl) \<inter> (set (iol k @ ior k) \<union> {p, x}) = {}"
    using D by (simp_all add: disj_sets)
  have "erase_case4_right s p x (ad sr) = Some s'"
    using R ne nl s2(1) s3(1) s'(1) by (simp add: erase_case4_right_def rb_exec set_parent_color_opt_def)
  moreover have "tr (rb_mem s') p t" "tr (rb_mem s') p sl" "tr (rb_mem s') x (paint Black sr)"
    using R s2(3) s3(3) dj by (simp_all add: same_off_tr [OF off] same_off_tr [OF s3(4)] same_off_tr [OF s'(5)])
  moreover have "same_off (set (io (plug k (Nd c (Nd Black sr x sl) p t)))) s s'"
    by (rule same_off_trans [OF off s'(5)]) (auto simp: io_plug)
  ultimately show ?thesis using R s' by (auto simp: rb_rep_plug)
qed

lemma erase_case34_right:
  assumes rep: "rb_rep s (plug k (Nd c (Nd Black sr x (Nd Red b y a)) p t))" and b: "colr b = Black"
  shows "\<exists>s3 s'. erase_case3_right s p x y = Some s3 \<and> erase_case4_right s3 p y x = Some s' \<and>
    rb_rep s' (plug k (Nd c (Nd Black sr x b) y (Nd Black a p t))) \<and> same_off (set (io (plug k (Nd c (Nd Black sr x (Nd Red b y a)) p t)))) s s'"
proof -
  note R = rep [unfolded rb_rep_plug, simplified]
  note D = rep [unfolded rb_rep_def, THEN conjunct1, unfolded io_plug, simplified]
  have dk: "distinct (iol k @ ior k)" and al: "aligned y"
    and ne: "p \<noteq> x" "x \<noteq> p" "p \<noteq> y" "y \<noteq> p" "x \<noteq> y" "y \<noteq> x" "x \<noteq> NULL" "y \<noteq> NULL" "p \<noteq> NULL" using R by auto
  have mem: "\<exists>v. rb_mem s p = Some v" "\<exists>v. rb_mem s x = Some v" "\<exists>v. rb_mem s y = Some v" using R by auto
  let ?s1 = "s\<lparr>rb_mem := (rb_mem s)(x \<mapsto> \<lparr>parent_color = p OR col Black, r_right = ad b, r_left = ad sr\<rparr>, y \<mapsto> \<lparr>parent_color = x, r_right = ad a, r_left = x\<rparr>, p \<mapsto> \<lparr>parent_color = cpar k OR col c, r_right = ad t, r_left = y\<rparr>)\<rparr>"
  have "tr (rb_mem ?s1) y b" "distinct (io b)" using R by auto
  then obtain s2 where s2: "set_parent_color_opt ?s1 (ad b) x (col Black) = Some s2"
      "rb_root s2 = rb_root s" "tr (rb_mem s2) x b" "same_off (set (io b)) ?s1 s2"
    using set_parent_color_opt_tr [of ?s1 y b x Black] b by auto
  have m2: "rb_mem s2 p = Some \<lparr>parent_color = cpar k OR col c, r_right = ad t, r_left = y\<rparr>" "rb_mem s2 y = Some \<lparr>parent_color = x, r_right = ad a, r_left = x\<rparr>"
      "rb_mem s2 x = Some \<lparr>parent_color = p OR col Black, r_right = ad b, r_left = ad sr\<rparr>"
    using same_offD [OF s2(4), of p] same_offD [OF s2(4), of x] same_offD [OF s2(4), of y] R by auto
  have e3: "erase_case3_right s p x y = Some s2"
    using R ne s2(1) by (simp add: erase_case3_right_def rb_exec)
  have o2: "same_off ({p, x, y} \<union> set (io b)) s s2" by (rule same_off_wr [OF s2(4)]) (use mem in auto)
  let ?s3 = "s2\<lparr>rb_mem := (rb_mem s2)(p \<mapsto> \<lparr>parent_color = cpar k OR col c, r_right = ad t, r_left = ad a\<rparr>, y \<mapsto> \<lparr>parent_color = x, r_right = p, r_left = x\<rparr>, x \<mapsto> \<lparr>parent_color = y OR col Black, r_right = ad b, r_left = ad sr\<rparr>)\<rparr>"
  have "set (io a) \<inter> ({p, x, y} \<union> set (io b)) = {}" using D by (simp add: disj_sets)
  then have "tr (rb_mem ?s3) y a" "distinct (io a)" using R same_off_tr [OF o2, of a y] by auto
  then obtain s4 where s4: "set_parent_opt ?s3 (ad a) p = Some s4"
      "rb_root s4 = rb_root s" "tr (rb_mem s4) p a" "same_off (set (io a)) ?s3 s4"
    using set_parent_opt_tr [of ?s3 y a p] al s2(2) by auto
  have o4: "same_off ({p, x, y} \<union> set (io a)) s2 s4" by (rule same_off_wr [OF s4(4)]) (use m2 in auto)
  have off: "same_off ({p, x, y} \<union> set (io a) \<union> set (io b)) s s4" by (rule same_off_trans [OF o2 o4]) auto
  have "set (iol k @ ior k) \<inter> ({p, x, y} \<union> set (io a) \<union> set (io b)) = {}" using D by (simp add: disj_sets)
  then have c: "ctr s4 k p" using R s4(2) same_off_ctr [OF off, of k p] by simp
  have m4: "rb_mem s4 p = Some \<lparr>parent_color = cpar k OR col c, r_right = ad t, r_left = ad a\<rparr>" "rb_mem s4 y = Some \<lparr>parent_color = x, r_right = p, r_left = x\<rparr>"
      "rb_mem s4 x = Some \<lparr>parent_color = y OR col Black, r_right = ad b, r_left = ad sr\<rparr>"
    using same_offD [OF s4(4), of p] same_offD [OF s4(4), of x] same_offD [OF s4(4), of y] R by auto
  obtain s' where s': "hev_rbtree_rotate_set_parents s4 p y 1 = Some s'" "ctr s' k y"
      "rb_mem s' p = Some (\<lparr>parent_color = cpar k OR col c, r_right = ad t, r_left = ad a\<rparr>\<lparr>parent_color := y OR 1\<rparr>)"
      "rb_mem s' y = Some (\<lparr>parent_color = x, r_right = p, r_left = x\<rparr>\<lparr>parent_color := cpar k OR col c\<rparr>)"
      "same_off (set (iol k @ ior k) \<union> {p, y}) s4 s'"
    using rotate_set_parents [OF c dk _ _ m4(1) _ _ _ m4(2), of c 1] R by auto
  have dj: "set (io t) \<inter> ({p, x, y} \<union> set (io a) \<union> set (io b)) = {}" "set (io sr) \<inter> ({p, x, y} \<union> set (io a) \<union> set (io b)) = {}"
      "set (io b) \<inter> ({p, x, y} \<union> set (io a)) = {}"
      "set (io t) \<inter> (set (iol k @ ior k) \<union> {p, y}) = {}" "set (io sr) \<inter> (set (iol k @ ior k) \<union> {p, y}) = {}"
      "set (io a) \<inter> (set (iol k @ ior k) \<union> {p, y}) = {}" "set (io b) \<inter> (set (iol k @ ior k) \<union> {p, y}) = {}"
      "x \<notin> set (iol k @ ior k) \<union> {p, y}"
    using D ne by (simp_all add: disj_sets)
  have "erase_case4_right s2 p y x = Some s'"
    using ne m2 s4(1) s'(1) by (simp add: erase_case4_right_def rb_exec)
  moreover have "tr (rb_mem s') p t" "tr (rb_mem s') p a" "tr (rb_mem s') x b" "tr (rb_mem s') x sr"
    using R s2(3) s4(3) dj by (simp_all add: same_off_tr [OF off] same_off_tr [OF o4] same_off_tr [OF s'(5)])
  moreover have "rb_mem s' x = Some \<lparr>parent_color = y OR col Black, r_right = ad b, r_left = ad sr\<rparr>"
    using m4(3) same_offD [OF s'(5) dj(8)] by simp
  moreover have "same_off (set (io (plug k (Nd c (Nd Black sr x (Nd Red b y a)) p t)))) s s'"
    by (rule same_off_trans [OF off s'(5)]) (auto simp: io_plug)
  ultimately show ?thesis using R s' e3 by (auto simp: rb_rep_plug)
qed


section \<open>Rebalancing as a function\<close>

text \<open>The focus \<open>t\<close>, on the left or on the right of \<open>p\<close>, lacks one black node. The result
  is the new subtree and whether it still lacks one.\<close>

fun ers_black_left :: "color \<Rightarrow> rbt \<Rightarrow> ptr \<Rightarrow> rbt \<Rightarrow> rbt \<times> bool" where
  "ers_black_left c t p Lf = (Nd c t p Lf, False)"
| "ers_black_left c t p (Nd cs sl x sr) =
     (if colr sr = Black then
        (case sl of
           Nd Red a y b \<Rightarrow> (Nd c (Nd Black t p a) y (Nd Black b x sr), False)
         | _ \<Rightarrow> (Nd Black t p (Nd Red sl x sr), c = Black))
      else (Nd c (Nd Black t p sl) x (paint Black sr), False))"

fun ers_black_right :: "color \<Rightarrow> rbt \<Rightarrow> ptr \<Rightarrow> rbt \<Rightarrow> rbt \<times> bool" where
  "ers_black_right c t p Lf = (Nd c Lf p t, False)"
| "ers_black_right c t p (Nd cs sr x sl) =
     (if colr sr = Black then
        (case sl of
           Nd Red b y a \<Rightarrow> (Nd c (Nd Black sr x b) y (Nd Black a p t), False)
         | _ \<Rightarrow> (Nd Black (Nd Red sr x sl) p t, c = Black))
      else (Nd c (paint Black sr) x (Nd Black sl p t), False))"

fun ers_left :: "color \<Rightarrow> rbt \<Rightarrow> ptr \<Rightarrow> rbt \<Rightarrow> rbt \<times> bool" where
  "ers_left c t p (Nd Red sl x sr) = (Nd c (fst (ers_black_left Red t p sl)) x sr, False)"
| "ers_left c t p s = ers_black_left c t p s"

fun ers_right :: "color \<Rightarrow> rbt \<Rightarrow> ptr \<Rightarrow> rbt \<Rightarrow> rbt \<times> bool" where
  "ers_right c t p (Nd Red sr x sl) = (Nd c sr x (fst (ers_black_right Red t p sl)), False)"
| "ers_right c t p s = ers_black_right c t p s"

fun ers_fix :: "frame list \<Rightarrow> rbt \<Rightarrow> rbt" where
  "ers_fix [] t = t"
| "ers_fix (FL c p s # k) t =
     (let r = ers_left c t p s in if snd r then ers_fix k (fst r) else plug k (fst r))"
| "ers_fix (FR c s p # k) t =
     (let r = ers_right c t p s in if snd r then ers_fix k (fst r) else plug k (fst r))"

lemma io_ers_black: "io (fst (ers_black_left c t p s)) = io (Nd c t p s)"
  "io (fst (ers_black_right c t p s)) = io (Nd c s p t)"
  by (cases s; auto split: rbt.split color.split)+

lemma ers_black [simp]:
  "colr s = Black \<Longrightarrow> ers_left c t p s = ers_black_left c t p s"
  "colr s = Black \<Longrightarrow> ers_right c t p s = ers_black_right c t p s"
  by (cases s; auto)+

lemma io_ers: "io (fst (ers_left c t p s)) = io (Nd c t p s)"
  "io (fst (ers_right c t p s)) = io (Nd c s p t)"
  by (cases "colr s"; auto simp: io_ers_black dest: colr_Red_Nd)+

lemma io_ers_fix: "io (ers_fix k t) = io (plug k t)"
  by (induction k t rule: ers_fix.induct) (auto simp: Let_def io_ers io_plug)

text \<open>What a subtree that lacks one black node satisfies after the step.\<close>

definition ers_post :: "color \<Rightarrow> nat \<Rightarrow> rbt \<times> bool \<Rightarrow> bool" where
  "ers_post c n r \<longleftrightarrow> invc (fst r) \<and> invh (fst r) \<and>
     (if snd r then c = Black \<and> colr (fst r) = Black \<and> bh (fst r) = Suc n
      else (c = Black \<longrightarrow> colr (fst r) = Black) \<and> bh (fst r) = (if c = Black then Suc (Suc n) else Suc n))"

lemma ers_black_post:
  assumes "invc t" "invh t" "colr t = Black" "invc s" "invh s" "colr s = Black" "bh s = Suc (bh t)"
  shows "ers_post c (bh t) (ers_black_left c t p s)" "ers_post c (bh t) (ers_black_right c t p s)"
proof -
  obtain l x r where s: "s = Nd Black l x r" using assms(6,7) by (cases s) auto
  show "ers_post c (bh t) (ers_black_left c t p s)"
    using assms s by (cases c; cases "colr r"; cases l)
      (auto simp: ers_post_def bh_paint_Black invc_paint_Black split: color.splits dest: colr_Red_Nd)
  show "ers_post c (bh t) (ers_black_right c t p s)"
    using assms s by (cases c; cases "colr l"; cases r)
      (auto simp: ers_post_def bh_paint_Black invc_paint_Black split: color.splits dest: colr_Red_Nd)
qed

lemma ers_step_post:
  assumes "invc t" "invh t" "colr t = Black" "invc s" "invh s" "bh s = Suc (bh t)" "c = Red \<longrightarrow> colr s = Black"
  shows "ers_post c (bh t) (ers_left c t p s)" "ers_post c (bh t) (ers_right c t p s)"
proof -
  show "ers_post c (bh t) (ers_left c t p s)"
  proof (cases "colr s")
    case Red
    then obtain l x r where s: "s = Nd Red l x r" using colr_Red_Nd by blast
    have "ers_post Red (bh t) (ers_black_left Red t p l)" by (rule ers_black_post) (use assms s in auto)
    then show ?thesis using assms s by (cases c) (auto simp: ers_post_def split: if_splits)
  next
    case Black
    then show ?thesis using ers_black_post [of t s] assms Black by simp
  qed
  show "ers_post c (bh t) (ers_right c t p s)"
  proof (cases "colr s")
    case Red
    then obtain l x r where s: "s = Nd Red l x r" using colr_Red_Nd by blast
    have "ers_post Red (bh t) (ers_black_right Red t p r)" by (rule ers_black_post) (use assms s in auto)
    then show ?thesis using assms s by (cases c) (auto simp: ers_post_def split: if_splits)
  next
    case Black
    then show ?thesis using ers_black_post [of t s] assms Black by simp
  qed
qed


lemma rb_ok_ers_fix:
  "cinvc k \<Longrightarrow> cinvh k (Suc (bh t)) \<Longrightarrow> invc t \<Longrightarrow> invh t \<Longrightarrow> colr t = Black \<Longrightarrow> rb_ok (ers_fix k t)"
proof (induction k t rule: ers_fix.induct)
  case (2 c p s k t)
  let ?r = "ers_left c t p s"
  have post: "ers_post c (bh t) ?r" by (rule ers_step_post) (use "2.prems" in auto)
  show ?case
  proof (cases "snd ?r")
    case True
    then have "rb_ok (ers_fix k (fst ?r))"
      using "2.prems" post by (intro "2.IH") (auto simp: ers_post_def)
    with True show ?thesis by simp
  next
    case False
    then have "rb_ok (plug k (fst ?r))"
      using "2.prems" post by (intro rb_ok_plug; cases c) (simp_all add: ers_post_def)
    with False show ?thesis by simp
  qed
next
  case (3 c s p k t)
  let ?r = "ers_right c t p s"
  have post: "ers_post c (bh t) ?r" by (rule ers_step_post) (use "3.prems" in auto)
  show ?case
  proof (cases "snd ?r")
    case True
    then have "rb_ok (ers_fix k (fst ?r))"
      using "3.prems" post by (intro "3.IH") (auto simp: ers_post_def)
    with True show ?thesis by simp
  next
    case False
    then have "rb_ok (plug k (fst ?r))"
      using "3.prems" post by (intro rb_ok_plug; cases c) (simp_all add: ers_post_def)
    with False show ?thesis by simp
  qed
qed (simp add: rb_ok_def)

section \<open>The rebalancing loop\<close>

lemma erase_case2_left:
  assumes rep: "rb_rep s (plug k (Nd c t p (Nd Black sl x sr)))"
  shows "\<exists>s'. erase_case2 s p x = Some (s', if c = Black then cpar k else NULL) \<and>
    rb_rep s' (plug k (Nd Black t p (Nd Red sl x sr))) \<and> same_off (set (io (plug k (Nd c t p (Nd Black sl x sr))))) s s'"
proof -
  note R = rep [unfolded rb_rep_plug, simplified]
  have al: "aligned (cpar k)" using R ctr_cpar [of s k p] by simp
  have m: "rb_mem s p = Some \<lparr>parent_color = cpar k OR col c, r_right = x, r_left = ad t\<rparr>" "rb_mem s x = Some \<lparr>parent_color = p OR col Black, r_right = ad sr, r_left = ad sl\<rparr>"
    "p \<noteq> x" "x \<noteq> p" "p \<noteq> NULL" "x \<noteq> NULL" using R by auto
  let ?s = "s\<lparr>rb_mem := (rb_mem s)(x \<mapsto> \<lparr>parent_color = p OR col Red, r_right = ad sr, r_left = ad sl\<rparr>, p \<mapsto> \<lparr>parent_color = cpar k OR col Black, r_right = x, r_left = ad t\<rparr>)\<rparr>"
  have c: "ctr ?s k p = ctr s k p" by (rule ctr_frame) (use R in auto)
  have "(rb_mem s)(x \<mapsto> \<lparr>parent_color = p, r_right = ad sr, r_left = ad sl\<rparr>, p \<mapsto> \<lparr>parent_color = cpar k OR 1, r_right = x, r_left = ad t\<rparr>) =
      (rb_mem s)(x \<mapsto> \<lparr>parent_color = p, r_right = ad sr, r_left = ad sl\<rparr>)" if "c = Black" using that m by (auto intro!: ext)
  then have "erase_case2 s p x = Some (?s, if c = Black then cpar k else NULL)"
    using m al by (cases c) (simp_all add: erase_case2_def hev_rbtree_node_set_black_def rb_exec node_colour [where c = c and par = "cpar k"])
  moreover have "same_off (set (io (plug k (Nd c t p (Nd Black sl x sr))))) s ?s" using m(1,2) by (auto simp: same_off_def io_plug)
  ultimately show ?thesis using R c by (auto simp: rb_rep_plug)
qed

lemma erase_black_left:
  assumes rep: "rb_rep s (plug k (Nd c t p S))" and S: "S \<noteq> Lf" "colr S = Black" "invc S"
  shows "\<exists>s'. erase_black_left s p (ad S) = Some (s', if snd (ers_black_left c t p S) then cpar k else NULL) \<and>
    rb_rep s' (plug k (fst (ers_black_left c t p S))) \<and> same_off (set (io (plug k (Nd c t p S)))) s s'"
proof -
  obtain sl x sr where S': "S = Nd Black sl x sr" using S by (cases S) auto
  note R = rep [unfolded rb_rep_plug S', simplified]
  note rep' = rep [unfolded S']
  have m: "rb_mem s x = Some \<lparr>parent_color = p OR col Black, r_right = ad sr, r_left = ad sl\<rparr>" "x \<noteq> NULL" "aligned x"
    "is_black_opt s (ad sl) = Some (colr sl = Black)" "is_black_opt s (ad sr) = Some (colr sr = Black)"
    using R by (auto simp: is_red_opt_tr)
  consider (four) "colr sr = Red" | (two) "colr sr = Black" "colr sl = Black"
    | (three) a y b where "colr sr = Black" "sl = Nd Red a y b" "colr b = Black"
    using S S' by (cases "colr sr"; cases sl rule: colr.cases; cases "colr sl") auto
  then show ?thesis
  proof cases
    case four
    then show ?thesis using erase_case4_left [OF rep' four] m S' by (auto simp: erase_black_left_def rb_exec)
  next
    case two
    then show ?thesis using erase_case2_left [OF rep'] m S'
      by (cases sl) (auto simp: erase_black_left_def rb_exec)
  next
    case three
    then show ?thesis using erase_case34_left [OF rep' [unfolded three(2)]] m S'
      by (fastforce simp: erase_black_left_def rb_exec)
  qed
qed

lemma erase_case2_right:
  assumes rep: "rb_rep s (plug k (Nd c (Nd Black sr x sl) p t))"
  shows "\<exists>s'. erase_case2 s p x = Some (s', if c = Black then cpar k else NULL) \<and>
    rb_rep s' (plug k (Nd Black (Nd Red sr x sl) p t)) \<and> same_off (set (io (plug k (Nd c (Nd Black sr x sl) p t)))) s s'"
proof -
  note R = rep [unfolded rb_rep_plug, simplified]
  have al: "aligned (cpar k)" using R ctr_cpar [of s k p] by simp
  have m: "rb_mem s p = Some \<lparr>parent_color = cpar k OR col c, r_right = ad t, r_left = x\<rparr>" "rb_mem s x = Some \<lparr>parent_color = p OR col Black, r_right = ad sl, r_left = ad sr\<rparr>"
    "p \<noteq> x" "x \<noteq> p" "p \<noteq> NULL" "x \<noteq> NULL" using R by auto
  let ?s = "s\<lparr>rb_mem := (rb_mem s)(x \<mapsto> \<lparr>parent_color = p OR col Red, r_right = ad sl, r_left = ad sr\<rparr>, p \<mapsto> \<lparr>parent_color = cpar k OR col Black, r_right = ad t, r_left = x\<rparr>)\<rparr>"
  have c: "ctr ?s k p = ctr s k p" by (rule ctr_frame) (use R in auto)
  have "(rb_mem s)(x \<mapsto> \<lparr>parent_color = p, r_right = ad sl, r_left = ad sr\<rparr>, p \<mapsto> \<lparr>parent_color = cpar k OR 1, r_right = ad t, r_left = x\<rparr>) =
      (rb_mem s)(x \<mapsto> \<lparr>parent_color = p, r_right = ad sl, r_left = ad sr\<rparr>)" if "c = Black" using that m by (auto intro!: ext)
  then have "erase_case2 s p x = Some (?s, if c = Black then cpar k else NULL)"
    using m al by (cases c) (simp_all add: erase_case2_def hev_rbtree_node_set_black_def rb_exec node_colour [where c = c and par = "cpar k"])
  moreover have "same_off (set (io (plug k (Nd c (Nd Black sr x sl) p t)))) s ?s" using m(1,2) by (auto simp: same_off_def io_plug)
  ultimately show ?thesis using R c by (auto simp: rb_rep_plug)
qed

lemma erase_black_right:
  assumes rep: "rb_rep s (plug k (Nd c S p t))" and S: "S \<noteq> Lf" "colr S = Black" "invc S"
  shows "\<exists>s'. erase_black_right s p (ad S) = Some (s', if snd (ers_black_right c t p S) then cpar k else NULL) \<and>
    rb_rep s' (plug k (fst (ers_black_right c t p S))) \<and> same_off (set (io (plug k (Nd c S p t)))) s s'"
proof -
  obtain sl x sr where S': "S = Nd Black sr x sl" using S by (cases S) auto
  note R = rep [unfolded rb_rep_plug S', simplified]
  note rep' = rep [unfolded S']
  have m: "rb_mem s x = Some \<lparr>parent_color = p OR col Black, r_right = ad sl, r_left = ad sr\<rparr>" "x \<noteq> NULL" "aligned x"
    "is_black_opt s (ad sl) = Some (colr sl = Black)" "is_black_opt s (ad sr) = Some (colr sr = Black)"
    using R by (auto simp: is_red_opt_tr)
  consider (four) "colr sr = Red" | (two) "colr sr = Black" "colr sl = Black"
    | (three) a y b where "colr sr = Black" "sl = Nd Red b y a" "colr b = Black"
    using S S' by (cases "colr sr"; cases sl rule: colr.cases; cases "colr sl") auto
  then show ?thesis
  proof cases
    case four
    then show ?thesis using erase_case4_right [OF rep' four] m S' by (auto simp: erase_black_right_def rb_exec)
  next
    case two
    then show ?thesis using erase_case2_right [OF rep'] m S'
      by (cases sl) (auto simp: erase_black_right_def rb_exec)
  next
    case three
    then show ?thesis using erase_case34_right [OF rep' [unfolded three(2)]] m S'
      by (fastforce simp: erase_black_right_def rb_exec)
  qed
qed


lemma erase_step_left:
  assumes rep: "rb_rep s (plug k (Nd c t p S))" and S: "invc S" "invh S" "bh S = Suc n"
  shows "\<exists>s1 v s'. erase_case1_left s p (ad S) = Some (s1, v) \<and>
    erase_black_left s1 p v = Some (s', if snd (ers_left c t p S) then cpar k else NULL) \<and>
    rb_rep s' (plug k (fst (ers_left c t p S))) \<and> same_off (set (io (plug k (Nd c t p S)))) s s'"
proof (cases "colr S")
  case Red
  then obtain sl x sr where S': "S = Nd Red sl x sr" using colr_Red_Nd by blast
  have sl: "sl \<noteq> Lf" "colr sl = Black" "invc sl" using S S' by auto
  obtain s1 where s1: "erase_case1_left s p x = Some (s1, ad sl)"
      "rb_rep s1 (plug (FL c x sr # k) (Nd Red t p sl))"
      "same_off (set (io (plug k (Nd c t p S)))) s s1"
    using erase_case1_left [OF rep [unfolded S'] sl(1,2)] S' by auto
  have nd: "snd (ers_black_left Red t p sl) = False" using sl(1) by (cases sl) (auto split: rbt.split color.split)
  obtain s' where s': "erase_black_left s1 p (ad sl) = Some (s', NULL)"
      "rb_rep s' (plug (FL c x sr # k) (fst (ers_black_left Red t p sl)))"
      "same_off (set (io (plug (FL c x sr # k) (Nd Red t p sl)))) s1 s'"
    using erase_black_left [OF s1(2) sl] nd by auto
  have "same_off (set (io (plug k (Nd c t p S)))) s s'"
    by (rule same_off_trans [OF s1(3) s'(3)]) (auto simp: io_plug S')
  then show ?thesis using s1(1) s'(1,2) S' by simp
next
  case Black
  then have ne: "S \<noteq> Lf" using S by auto
  then obtain sl x sr where S': "S = Nd Black sl x sr" using Black by (cases S) auto
  have "erase_case1_left s p (ad S) = Some (s, ad S)"
    using rep S' by (auto simp: rb_rep_plug erase_case1_left_def node_colour(1) [where c = Black and par = p])
  then show ?thesis using erase_black_left [OF rep ne Black S(1)] Black by auto
qed

lemma erase_loop_step_left:
  assumes rep: "rb_rep s (plug k (Nd c t p S))" and S: "invc S" "invh S" "bh S = Suc n"
    and go: "\<And>s1. snd (ers_left c t p S) \<Longrightarrow> k \<noteq> [] \<Longrightarrow> rb_rep s1 (plug k (fst (ers_left c t p S))) \<Longrightarrow>
      \<exists>s'. erase_color_loop s1 p (cpar k) = Some s' \<and> rb_rep s' (ers_fix k (fst (ers_left c t p S))) \<and>
        same_off (set (io (plug k (Nd c t p S)))) s1 s'"
  shows "\<exists>s'. erase_color_loop s (ad t) p = Some s' \<and> rb_rep s' (ers_fix (FL c p S # k) t) \<and>
    same_off (set (io (plug k (Nd c t p S)))) s s'"
proof -
  obtain s1 v s2 where e: "erase_case1_left s p (ad S) = Some (s1, v)"
      "erase_black_left s1 p v = Some (s2, if snd (ers_left c t p S) then cpar k else NULL)"
      "rb_rep s2 (plug k (fst (ers_left c t p S)))" "same_off (set (io (plug k (Nd c t p S)))) s s2"
    using erase_step_left [OF rep S] by blast
  have m: "p \<noteq> NULL" "rb_mem s p = Some \<lparr>parent_color = cpar k OR col c, r_right = ad S, r_left = ad t\<rparr>" using rep by (auto simp: rb_rep_plug)
  have ck: "cpar k = NULL \<longleftrightarrow> k = []"
    using e(3) ctr_cpar by (auto simp: rb_rep_plug)
  have ne: "ad t \<noteq> ad S" "ad S \<noteq> ad t" using rep S(3) ad_in [of t] ad_in [of S] tr_ad [of "rb_mem s" p S]
    by (cases "t = Lf"; cases "S = Lf"; auto simp: rb_rep_plug)+
  have step: "erase_color_loop s (ad t) p =
      (if snd (ers_left c t p S) \<and> k \<noteq> [] then erase_color_loop s2 p (cpar k) else Some s2)"
    using m e(1,2) ne ck by (subst erase_color_loop.simps) (simp add: rb_exec)
  show ?thesis
  proof (cases "snd (ers_left c t p S) \<and> k \<noteq> []")
    case True
    then show ?thesis using step go [OF _ _ e(3)] same_off_trans [OF e(4)] by (fastforce simp: Let_def)
  next
    case False
    then show ?thesis using step e(3,4) by (cases k) (auto simp: Let_def)
  qed
qed

lemma erase_step_right:
  assumes rep: "rb_rep s (plug k (Nd c S p t))" and S: "invc S" "invh S" "bh S = Suc n"
  shows "\<exists>s1 v s'. erase_case1_right s p (ad S) = Some (s1, v) \<and>
    erase_black_right s1 p v = Some (s', if snd (ers_right c t p S) then cpar k else NULL) \<and>
    rb_rep s' (plug k (fst (ers_right c t p S))) \<and> same_off (set (io (plug k (Nd c S p t)))) s s'"
proof (cases "colr S")
  case Red
  then obtain sl x sr where S': "S = Nd Red sr x sl" using colr_Red_Nd by blast
  have sl: "sl \<noteq> Lf" "colr sl = Black" "invc sl" using S S' by auto
  obtain s1 where s1: "erase_case1_right s p x = Some (s1, ad sl)"
      "rb_rep s1 (plug (FR c sr x # k) (Nd Red sl p t))"
      "same_off (set (io (plug k (Nd c S p t)))) s s1"
    using erase_case1_right [OF rep [unfolded S'] sl(1,2)] S' by auto
  have nd: "snd (ers_black_right Red t p sl) = False" using sl(1) by (cases sl) (auto split: rbt.split color.split)
  obtain s' where s': "erase_black_right s1 p (ad sl) = Some (s', NULL)"
      "rb_rep s' (plug (FR c sr x # k) (fst (ers_black_right Red t p sl)))"
      "same_off (set (io (plug (FR c sr x # k) (Nd Red sl p t)))) s1 s'"
    using erase_black_right [OF s1(2) sl] nd by auto
  have "same_off (set (io (plug k (Nd c S p t)))) s s'"
    by (rule same_off_trans [OF s1(3) s'(3)]) (auto simp: io_plug S')
  then show ?thesis using s1(1) s'(1,2) S' by simp
next
  case Black
  then have ne: "S \<noteq> Lf" using S by auto
  then obtain sl x sr where S': "S = Nd Black sr x sl" using Black by (cases S) auto
  have "erase_case1_right s p (ad S) = Some (s, ad S)"
    using rep S' by (auto simp: rb_rep_plug erase_case1_right_def node_colour(1) [where c = Black and par = p])
  then show ?thesis using erase_black_right [OF rep ne Black S(1)] Black by auto
qed

lemma erase_loop_step_right:
  assumes rep: "rb_rep s (plug k (Nd c S p t))" and S: "invc S" "invh S" "bh S = Suc n"
    and go: "\<And>s1. snd (ers_right c t p S) \<Longrightarrow> k \<noteq> [] \<Longrightarrow> rb_rep s1 (plug k (fst (ers_right c t p S))) \<Longrightarrow>
      \<exists>s'. erase_color_loop s1 p (cpar k) = Some s' \<and> rb_rep s' (ers_fix k (fst (ers_right c t p S))) \<and>
        same_off (set (io (plug k (Nd c S p t)))) s1 s'"
  shows "\<exists>s'. erase_color_loop s (ad t) p = Some s' \<and> rb_rep s' (ers_fix (FR c S p # k) t) \<and>
    same_off (set (io (plug k (Nd c S p t)))) s s'"
proof -
  obtain s1 v s2 where e: "erase_case1_right s p (ad S) = Some (s1, v)"
      "erase_black_right s1 p v = Some (s2, if snd (ers_right c t p S) then cpar k else NULL)"
      "rb_rep s2 (plug k (fst (ers_right c t p S)))" "same_off (set (io (plug k (Nd c S p t)))) s s2"
    using erase_step_right [OF rep S] by blast
  have m: "p \<noteq> NULL" "rb_mem s p = Some \<lparr>parent_color = cpar k OR col c, r_right = ad t, r_left = ad S\<rparr>" using rep by (auto simp: rb_rep_plug)
  have ck: "cpar k = NULL \<longleftrightarrow> k = []"
    using e(3) ctr_cpar by (auto simp: rb_rep_plug)
  have ne: "ad t \<noteq> ad S" "ad S \<noteq> ad t" using rep S(3) ad_in [of t] ad_in [of S] tr_ad [of "rb_mem s" p S]
    by (cases "t = Lf"; cases "S = Lf"; auto simp: rb_rep_plug)+
  have step: "erase_color_loop s (ad t) p =
      (if snd (ers_right c t p S) \<and> k \<noteq> [] then erase_color_loop s2 p (cpar k) else Some s2)"
    using m e(1,2) ne ck by (subst erase_color_loop.simps) (simp add: rb_exec)
  show ?thesis
  proof (cases "snd (ers_right c t p S) \<and> k \<noteq> []")
    case True
    then show ?thesis using step go [OF _ _ e(3)] same_off_trans [OF e(4)] by (fastforce simp: Let_def)
  next
    case False
    then show ?thesis using step e(3,4) by (cases k) (auto simp: Let_def)
  qed
qed

lemma ers_ad: "snd (ers_left c t p s) \<Longrightarrow> ad (fst (ers_left c t p s)) = p"
  "snd (ers_right c t p s) \<Longrightarrow> ad (fst (ers_right c t p s)) = p"
  by (cases s; cases "colr s"; auto split: rbt.splits color.splits if_splits)+

lemma erase_color_loop:
  "rb_rep s (plug k t) \<Longrightarrow> k \<noteq> [] \<Longrightarrow> cinvc k \<Longrightarrow> cinvh k (Suc (bh t)) \<Longrightarrow> invc t \<Longrightarrow> invh t \<Longrightarrow> colr t = Black \<Longrightarrow>
     \<exists>s'. erase_color_loop s (ad t) (cpar k) = Some s' \<and> rb_rep s' (ers_fix k t) \<and>
       same_off (set (io (plug k t))) s s'"
proof (induction k t arbitrary: s rule: ers_fix.induct)
  case (2 c p S k t)
  let ?r = "ers_left c t p S"
  have post: "ers_post c (bh t) ?r" by (rule ers_step_post) (use "2.prems" in auto)
  have "\<exists>s'. erase_color_loop s1 p (cpar k) = Some s' \<and> rb_rep s' (ers_fix k (fst ?r)) \<and>
      same_off (set (io (plug k (Nd c t p S)))) s1 s'"
    if "snd ?r" "k \<noteq> []" "rb_rep s1 (plug k (fst ?r))" for s1
  proof -
    have c: "c = Black" and P: "invc (fst ?r)" "invh (fst ?r)" "colr (fst ?r) = Black" "bh (fst ?r) = Suc (bh t)"
      using post that(1) by (auto simp: ers_post_def)
    then show ?thesis using "2.IH" [OF refl that(1,3,2)] "2.prems"(3,4) ers_ad(1) [OF that(1)]
      by (simp add: io_plug io_ers)
  qed
  then show ?case using "2.prems" erase_loop_step_left [of s k c t p S "bh t"] by simp
next
  case (3 c S p k t)
  let ?r = "ers_right c t p S"
  have post: "ers_post c (bh t) ?r" by (rule ers_step_post) (use "3.prems" in auto)
  have "\<exists>s'. erase_color_loop s1 p (cpar k) = Some s' \<and> rb_rep s' (ers_fix k (fst ?r)) \<and>
      same_off (set (io (plug k (Nd c S p t)))) s1 s'"
    if "snd ?r" "k \<noteq> []" "rb_rep s1 (plug k (fst ?r))" for s1
  proof -
    have c: "c = Black" and P: "invc (fst ?r)" "invh (fst ?r)" "colr (fst ?r) = Black" "bh (fst ?r) = Suc (bh t)"
      using post that(1) by (auto simp: ers_post_def)
    then show ?thesis using "3.IH" [OF refl that(1,3,2)] "3.prems"(3,4) ers_ad(2) [OF that(1)]
      by (simp add: io_plug io_ers)
  qed
  then show ?case using "3.prems" erase_loop_step_right [of s k c S p t "bh t"] by simp
qed simp


section \<open>Unlinking a node\<close>

text \<open>The memory of the frames between a node and its subtree's top, whose parent is \<open>par\<close>.\<close>

definition spar :: "ptr \<Rightarrow> frame list \<Rightarrow> ptr" where
  "spar par k = (if k = [] then par else cpar k)"

fun seg :: "HevRBTreeNode heap \<Rightarrow> ptr \<Rightarrow> frame list \<Rightarrow> ptr \<Rightarrow> bool" where
  "seg h par [] a = True"
| "seg h par (FL c p r # k) a =
     (p \<noteq> NULL \<and> aligned p \<and> h p = Some \<lparr>parent_color = spar par k OR col c, r_right = ad r, r_left = a\<rparr> \<and>
      tr h p r \<and> seg h par k p)"
| "seg h par (FR c l p # k) a =
     (p \<noteq> NULL \<and> aligned p \<and> h p = Some \<lparr>parent_color = spar par k OR col c, r_right = a, r_left = ad l\<rparr> \<and>
      tr h p l \<and> seg h par k p)"

lemma tr_plug: "tr h par (plug k t) \<longleftrightarrow> seg h par k (ad t) \<and> tr h (spar par k) t"
  by (induction k t rule: plug.induct) (auto simp: spar_def)

lemma seg_frame:
  "(\<And>x. x \<in> set (iol k @ ior k) \<Longrightarrow> h' x = h x) \<Longrightarrow> seg h' par k a = seg h par k a"
proof (induction h par k a rule: seg.induct)
  case (2 h par c p r k a)
  have "tr h' p r = tr h p r" by (rule tr_frame) (simp add: "2.prems")
  then show ?case using "2.IH" "2.prems" by auto
next
  case (3 h par c l p k a)
  have "tr h' p l = tr h p l" by (rule tr_frame) (simp add: "3.prems")
  then show ?case using "3.IH" "3.prems" by auto
qed simp

lemma same_off_seg:
  "same_off X s s' \<Longrightarrow> set (iol k @ ior k) \<inter> X = {} \<Longrightarrow> seg (rb_mem s') par k a = seg (rb_mem s) par k a"
  by (rule seg_frame) (auto simp: same_off_def)

text \<open>The way down the left children.\<close>

lemma leftmost_path:
  assumes "tr (rb_mem s) q t" "t \<noteq> Lf"
  shows "\<exists>k c y r. t = plug k (Nd c Lf y r) \<and> iol k = [] \<and>
    successor_loop s q (ad t) = Some (spar q k, y)"
  using assms
proof (induction t arbitrary: q)
  case (Nd c l p r)
  have m: "p \<noteq> NULL" "rb_mem s p = Some \<lparr>parent_color = q OR col c, r_right = ad r, r_left = ad l\<rparr>"
    "tr (rb_mem s) p l" using Nd.prems by auto
  show ?case
  proof (cases "l = Lf")
    case True
    then have "successor_loop s q p = Some (q, p)" using m by (subst successor_loop.simps) (simp add: rb_exec)
    then show ?thesis using True by (intro exI [of _ "[]"] exI) (auto simp: spar_def)
  next
    case False
    then obtain k c' y r' where l: "l = plug k (Nd c' Lf y r')" "iol k = []"
        "successor_loop s p (ad l) = Some (spar p k, y)" using Nd.IH(1) m(3) by blast
    have "ad l \<noteq> NULL" using False m(3) tr_ad by blast
    then have "successor_loop s q p = successor_loop s p (ad l)"
      using m by (subst successor_loop.simps) (simp add: rb_exec)
    moreover have "iol (k @ [FL c p r]) = []" using l(2) by (induction k rule: iol.induct) auto
    moreover have "spar q (k @ [FL c p r]) = spar p k" by (cases k) (auto simp: spar_def)
    ultimately show ?thesis using l by (intro exI [of _ "k @ [FL c p r]"] exI) (auto simp: plug_append)
  qed
qed simp

lemma erase_relink:
  assumes mem: "rb_mem s n = Some \<lparr>parent_color = cpar k OR col c, r_right = nr, r_left = ad l\<rparr>" "n \<noteq> NULL" "aligned n"
      "tr (rb_mem s) n l" "l \<noteq> Lf" "ctr s k n"
    and y: "rb_mem s y = Some \<lparr>parent_color = q OR col cy, r_right = ad (plug K r2), r_left = yl\<rparr>" "y \<noteq> NULL" "aligned y"
      "aligned q"
    and K: "seg (rb_mem s) y K (ad r2)" "tr (rb_mem s) q2 r2"
    and D: "distinct (iol k @ io l @ y # io (plug K r2) @ ior k)" "n \<notin> set (iol k @ io l @ y # io (plug K r2) @ ior k)"
  shows "\<exists>s'. erase_relink s n (spar y K) y (ad r2) =
      Some (s', if r2 = Lf \<and> cy = Black then spar y K else NULL) \<and>
    rb_rep s' (plug k (Nd c l y (plug K (paint Black r2)))) \<and>
    same_off (set (iol k @ io l @ y # io (plug K r2) @ ior k)) s s'"
proof -
  note D' = D [unfolded io_plug, simplified]
  have ne: "n \<noteq> y" "y \<noteq> n" using D by auto
  let ?y1 = "\<lparr>parent_color = q OR col cy, r_right = ad (plug K r2), r_left = ad l\<rparr>"
  let ?s1 = "s\<lparr>rb_mem := (rb_mem s)(y \<mapsto> ?y1)\<rparr>"
  have "tr (rb_mem ?s1) n l" "distinct (io l)" using mem(4) D' by auto
  then obtain s2 where s2: "set_parent_opt ?s1 (ad l) y = Some s2" "rb_root s2 = rb_root s"
      "tr (rb_mem s2) y l" "same_off (set (io l)) ?s1 s2"
    using set_parent_opt_tr [of ?s1 n l y] mem(3) by auto
  have o2: "same_off ({y} \<union> set (io l)) s s2" by (rule same_off_wr [OF s2(4)]) (use y in auto)
  have "set (iol k @ ior k) \<inter> ({y} \<union> set (io l)) = {}" using D' by (simp add: disj_sets)
  then have c2: "ctr s2 k n" using mem(6) s2(2) same_off_ctr [OF o2, of k n] by simp
  have dk: "distinct (iol k @ ior k)" "n \<notin> set (iol k @ ior k)" using D' by auto
  obtain s3 where s3: "hev_rbtree_change_child s2 n y (cpar k) = Some s3" "ctr s3 k y"
      "same_off (set (iol k @ ior k)) s2 s3"
    using change_child [OF c2 dk(1) mem(2) dk(2)] by blast
  have o3: "same_off ({y} \<union> set (io l) \<union> set (iol k @ ior k)) s s3"
    by (rule same_off_trans [OF o2 s3(3)]) auto
  have j3: "set (io r2) \<inter> ({y} \<union> set (io l) \<union> set (iol k @ ior k)) = {}"
      "set (iol K @ ior K) \<inter> ({y} \<union> set (io l) \<union> set (iol k @ ior k)) = {}" "y \<notin> set (iol k @ ior k)"
      "y \<notin> set (io l)" "n \<notin> {y} \<union> set (io l) \<union> set (iol k @ ior k)"
    using D' ne by (simp_all add: disj_sets)
  have "tr (rb_mem s3) q2 r2" "distinct (io r2)" using K(2) j3(1) D' by (simp_all add: same_off_tr [OF o3])
  then obtain s4 where s4: "set_parent_color_opt s3 (ad r2) (spar y K) (col Black) = Some s4" "rb_root s4 = rb_root s3"
      "tr (rb_mem s4) (spar y K) (paint Black r2)" "same_off (set (io r2)) s3 s4"
    using set_parent_color_opt_tr [of s3 q2 r2 "spar y K" Black] by auto
  have j4: "set (iol K @ ior K) \<inter> set (io r2) = {}" "set (io l) \<inter> set (io r2) = {}" "set (io l) \<inter> set (iol k @ ior k) = {}"
      "set (iol k @ ior k) \<inter> set (io r2) = {}" "y \<notin> set (io r2)"
      "y \<notin> set (iol K @ ior K)" "n \<notin> set (io r2)"
    using D' by (simp_all add: disj_sets)
  have m2: "rb_mem s2 y = Some ?y1" "rb_mem s2 n = rb_mem s n"
    using same_offD [OF s2(4), of y] same_offD [OF s2(4), of n] j3(4) D' ne by simp_all
  have m3: "rb_mem s3 y = Some ?y1" using same_offD [OF s3(3) j3(3)] m2(1) by simp
  have m4: "rb_mem s4 y = Some ?y1" using same_offD [OF s4(4) j4(5)] m3 by simp
  let ?s = "s4\<lparr>rb_mem := (rb_mem s4)(y \<mapsto> \<lparr>parent_color = cpar k OR col c, r_right = ad (plug K r2), r_left = ad l\<rparr>)\<rparr>"
  have al: "ad l \<noteq> NULL" using mem(4,5) tr_ad by blast
  have r2: "ad r2 = NULL \<longleftrightarrow> r2 = Lf" using K(2) tr_ad by blast
  have black: "hev_rbtree_node_is_black s3 y = Some (cy = Black)" using m3 y(2,4) by (simp add: node_colour(2))
  have set_p: "hev_rbtree_node_set_parent ?s1 (ad l) y = Some s2" using s2(1) al by (simp add: set_parent_opt_def)
  have relink: "erase_relink s n (spar y K) y (ad r2) =
      Some (?s, if r2 = Lf \<and> cy = Black then spar y K else NULL)"
    using mem(1,2) y(1,2) ne m2 set_p s3(1) black m4 r2 s4(1) ctr_cpar [OF mem(6)]
    by (cases "r2 = Lf") (simp_all add: erase_relink_def rb_exec set_parent_color_opt_def)
  have o4: "same_off ({y} \<union> set (io l) \<union> set (iol k @ ior k) \<union> set (io r2)) s s4"
    by (rule same_off_trans [OF o3 s4(4)]) auto
  have off: "same_off (set (iol k @ io l @ y # io (plug K r2) @ ior k)) s ?s"
    using o4 m4 by (auto simp: same_off_def io_plug)
  have "ctr ?s k y = ctr s4 k y" by (rule ctr_frame) (use j3(3) in auto)
  then have "ctr ?s k y" using s3(2) s4(2) j4(4) by (simp add: same_off_ctr [OF s4(4)])
  moreover have "seg (rb_mem ?s) y K (ad r2)"
  proof -
    have "seg (rb_mem ?s) y K (ad r2) = seg (rb_mem s4) y K (ad r2)" by (rule seg_frame) (use j4(6) in auto)
    then show ?thesis using K(1) j4(1) j3(2) by (simp add: same_off_seg [OF s4(4)] same_off_seg [OF o3])
  qed
  moreover have "tr (rb_mem ?s) y l"
    using s2(3) j4(2,3) j3(4) by (simp add: same_off_tr [OF s4(4)] same_off_tr [OF s3(3)])
  moreover have "tr (rb_mem ?s) (spar y K) (paint Black r2)" using s4(3) j4(5) by simp
  moreover have "distinct (iol k @ io l @ y # io (plug K (paint Black r2)) @ ior k)" using D(1) by (simp add: io_plug)
  moreover have "ad (plug K (paint Black r2)) = ad (plug K r2)"
    by (cases K rule: rev_cases; cases "last K") (auto simp: plug_append)
  ultimately have "rb_rep ?s (plug k (Nd c l y (plug K (paint Black r2))))"
    using y(2,3) by (simp add: rb_rep_plug tr_plug)
  then show ?thesis using relink off by blast
qed


lemma ad_plug: "ad (plug k t) = (if k = [] then ad t else fptr (last k))"
  by (induction k t rule: plug.induct) auto

lemma last_in: "k \<noteq> [] \<Longrightarrow> fptr (last k) \<in> set (iol k @ ior k)"
  by (induction k rule: iol.induct) auto

text \<open>Giving the top of a segment another parent.\<close>

lemma seg_reroot:
  "seg h n k a \<Longrightarrow> k \<noteq> [] \<Longrightarrow> distinct (iol k @ ior k) \<Longrightarrow>
     \<exists>v. h (fptr (last k)) = Some v \<and> fptr (last k) \<noteq> NULL \<and>
       parent_color v = n OR col (fcol (last k)) \<and>
       seg (h(fptr (last k) \<mapsto> v\<lparr>parent_color := y OR col (fcol (last k))\<rparr>)) y k a"
proof (induction h n k a rule: seg.induct)
  case (2 h par c p r k a)
  show ?case
  proof (cases "k = []")
    case False
    have "fptr (last k) \<noteq> p" "fptr (last k) \<notin> set (io r)" using last_in [OF False] "2.prems"(3) by auto
    moreover have d: "distinct (iol k @ ior k)" and sk: "seg h par k p" using "2.prems" by auto
    moreover obtain v where "h (fptr (last k)) = Some v" "fptr (last k) \<noteq> NULL" "parent_color v = par OR col (fcol (last k))"
        "seg (h(fptr (last k) \<mapsto> v\<lparr>parent_color := y OR col (fcol (last k))\<rparr>)) y k p"
      using "2.IH" [OF sk False d] by blast
    moreover define h' where "h' = h(fptr (last k) \<mapsto> v\<lparr>parent_color := y OR col (fcol (last k))\<rparr>)"
    ultimately have "h' p = h p" "tr h' p r = tr h p r" "seg h' y k p" "h (fptr (last k)) = Some v" "fptr (last k) \<noteq> NULL"
        "parent_color v = par OR col (fcol (last k))" by simp_all
    then show ?thesis using "2.prems"(1) False h'_def by (simp add: spar_def del: fun_upd_apply)
  qed (use "2.prems" in \<open>simp add: spar_def fun_upd_same del: fun_upd_apply\<close>)
next
  case (3 h par c l p k a)
  show ?case
  proof (cases "k = []")
    case False
    have "fptr (last k) \<noteq> p" "fptr (last k) \<notin> set (io l)" using last_in [OF False] "3.prems"(3) by auto
    moreover have d: "distinct (iol k @ ior k)" and sk: "seg h par k p" using "3.prems" by auto
    moreover obtain v where "h (fptr (last k)) = Some v" "fptr (last k) \<noteq> NULL" "parent_color v = par OR col (fcol (last k))"
        "seg (h(fptr (last k) \<mapsto> v\<lparr>parent_color := y OR col (fcol (last k))\<rparr>)) y k p"
      using "3.IH" [OF sk False d] by blast
    moreover define h' where "h' = h(fptr (last k) \<mapsto> v\<lparr>parent_color := y OR col (fcol (last k))\<rparr>)"
    ultimately have "h' p = h p" "tr h' p l = tr h p l" "seg h' y k p" "h (fptr (last k)) = Some v" "fptr (last k) \<noteq> NULL"
        "parent_color v = par OR col (fcol (last k))" by simp_all
    then show ?thesis using "3.prems"(1) False h'_def by (simp add: spar_def del: fun_upd_apply)
  qed (use "3.prems" in \<open>simp add: spar_def fun_upd_same del: fun_upd_apply\<close>)
qed simp

lemma erase_successor:
  assumes r: "tr (rb_mem s) n r" "r \<noteq> Lf" "aligned n" "distinct (io r)"
  shows "\<exists>K cy y r2 s1 q. r = plug K (Nd cy Lf y r2) \<and> iol K = [] \<and>
    erase_successor s (ad r) = Some (s1, spar y K, y, ad r2) \<and> rb_root s1 = rb_root s \<and>
    same_off (set (io r)) s s1 \<and> y \<noteq> NULL \<and> aligned y \<and> aligned q \<and>
    rb_mem s1 y = Some \<lparr>parent_color = q OR col cy, r_right = ad (plug K r2), r_left = NULL\<rparr> \<and>
    seg (rb_mem s1) y K (ad r2) \<and> tr (rb_mem s1) y r2"
proof -
  obtain c1 L ch R where r': "r = Nd c1 L ch R" using r(2) by (cases r) auto
  have ch: "ch \<noteq> NULL" "aligned ch" "tr (rb_mem s) ch L"
    "rb_mem s ch = Some \<lparr>parent_color = n OR col c1, r_right = ad R, r_left = ad L\<rparr>" using r r' by auto
  show ?thesis
  proof (cases "L = Lf")
    case True
    then have "erase_successor s (ad r) = Some (s, ch, ch, ad R)" using r' ch by (simp add: erase_successor_def rb_exec)
    then show ?thesis using True r r' ch
      by (intro exI [of _ "[]"] exI [of _ c1] exI [of _ ch] exI [of _ R] exI [of _ s] exI [of _ n])
        (auto simp: spar_def same_off_def)
  next
    case False
    then obtain k2 cy y r2 where L: "L = plug k2 (Nd cy Lf y r2)" "iol k2 = []"
        "successor_loop s ch (ad L) = Some (spar ch k2, y)" using leftmost_path [OF ch(3)] by blast
    define K where "K = k2 @ [FL c1 ch R]"
    have K: "K \<noteq> []" "r = plug K (Nd cy Lf y r2)" "fptr (last K) = ch" "fcol (last K) = c1" "spar ch k2 = cpar K"
      using L(1) r' by (simp_all add: K_def plug_append spar_def) (cases k2; simp)
    have iK: "iol K = []" using L(2) unfolding K_def by (induction k2 rule: iol.induct) auto
    obtain c p q K' where K': "K = FL c p q # K'" using K(1) iK by (cases K rule: iol.cases) auto
    have sK: "seg (rb_mem s) n K y" and y: "y \<noteq> NULL" "aligned y" "tr (rb_mem s) y r2"
        "rb_mem s y = Some \<lparr>parent_color = cpar K OR col cy, r_right = ad r2, r_left = NULL\<rparr>"
      using r(1) K(1,2) by (auto simp: tr_plug spar_def)
    have D: "distinct (iol K @ ior K)" "y \<notin> set (iol K @ ior K)" "set (iol K @ ior K) \<inter> set (io r2) = {}" "y \<notin> set (io r2)"
      using r(4) K(2) by (auto simp: io_plug)
    let ?s2 = "s\<lparr>rb_mem := (rb_mem s)(p \<mapsto> \<lparr>parent_color = spar n K' OR col c, r_right = ad q, r_left = ad r2\<rparr>)\<rparr>"
    let ?s3 = "?s2\<lparr>rb_mem := (rb_mem ?s2)(y \<mapsto> \<lparr>parent_color = cpar K OR col cy, r_right = ch, r_left = NULL\<rparr>)\<rparr>"
    have "seg (rb_mem ?s2) n K' p = seg (rb_mem s) n K' p" by (rule seg_frame) (use D K' in auto)
    then have "seg (rb_mem ?s2) n K (ad r2)" using sK D(1) K' by auto
    moreover have "seg (rb_mem ?s3) n K (ad r2) = seg (rb_mem ?s2) n K (ad r2)" by (rule seg_frame) (use D in auto)
    ultimately have s3: "seg (rb_mem ?s3) n K (ad r2)" by simp
    obtain v where v: "rb_mem ?s3 ch = Some v" "parent_color v = n OR col c1"
        "seg ((rb_mem ?s3)(ch \<mapsto> v\<lparr>parent_color := y OR col c1\<rparr>)) y K (ad r2)"
      using seg_reroot [OF s3 K(1) D(1)] K(3,4) by auto
    let ?s4 = "?s3\<lparr>rb_mem := (rb_mem ?s3)(ch \<mapsto> v\<lparr>parent_color := y OR col c1\<rparr>)\<rparr>"
    have ne: "y \<noteq> p" "p \<noteq> y" "y \<noteq> ch" "ch \<noteq> y" "p \<noteq> NULL" "p \<notin> set (io r2)" "ch \<notin> set (io r2)"
      and mp: "rb_mem s p = Some \<lparr>parent_color = spar n K' OR col c, r_right = ad q, r_left = y\<rparr>"
      using D K' K(3) last_in [OF K(1)] sK by auto
    have al: "ad L \<noteq> NULL" using ch(3) False tr_ad by blast
    have "hev_rbtree_node_set_parent ?s3 ch y = Some ?s4"
      by (rule node_colour(4) [where par = n]) (use v ch r(3) in auto)
    then have "erase_successor s (ad r) = Some (?s4, cpar K, y, ad r2)"
      using r' ch L(3) al y(1,4) ne mp K(5) K' by (simp add: erase_successor_def rb_exec)
    moreover have "same_off (set (io r)) s ?s4"
      using mp y(4) ch(4) K(2) K' last_in [OF K(1)] K(3) by (auto simp: same_off_def io_plug)
    moreover have "tr (rb_mem ?s4) y r2" using y(3) D(4) ne by simp
    moreover have "ad (plug K r2) = ch" using K(1,3) by (simp add: ad_plug)
    moreover have "aligned (cpar K)" using sK K' by simp
    ultimately show ?thesis using K(1,2) iK y(1,2) v(3) ne
      by (intro exI [of _ K] exI [of _ cy] exI [of _ y] exI [of _ r2] exI [of _ ?s4] exI [of _ "cpar K"])
        (simp add: spar_def)
  qed
qed


text \<open>What unlinking leaves: a tree in which the position \<open>K\<close> may lack one black node.\<close>

definition unlinked :: "HevRBTree \<Rightarrow> ptr list \<Rightarrow> ptr set \<Rightarrow> HevRBTree \<times> ptr \<Rightarrow> bool" where
  "unlinked s xs X r \<longleftrightarrow> same_off X s (fst r) \<and>
     (\<exists>K t. rb_rep (fst r) (plug K t) \<and> io (plug K t) = xs \<and>
        (if snd r = NULL then rb_ok (plug K t)
         else snd r = cpar K \<and> t = Lf \<and> cinvc K \<and> cinvh K (Suc 0)))"

lemma erase_leaf:
  assumes rep: "rb_rep s (plug k (Nd c Lf n Lf))" and ok: "rb_ok (plug k (Nd c Lf n Lf))"
  shows "\<exists>r. erase_node s n = Some r \<and> unlinked s (iol k @ ior k) (set (iol k @ ior k)) r"
proof -
  note R = rep [unfolded rb_rep_plug, simplified]
  note ok' = rb_ok_plugD [OF ok, simplified]
  have k: "ctr s k n" "distinct (iol k @ ior k)" "n \<noteq> NULL" "n \<notin> set (iol k @ ior k)" using R by auto
  obtain s' where s': "hev_rbtree_change_child s n NULL (cpar k) = Some s'" "ctr s' k NULL"
      "same_off (set (iol k @ ior k)) s s'" using change_child [OF k, of NULL] by blast
  let ?r = "(s', if c = Black then cpar k else NULL)"
  have "erase_node s n = Some ?r"
    using R s'(1) pc_bits [of "cpar k" c] ctr_cpar [OF k(1)] by (simp add: erase_node_def rb_exec)
  moreover have "rb_rep s' (plug k Lf)" using s'(2) k(2) by (simp add: rb_rep_plug)
  moreover have "if snd ?r = NULL then rb_ok (plug k Lf) else snd ?r = cpar k \<and> cinvc k \<and> cinvh k (Suc 0)"
  proof (cases "c = Black \<and> k \<noteq> []")
    case False
    then have "rb_ok (plug k Lf)" using ok' by (cases k; cases c; intro rb_ok_plug) simp_all
    then show ?thesis using False by auto
  qed (use ok' ctr_cpar [OF k(1)] in auto)
  ultimately show ?thesis using s'(3) unfolding unlinked_def
    by (intro exI [of _ ?r] conjI exI [of _ k] exI [of _ Lf]) (auto simp: io_plug)
qed

text \<open>The only child of a node is red and takes its colour.\<close>

lemma only_child:
  assumes "rb_ok (plug k (Nd c l n r))" "l = Lf \<and> u = r \<or> r = Lf \<and> u = l" "u \<noteq> Lf"
  shows "c = Black" "colr u = Red" "rb_ok (plug k (paint Black u))"
proof -
  note ok' = rb_ok_plugD [OF assms(1), simplified]
  have bh: "bh u = 0" and i: "invc u" "invh u" using assms(2) ok' by auto
  then have "colr u = Red" using assms(3) by (cases u; cases "colr u") auto
  moreover have "c = Black" using ok' assms(2) calculation by (cases c) auto
  moreover have "rb_ok (plug k (paint Black u))"
    by (rule rb_ok_plug) (use ok' i calculation bh assms(2) in \<open>auto simp: bh_paint_Black invc_paint_Black\<close>)
  ultimately show "c = Black" "colr u = Red" "rb_ok (plug k (paint Black u))" by auto
qed

lemma erase_one:
  assumes rep: "rb_rep s (plug k (Nd c l n r))" and ok: "rb_ok (plug k (Nd c l n r))"
    and u: "l = Lf \<and> u = r \<or> r = Lf \<and> u = l" "u \<noteq> Lf"
  shows "\<exists>q. erase_node s n = Some q \<and> unlinked s (iol k @ io u @ ior k) (set (iol k @ io u @ ior k)) q"
proof -
  note R = rep [unfolded rb_rep_plug, simplified]
  note one = only_child [OF ok u]
  obtain a x b where u': "u = Nd Red a x b" using one(2) colr_Red_Nd by blast
  have k: "ctr s k n" "distinct (iol k @ ior k)" "n \<noteq> NULL" "n \<notin> set (iol k @ ior k)" using R by auto
  have x: "x \<noteq> NULL" "x \<noteq> n" "n \<noteq> x" "x \<notin> set (iol k @ ior k)" "tr (rb_mem s) n u" "distinct (io u)"
      "rb_mem s x = Some \<lparr>parent_color = n, r_right = ad b, r_left = ad a\<rparr>" "set (io u) \<inter> set (iol k @ ior k) = {}"
    using R u u' by auto
  let ?x = "\<lparr>parent_color = cpar k OR col Black, r_right = ad b, r_left = ad a\<rparr>"
  let ?s1 = "s\<lparr>rb_mem := (rb_mem s)(x \<mapsto> ?x)\<rparr>"
  obtain s' where s': "hev_rbtree_change_child s n x (cpar k) = Some s'" "ctr s' k x"
      "same_off (set (iol k @ ior k)) s s'" using change_child [OF k, of x] by blast
  have "ctr ?s1 k n = ctr s k n" by (rule ctr_frame) (use x(4) in auto)
  then obtain s2 where s2: "hev_rbtree_change_child ?s1 n x (cpar k) = Some s2" "ctr s2 k x"
      "same_off (set (iol k @ ior k)) ?s1 s2" using change_child [of ?s1 k n x] k by auto
  let ?s' = "s'\<lparr>rb_mem := (rb_mem s')(x \<mapsto> ?x)\<rparr>"
  have al: "aligned (cpar k)" using ctr_cpar [OF k(1)] by simp
  have mx: "rb_mem s' x = Some \<lparr>parent_color = n, r_right = ad b, r_left = ad a\<rparr>"
    using same_offD [OF s'(3) x(4)] x(7) by simp
  have "ctr ?s' k x = ctr s' k x" by (rule ctr_frame) (use x(4) in auto)
  then have c': "ctr ?s' k x" using s'(2) by simp
  have t1: "tr (rb_mem s1) (cpar k) (paint Black u)"
    if "same_off ({x} \<union> set (iol k @ ior k)) s s1" "rb_mem s1 x = Some ?x" for s1
  proof -
    have "set (io a) \<inter> ({x} \<union> set (iol k @ ior k)) = {}" "set (io b) \<inter> ({x} \<union> set (iol k @ ior k)) = {}"
      using x(6,8) u' by (auto simp: disj_sets)
    then show ?thesis using x(5) u' that(2) by (simp add: same_off_tr [OF that(1)])
  qed
  have o1: "same_off ({x} \<union> set (iol k @ ior k)) s ?s'" using s'(3) mx by (auto simp: same_off_def)
  have o2: "same_off ({x} \<union> set (iol k @ ior k)) s s2" by (rule same_off_wr [OF s2(3)]) (use x(7) in auto)
  have m2: "rb_mem s2 x = Some ?x" using same_offD [OF s2(3) x(4)] by simp
  have "\<exists>s3. erase_node s n = Some (s3, NULL) \<and> same_off ({x} \<union> set (iol k @ ior k)) s s3 \<and> ctr s3 k x \<and>
      tr (rb_mem s3) (cpar k) (paint Black u)"
  proof (cases "l = Lf")
    case True
    then have "erase_node s n = Some (?s', NULL)"
      using R one(1) u u' x(1) s'(1) mx al by (auto simp: erase_node_def rb_exec)
    then show ?thesis using o1 c' t1 [OF o1] by auto
  next
    case False
    then have "erase_node s n = Some (s2, NULL)"
      using R one(1) u u' x(1-3,7) s2(1) al by (auto simp: erase_node_def rb_exec)
    then show ?thesis using o2 s2(2) t1 [OF o2 m2] by auto
  qed
  then obtain s3 where s3: "erase_node s n = Some (s3, NULL)" "same_off ({x} \<union> set (iol k @ ior k)) s s3" "ctr s3 k x"
      "tr (rb_mem s3) (cpar k) (paint Black u)" by blast
  have "rb_rep s3 (plug k (paint Black u))"
    using s3 k(2) x(6,8) u' by (auto simp: rb_rep_plug)
  moreover have "same_off (set (iol k @ io u @ ior k)) s s3"
    using s3(2) u' by (auto simp: same_off_def)
  ultimately show ?thesis using s3(1) one(3) unfolding unlinked_def
    by (intro exI [of _ "(s3, NULL)"] conjI exI [of _ k] exI [of _ "paint Black u"]) (auto simp: io_plug)
qed


lemma cinv_rename: "cinvc (K @ FR c l x # k) = cinvc (K @ FR c l y # k)"
  "cinvh (K @ FR c l x # k) m = cinvh (K @ FR c l y # k) m"
proof -
  have hd: "K \<noteq> [] \<Longrightarrow> hd (K @ FR c l x # k) = hd (K @ FR c l y # k)" for K by (cases K) auto
  show "cinvc (K @ FR c l x # k) = cinvc (K @ FR c l y # k)"
  proof (induction K)
    case (Cons f K)
    then show ?case using hd [of K] by (cases f; cases "K = []") auto
  qed simp
  show "cinvh (K @ FR c l x # k) m = cinvh (K @ FR c l y # k) m"
  proof (induction K arbitrary: m)
    case (Cons f K)
    then show ?case by (cases f) auto
  qed simp
qed

lemma erase_both:
  assumes rep: "rb_rep s (plug k (Nd c l n r))" and ok: "rb_ok (plug k (Nd c l n r))"
    and lr: "l \<noteq> Lf" "r \<noteq> Lf"
  shows "\<exists>q. erase_node s n = Some q \<and>
    unlinked s (iol k @ io l @ io r @ ior k) (set (iol k @ io l @ io r @ ior k)) q"
proof -
  note R = rep [unfolded rb_rep_plug, simplified]
  have m: "n \<noteq> NULL" "aligned n" "rb_mem s n = Some \<lparr>parent_color = cpar k OR col c, r_right = ad r, r_left = ad l\<rparr>"
    "tr (rb_mem s) n l" "tr (rb_mem s) n r" "distinct (io r)" "ctr s k n" using R by auto
  obtain K cy y r2 s1 q where e: "r = plug K (Nd cy Lf y r2)" "iol K = []"
      "erase_successor s (ad r) = Some (s1, spar y K, y, ad r2)" "rb_root s1 = rb_root s"
      "same_off (set (io r)) s s1" "y \<noteq> NULL" "aligned y" "aligned q"
      "rb_mem s1 y = Some \<lparr>parent_color = q OR col cy, r_right = ad (plug K r2), r_left = NULL\<rparr>"
      "seg (rb_mem s1) y K (ad r2)" "tr (rb_mem s1) y r2"
    using erase_successor [OF m(5) lr(2) m(2,6)] by blast
  have ior: "io r = y # io (plug K r2)" using e(1,2) by (simp add: io_plug)
  have D: "distinct (iol k @ n # io l @ io r @ ior k)" using R by auto
  have dj: "n \<notin> set (io r)" "set (io l) \<inter> set (io r) = {}" "set (iol k @ ior k) \<inter> set (io r) = {}"
    using D by (auto simp: disj_sets)
  have "rb_mem s1 n = Some \<lparr>parent_color = cpar k OR col c, r_right = ad r, r_left = ad l\<rparr>"
    using m(3) same_offD [OF e(5) dj(1)] by simp
  moreover have "tr (rb_mem s1) n l" using m(4) dj(2) by (simp add: same_off_tr [OF e(5)])
  moreover have "ctr s1 k n" using m(7) e(4) dj(3) by (simp add: same_off_ctr [OF e(5)])
  moreover have "distinct (iol k @ io l @ y # io (plug K r2) @ ior k)"
      "n \<notin> set (iol k @ io l @ y # io (plug K r2) @ ior k)" using D ior by auto
  ultimately obtain s2 where s2: "erase_relink s1 n (spar y K) y (ad r2) =
        Some (s2, if r2 = Lf \<and> cy = Black then spar y K else NULL)"
      "rb_rep s2 (plug k (Nd c l y (plug K (paint Black r2))))"
      "same_off (set (iol k @ io l @ y # io (plug K r2) @ ior k)) s1 s2"
    using erase_relink [of s1 n k c "ad r" l y q cy K r2 NULL y] m(1,2) lr(1) e by blast
  let ?reb = "if r2 = Lf \<and> cy = Black then spar y K else NULL"
  let ?K = "K @ FR c l y # k"
  have nl: "ad l \<noteq> NULL" "ad r \<noteq> NULL" using m(4,5) lr tr_ad by blast+
  have run: "erase_node s n = Some (s2, ?reb)"
    using m(1,3) nl e(3) s2(1) by (simp add: erase_node_def rb_exec)
  have ok1: "rb_ok (plug (K @ FR c l n # k) (Nd cy Lf y r2))" using ok e(1) by (simp add: plug_append)
  note ok2 = rb_ok_plugD [OF ok1, unfolded cinv_rename(1) [of K c l n k y] cinv_rename(2) [of K c l n k _ y]]
  have tree: "plug k (Nd c l y (plug K (paint Black r2))) = plug ?K (paint Black r2)" by (simp add: plug_append)
  have yK: "spar y K = cpar ?K" by (cases K) (auto simp: spar_def)
  have col: "r2 \<noteq> Lf \<Longrightarrow> colr r2 = Red \<and> cy = Black \<and> bh r2 = 0" using ok2(3,4) by (cases r2; cases "colr r2"; cases cy) auto
  have "if ?reb = NULL then rb_ok (plug ?K (paint Black r2))
      else ?reb = cpar ?K \<and> paint Black r2 = Lf \<and> cinvc ?K \<and> cinvh ?K (Suc 0)"
  proof (cases "r2 = Lf \<and> cy = Black")
    case True
    have "spar y K \<noteq> NULL" using e(6,10) by (cases K rule: iol.cases) (auto simp: spar_def)
    then show ?thesis using True ok2 yK by simp
  next
    case False
    have "rb_ok (plug ?K (paint Black r2))"
      by (rule rb_ok_plug) (use False ok2 col in \<open>cases cy; cases "r2 = Lf"; auto simp: bh_paint_Black invc_paint_Black\<close>)+
    then show ?thesis using False by auto
  qed
  moreover have "same_off (set (iol k @ io l @ io r @ ior k)) s s2"
    by (rule same_off_trans [OF e(5) s2(3)]) (auto simp: ior)
  moreover have "io (plug ?K (paint Black r2)) = iol k @ io l @ io r @ ior k"
    using ior by (simp add: plug_append io_plug)
  ultimately show ?thesis using run s2(2) tree unfolding unlinked_def
    by (intro exI [of _ "(s2, ?reb)"] conjI exI [of _ ?K] exI [of _ "paint Black r2"]) simp_all
qed

lemma erase_node:
  assumes rep: "rb_rep s (plug k (Nd c l n r))" and ok: "rb_ok (plug k (Nd c l n r))"
  shows "\<exists>q. erase_node s n = Some q \<and>
    unlinked s (iol k @ io l @ io r @ ior k) (set (iol k @ io l @ io r @ ior k)) q"
  using erase_leaf [of s k c n] erase_one [OF rep ok, of l] erase_one [OF rep ok, of r] erase_both [OF rep ok] rep ok
  by (cases "l = Lf"; cases "r = Lf") auto

section \<open>Removal of a node\<close>

lemma rbtree_erase:
  assumes rep: "rb_rep s t" and ok: "rb_ok t" and n: "n \<in> set (io t)"
  shows "\<exists>s' t'. hev_rbtree_erase s n = Some s' \<and> rb_rep s' t' \<and> rb_ok t' \<and>
    io t' = remove1 n (io t) \<and> same_off (set (remove1 n (io t))) s s'"
proof -
  obtain k c l r where t: "t = plug k (Nd c l n r)" using in_io_plug [OF n] by blast
  have D: "distinct (iol k @ io l @ n # io r @ ior k)" using rep t by (simp add: rb_rep_def io_plug)
  then have rem: "remove1 n (io t) = iol k @ io l @ io r @ ior k" by (simp add: t io_plug remove1_append)
  obtain s1 reb where e: "erase_node s n = Some (s1, reb)"
      "unlinked s (iol k @ io l @ io r @ ior k) (set (iol k @ io l @ io r @ ior k)) (s1, reb)"
    using erase_node [of s k c l n r] rep ok t by auto
  obtain K u where u: "rb_rep s1 (plug K u)" "io (plug K u) = iol k @ io l @ io r @ ior k"
      "if reb = NULL then rb_ok (plug K u) else reb = cpar K \<and> u = Lf \<and> cinvc K \<and> cinvh K (Suc 0)"
      "same_off (set (iol k @ io l @ io r @ ior k)) s s1"
    using e(2) unfolding unlinked_def by (simp only: fst_conv snd_conv) blast
  show ?thesis
  proof (cases "reb = NULL")
    case True
    then show ?thesis using e(1) u rem by (intro exI [of _ s1] exI [of _ "plug K u"]) (simp add: hev_rbtree_erase_def)
  next
    case False
    then have K: "reb = cpar K" "u = Lf" "cinvc K" "cinvh K (Suc 0)" "K \<noteq> []" using u(3) by auto
    obtain s' where s': "erase_color_loop s1 NULL (cpar K) = Some s'" "rb_rep s' (ers_fix K Lf)"
        "same_off (set (io (plug K Lf))) s1 s'"
      using erase_color_loop [of s1 K Lf] u(1) K by auto
    have "hev_rbtree_erase s n = Some s'" using e(1) False s'(1) K(1) by (simp add: hev_rbtree_erase_def)
    moreover have "rb_ok (ers_fix K Lf)" by (rule rb_ok_ers_fix) (use K in auto)
    moreover have "io (ers_fix K Lf) = remove1 n (io t)" using u(2) rem K(2) by (simp add: io_ers_fix)
    moreover have "same_off (set (remove1 n (io t))) s s'"
      by (rule same_off_trans [OF u(4) s'(3)]) (use u(2) rem K(2) in auto)
    ultimately show ?thesis using s'(2) by blast
  qed
qed


text \<open>C13: removing any node of a red-black tree ends, dereferences only nodes of the tree, and
  leaves a red-black tree with the same in-order sequence without that node; the removed node
  and everything outside the tree keep their contents.\<close>

theorem rbtree_erase_correct:
  assumes "rb_rep s t" and "rb_ok t" and "node \<in> set (io t)"
  shows "\<exists>s' t'. hev_rbtree_erase s node = Some s' \<and> rb_rep s' t' \<and> rb_ok t' \<and>
    io t' = remove1 node (io t) \<and> same_off (set (remove1 node (io t))) s s'"
  using rbtree_erase [OF assms] .

text \<open>The witness removes the root of a tree of three black nodes and one red one, with a rotation.\<close>

definition four_nodes :: HevRBTree where
  "four_nodes = \<lparr>rb_root = 32, rb_mem =
     [32 \<mapsto> \<lparr>parent_color = 1, r_right = 64, r_left = 16\<rparr>,
      16 \<mapsto> \<lparr>parent_color = 33, r_right = 0, r_left = 8\<rparr>,
      8 \<mapsto> \<lparr>parent_color = 16, r_right = 0, r_left = 0\<rparr>,
      64 \<mapsto> \<lparr>parent_color = 33, r_right = 0, r_left = 0\<rparr>]\<rparr>"

theorem rbtree_erase_correct_witness:
  "\<exists>s' t'. hev_rbtree_erase four_nodes 32 = Some s' \<and> rb_rep s' t' \<and> rb_ok t' \<and>
    io t' = [8, 16, 64] \<and> same_off {8, 16, 64} four_nodes s'"
proof -
  let ?t = "Nd Black (Nd Black (Nd Red Lf 8 Lf) 16 Lf) 32 (Nd Black Lf 64 Lf)"
  have "rb_rep four_nodes ?t" by (simp add: rb_rep_def four_nodes_def aligned_def)
  moreover have "rb_ok ?t" by (simp add: rb_ok_def)
  ultimately show ?thesis using rbtree_erase_correct [of four_nodes ?t 32] by simp
qed

end
