(* ===== verification/TreeSearch.thy ===== *)
theory TreeSearch
  imports RBTreeInsert RBTreeErase
begin

text \<open>
  The search loop that the clients of the red-black tree write themselves: from the root down,
  comparing the key of every node on the way, until the key or an empty link is found. The
  locale \<^verbatim>\<open>tree_search\<close> is the contract between such a loop and the tree; it is interpreted
  on the loops of the mapped DNS cache and of the authenticator.
\<close>

datatype found = Found ptr | Missing link ptr

text \<open>The comparison of the nodes of a sequence with a key is positive on a prefix, negative on
  a suffix and zero between them.\<close>

definition cmp_sorted :: "(ptr \<Rightarrow> int) \<Rightarrow> ptr list \<Rightarrow> bool" where
  "cmp_sorted f xs \<longleftrightarrow> sorted_wrt (\<lambda>p q. f p \<le> 0 \<longrightarrow> f q < 0) xs"

lemma cmp_sorted_append:
  "cmp_sorted f (xs @ p # ys) \<Longrightarrow> f p < 0 \<Longrightarrow> q \<in> set ys \<Longrightarrow> f q < 0"
  "cmp_sorted f (xs @ p # ys) \<Longrightarrow> 0 < f p \<Longrightarrow> q \<in> set xs \<Longrightarrow> 0 < f q"
  by (force simp: cmp_sorted_def sorted_wrt_append)+

text \<open>What the search of a whole tree gives.\<close>

definition search_post :: "(ptr \<Rightarrow> int) \<Rightarrow> rbt \<Rightarrow> found \<Rightarrow> bool" where
  "search_post f t r = (case r of
     Found p \<Rightarrow> p \<in> set (io t) \<and> f p = 0
   | Missing lnk par \<Rightarrow> (\<exists>k. lnk = klink k \<and> par = cpar k \<and> t = plug k Lf \<and>
       (\<forall>p\<in>set (iol k). 0 < f p) \<and> (\<forall>p\<in>set (ior k). f p < 0)))"

lemma search_post_Missing:
  "search_post f t (Missing lnk par) \<Longrightarrow> p \<in> set (io t) \<Longrightarrow> f p \<noteq> 0"
  by (force simp: search_post_def io_plug)

locale tree_search =
  fixes tree :: HevRBTree
    and compare :: "ptr \<Rightarrow> int option"
    and search :: "link \<Rightarrow> ptr \<Rightarrow> found option"
  assumes search_unfold: "search lnk par = do {
      cur \<leftarrow> load_link tree lnk;
      if cur = NULL then Some (Missing lnk par)
      else do {
        res \<leftarrow> compare cur;
        if res < 0 then search (LinkLeft cur) cur
        else if res > 0 then search (LinkRight cur) cur
        else Some (Found cur) } }"
begin

lemma load_klink: "rb_rep tree (plug k t) \<Longrightarrow> load_link tree (klink k) = Some (ad t)"
  using rb_rep_plug [of tree k t] by (cases k rule: klink.cases) (auto simp: rb_exec)

lemma search_from:
  assumes "rb_rep tree (plug k t)" "\<forall>p\<in>set (io (plug k t)). compare p = Some (f p)"
    "cmp_sorted f (io (plug k t))" "\<forall>p\<in>set (iol k). 0 < f p" "\<forall>p\<in>set (ior k). f p < 0"
  shows "\<exists>r. search (klink k) (cpar k) = Some r \<and> search_post f (plug k t) r"
  using assms
proof (induction t arbitrary: k)
  case Lf
  then have "search (klink k) (cpar k) = Some (Missing (klink k) (cpar k))"
    using load_klink [of k Lf] by (subst search_unfold) simp
  then show ?case using Lf by (auto simp: search_post_def)
next
  case (Nd c l p r)
  have p: "p \<noteq> NULL" "compare p = Some (f p)" "load_link tree (klink k) = Some p"
    using Nd.prems(1,2) load_klink [OF Nd.prems(1)] by (auto simp: rb_rep_plug io_plug)
  have io: "io (plug k (Nd c l p r)) = (iol k @ io l) @ p # (io r @ ior k)" by (simp add: io_plug)
  consider "f p < 0" | "0 < f p" | "f p = 0" by linarith
  then show ?case
  proof cases
    case 1
    have "search (klink k) (cpar k) = search (LinkLeft p) p" using p 1 by (subst search_unfold) simp
    moreover have "\<exists>r'. search (klink (FL c p r # k)) (cpar (FL c p r # k)) = Some r' \<and>
        search_post f (plug (FL c p r # k) l) r'"
      using Nd.prems 1 cmp_sorted_append(1) [OF Nd.prems(3) [unfolded io] 1] by (intro Nd.IH(1)) auto
    ultimately show ?thesis by simp
  next
    case 2
    have "search (klink k) (cpar k) = search (LinkRight p) p" using p 2 by (subst search_unfold) simp
    moreover have "\<exists>r'. search (klink (FR c l p # k)) (cpar (FR c l p # k)) = Some r' \<and>
        search_post f (plug (FR c l p # k) r) r'"
      using Nd.prems 2 cmp_sorted_append(2) [OF Nd.prems(3) [unfolded io] 2] by (intro Nd.IH(2)) auto
    ultimately show ?thesis by simp
  next
    case 3
    have "search (klink k) (cpar k) = Some (Found p)" using p 3 by (subst search_unfold) simp
    then show ?thesis using 3 by (auto simp: search_post_def io_plug)
  qed
qed

text \<open>The search of a tree whose nodes are in key order ends, and finds the key or the empty
  link at which it belongs.\<close>

lemma search_root:
  assumes "rb_rep tree t" "\<forall>p\<in>set (io t). compare p = Some (f p)" "cmp_sorted f (io t)"
  shows "\<exists>r. search LinkRoot NULL = Some r \<and> search_post f t r"
  using search_from [of "[]" t f] assms by simp

end

text \<open>The same search written with the node instead of the link to it, for clients that do not
  insert: it gives the node or null.\<close>

locale node_search =
  fixes tree :: HevRBTree
    and compare :: "ptr \<Rightarrow> int option"
    and walk :: "ptr \<Rightarrow> ptr option"
  assumes walk_unfold: "walk p = (if p = NULL then Some NULL else do {
      res \<leftarrow> compare p;
      if res < 0 then do { l \<leftarrow> get_left tree p; walk l }
      else if res > 0 then do { r \<leftarrow> get_right tree p; walk r }
      else Some p })"
begin

lemma walk_subtree:
  assumes "tr (rb_mem tree) par t" "\<forall>p\<in>set (io t). compare p = Some (f p)" "cmp_sorted f (io t)"
  shows "\<exists>p. walk (ad t) = Some p \<and>
    (if p = NULL then \<forall>q\<in>set (io t). f q \<noteq> 0 else p \<in> set (io t) \<and> f p = 0)"
  using assms
proof (induction t arbitrary: par)
  case Lf
  then show ?case by (subst walk_unfold) simp
next
  case (Nd c l p r)
  have p: "p \<noteq> NULL" "compare p = Some (f p)" "get_left tree p = Some (ad l)" "get_right tree p = Some (ad r)"
    using Nd.prems(1,2) by (auto simp: rb_exec)
  have sub: "tr (rb_mem tree) p l" "tr (rb_mem tree) p r" "cmp_sorted f (io l)" "cmp_sorted f (io r)"
    using Nd.prems by (auto simp: cmp_sorted_def sorted_wrt_append)
  note S = cmp_sorted_append [of f "io l" p "io r"]
  consider "f p < 0" | "0 < f p" | "f p = 0" by linarith
  then show ?case
  proof cases
    case 1
    have "walk p = walk (ad l)" using p 1 by (subst walk_unfold) simp
    moreover obtain q where "walk (ad l) = Some q"
        "if q = NULL then \<forall>x\<in>set (io l). f x \<noteq> 0 else q \<in> set (io l) \<and> f q = 0"
      using Nd.IH(1) [OF sub(1) _ sub(3)] Nd.prems(2) by auto
    ultimately show ?thesis using S(1) Nd.prems(3) 1 by (force split: if_splits)
  next
    case 2
    have "walk p = walk (ad r)" using p 2 by (subst walk_unfold) simp
    moreover obtain q where "walk (ad r) = Some q"
        "if q = NULL then \<forall>x\<in>set (io r). f x \<noteq> 0 else q \<in> set (io r) \<and> f q = 0"
      using Nd.IH(2) [OF sub(2) _ sub(4)] Nd.prems(2) by auto
    ultimately show ?thesis using S(2) Nd.prems(3) 2 by (force split: if_splits)
  next
    case 3
    have "walk p = Some p" using p 3 by (subst walk_unfold) simp
    then show ?thesis using p 3 by auto
  qed
qed

lemma walk_root:
  assumes "rb_rep tree t" "\<forall>p\<in>set (io t). compare p = Some (f p)" "cmp_sorted f (io t)"
  shows "\<exists>p. walk (rb_root tree) = Some p \<and>
    (if p = NULL then \<forall>q\<in>set (io t). f q \<noteq> 0 else p \<in> set (io t) \<and> f p = 0)"
  using walk_subtree [of NULL t f] assms by (simp add: rb_rep_def)

end

end
