(* ===== verification/CString.thy ===== *)
theory CString
  imports Prelude "HOL-Library.List_Lexorder"
begin

text \<open>
  C strings as the list of the bytes before the terminating zero, and the parts of
  \<open>string.h\<close> that the sources use.
\<close>

type_synonym cstr = "byte list"

text \<open>\<open>strcmp\<close> compares the bytes as unsigned numbers; only the sign of its result is used.\<close>

fun strcmp :: "cstr \<Rightarrow> cstr \<Rightarrow> int" where
  "strcmp [] [] = 0"
| "strcmp [] (b # bs) = - 1"
| "strcmp (a # as) [] = 1"
| "strcmp (a # as) (b # bs) = (if a = b then strcmp as bs else if a < b then - 1 else 1)"

lemma strcmp_less: "strcmp a b < 0 \<longleftrightarrow> a < b"
  by (induction a b rule: strcmp.induct) auto

lemma strcmp_eq: "strcmp a b = 0 \<longleftrightarrow> a = b"
  by (induction a b rule: strcmp.induct) auto

lemma strcmp_greater: "0 < strcmp a b \<longleftrightarrow> b < a"
  using strcmp_less [of a b] strcmp_eq [of a b] by (cases "strcmp a b" "0 :: int" rule: linorder_cases) auto

lemmas strcmp_order = strcmp_less strcmp_eq strcmp_greater

text \<open>The string that starts at an offset of a buffer: the bytes up to the first zero, if there
  is one inside the buffer; reading a string that is not terminated leaves the buffer.\<close>

fun c_str :: "byte list \<Rightarrow> cstr option" where
  "c_str [] = None"
| "c_str (b # bs) = (if b = 0 then Some [] else map_option (Cons b) (c_str bs))"

lemma c_str_None: "c_str bs = None \<longleftrightarrow> 0 \<notin> set bs"
  by (induction bs) auto

lemma c_str_Some: "0 \<in> set bs \<Longrightarrow> \<exists>s. c_str bs = Some s \<and> 0 \<notin> set s \<and> length s < length bs"
  by (induction bs) force+

lemma c_str_append: "0 \<notin> set xs \<Longrightarrow> c_str (xs @ 0 # ys) = Some xs"
  by (induction xs) auto

section \<open>Byte buffers\<close>

text \<open>\<open>memcmp\<close> of the first bytes of two buffers; a buffer that is shorter is read past its end.\<close>

definition memcmp :: "byte list \<Rightarrow> byte list \<Rightarrow> nat \<Rightarrow> int option" where
  "memcmp a b n =
     (if n \<le> length a \<and> n \<le> length b then Some (strcmp (take n a) (take n b)) else None)"

text \<open>Comparing the lengths first and the bytes of equally long strings after that is a linear
  order; \<open>len_cmp\<close> is its comparison.\<close>

definition len_cmp :: "byte list \<Rightarrow> byte list \<Rightarrow> int" where
  "len_cmp a b = (if length a < length b then - 1 else if length b < length a then 1 else strcmp a b)"

lemma len_cmp_eq: "len_cmp a b = 0 \<longleftrightarrow> a = b"
  by (auto simp: len_cmp_def strcmp_order)

lemma len_cmp_sym: "len_cmp a b < 0 \<longleftrightarrow> 0 < len_cmp b a"
  by (auto simp: len_cmp_def strcmp_order)

lemma len_cmp_trans: "len_cmp a b < 0 \<Longrightarrow> len_cmp b c \<le> 0 \<Longrightarrow> len_cmp a c < 0"
  by (auto simp: len_cmp_def strcmp_order not_less [symmetric] split: if_splits)

section \<open>Access to buffers\<close>

definition bget :: "byte list \<Rightarrow> nat \<Rightarrow> byte option" where
  "bget b i = (if i < length b then Some (b ! i) else None)"

definition bput :: "byte list \<Rightarrow> nat \<Rightarrow> byte \<Rightarrow> byte list option" where
  "bput b i v = (if i < length b then Some (b[i := v]) else None)"

text \<open>16-bit fields in the memory of a little-endian host, and the change of byte order.\<close>

definition load16 :: "byte list \<Rightarrow> nat \<Rightarrow> u16 option" where
  "load16 b i = do {
     x \<leftarrow> bget b i;
     y \<leftarrow> bget b (i + 1);
     Some (ucast x OR push_bit 8 (ucast y)) }"

definition store16 :: "byte list \<Rightarrow> nat \<Rightarrow> u16 \<Rightarrow> byte list option" where
  "store16 b i v = do {
     b \<leftarrow> bput b i (ucast v);
     bput b (i + 1) (ucast (drop_bit 8 v)) }"

definition ntohs :: "u16 \<Rightarrow> u16" where
  "ntohs v = push_bit 8 v OR drop_bit 8 v"

abbreviation (input) htons :: "u16 \<Rightarrow> u16" where "htons \<equiv> ntohs"

text \<open>Blocks of bytes.\<close>

definition overwrite :: "byte list \<Rightarrow> nat \<Rightarrow> byte list \<Rightarrow> byte list" where
  "overwrite b i v = take i b @ v @ drop (i + length v) b"

lemma length_overwrite [simp]: "i + length v \<le> length b \<Longrightarrow> length (overwrite b i v) = length b"
  by (simp add: overwrite_def)

lemma overwrite_append: "i = length xs \<Longrightarrow> overwrite (xs @ ys) i v = xs @ v @ drop (length v) ys"
  by (simp add: overwrite_def)

lemma bput_overwrite: "i < length b \<Longrightarrow> bput b i v = Some (overwrite b i [v])"
  by (simp add: bput_def overwrite_def upd_conv_take_nth_drop)

lemma overwrite_overwrite:
  "j = i + length v \<Longrightarrow> i + length v + length w \<le> length b \<Longrightarrow> overwrite (overwrite b i v) j w = overwrite b i (v @ w)"
  by (simp add: overwrite_def add.commute add.left_commute)

definition mget :: "byte list \<Rightarrow> nat \<Rightarrow> nat \<Rightarrow> byte list option" where
  "mget b i n = (if i + n \<le> length b then Some (take n (drop i b)) else None)"

definition mput :: "byte list \<Rightarrow> nat \<Rightarrow> byte list \<Rightarrow> byte list option" where
  "mput b i v = (if i + length v \<le> length b then Some (overwrite b i v) else None)"

definition bytes16 :: "u16 \<Rightarrow> byte list" where
  "bytes16 v = [ucast v, ucast (drop_bit 8 v)]"

lemma length_bytes16 [simp]: "length (bytes16 v) = 2"
  by (simp add: bytes16_def)

lemma store16_bytes16: "i + 2 \<le> length b \<Longrightarrow> store16 b i v = Some (overwrite b i (bytes16 v))"
  by (simp add: store16_def bput_overwrite overwrite_overwrite bytes16_def)

lemma load16_bytes16: "load16 (xs @ bytes16 v @ ys) (length xs) = Some v"
proof -
  have "ucast (ucast v :: byte) OR push_bit 8 (ucast (ucast (drop_bit 8 v) :: byte)) = v"
    by (rule bit_eqI) (auto simp: bit_simps)
  then show ?thesis by (simp add: load16_def bget_def bytes16_def nth_append)
qed

lemma ntohs_ntohs [simp]: "ntohs (ntohs v) = v"
  unfolding ntohs_def by (rule bit_eqI) (auto simp: bit_simps)

end
