(* ===== verification/Authenticator.thy ===== *)
theory Authenticator
  imports TreeSearch RBTreeWalk CString
begin

text \<open>
  Users and the authenticator that holds them: \<open>core/src/hev-socks5-user.c\<close> and
  \<open>core/src/hev-socks5-authenticator.c\<close>, on top of the reference counts of
  \<open>hev-object-atomic.c\<close>. The authenticator is a red-black tree of user objects, ordered
  by the length of the name and then by its bytes; it owns one reference to every user in it.
  As in the mapped DNS cache, the tree node of a user and its other fields have a heap each,
  with the address of the object as the key in both. The theory shows that the authenticator
  implements a finite map from names to users.
\<close>

section \<open>Users\<close>

record HevSocks5User =
  u_ref :: u32
  u_name :: "byte list"
  u_pass :: "byte list"
  u_name_len :: u32
  u_pass_len :: u32

record HevSocks5Authenticator =
  a_tree :: HevRBTree
  a_users :: "HevSocks5User heap"

text \<open>\<open>malloc (len + 1)\<close>, \<open>memcpy\<close> and the terminating zero. The size is computed in
  \<open>unsigned int\<close> and wraps for the largest length; then the copy leaves the buffer.\<close>

definition dup_bytes :: "byte list \<Rightarrow> u32 \<Rightarrow> byte list option" where
  "dup_bytes src len =
     (if unat len \<le> length src \<and> unat len < unat (len + 1)
      then Some (take (unat len) src @ [0]) else None)"

text \<open>The results of the two calls of \<open>malloc\<close> are arguments; the inner \<^term>\<open>None\<close> is the
  result -1.\<close>

definition hev_socks5_user_construct ::
  "bool \<Rightarrow> bool \<Rightarrow> byte list \<Rightarrow> u32 \<Rightarrow> byte list \<Rightarrow> u32 \<Rightarrow> HevSocks5User option option" where
  "hev_socks5_user_construct name_mem pass_mem name name_len pass pass_len =
     (if \<not> name_mem then Some None
      else do {
        nm \<leftarrow> dup_bytes name name_len;
        if \<not> pass_mem then Some None
        else do {
          pw \<leftarrow> dup_bytes pass pass_len;
          Some (Some \<lparr>u_ref = 1, u_name = nm, u_pass = pw,
                      u_name_len = name_len, u_pass_len = pass_len\<rparr>) } })"

definition hev_socks5_user_new ::
  "ptr \<times> bool \<times> bool \<Rightarrow> HevSocks5Authenticator \<Rightarrow> byte list \<Rightarrow> u32 \<Rightarrow> byte list \<Rightarrow> u32 \<Rightarrow>
   (HevSocks5Authenticator \<times> ptr) option" where
  "hev_socks5_user_new mem st name name_len pass pass_len =
     (case mem of (self, name_mem, pass_mem) \<Rightarrow>
      if self = NULL then Some (st, NULL)
      else do {
        u \<leftarrow> hev_socks5_user_construct name_mem pass_mem name name_len pass pass_len;
        case u of
          None \<Rightarrow> Some (st, NULL)
        | Some u \<Rightarrow> Some (st\<lparr>a_tree := (a_tree st)\<lparr>rb_mem := (rb_mem (a_tree st))(self \<mapsto>
              \<lparr>parent_color = 0, r_right = NULL, r_left = NULL\<rparr>)\<rparr>,
            a_users := (a_users st)(self \<mapsto> u)\<rparr>, self) })"

definition hev_socks5_user_checker :: "HevSocks5User \<Rightarrow> byte list \<Rightarrow> u32 \<Rightarrow> int option" where
  "hev_socks5_user_checker self pass pass_len =
     (if u_pass_len self \<noteq> pass_len then Some (- 1)
      else do {
        c \<leftarrow> memcmp (u_pass self) pass (unat pass_len);
        if c \<noteq> 0 then Some (- 1) else Some 0 })"

definition hev_socks5_user_check ::
  "HevSocks5Authenticator \<Rightarrow> ptr \<Rightarrow> byte list \<Rightarrow> u32 \<Rightarrow> int option" where
  "hev_socks5_user_check st self pass pass_len = do {
     u \<leftarrow> rd (a_users st) self; hev_socks5_user_checker u pass pass_len }"

text \<open>Destruction frees the strings and the object: its address is dangling afterwards.\<close>

definition hev_socks5_user_destruct ::
  "HevSocks5Authenticator \<Rightarrow> ptr \<Rightarrow> HevSocks5Authenticator option" where
  "hev_socks5_user_destruct st base = do {
     u \<leftarrow> rd (a_users st) base;
     Some (st\<lparr>a_tree := (a_tree st)\<lparr>rb_mem := (rb_mem (a_tree st))(base := None)\<rparr>,
              a_users := (a_users st)(base := None)\<rparr>) }"

definition hev_object_atomic_ref ::
  "HevSocks5Authenticator \<Rightarrow> ptr \<Rightarrow> bool \<Rightarrow> HevSocks5Authenticator option" where
  "hev_object_atomic_ref st base ref =
     (if ref then do {
        h \<leftarrow> wr (a_users st) base (\<lambda>u. u\<lparr>u_ref := u_ref u + 1\<rparr>);
        Some (st\<lparr>a_users := h\<rparr>) }
      else do {
        u \<leftarrow> rd (a_users st) base;
        h \<leftarrow> wr (a_users st) base (\<lambda>u. u\<lparr>u_ref := u_ref u - 1\<rparr>);
        if u_ref u > 1 then Some (st\<lparr>a_users := h\<rparr>)
        else hev_socks5_user_destruct (st\<lparr>a_users := h\<rparr>) base })"

abbreviation hev_object_unref :: "HevSocks5Authenticator \<Rightarrow> ptr \<Rightarrow> HevSocks5Authenticator option" where
  "hev_object_unref st base \<equiv> hev_object_atomic_ref st base False"

section \<open>The authenticator\<close>

definition hev_socks5_authenticator_new :: "bool \<Rightarrow> HevSocks5User heap \<Rightarrow> HevRBTreeNode heap \<Rightarrow>
    HevSocks5Authenticator option" where
  "hev_socks5_authenticator_new mem users nodes =
     (if \<not> mem then None
      else Some \<lparr>a_tree = \<lparr>rb_root = NULL, rb_mem = nodes\<rparr>, a_users = users\<rparr>)"

text \<open>The comparison that the three search loops make at a node.\<close>

definition compare_user :: "HevSocks5Authenticator \<Rightarrow> byte list \<Rightarrow> u32 \<Rightarrow> ptr \<Rightarrow> int option" where
  "compare_user st name name_len node = do {
     this \<leftarrow> rd (a_users st) node;
     if u_name_len this < name_len then Some (- 1)
     else if u_name_len this > name_len then Some 1
     else memcmp (u_name this) name (unat (u_name_len this)) }"

partial_function (option) add_loop ::
  "HevSocks5Authenticator \<Rightarrow> byte list \<Rightarrow> u32 \<Rightarrow> link \<Rightarrow> ptr \<Rightarrow> found option" where
  "add_loop st name name_len new parent = do {
     cur \<leftarrow> load_link (a_tree st) new;
     if cur = NULL then Some (Missing new parent)
     else do {
       res \<leftarrow> compare_user st name name_len cur;
       if res < 0 then add_loop st name name_len (LinkLeft cur) cur
       else if res > 0 then add_loop st name name_len (LinkRight cur) cur
       else Some (Found cur) } }"

definition hev_socks5_authenticator_add ::
  "HevSocks5Authenticator \<Rightarrow> ptr \<Rightarrow> (HevSocks5Authenticator \<times> int) option" where
  "hev_socks5_authenticator_add self user = do {
     u \<leftarrow> rd (a_users self) user;
     f \<leftarrow> add_loop self (u_name u) (u_name_len u) LinkRoot NULL;
     case f of
       Found cur \<Rightarrow> Some (self, - 1)
     | Missing new parent \<Rightarrow> do {
         t \<leftarrow> hev_rbtree_node_link (a_tree self) user parent new;
         t \<leftarrow> hev_rbtree_insert_color t user;
         Some (self\<lparr>a_tree := t\<rparr>, 0) } }"

partial_function (option) del_loop ::
  "HevSocks5Authenticator \<Rightarrow> byte list \<Rightarrow> u32 \<Rightarrow> ptr \<Rightarrow> ptr option" where
  "del_loop st name name_len node =
     (if node = NULL then Some NULL
      else do {
        res \<leftarrow> compare_user st name name_len node;
        if res < 0 then do { l \<leftarrow> get_left (a_tree st) node; del_loop st name name_len l }
        else if res > 0 then do { r \<leftarrow> get_right (a_tree st) node; del_loop st name name_len r }
        else Some node })"

definition hev_socks5_authenticator_del ::
  "HevSocks5Authenticator \<Rightarrow> byte list \<Rightarrow> u32 \<Rightarrow> (HevSocks5Authenticator \<times> int) option" where
  "hev_socks5_authenticator_del self name name_len = do {
     node \<leftarrow> del_loop self name name_len (rb_root (a_tree self));
     if node = NULL then Some (self, - 1)
     else do {
       t \<leftarrow> hev_rbtree_erase (a_tree self) node;
       self \<leftarrow> hev_object_unref (self\<lparr>a_tree := t\<rparr>) node;
       Some (self, 0) } }"

partial_function (option) get_loop ::
  "HevSocks5Authenticator \<Rightarrow> byte list \<Rightarrow> u32 \<Rightarrow> ptr \<Rightarrow> ptr option" where
  "get_loop st name name_len node =
     (if node = NULL then Some NULL
      else do {
        res \<leftarrow> compare_user st name name_len node;
        if res < 0 then do { l \<leftarrow> get_left (a_tree st) node; get_loop st name name_len l }
        else if res > 0 then do { r \<leftarrow> get_right (a_tree st) node; get_loop st name name_len r }
        else Some node })"

definition hev_socks5_authenticator_get ::
  "HevSocks5Authenticator \<Rightarrow> byte list \<Rightarrow> u32 \<Rightarrow> ptr option" where
  "hev_socks5_authenticator_get self name name_len =
     get_loop self name name_len (rb_root (a_tree self))"

partial_function (option) hev_socks5_authenticator_clear ::
  "HevSocks5Authenticator \<Rightarrow> HevSocks5Authenticator option" where
  "hev_socks5_authenticator_clear self = do {
     n \<leftarrow> hev_rbtree_first (a_tree self);
     if n = NULL then Some self
     else do {
       t \<leftarrow> hev_rbtree_erase (a_tree self) n;
       self \<leftarrow> hev_object_unref (self\<lparr>a_tree := t\<rparr>) n;
       hev_socks5_authenticator_clear self } }"

text \<open>Destruction clears the tree and frees the authenticator object; what remains is the memory
  of the users.\<close>

definition hev_socks5_authenticator_destruct ::
  "HevSocks5Authenticator \<Rightarrow> HevSocks5Authenticator option" where
  "hev_socks5_authenticator_destruct self = hev_socks5_authenticator_clear self"

section \<open>The abstract map\<close>

definition user_name :: "HevSocks5User \<Rightarrow> byte list" where
  "user_name u = take (unat (u_name_len u)) (u_name u)"

definition user_pass :: "HevSocks5User \<Rightarrow> byte list" where
  "user_pass u = take (unat (u_pass_len u)) (u_pass u)"

definition user_wf :: "HevSocks5User \<Rightarrow> bool" where
  "user_wf u \<longleftrightarrow> length (u_name u) = Suc (unat (u_name_len u)) \<and>
     length (u_pass u) = Suc (unat (u_pass_len u)) \<and> u_ref u > 0"

definition uname :: "HevSocks5Authenticator \<Rightarrow> ptr \<Rightarrow> byte list" where
  "uname st p = user_name (the (a_users st p))"

text \<open>Every allocated user is well formed and has a tree node; the tree holds allocated users
  in descending order of their names.\<close>

definition auth_inv :: "HevSocks5Authenticator \<Rightarrow> rbt \<Rightarrow> bool" where
  "auth_inv st t \<longleftrightarrow> rb_rep (a_tree st) t \<and> rb_ok t \<and> set (io t) \<subseteq> dom (a_users st) \<and>
     (\<forall>p u. a_users st p = Some u \<longrightarrow>
        p \<noteq> NULL \<and> aligned p \<and> rb_mem (a_tree st) p \<noteq> None \<and> user_wf u) \<and>
     sorted_wrt (\<lambda>p q. len_cmp (uname st p) (uname st q) > 0) (io t)"

definition registered :: "HevSocks5Authenticator \<Rightarrow> rbt \<Rightarrow> byte list \<rightharpoonup> ptr" where
  "registered st t = map_of (map (\<lambda>p. (uname st p, p)) (io t))"

text \<open>What giving up one reference leaves of a user object.\<close>

definition release :: "HevSocks5User heap \<Rightarrow> ptr \<Rightarrow> HevSocks5User option" where
  "release users p = (case users p of
     None \<Rightarrow> None
   | Some u \<Rightarrow> if u_ref u > 1 then Some (u\<lparr>u_ref := u_ref u - 1\<rparr>) else None)"

section \<open>Correctness\<close>

lemma auth_invD:
  assumes "auth_inv st t"
  shows "rb_rep (a_tree st) t" "rb_ok t" "set (io t) \<subseteq> dom (a_users st)" "distinct (io t)"
    "sorted_wrt (\<lambda>p q. len_cmp (uname st p) (uname st q) > 0) (io t)"
  using assms by (auto simp: auth_inv_def rb_rep_def)

lemma auth_inv_user:
  "auth_inv st t \<Longrightarrow> a_users st p = Some u \<Longrightarrow>
     p \<noteq> NULL \<and> aligned p \<and> rb_mem (a_tree st) p \<noteq> None \<and> user_wf u"
  by (simp add: auth_inv_def)

lemma auth_inv_mem:
  "auth_inv st t \<Longrightarrow> p \<in> set (io t) \<Longrightarrow> \<exists>u. a_users st p = Some u \<and> p \<noteq> NULL \<and> user_wf u"
  unfolding auth_inv_def by fast

interpretation add_search: tree_search "a_tree st" "compare_user st name len" "add_loop st name len" for st name len
  by unfold_locales (rule add_loop.simps)

interpretation del_search: node_search "a_tree st" "compare_user st name len" "del_loop st name len" for st name len
  by unfold_locales (rule del_loop.simps)

interpretation get_search: node_search "a_tree st" "compare_user st name len" "get_loop st name len" for st name len
  by unfold_locales (rule get_loop.simps)

lemma compare_user_len_cmp:
  assumes "a_users st p = Some u" "p \<noteq> NULL" "user_wf u" "unat len \<le> length name"
  shows "compare_user st name len p = Some (len_cmp (uname st p) (take (unat len) name))"
proof -
  have "length (user_name u) = unat (u_name_len u)" using assms(3) by (simp add: user_wf_def user_name_def)
  then show ?thesis using assms
    by (auto simp: compare_user_def rd_def uname_def len_cmp_def memcmp_def user_wf_def user_name_def
        word_less_nat_alt unat_arith_simps)
qed

lemma cmp_sorted_users:
  assumes "auth_inv st t"
  shows "cmp_sorted (\<lambda>p. len_cmp (uname st p) name) (io t)"
  unfolding cmp_sorted_def
proof (rule sorted_wrt_mono_rel [OF _ auth_invD(5) [OF assms]])
  fix p q assume "len_cmp (uname st p) (uname st q) > 0"
  then show "len_cmp (uname st p) name \<le> 0 \<longrightarrow> len_cmp (uname st q) name < 0"
    using len_cmp_trans [of "uname st q" "uname st p" name] len_cmp_sym [of "uname st q" "uname st p"] by blast
qed

lemma compare_users:
  assumes "auth_inv st t" "unat len \<le> length name"
  shows "\<forall>p\<in>set (io t). compare_user st name len p = Some (len_cmp (uname st p) (take (unat len) name))"
  using auth_inv_mem [OF assms(1)] compare_user_len_cmp [OF _ _ _ assms(2)] by blast

lemma sorted_wrt_neq_map: "sorted_wrt (\<lambda>p q. f p \<noteq> f q) xs \<Longrightarrow> distinct (map f xs)"
  by (induction xs) auto

lemma len_cmp_neq: "len_cmp a b > 0 \<Longrightarrow> a \<noteq> b"
  using len_cmp_eq [of a b] by auto

lemma distinct_unames: assumes "auth_inv st t" shows "distinct (map (uname st) (io t))"
  by (rule sorted_wrt_neq_map [OF sorted_wrt_mono_rel [OF _ auth_invD(5) [OF assms]]]) (rule len_cmp_neq)

lemma same_off_dom: "same_off X s s' \<Longrightarrow> rb_mem s' q = None \<longleftrightarrow> rb_mem s q = None"
  unfolding same_off_def by (metis domIff)

lemma registered_iff:
  assumes "auth_inv st t"
  shows "registered st t name = Some p \<longleftrightarrow> p \<in> set (io t) \<and> uname st p = name"
proof -
  have "map fst (map (\<lambda>p. (uname st p, p)) (io t)) = map (uname st) (io t)" by simp
  then have "distinct (map fst (map (\<lambda>p. (uname st p, p)) (io t)))"
    using distinct_unames [OF assms] by (simp only:)
  then show ?thesis unfolding registered_def by (subst map_of_eq_Some_iff) auto
qed

lemma registered_None: "registered st t name = None \<longleftrightarrow> (\<forall>p\<in>set (io t). uname st p \<noteq> name)"
  by (auto simp: registered_def map_of_eq_None_iff image_image)

text \<open>Finding a user.\<close>

lemma found_registered:
  assumes "auth_inv st t"
    and "if p = NULL then \<forall>q\<in>set (io t). len_cmp (uname st q) name \<noteq> 0
         else p \<in> set (io t) \<and> len_cmp (uname st p) name = 0"
  shows "p = (case registered st t name of None \<Rightarrow> NULL | Some q \<Rightarrow> q)"
proof (cases "p = NULL")
  case True
  then show ?thesis using assms(2) by (simp add: len_cmp_eq registered_None [symmetric])
next
  case False
  then have "registered st t name = Some p" using assms by (simp add: registered_iff len_cmp_eq)
  then show ?thesis by simp
qed

lemma auth_get:
  assumes "auth_inv st t" "unat len \<le> length name"
  shows "hev_socks5_authenticator_get st name len =
    Some (case registered st t (take (unat len) name) of None \<Rightarrow> NULL | Some p \<Rightarrow> p)"
  using get_search.walk_root [OF auth_invD(1) [OF assms(1)] compare_users [OF assms] cmp_sorted_users [OF assms(1)]]
    found_registered [OF assms(1)] by (auto simp: hev_socks5_authenticator_get_def)

text \<open>Adding a user.\<close>

lemma auth_add_dup:
  assumes "auth_inv st t" "a_users st p = Some u" "registered st t (user_name u) \<noteq> None"
  shows "hev_socks5_authenticator_add st p = Some (st, - 1)"
proof -
  have u: "p \<noteq> NULL" "user_wf u" using auth_inv_user [OF assms(1,2)] by auto
  then have len: "unat (u_name_len u) \<le> length (u_name u)" by (simp add: user_wf_def)
  obtain r where r: "add_loop st (u_name u) (u_name_len u) LinkRoot NULL = Some r"
      "search_post (\<lambda>p. len_cmp (uname st p) (user_name u)) t r"
    using add_search.search_root [OF auth_invD(1) [OF assms(1)] compare_users [OF assms(1) len] cmp_sorted_users [OF assms(1)]]
    unfolding user_name_def by blast
  obtain q where "q \<in> set (io t)" "uname st q = user_name u" using assms(3) by (auto simp: registered_None)
  then have "\<exists>q. r = Found q" using r(2) search_post_Missing
    by (cases r) (auto simp: len_cmp_eq, metis len_cmp_eq)
  then show ?thesis using r(1) assms(2) u by (auto simp: hev_socks5_authenticator_add_def rd_def)
qed

lemma auth_add_new:
  assumes inv: "auth_inv st t" and p: "a_users st p = Some u" and new: "registered st t (user_name u) = None"
  shows "\<exists>s' t'. hev_socks5_authenticator_add st p = Some (st\<lparr>a_tree := s'\<rparr>, 0) \<and>
    auth_inv (st\<lparr>a_tree := s'\<rparr>) t' \<and>
    registered (st\<lparr>a_tree := s'\<rparr>) t' = (registered st t)(user_name u \<mapsto> p)"
proof -
  note D = auth_invD [OF inv]
  have u: "p \<noteq> NULL" "aligned p" "rb_mem (a_tree st) p \<noteq> None" "user_wf u"
    using auth_inv_user [OF inv p] by auto
  then have len: "unat (u_name_len u) \<le> length (u_name u)" by (simp add: user_wf_def)
  have up: "uname st p = user_name u" by (simp add: uname_def p)
  have pt: "p \<notin> set (io t)" using new up by (auto simp: registered_None)
  obtain r where r: "add_loop st (u_name u) (u_name_len u) LinkRoot NULL = Some r"
      "search_post (\<lambda>p. len_cmp (uname st p) (user_name u)) t r"
    using add_search.search_root [OF D(1) compare_users [OF inv len] cmp_sorted_users [OF inv]]
    unfolding user_name_def by blast
  have "\<exists>lnk par. r = Missing lnk par"
    using r(2) new by (cases r) (auto simp: search_post_def len_cmp_eq registered_None)
  then obtain k where k: "r = Missing (klink k) (cpar k)" "t = plug k Lf"
      "\<forall>q\<in>set (iol k). 0 < len_cmp (uname st q) (user_name u)" "\<forall>q\<in>set (ior k). len_cmp (uname st q) (user_name u) < 0"
    using r(2) by (auto simp: search_post_def)
  have fr: "fresh_node (a_tree st) (plug k Lf) p" using u pt k(2) by (simp add: fresh_node_def)
  obtain s1 s' t' where s': "hev_rbtree_node_link (a_tree st) p (cpar k) (klink k) = Some s1"
      "hev_rbtree_insert_color s1 p = Some s'" "rb_rep s' t'" "rb_ok t'" "io t' = iol k @ p # ior k"
      "same_off (set (iol k @ p # ior k)) (a_tree st) s'"
    using rbtree_insert [OF _ _ fr] D(1,2) k(2) by blast
  let ?st = "st\<lparr>a_tree := s'\<rparr>"
  have run: "hev_socks5_authenticator_add st p = Some (?st, 0)"
    using r(1) k(1) s'(1,2) p u(1) by (simp add: hev_socks5_authenticator_add_def rd_def)
  have un: "uname ?st q = uname st q" for q by (simp add: uname_def)
  have "sorted_wrt (\<lambda>p q. len_cmp (uname st p) (uname st q) > 0) (iol k @ ior k)"
    using D(5) k(2) by (simp add: io_plug)
  then have srt: "sorted_wrt (\<lambda>p q. len_cmp (uname st p) (uname st q) > 0) (io t')"
    using k(3,4) up unfolding s'(5) sorted_wrt_append sorted_wrt.simps by (auto simp: len_cmp_sym)
  have ioset: "set (io t') = insert p (set (io t))" using s'(5) k(2) by (auto simp: io_plug)
  have "q \<noteq> NULL \<and> aligned q \<and> rb_mem s' q \<noteq> None \<and> user_wf v" if "a_users st q = Some v" for q v
    using auth_inv_user [OF inv that] same_off_dom [OF s'(6), of q] by simp
  then have inv': "auth_inv ?st t'"
    using s'(3,4) srt ioset D(3) p unfolding auth_inv_def un by auto
  have "registered ?st t' = (registered st t)(user_name u \<mapsto> p)"
  proof (rule ext)
    fix n
    have "registered ?st t' n = Some q \<longleftrightarrow> ((registered st t)(user_name u \<mapsto> p)) n = Some q" for q
      using registered_iff [OF inv'] registered_iff [OF inv] new up
      unfolding un ioset by (auto simp: registered_None)
    then show "registered ?st t' n = ((registered st t)(user_name u \<mapsto> p)) n"
      by (cases "registered ?st t' n") (metis not_Some_eq)+
  qed
  then show ?thesis using run inv' by blast
qed

text \<open>Removing a user from the tree and giving up the reference of the tree.\<close>

lemma unref_release:
  assumes "a_users st p = Some u" "p \<noteq> NULL"
  shows "\<exists>s'. hev_object_unref st p = Some (st\<lparr>a_tree := s', a_users := (a_users st)(p := release (a_users st) p)\<rparr>) \<and>
    rb_root s' = rb_root (a_tree st) \<and>
    (\<forall>q. rb_mem s' q = (if q = p \<and> release (a_users st) p = None then None else rb_mem (a_tree st) q))"
proof (cases "u_ref u > 1")
  case True
  then have "hev_object_unref st p = Some (st\<lparr>a_users := (a_users st)(p \<mapsto> u\<lparr>u_ref := u_ref u - 1\<rparr>)\<rparr>)"
    using assms by (simp add: hev_object_atomic_ref_def rd_def wr_def)
  then show ?thesis using True assms by (intro exI [of _ "a_tree st"]) (simp add: release_def)
next
  case False
  then show ?thesis using assms
    by (intro exI [of _ "(a_tree st)\<lparr>rb_mem := (rb_mem (a_tree st))(p := None)\<rparr>"])
      (simp add: hev_object_atomic_ref_def rd_def wr_def release_def hev_socks5_user_destruct_def)
qed

lemma release_wf:
  assumes "user_wf u" "a_users st p = Some u" "release (a_users st) p = Some v"
  shows "user_wf v" "user_name v = user_name u"
proof -
  have "v = u\<lparr>u_ref := u_ref u - 1\<rparr>" "u_ref u > 1" using assms by (auto simp: release_def split: if_splits)
  moreover have "u_ref u - 1 \<noteq> 0" using calculation(2) by auto
  ultimately show "user_wf v" "user_name v = user_name u"
    using assms(1) by (auto simp: user_wf_def user_name_def word_gt_0)
qed

lemma auth_remove:
  assumes inv: "auth_inv st t" and p: "p \<in> set (io t)"
  shows "\<exists>s' st' t'. hev_rbtree_erase (a_tree st) p = Some s' \<and>
    hev_object_unref (st\<lparr>a_tree := s'\<rparr>) p = Some st' \<and> auth_inv st' t' \<and> io t' = remove1 p (io t) \<and>
    a_users st' = (a_users st)(p := release (a_users st) p)"
proof -
  note D = auth_invD [OF inv]
  obtain u where u: "a_users st p = Some u" "p \<noteq> NULL" "user_wf u" using auth_inv_mem [OF inv p] by blast
  obtain s1 t' where s1: "hev_rbtree_erase (a_tree st) p = Some s1" "rb_rep s1 t'" "rb_ok t'"
      "io t' = remove1 p (io t)" "same_off (set (remove1 p (io t))) (a_tree st) s1"
    using rbtree_erase [OF D(1,2) p] by blast
  let ?users = "(a_users st)(p := release (a_users st) p)"
  obtain s' where s': "hev_object_unref (st\<lparr>a_tree := s1\<rparr>) p = Some (st\<lparr>a_tree := s', a_users := ?users\<rparr>)"
      "rb_root s' = rb_root s1"
      "\<And>q. rb_mem s' q = (if q = p \<and> release (a_users st) p = None then None else rb_mem s1 q)"
    using unref_release [of "st\<lparr>a_tree := s1\<rparr>" p u] u(1,2) by auto
  let ?st = "st\<lparr>a_tree := s', a_users := ?users\<rparr>"
  have pt: "set (io t') = set (io t) - {p}" using s1(4) D(4) by simp
  have rep: "rb_rep s' t'" using s1(2) rb_rep_frame [OF s'(2), of t'] s'(3) pt by auto
  have un: "uname ?st q = uname st q" if "q \<in> set (io t')" for q using that pt by (simp add: uname_def)
  have srt: "sorted_wrt (\<lambda>p q. len_cmp (uname st p) (uname st q) > 0) (io t')"
    using sorted_wrt_remove1 [OF D(5)] s1(4) by simp
  have srt': "sorted_wrt (\<lambda>p q. len_cmp (uname ?st p) (uname ?st q) > 0) (io t')"
    by (rule sorted_wrt_mono_rel [OF _ srt]) (simp add: un)
  have wf: "q \<noteq> NULL \<and> aligned q \<and> rb_mem s' q \<noteq> None \<and> user_wf v" if v: "?users q = Some v" for q v
  proof (cases "q = p")
    case True
    then have rel: "release (a_users st) p = Some v" using v by simp
    have "rb_mem s1 p \<noteq> None" using same_off_dom [OF s1(5)] auth_inv_user [OF inv u(1)] by simp
    then show ?thesis using auth_inv_user [OF inv u(1)] release_wf(1) [OF u(3) u(1) rel] True rel s'(3) by simp
  next
    case False
    then have q: "a_users st q = Some v" using v by simp
    have "rb_mem s1 q \<noteq> None" using same_off_dom [OF s1(5)] auth_inv_user [OF inv q] by simp
    then show ?thesis using auth_inv_user [OF inv q] False s'(3) by simp
  qed
  have "auth_inv ?st t'" unfolding auth_inv_def
    using rep s1(3) srt' wf pt D(3) by auto
  then show ?thesis using s1(1,4) s'(1) by (intro exI [of _ s1] exI [of _ ?st] exI [of _ t']) simp
qed

lemma auth_inv_registered_remove:
  assumes "auth_inv st t" "p \<in> set (io t)" "auth_inv st' t'" "io t' = remove1 p (io t)"
    "a_users st' = (a_users st)(p := v)"
  shows "registered st' t' = (registered st t)(uname st p := None)"
proof (rule ext)
  fix n
  have pt: "set (io t') = set (io t) - {p}" using assms(4) auth_invD(4) [OF assms(1)] by simp
  have un: "uname st' q = uname st q" if "q \<noteq> p" for q using that assms(5) by (simp add: uname_def)
  have inj: "inj_on (uname st) (set (io t))" using distinct_unames [OF assms(1)] by (simp add: distinct_map)
  have "registered st' t' n = Some q \<longleftrightarrow> ((registered st t)(uname st p := None)) n = Some q" for q
  proof (cases "q = p")
    case True
    then show ?thesis using registered_iff [OF assms(3)] registered_iff [OF assms(1)] pt by auto
  next
    case False
    then have "q \<in> set (io t) \<Longrightarrow> uname st q \<noteq> uname st p" using inj assms(2) by (auto simp: inj_on_def)
    then show ?thesis using registered_iff [OF assms(3)] registered_iff [OF assms(1)] un [OF False] pt False by auto
  qed
  then show "registered st' t' n = ((registered st t)(uname st p := None)) n"
    by (cases "registered st' t' n") (metis not_Some_eq)+
qed

lemma auth_del:
  assumes inv: "auth_inv st t" and len: "unat len \<le> length name"
  shows "case registered st t (take (unat len) name) of
      None \<Rightarrow> hev_socks5_authenticator_del st name len = Some (st, - 1)
    | Some p \<Rightarrow> \<exists>st' t'. hev_socks5_authenticator_del st name len = Some (st', 0) \<and> auth_inv st' t' \<and>
        registered st' t' = (registered st t)(take (unat len) name := None) \<and>
        a_users st' = (a_users st)(p := release (a_users st) p)"
proof -
  obtain p where p: "del_loop st name len (rb_root (a_tree st)) = Some p"
      "p = (case registered st t (take (unat len) name) of None \<Rightarrow> NULL | Some q \<Rightarrow> q)"
    using del_search.walk_root [OF auth_invD(1) [OF inv] compare_users [OF inv len] cmp_sorted_users [OF inv]]
      found_registered [OF inv] by blast
  show ?thesis
  proof (cases "registered st t (take (unat len) name)")
    case None
    then show ?thesis using p by (simp add: hev_socks5_authenticator_del_def)
  next
    case (Some q)
    then have q: "p = q" "q \<in> set (io t)" "uname st q = take (unat len) name"
      using p(2) registered_iff [OF inv, of "take (unat len) name" q] by simp_all
    then have qn: "q \<noteq> NULL" using auth_inv_mem [OF inv] by blast
    obtain s' st' t' where s': "hev_rbtree_erase (a_tree st) q = Some s'"
        "hev_object_unref (st\<lparr>a_tree := s'\<rparr>) q = Some st'" "auth_inv st' t'" "io t' = remove1 q (io t)"
        "a_users st' = (a_users st)(q := release (a_users st) q)"
      using auth_remove [OF inv q(2)] by blast
    have "hev_socks5_authenticator_del st name len = Some (st', 0)"
      using p(1) q(1) qn s'(1,2) by (simp add: hev_socks5_authenticator_del_def)
    then show ?thesis
      using Some s'(3,5) auth_inv_registered_remove [OF inv q(2) s'(3,4,5)] q(3) by auto
  qed
qed

lemma auth_clear:
  assumes "auth_inv st t"
  shows "\<exists>st'. hev_socks5_authenticator_clear st = Some st' \<and> auth_inv st' Lf \<and>
    a_users st' = (\<lambda>p. if p \<in> set (io t) then release (a_users st) p else a_users st p)"
  using assms
proof (induction "io t" arbitrary: st t)
  case Nil
  then have "t = Lf" by (cases t) auto
  then show ?case using Nil first_rep [OF auth_invD(1) [OF Nil.prems]]
    by (subst hev_socks5_authenticator_clear.simps) (auto simp: first_of_def)
next
  case (Cons p ps)
  note D = auth_invD [OF Cons.prems]
  have p: "p \<in> set (io t)" "p \<noteq> NULL" "hev_rbtree_first (a_tree st) = Some p"
    using Cons.hyps(2) [symmetric] auth_inv_mem [OF Cons.prems, of p] first_rep [OF D(1)]
    by (auto simp: first_of_def)
  obtain s1 st1 t1 where s1: "hev_rbtree_erase (a_tree st) p = Some s1"
      "hev_object_unref (st\<lparr>a_tree := s1\<rparr>) p = Some st1" "auth_inv st1 t1" "io t1 = remove1 p (io t)"
      "a_users st1 = (a_users st)(p := release (a_users st) p)"
    using auth_remove [OF Cons.prems p(1)] by blast
  have ps: "ps = io t1" using s1(4) Cons.hyps(2) [symmetric] by simp
  obtain st' where st': "hev_socks5_authenticator_clear st1 = Some st'" "auth_inv st' Lf"
      "a_users st' = (\<lambda>q. if q \<in> set (io t1) then release (a_users st1) q else a_users st1 q)"
    using Cons.hyps(1) [OF ps s1(3)] by blast
  have "hev_socks5_authenticator_clear st = Some st'"
    using p s1(1,2) st'(1) by (subst hev_socks5_authenticator_clear.simps) simp
  moreover have "p \<notin> set ps" using Cons.hyps(2) D(4) by (metis distinct.simps(2))
  moreover have "set (io t) = insert p (set ps)" using Cons.hyps(2) by (metis list.simps(15))
  ultimately show ?case using st' s1(5) ps by (intro exI [of _ st']) (auto simp: release_def fun_eq_iff)
qed

text \<open>A new user object is allocated, well formed and not yet in the tree.\<close>

lemma user_new:
  assumes inv: "auth_inv st t" and self: "self \<noteq> NULL" "aligned self" "a_users st self = None"
    "rb_mem (a_tree st) self = None"
    and len: "unat name_len \<le> length name" "unat pass_len \<le> length pass" "name_len \<noteq> - 1" "pass_len \<noteq> - 1"
  shows "\<exists>st' u. hev_socks5_user_new (self, True, True) st name name_len pass pass_len = Some (st', self) \<and>
    auth_inv st' t \<and> a_users st' = (a_users st)(self \<mapsto> u) \<and> registered st' t = registered st t \<and>
    user_name u = take (unat name_len) name \<and> user_pass u = take (unat pass_len) pass \<and> u_ref u = 1"
proof -
  have dup: "dup_bytes src n = Some (take (unat n) src @ [0])" if "unat n \<le> length src" "n \<noteq> - 1" for src n
  proof -
    have "1 + n \<noteq> 0" using that(2) by (metis add_eq_0_iff minus_equation_iff)
    then show ?thesis using that(1) unatSuc [of n] by (simp add: dup_bytes_def add.commute)
  qed
  let ?u = "\<lparr>u_ref = 1, u_name = take (unat name_len) name @ [0], u_pass = take (unat pass_len) pass @ [0],
    u_name_len = name_len, u_pass_len = pass_len\<rparr> :: HevSocks5User"
  let ?st = "st\<lparr>a_tree := (a_tree st)\<lparr>rb_mem := (rb_mem (a_tree st))(self \<mapsto>
              \<lparr>parent_color = 0, r_right = NULL, r_left = NULL\<rparr>)\<rparr>, a_users := (a_users st)(self \<mapsto> ?u)\<rparr>"
  have st: "self \<notin> set (io t)" using auth_inv_mem [OF inv, of self] self(3) by auto
  have un: "uname ?st q = uname st q" if "q \<in> set (io t)" for q using that st by (auto simp: uname_def)
  have "sorted_wrt (\<lambda>p q. len_cmp (uname ?st p) (uname ?st q) > 0) (io t)"
    by (rule sorted_wrt_mono_rel [OF _ auth_invD(5) [OF inv]]) (simp add: un)
  moreover have "user_wf ?u" using len by (simp add: user_wf_def)
  ultimately have inv': "auth_inv ?st t"
    using inv st self by (auto simp: auth_inv_def)
  have "registered ?st t = registered st t"
    unfolding registered_def using un by (intro arg_cong [of _ _ map_of] map_cong) auto
  then show ?thesis using inv' self(1) len dup
    by (intro exI [of _ ?st] exI [of _ ?u])
      (simp add: hev_socks5_user_new_def hev_socks5_user_construct_def user_name_def user_pass_def)
qed

lemma user_checker:
  assumes "user_wf u" "unat len \<le> length pass"
  shows "hev_socks5_user_checker u pass len = Some (if user_pass u = take (unat len) pass then 0 else - 1)"
proof -
  have "length (user_pass u) = unat (u_pass_len u)" using assms(1) by (simp add: user_wf_def user_pass_def)
  moreover have "user_pass u \<noteq> take (unat len) pass" if "u_pass_len u \<noteq> len"
    using that calculation assms(2) by (metis length_take min.absorb2 word_unat_eq_iff)
  ultimately show ?thesis using assms
    by (auto simp: hev_socks5_user_checker_def memcmp_def user_wf_def user_pass_def strcmp_order)
qed

section \<open>Properties\<close>

text \<open>C24: The authenticator implements a finite map from names to users. Looking up a name
  gives the user registered under exactly these bytes, or null. Adding an allocated user fails
  with -1 and changes nothing when the name is taken, and otherwise registers it. Deleting a
  name removes it and gives up one reference to the user, or fails with -1 and changes nothing.
  No operation follows a dangling pointer, and each of them ends.\<close>

theorem authenticator_refines_map:
  assumes "auth_inv st t" and "unat len \<le> length name" and "a_users st p = Some u"
  shows "hev_socks5_authenticator_get st name len =
      Some (case registered st t (take (unat len) name) of None \<Rightarrow> NULL | Some q \<Rightarrow> q) \<and>
    (if registered st t (user_name u) \<noteq> None
     then hev_socks5_authenticator_add st p = Some (st, - 1)
     else \<exists>s' t'. hev_socks5_authenticator_add st p = Some (st\<lparr>a_tree := s'\<rparr>, 0) \<and>
       auth_inv (st\<lparr>a_tree := s'\<rparr>) t' \<and>
       registered (st\<lparr>a_tree := s'\<rparr>) t' = (registered st t)(user_name u \<mapsto> p)) \<and>
    (case registered st t (take (unat len) name) of
      None \<Rightarrow> hev_socks5_authenticator_del st name len = Some (st, - 1)
    | Some q \<Rightarrow> \<exists>st' t'. hev_socks5_authenticator_del st name len = Some (st', 0) \<and> auth_inv st' t' \<and>
        registered st' t' = (registered st t)(take (unat len) name := None) \<and>
        a_users st' = (a_users st)(q := release (a_users st) q))"
  using auth_get [OF assms(1,2)] auth_add_dup [OF assms(1,3)] auth_add_new [OF assms(1,3)]
    auth_del [OF assms(1,2)] by simp

text \<open>The witness: \<open>al\<close> is registered, \<open>bob\<close> is not.\<close>

definition user_al :: HevSocks5User where
  "user_al = \<lparr>u_ref = 1, u_name = [97, 108, 0], u_pass = [120, 0], u_name_len = 2, u_pass_len = 1\<rparr>"

definition user_bob :: HevSocks5User where
  "user_bob = \<lparr>u_ref = 2, u_name = [98, 111, 98, 0], u_pass = [0], u_name_len = 3, u_pass_len = 0\<rparr>"

definition auth0 :: HevSocks5Authenticator where
  "auth0 = \<lparr>a_tree = \<lparr>rb_root = 16, rb_mem = [16 \<mapsto> \<lparr>parent_color = 1, r_right = 0, r_left = 0\<rparr>,
       32 \<mapsto> \<lparr>parent_color = 0, r_right = 0, r_left = 0\<rparr>]\<rparr>,
     a_users = [16 \<mapsto> user_al, 32 \<mapsto> user_bob]\<rparr>"

lemma auth0_inv: "auth_inv auth0 (Nd Black Lf 16 Lf)"
  by (auto simp: auth_inv_def auth0_def rb_rep_def rb_ok_def aligned_def user_al_def user_bob_def user_wf_def
      split: if_splits)

lemma auth0_users: "a_users auth0 16 = Some user_al" "a_users auth0 32 = Some user_bob"
  by (simp_all add: auth0_def)

lemma auth0_free: "a_users auth0 64 = None" "rb_mem (a_tree auth0) 64 = None"
  by (simp_all add: auth0_def)

lemma auth0_registered: "registered auth0 (Nd Black Lf 16 Lf) = [[97, 108] \<mapsto> 16]"
  by (simp add: registered_def uname_def auth0_users user_name_def user_al_def)

theorem authenticator_refines_map_witness:
  "hev_socks5_authenticator_get auth0 [97, 108, 7] 2 = Some 16 \<and>
   (\<exists>s' t'. hev_socks5_authenticator_add auth0 32 = Some (auth0\<lparr>a_tree := s'\<rparr>, 0) \<and>
      auth_inv (auth0\<lparr>a_tree := s'\<rparr>) t' \<and>
      registered (auth0\<lparr>a_tree := s'\<rparr>) t' = [[97, 108] \<mapsto> 16, [98, 111, 98] \<mapsto> 32]) \<and>
   (\<exists>st' t'. hev_socks5_authenticator_del auth0 [97, 108, 7] 2 = Some (st', 0) \<and> auth_inv st' t' \<and>
      registered st' t' = Map.empty \<and> a_users st' = (a_users auth0)(16 := None))"
proof -
  have "user_name user_bob = [98, 111, 98]" by (simp add: user_name_def user_bob_def)
  then show ?thesis
    using authenticator_refines_map [OF auth0_inv, of 2 "[97, 108, 7]" 32 user_bob]
    by (simp add: auth0_registered auth0_users release_def user_al_def)
qed

text \<open>Clearing the authenticator ends, empties the tree, and gives up exactly one reference
  to each of its users: a user nobody else holds is freed, every other user object is kept.\<close>

theorem authenticator_clear_releases:
  assumes "auth_inv st t"
  shows "\<exists>st'. hev_socks5_authenticator_clear st = Some st' \<and> auth_inv st' Lf \<and>
    hev_socks5_authenticator_destruct st = Some st' \<and>
    a_users st' = (\<lambda>p. if p \<in> set (io t) then release (a_users st) p else a_users st p)"
  using auth_clear [OF assms] by (auto simp: hev_socks5_authenticator_destruct_def)

theorem authenticator_clear_releases_witness:
  "\<exists>st'. hev_socks5_authenticator_clear auth0 = Some st' \<and> auth_inv st' Lf \<and>
     a_users st' 16 = None \<and> a_users st' 32 = Some user_bob"
  using authenticator_clear_releases [OF auth0_inv]
  by (force simp: auth0_users release_def user_al_def)

text \<open>A login succeeds with the password the user was created with and with no other one:
  a user that is created from a name and a password, and added, is the one that is found under
  the name, and the check of a password returns 0 exactly for the same bytes.\<close>

theorem user_login_roundtrip:
  assumes "auth_inv st t" and "self \<noteq> NULL" "aligned self" "a_users st self = None" "rb_mem (a_tree st) self = None"
    and "unat name_len \<le> length name" "unat pass_len \<le> length pass" "name_len \<noteq> - 1" "pass_len \<noteq> - 1"
    and "registered st t (take (unat name_len) name) = None"
    and "unat try_len \<le> length try_pass"
  shows "\<exists>st1 st2. hev_socks5_user_new (self, True, True) st name name_len pass pass_len = Some (st1, self) \<and>
    hev_socks5_authenticator_add st1 self = Some (st2, 0) \<and>
    hev_socks5_authenticator_get st2 name name_len = Some self \<and>
    hev_socks5_user_check st2 self try_pass try_len =
      Some (if take (unat try_len) try_pass = take (unat pass_len) pass then 0 else - 1)"
proof -
  obtain st1 u where st1: "hev_socks5_user_new (self, True, True) st name name_len pass pass_len = Some (st1, self)"
      "auth_inv st1 t" "a_users st1 = (a_users st)(self \<mapsto> u)" "registered st1 t = registered st t"
      "user_name u = take (unat name_len) name" "user_pass u = take (unat pass_len) pass"
    using user_new [OF assms(1-9)] by blast
  have u1: "a_users st1 self = Some u" using st1(3) by simp
  then have u: "a_users st1 self = Some u" "user_wf u" using auth_inv_user [OF st1(2) u1] by auto
  obtain s2 t2 where st2: "hev_socks5_authenticator_add st1 self = Some (st1\<lparr>a_tree := s2\<rparr>, 0)"
      "auth_inv (st1\<lparr>a_tree := s2\<rparr>) t2" "registered (st1\<lparr>a_tree := s2\<rparr>) t2 = (registered st1 t)(user_name u \<mapsto> self)"
    using auth_add_new [OF st1(2) u(1)] st1(4,5) assms(10) by auto
  have "hev_socks5_authenticator_get (st1\<lparr>a_tree := s2\<rparr>) name name_len = Some self"
    using auth_get [OF st2(2) assms(6)] st2(3) st1(5) by simp
  moreover have "hev_socks5_user_check (st1\<lparr>a_tree := s2\<rparr>) self try_pass try_len =
      Some (if take (unat try_len) try_pass = take (unat pass_len) pass then 0 else - 1)"
    using user_checker [OF u(2) assms(11)] u(1) assms(2) st1(6)
    by (auto simp: hev_socks5_user_check_def rd_def)
  ultimately show ?thesis using st1(1) st2(1) by blast
qed

theorem user_login_roundtrip_witness:
  "\<exists>st1 st2. hev_socks5_user_new (64, True, True) auth0 [99] 1 [112, 119] 2 = Some (st1, 64) \<and>
    hev_socks5_authenticator_add st1 64 = Some (st2, 0) \<and>
    hev_socks5_authenticator_get st2 [99] 1 = Some 64 \<and>
    hev_socks5_user_check st2 64 [112, 119, 33] 2 = Some 0"
  using user_login_roundtrip [OF auth0_inv, of 64 1 "[99]" 2 "[112, 119]" 2 "[112, 119, 33]"]
  by (simp add: auth0_registered auth0_free aligned_def)

end
