(* ===== verification/Socks5Addr.thy ===== *)
theory Socks5Addr
  imports CString
begin

text \<open>
  SOCKS5 addresses (\<open>core/src/hev-socks5-proto.h\<close>, \<open>core/src/hev-socks5-misc.c\<close>). The struct
  \<open>HevSocks5Addr\<close> is packed and goes over the wire as it is, so it is modelled as its bytes:
  the type, and a union of an IPv4 address and port, an IPv6 address and port, and a length
  with a name and port. An access outside the bytes that are there is \<^term>\<open>None\<close>. Name
  resolution is a parameter.
\<close>

section \<open>Addresses\<close>

type_synonym HevSocks5Addr = "byte list"

abbreviation (input) HEV_SOCKS5_ADDR_TYPE_IPV4 :: byte where "HEV_SOCKS5_ADDR_TYPE_IPV4 \<equiv> 1"
abbreviation (input) HEV_SOCKS5_ADDR_TYPE_IPV6 :: byte where "HEV_SOCKS5_ADDR_TYPE_IPV6 \<equiv> 4"
abbreviation (input) HEV_SOCKS5_ADDR_TYPE_NAME :: byte where "HEV_SOCKS5_ADDR_TYPE_NAME \<equiv> 3"

datatype HevSocks5AddrFamily = FAMILY_IPV4 | FAMILY_IPV6 | FAMILY_UNSPEC

record sockaddr_in6 =
  sin6_port :: u16
  sin6_addr :: "byte list"

definition hev_socks5_addr_len :: "HevSocks5Addr \<Rightarrow> int option" where
  "hev_socks5_addr_len addr = do {
     atype \<leftarrow> bget addr 0;
     if atype = HEV_SOCKS5_ADDR_TYPE_IPV4 then Some 7
     else if atype = HEV_SOCKS5_ADDR_TYPE_IPV6 then Some 19
     else if atype = HEV_SOCKS5_ADDR_TYPE_NAME then do { len \<leftarrow> bget addr 1; Some (4 + uint len) }
     else Some (- 1) }"

text \<open>\<open>strncpy\<close> copies at most \<open>n\<close> bytes and fills up with zeros; a longer name is not terminated.\<close>

definition strncpy :: "cstr \<Rightarrow> nat \<Rightarrow> byte list" where
  "strncpy src n = take n (src @ replicate n 0)"

definition hev_socks5_addr_from_name ::
  "HevSocks5Addr \<Rightarrow> cstr \<Rightarrow> int \<Rightarrow> (HevSocks5Addr \<times> int) option" where
  "hev_socks5_addr_from_name addr name port = do {
     addr \<leftarrow> mput addr 0 [HEV_SOCKS5_ADDR_TYPE_NAME];
     addr \<leftarrow> mput addr 2 (strncpy name 256);
     str \<leftarrow> c_str (drop 2 addr);
     let len = (of_nat (length str) :: byte);
     addr \<leftarrow> mput addr 1 [len];
     addr \<leftarrow> mput addr (2 + unat len) (bytes16 (word_of_int port));
     Some (addr, 4 + uint len) }"

definition hev_socks5_addr_from_ipv4 ::
  "HevSocks5Addr \<Rightarrow> byte list \<Rightarrow> int \<Rightarrow> (HevSocks5Addr \<times> int) option" where
  "hev_socks5_addr_from_ipv4 addr ipv4 port = do {
     addr \<leftarrow> mput addr 0 [HEV_SOCKS5_ADDR_TYPE_IPV4];
     ip \<leftarrow> mget ipv4 0 4;
     addr \<leftarrow> mput addr 1 ip;
     addr \<leftarrow> mput addr 5 (bytes16 (word_of_int port));
     Some (addr, 7) }"

definition hev_socks5_addr_from_ipv6 ::
  "HevSocks5Addr \<Rightarrow> byte list \<Rightarrow> int \<Rightarrow> (HevSocks5Addr \<times> int) option" where
  "hev_socks5_addr_from_ipv6 addr ipv6 port = do {
     addr \<leftarrow> mput addr 0 [HEV_SOCKS5_ADDR_TYPE_IPV6];
     ip \<leftarrow> mget ipv6 0 16;
     addr \<leftarrow> mput addr 1 ip;
     addr \<leftarrow> mput addr 17 (bytes16 (word_of_int port));
     Some (addr, 19) }"

definition IN6_IS_ADDR_V4MAPPED :: "byte list \<Rightarrow> bool" where
  "IN6_IS_ADDR_V4MAPPED a \<longleftrightarrow> take 12 a = replicate 10 0 @ [0xff, 0xff]"

definition hev_socks5_addr_from_sockaddr6 ::
  "HevSocks5Addr \<Rightarrow> sockaddr_in6 \<Rightarrow> (HevSocks5Addr \<times> int) option" where
  "hev_socks5_addr_from_sockaddr6 addr saddr =
     (if IN6_IS_ADDR_V4MAPPED (sin6_addr saddr) then do {
        addr \<leftarrow> mput addr 0 [HEV_SOCKS5_ADDR_TYPE_IPV4];
        addr \<leftarrow> mput addr 5 (bytes16 (sin6_port saddr));
        ip \<leftarrow> mget (sin6_addr saddr) 12 4;
        addr \<leftarrow> mput addr 1 ip;
        Some (addr, 7) }
      else do {
        addr \<leftarrow> mput addr 0 [HEV_SOCKS5_ADDR_TYPE_IPV6];
        addr \<leftarrow> mput addr 17 (bytes16 (sin6_port saddr));
        ip \<leftarrow> mget (sin6_addr saddr) 0 16;
        addr \<leftarrow> mput addr 1 ip;
        Some (addr, 19) })"

section \<open>Resolution\<close>

text \<open>\<open>inet_pton\<close> for both families and \<open>getaddrinfo\<close>, whose hint is the family.\<close>

record resolver =
  inet_pton4 :: "cstr \<Rightarrow> byte list option"
  inet_pton6 :: "cstr \<Rightarrow> byte list option"
  getaddrinfo :: "cstr \<Rightarrow> HevSocks5AddrFamily \<Rightarrow> (HevSocks5AddrFamily \<times> byte list) option"

definition hev_socks5_ipv4_into_sockaddr6 :: "HevSocks5Addr \<Rightarrow> sockaddr_in6 \<Rightarrow> sockaddr_in6 option" where
  "hev_socks5_ipv4_into_sockaddr6 addr saddr = do {
     port \<leftarrow> load16 addr 5;
     ip \<leftarrow> mget addr 1 4;
     a \<leftarrow> mput (sin6_addr saddr) 0 (replicate 10 0);
     a \<leftarrow> mput a 10 [0xff];
     a \<leftarrow> mput a 11 [0xff];
     a \<leftarrow> mput a 12 ip;
     Some (saddr\<lparr>sin6_port := port, sin6_addr := a\<rparr>) }"

definition hev_socks5_ipv6_into_sockaddr6 :: "HevSocks5Addr \<Rightarrow> sockaddr_in6 \<Rightarrow> sockaddr_in6 option" where
  "hev_socks5_ipv6_into_sockaddr6 addr saddr = do {
     port \<leftarrow> load16 addr 17;
     ip \<leftarrow> mget addr 1 16;
     a \<leftarrow> mput (sin6_addr saddr) 0 ip;
     Some (saddr\<lparr>sin6_port := port, sin6_addr := a\<rparr>) }"

definition hev_socks5_name_resolve_ipv4 ::
  "resolver \<Rightarrow> cstr \<Rightarrow> sockaddr_in6 \<Rightarrow> (sockaddr_in6 \<times> int) option" where
  "hev_socks5_name_resolve_ipv4 rs name saddr = do {
     a \<leftarrow> mput (sin6_addr saddr) 0 (replicate 10 0);
     case inet_pton4 rs name of
       None \<Rightarrow> Some (saddr\<lparr>sin6_addr := a\<rparr>, - 1)
     | Some ip \<Rightarrow> do {
         a \<leftarrow> mput a 12 ip;
         a \<leftarrow> mput a 10 [0xff];
         a \<leftarrow> mput a 11 [0xff];
         Some (saddr\<lparr>sin6_addr := a\<rparr>, 0) } }"

definition hev_socks5_name_resolve_ipv6 ::
  "resolver \<Rightarrow> cstr \<Rightarrow> sockaddr_in6 \<Rightarrow> (sockaddr_in6 \<times> int) option" where
  "hev_socks5_name_resolve_ipv6 rs name saddr =
     (case inet_pton6 rs name of
       None \<Rightarrow> Some (saddr, - 1)
     | Some ip \<Rightarrow> do { a \<leftarrow> mput (sin6_addr saddr) 0 ip; Some (saddr\<lparr>sin6_addr := a\<rparr>, 0) })"

definition hev_socks5_name_resolve_name ::
  "resolver \<Rightarrow> cstr \<Rightarrow> sockaddr_in6 \<Rightarrow> HevSocks5AddrFamily \<Rightarrow>
   (sockaddr_in6 \<times> HevSocks5AddrFamily \<times> int) option" where
  "hev_socks5_name_resolve_name rs name saddr family =
     (case getaddrinfo rs name family of
       None \<Rightarrow> Some (saddr, family, - 1)
     | Some (FAMILY_IPV4, ip) \<Rightarrow> do {
         a \<leftarrow> mput (sin6_addr saddr) 0 (replicate 10 0);
         a \<leftarrow> mput a 10 [0xff];
         a \<leftarrow> mput a 11 [0xff];
         a \<leftarrow> mput a 12 ip;
         Some (saddr\<lparr>sin6_addr := a\<rparr>, FAMILY_IPV4, 0) }
     | Some (FAMILY_IPV6, ip) \<Rightarrow> do {
         a \<leftarrow> mput (sin6_addr saddr) 0 ip;
         Some (saddr\<lparr>sin6_addr := a\<rparr>, FAMILY_IPV6, 0) }
     | Some (FAMILY_UNSPEC, ip) \<Rightarrow> Some (saddr, family, - 1))"

definition hev_socks5_name_into_sockaddr6 ::
  "resolver \<Rightarrow> cstr \<Rightarrow> int \<Rightarrow> sockaddr_in6 \<Rightarrow> HevSocks5AddrFamily \<Rightarrow>
   (sockaddr_in6 \<times> HevSocks5AddrFamily \<times> int) option" where
  "hev_socks5_name_into_sockaddr6 rs name port saddr family = do {
     let saddr = saddr\<lparr>sin6_port := ntohs (word_of_int port)\<rparr>;
     (saddr, res) \<leftarrow> hev_socks5_name_resolve_ipv4 rs name saddr;
     if res = 0 then Some (saddr, FAMILY_IPV4, 0)
     else do {
       (saddr, res) \<leftarrow> hev_socks5_name_resolve_ipv6 rs name saddr;
       if res = 0 then Some (saddr, FAMILY_IPV6, 0)
       else hev_socks5_name_resolve_name rs name saddr family } }"

definition hev_socks5_addr_into_sockaddr6 ::
  "resolver \<Rightarrow> HevSocks5Addr \<Rightarrow> sockaddr_in6 \<Rightarrow> HevSocks5AddrFamily \<Rightarrow>
   (sockaddr_in6 \<times> HevSocks5AddrFamily \<times> int) option" where
  "hev_socks5_addr_into_sockaddr6 rs addr saddr family = do {
     atype \<leftarrow> bget addr 0;
     if atype = HEV_SOCKS5_ADDR_TYPE_IPV4 then do {
       saddr \<leftarrow> hev_socks5_ipv4_into_sockaddr6 addr saddr;
       Some (saddr, FAMILY_IPV4, 0) }
     else if atype = HEV_SOCKS5_ADDR_TYPE_IPV6 then do {
       saddr \<leftarrow> hev_socks5_ipv6_into_sockaddr6 addr saddr;
       Some (saddr, FAMILY_IPV6, 0) }
     else if atype = HEV_SOCKS5_ADDR_TYPE_NAME then do {
       len \<leftarrow> bget addr 1;
       name \<leftarrow> mget addr 2 (unat len);
       name \<leftarrow> c_str (name @ [0]);
       port \<leftarrow> load16 addr (2 + unat len);
       hev_socks5_name_into_sockaddr6 rs name (uint (ntohs port)) saddr family }
     else Some (saddr, family, - 1) }"

section \<open>The wire format\<close>

text \<open>The three kinds of address as they go over the wire.\<close>

definition wire_ipv4 :: "byte list \<Rightarrow> u16 \<Rightarrow> byte list" where
  "wire_ipv4 ip port = HEV_SOCKS5_ADDR_TYPE_IPV4 # ip @ bytes16 port"

definition wire_ipv6 :: "byte list \<Rightarrow> u16 \<Rightarrow> byte list" where
  "wire_ipv6 ip port = HEV_SOCKS5_ADDR_TYPE_IPV6 # ip @ bytes16 port"

definition wire_domain :: "cstr \<Rightarrow> u16 \<Rightarrow> byte list" where
  "wire_domain name port = HEV_SOCKS5_ADDR_TYPE_NAME # of_nat (length name) # name @ bytes16 port"

definition wire_addr :: "byte list \<Rightarrow> bool" where
  "wire_addr a \<longleftrightarrow> (\<exists>ip port. length ip = 4 \<and> a = wire_ipv4 ip port) \<or>
     (\<exists>ip port. length ip = 16 \<and> a = wire_ipv6 ip port) \<or>
     (\<exists>name port. length name < 256 \<and> a = wire_domain name port)"

text \<open>The wire form of a socket address: an IPv4 address when it is a mapped one.\<close>

definition wire_sockaddr :: "sockaddr_in6 \<Rightarrow> byte list" where
  "wire_sockaddr sa =
     (if IN6_IS_ADDR_V4MAPPED (sin6_addr sa) then wire_ipv4 (drop 12 (sin6_addr sa)) (sin6_port sa)
      else wire_ipv6 (sin6_addr sa) (sin6_port sa))"

section \<open>Encoding and decoding\<close>

lemma length_wire_ipv4 [simp]: "length (wire_ipv4 ip port) = length ip + 3"
  and length_wire_ipv6 [simp]: "length (wire_ipv6 ip port) = length ip + 3"
  and length_wire_domain [simp]: "length (wire_domain name port) = length name + 4"
  by (simp_all add: wire_ipv4_def wire_ipv6_def wire_domain_def)

lemma v4mapped_split:
  assumes "IN6_IS_ADDR_V4MAPPED a" shows "a = replicate 10 0 @ [0xff, 0xff] @ drop 12 a"
  using assms append_take_drop_id [of 12 a] by (simp add: IN6_IS_ADDR_V4MAPPED_def)

lemma put_addr_port:
  assumes "length ip = n" "3 + n \<le> length b"
  shows "mput b 0 [t] \<bind> (\<lambda>b. mput b (Suc n) (bytes16 p) \<bind> (\<lambda>b. mput b 1 ip \<bind> k)) =
      k ((t # ip @ bytes16 p) @ drop (3 + n) b)"
    and "mput b 0 [t] \<bind> (\<lambda>b. mput b 1 ip \<bind> (\<lambda>b. mput b (Suc n) (bytes16 p) \<bind> k)) =
      k ((t # ip @ bytes16 p) @ drop (3 + n) b)"
proof -
  obtain x zs where z: "b = x # zs" using assms(2) by (cases b) auto
  obtain xs ys where "zs = xs @ ys" "length xs = n + 2"
    using assms(2) z that [of "take (n + 2) zs" "drop (n + 2) zs"] by simp
  then have b: "b = x # xs @ ys" "length xs = n + 2" "3 + n = Suc (n + 2)" using z by simp_all
  show "mput b 0 [t] \<bind> (\<lambda>b. mput b (Suc n) (bytes16 p) \<bind> (\<lambda>b. mput b 1 ip \<bind> k)) =
      k ((t # ip @ bytes16 p) @ drop (3 + n) b)"
    and "mput b 0 [t] \<bind> (\<lambda>b. mput b 1 ip \<bind> (\<lambda>b. mput b (Suc n) (bytes16 p) \<bind> k)) =
      k ((t # ip @ bytes16 p) @ drop (3 + n) b)"
    using assms(1) b(2) unfolding b(1,3) by (simp_all add: mput_def overwrite_def)
qed

lemma from_sockaddr6_wire:
  assumes "length (sin6_addr sa) = 16" "19 \<le> length b"
  shows "hev_socks5_addr_from_sockaddr6 b sa =
    Some (wire_sockaddr sa @ drop (length (wire_sockaddr sa)) b, int (length (wire_sockaddr sa)))"
proof (cases "IN6_IS_ADDR_V4MAPPED (sin6_addr sa)")
  case True
  have "length (drop 12 (sin6_addr sa)) = 4" "take 4 (drop 12 (sin6_addr sa)) = drop 12 (sin6_addr sa)" using assms by simp_all
  then show ?thesis using True assms put_addr_port(1) [of "drop 12 (sin6_addr sa)" 4 b 1 "sin6_port sa"]
    by (simp add: hev_socks5_addr_from_sockaddr6_def wire_sockaddr_def wire_ipv4_def mget_def)
next
  case False
  then show ?thesis using assms put_addr_port(1) [of "sin6_addr sa" 16 b 4 "sin6_port sa"]
    by (simp add: hev_socks5_addr_from_sockaddr6_def wire_sockaddr_def wire_ipv6_def mget_def)
qed

lemma load16_at: "i = length xs \<Longrightarrow> load16 (xs @ bytes16 v @ ys) i = Some v"
  using load16_bytes16 by blast

lemma into_sockaddr6_ipv4:
  assumes "length ip = 4" "length (sin6_addr sa0) = 16"
  shows "hev_socks5_addr_into_sockaddr6 rs (wire_ipv4 ip port @ rest) sa0 fam =
    Some (\<lparr>sin6_port = port, sin6_addr = replicate 10 0 @ [0xff, 0xff] @ ip\<rparr>, FAMILY_IPV4, 0)"
proof -
  have "load16 (wire_ipv4 ip port @ rest) 5 = Some port"
    using load16_at [of 5 "1 # ip" port rest] assms by (simp add: wire_ipv4_def)
  moreover have "mget (wire_ipv4 ip port @ rest) 1 4 = Some ip" using assms by (simp add: wire_ipv4_def mget_def)
  ultimately show ?thesis using assms
    by (simp add: hev_socks5_addr_into_sockaddr6_def hev_socks5_ipv4_into_sockaddr6_def mput_def overwrite_def
        bget_def wire_ipv4_def)
qed

lemma into_sockaddr6_ipv6:
  assumes "length ip = 16" "length (sin6_addr sa0) = 16"
  shows "hev_socks5_addr_into_sockaddr6 rs (wire_ipv6 ip port @ rest) sa0 fam =
    Some (\<lparr>sin6_port = port, sin6_addr = ip\<rparr>, FAMILY_IPV6, 0)"
proof -
  have "load16 (wire_ipv6 ip port @ rest) 17 = Some port"
    using load16_at [of 17 "4 # ip" port rest] assms by (simp add: wire_ipv6_def)
  moreover have "mget (wire_ipv6 ip port @ rest) 1 16 = Some ip" using assms by (simp add: wire_ipv6_def mget_def)
  ultimately show ?thesis using assms
    by (simp add: hev_socks5_addr_into_sockaddr6_def hev_socks5_ipv6_into_sockaddr6_def mput_def overwrite_def
        bget_def wire_ipv6_def)
qed

lemma unat_of_nat_byte: "n < 256 \<Longrightarrow> unat (of_nat n :: byte) = n"
  using unat_of_nat_lt [of n, where 'a = 8] by simp

lemma uint_of_nat_byte: "n < 256 \<Longrightarrow> uint (of_nat n :: byte) = int n"
  using unat_of_nat_byte [of n] by (metis uint_nat)

lemma into_sockaddr6_name:
  assumes "length name < 256" "0 \<notin> set name"
  shows "hev_socks5_addr_into_sockaddr6 rs (wire_domain name port @ rest) sa0 fam =
    hev_socks5_name_into_sockaddr6 rs name (uint (ntohs port)) sa0 fam"
proof -
  have "load16 (wire_domain name port @ rest) (2 + length name) = Some port"
    using load16_at [of "2 + length name" "3 # of_nat (length name) # name" port rest] by (simp add: wire_domain_def)
  then show ?thesis using assms unat_of_nat_byte [OF assms(1)] c_str_append [OF assms(2), of "[]"]
    by (simp add: hev_socks5_addr_into_sockaddr6_def bget_def mget_def wire_domain_def)
qed

lemma into_sockaddr6_wire:
  assumes "length (sin6_addr sa) = 16" "length (sin6_addr sa0) = 16"
  shows "hev_socks5_addr_into_sockaddr6 rs (wire_sockaddr sa @ rest) sa0 fam =
    Some (sa, if IN6_IS_ADDR_V4MAPPED (sin6_addr sa) then FAMILY_IPV4 else FAMILY_IPV6, 0)"
proof (cases "IN6_IS_ADDR_V4MAPPED (sin6_addr sa)")
  case True
  then have "replicate 10 0 @ [0xff, 0xff] @ drop 12 (sin6_addr sa) = sin6_addr sa"
    using v4mapped_split by metis
  then show ?thesis using True assms into_sockaddr6_ipv4 [of "drop 12 (sin6_addr sa)" sa0]
    by (simp add: wire_sockaddr_def)
next
  case False
  then show ?thesis using assms into_sockaddr6_ipv6 [of "sin6_addr sa" sa0] by (simp add: wire_sockaddr_def)
qed

lemma addr_len_wire:
  "length ip = 4 \<Longrightarrow> hev_socks5_addr_len (wire_ipv4 ip port @ rest) = Some 7"
  "length ip' = 16 \<Longrightarrow> hev_socks5_addr_len (wire_ipv6 ip' port @ rest) = Some 19"
  "length name < 256 \<Longrightarrow> hev_socks5_addr_len (wire_domain name port @ rest) = Some (4 + int (length name))"
  by (simp_all add: hev_socks5_addr_len_def bget_def wire_ipv4_def wire_ipv6_def wire_domain_def uint_of_nat_byte)

lemma addr_len_wire_addr: "wire_addr a \<Longrightarrow> hev_socks5_addr_len (a @ rest) = Some (int (length a))"
  by (auto simp: wire_addr_def addr_len_wire)

lemma wire_sockaddr_addr: assumes "length (sin6_addr sa) = 16" shows "wire_addr (wire_sockaddr sa)"
proof (cases "IN6_IS_ADDR_V4MAPPED (sin6_addr sa)")
  case True
  have "length (drop 12 (sin6_addr sa)) = 4" using assms by simp
  then show ?thesis unfolding wire_addr_def wire_sockaddr_def if_P [OF True] by blast
next
  case False
  then show ?thesis unfolding wire_addr_def wire_sockaddr_def if_not_P [OF False] using assms by blast
qed

text \<open>Building an address from a name.\<close>

lemma from_name_wire:
  assumes "length name < 256" "0 \<notin> set name" "length b = 260"
  shows "\<exists>rest. hev_socks5_addr_from_name b name port =
    Some (wire_domain name (word_of_int port) @ rest, 4 + int (length name))"
proof -
  obtain x y zs where b: "b = x # y # zs" "length zs = 258"
    using assms(3) by (cases b; cases "tl b") auto
  have "take 256 (name @ replicate 256 0) = name @ replicate (256 - length name) 0" using assms(1) by simp
  moreover obtain k where k: "256 - length name = Suc k" using assms(1) by (metis Suc_diff_Suc diff_zero zero_less_diff less_imp_Suc_add)
  ultimately have str: "strncpy name 256 = name @ 0 # replicate k 0" "length name + Suc k = 256"
    unfolding strncpy_def using assms(1) by simp_all
  have c: "c_str (name @ 0 # replicate k 0 @ drop 256 zs) = Some name" using c_str_append [OF assms(2)] by simp
  have "mput b 0 [3] = Some (3 # y # zs)" by (simp add: mput_def overwrite_def b)
  moreover have "mput (3 # y # zs) 2 (strncpy name 256) = Some (3 # y # name @ 0 # replicate k 0 @ drop 256 zs)"
    using b(2) str(2) by (simp add: mput_def overwrite_def str(1))
  ultimately show ?thesis
    using c unat_of_nat_byte [OF assms(1)] uint_of_nat_byte [OF assms(1)] str(2) b(2)
    by (simp add: hev_socks5_addr_from_name_def mput_def overwrite_def wire_domain_def)
qed

section \<open>Properties\<close>

text \<open>A socket address that is encoded as a SOCKS5 address has the length that
  \<open>hev_socks5_addr_len\<close> computes, and decoding exactly these bytes gives the same address and
  port back, for IPv4-mapped and for IPv6 addresses, whatever follows them in the buffer.\<close>

theorem addr_sockaddr_roundtrip:
  assumes "length (sin6_addr sa) = 16" "length (sin6_addr sa0) = 16" "length b = 260"
  shows "\<exists>addr n. hev_socks5_addr_from_sockaddr6 b sa = Some (addr, int n) \<and>
    hev_socks5_addr_len addr = Some (int n) \<and>
    hev_socks5_addr_into_sockaddr6 rs (take n addr @ rest) sa0 fam =
      Some (sa, if IN6_IS_ADDR_V4MAPPED (sin6_addr sa) then FAMILY_IPV4 else FAMILY_IPV6, 0)"
proof -
  have "wire_addr (wire_sockaddr sa)" using wire_sockaddr_addr [OF assms(1)] .
  then show ?thesis
    using from_sockaddr6_wire [OF assms(1), of b] into_sockaddr6_wire [OF assms(1,2)] addr_len_wire_addr assms(3)
    by simp
qed

definition rs_none :: resolver where
  "rs_none = \<lparr>inet_pton4 = \<lambda>_. None, inet_pton6 = \<lambda>_. None, getaddrinfo = \<lambda>_ _. None\<rparr>"

theorem addr_sockaddr_roundtrip_witness:
  "\<exists>addr n. hev_socks5_addr_from_sockaddr6 (replicate 260 0)
      \<lparr>sin6_port = 80, sin6_addr = replicate 10 0 @ [0xff, 0xff, 1, 2, 3, 4]\<rparr> = Some (addr, int n) \<and>
    hev_socks5_addr_len addr = Some (int n) \<and>
    hev_socks5_addr_into_sockaddr6 rs_none (take n addr @ [7]) \<lparr>sin6_port = 0, sin6_addr = replicate 16 0\<rparr> FAMILY_UNSPEC =
      Some (\<lparr>sin6_port = 80, sin6_addr = replicate 10 0 @ [0xff, 0xff, 1, 2, 3, 4]\<rparr>, FAMILY_IPV4, 0)"
  using addr_sockaddr_roundtrip [of "\<lparr>sin6_port = 80, sin6_addr = replicate 10 0 @ [0xff, 0xff, 1, 2, 3, 4]\<rparr>"
      "\<lparr>sin6_port = 0, sin6_addr = replicate 16 0\<rparr>" "replicate 260 0" rs_none "[7]" FAMILY_UNSPEC]
  by (simp add: IN6_IS_ADDR_V4MAPPED_def)

text \<open>A name of at most 255 bytes is encoded with its length and port, and the peer that
  decodes it resolves exactly this name and port: nothing is lost or added on the wire.\<close>

theorem addr_name_roundtrip:
  assumes "length name < 256" "0 \<notin> set name" "length b = 260"
  shows "\<exists>addr. hev_socks5_addr_from_name b name port = Some (addr, 4 + int (length name)) \<and>
    hev_socks5_addr_len addr = Some (4 + int (length name)) \<and>
    hev_socks5_addr_into_sockaddr6 rs (take (4 + length name) addr) sa0 fam =
      hev_socks5_name_into_sockaddr6 rs name (uint (ntohs (word_of_int port))) sa0 fam"
proof -
  obtain rest where "hev_socks5_addr_from_name b name port =
      Some (wire_domain name (word_of_int port) @ rest, 4 + int (length name))"
    using from_name_wire [OF assms] by blast
  moreover have "hev_socks5_addr_into_sockaddr6 rs (wire_domain name (word_of_int port)) sa0 fam =
      hev_socks5_name_into_sockaddr6 rs name (uint (ntohs (word_of_int port))) sa0 fam"
    using into_sockaddr6_name [OF assms(1,2), of rs _ "[]"] by simp
  ultimately show ?thesis using addr_len_wire(3) [OF assms(1)] by (simp add: add.commute)
qed

theorem addr_name_roundtrip_witness:
  "\<exists>addr. hev_socks5_addr_from_name (replicate 260 9) [97, 46, 98] 0x5000 = Some (addr, 7) \<and>
    hev_socks5_addr_len addr = Some 7 \<and>
    hev_socks5_addr_into_sockaddr6 rs_none (take 7 addr) \<lparr>sin6_port = 0, sin6_addr = replicate 16 0\<rparr> FAMILY_UNSPEC =
      hev_socks5_name_into_sockaddr6 rs_none [97, 46, 98] (uint (ntohs (word_of_int 0x5000)))
        \<lparr>sin6_port = 0, sin6_addr = replicate 16 0\<rparr> FAMILY_UNSPEC"
  using addr_name_roundtrip [of "[97, 46, 98]" "replicate 260 9" "0x5000" rs_none] by simp

text \<open>A name of 256 bytes or more is not rejected. \<open>strncpy\<close> leaves it unterminated, so the
  length depends on the bytes after it: when they are zero the length wraps around to 0, the
  port overwrites the start of the name and the address that is sent is the empty name; when
  they are not, \<open>strlen\<close> reads past the struct.\<close>

theorem addr_from_name_long:
  assumes "256 \<le> length name" "0 \<notin> set name" "length b = 260"
  shows "(b ! 258 = 0 \<longrightarrow> (\<exists>rest. hev_socks5_addr_from_name b name port = Some (wire_domain [] (word_of_int port) @ rest, 4))) \<and>
    (b ! 258 \<noteq> 0 \<longrightarrow> b ! 259 \<noteq> 0 \<longrightarrow> hev_socks5_addr_from_name b name port = None)"
proof -
  define nm where "nm = take 256 name"
  have nm: "length nm = 256" "0 \<notin> set nm" "strncpy name 256 = nm"
    using assms(1,2) by (auto simp: nm_def strncpy_def dest: in_set_takeD)
  obtain xs where xs: "b = take 258 b @ [b ! 258, b ! 259]" "take 258 b = hd b # b ! 1 # xs" "length xs = 256"
  proof (rule that [of "take 256 (drop 2 b)"])
    show "b = take 258 b @ [b ! 258, b ! 259]"
      using assms(3) Cons_nth_drop_Suc [of 258 b] Cons_nth_drop_Suc [of 259 b] append_take_drop_id [of 258 b] by simp
    show "take 258 b = hd b # b ! 1 # take 256 (drop 2 b)"
      using assms(3) by (cases b; cases "tl b") auto
  qed (use assms(3) in simp)
  define x y u v where "x = hd b" "y = b ! 1" "u = b ! 258" "v = b ! 259"
  note uv = this(3,4) [symmetric]
  have b: "b = x # y # xs @ [u, v]" "length xs = 256" using xs unfolding \<open>x = hd b\<close> \<open>y = b ! 1\<close> uv by simp_all
  have 1: "mput b 0 [3] = Some (3 # y # xs @ [u, v])" by (simp add: mput_def overwrite_def b(1))
  have 2: "mput (3 # y # xs @ [u, v]) 2 (strncpy name 256) = Some (3 # y # nm @ [u, v])"
    using b(2) by (simp add: mput_def overwrite_def nm)
  have "c_str (nm @ [u, v]) = Some nm" if "u = 0" using that c_str_append [OF nm(2)] by simp
  moreover have "c_str (nm @ [u, v]) = None" if "u \<noteq> 0" "v \<noteq> 0" using that nm(2) by (simp add: c_str_None)
  moreover have "hev_socks5_addr_from_name b name port = do {
       str \<leftarrow> c_str (nm @ [u, v]);
       let len = (of_nat (length str) :: byte);
       addr \<leftarrow> mput (3 # y # nm @ [u, v]) 1 [len];
       addr \<leftarrow> mput addr (2 + unat len) (bytes16 (word_of_int port));
       Some (addr, 4 + uint len) }"
    using 1 2 by (simp add: hev_socks5_addr_from_name_def)
  ultimately show ?thesis using nm(1) unfolding uv
    by (auto simp: mput_def overwrite_def wire_domain_def)
qed

theorem addr_from_name_long_witness:
  "\<exists>rest. hev_socks5_addr_from_name (replicate 260 0) (replicate 300 97) 0x5000 = Some (wire_domain [] 0x5000 @ rest, 4)"
  using addr_from_name_long [of "replicate 300 97" "replicate 260 0" "0x5000"] by simp

end
