(* ===== verification/TaskIO.thy ===== *)
theory TaskIO
  imports Prelude
begin

text \<open>
  Socket input and output as the sources use it: the wrappers of
  \<open>hev-task-io-socket.c\<close>, which repeat a system call until the whole buffer is transferred,
  and the yielder of \<open>hev-socks5-misc.c\<close> that decides whether a session keeps waiting.
  The kernel is a script of the answers it gives to the calls on one socket: data in pieces of
  any size, \<open>EAGAIN\<close> followed by a wait, an error, the end of the stream. So a statement
  for every script is a statement for every fragmentation and every schedule.
\<close>

section \<open>Scripts\<close>

text \<open>\<open>Accept k\<close> is room for \<open>k\<close> bytes in the buffer of the socket; what a call does not use
  stays. \<open>Chunk\<close> is the data available to one \<open>recv\<close> (an empty one is the end of the stream,
  as is the end of the script); \<open>RxAgain ms\<close> is \<open>EAGAIN\<close>, where a wait for the socket
  that could last long enough would return with \<open>ms\<close> milliseconds left.\<close>

datatype rx_event = Chunk "byte list" | RxAgain int | RxError

datatype tx_event = Accept nat | TxAgain int | TxError

text \<open>The two ways to give up the processor: for a moment, or until something happens.\<close>

datatype HevTaskYieldType = HEV_TASK_YIELD | HEV_TASK_WAITIO

text \<open>The yielder is given the time left and answers nonzero to give up.\<close>

type_synonym yielder = "int \<Rightarrow> int"

text \<open>\<open>hev_task_sleep\<close> returns at once for 0, and never more than the time asked for.\<close>

definition hev_task_sleep :: "int \<Rightarrow> int \<Rightarrow> int" where
  "hev_task_sleep milliseconds left = (if milliseconds = 0 then 0 else min left milliseconds)"

definition hev_socks5_task_io_yielder :: "int \<Rightarrow> yielder" where
  "hev_socks5_task_io_yielder timeout left =
     (if timeout < 0 then 0
      else if hev_task_sleep timeout left \<le> 0 then - 1 else 0)"

section \<open>Receiving\<close>

definition size_or :: "nat \<Rightarrow> int \<Rightarrow> int" where
  "size_or n s = (if n \<noteq> 0 then int n else s)"

text \<open>The buffer is the data received so far; its length is the variable \<open>size\<close>. The results are
  the return value, the buffer and the rest of the script.\<close>

function hev_task_io_socket_recv ::
  "yielder \<Rightarrow> bool \<Rightarrow> bool \<Rightarrow> nat \<Rightarrow> byte list \<Rightarrow> rx_event list \<Rightarrow> int \<times> byte list \<times> rx_event list" where
  "hev_task_io_socket_recv yielder waitall dontwait len buf [] =
     (if \<not> waitall then 0 else size_or (length buf) 0, buf, [])"
| "hev_task_io_socket_recv yielder waitall dontwait len buf (RxError # evs) =
     (if \<not> waitall then - 1 else size_or (length buf) (- 1), buf, evs)"
| "hev_task_io_socket_recv yielder waitall dontwait len buf (RxAgain left # evs) =
     (if dontwait then (if \<not> waitall then - 1 else size_or (length buf) (- 1), buf, evs)
      else if yielder left \<noteq> 0 then (size_or (length buf) (- 2), buf, evs)
      else hev_task_io_socket_recv yielder waitall dontwait len buf evs)"
| "hev_task_io_socket_recv yielder waitall dontwait len buf (Chunk bs # evs) =
     (let n = min (len - length buf) (length bs);
          buf' = buf @ take n bs;
          rest = (if n < length bs then Chunk (drop n bs) # evs else evs)
      in if \<not> waitall then (int n, buf', rest)
         else if n = 0 then (size_or (length buf) 0, buf, rest)
         else if length buf' < len then hev_task_io_socket_recv yielder waitall dontwait len buf' rest
         else (int (length buf'), buf', rest))"
  by pat_completeness auto

text \<open>Every retry uses up an event or a part of one.\<close>

fun rx_size :: "rx_event list \<Rightarrow> nat" where
  "rx_size [] = 0"
| "rx_size (Chunk bs # evs) = Suc (length bs) + rx_size evs"
| "rx_size (e # evs) = Suc (rx_size evs)"

termination hev_task_io_socket_recv
  by (relation "measure (\<lambda>(_, _, _, _, _, evs). rx_size evs)") (auto simp: min_def split: if_splits)

text \<open>The bytes that arrive before the session stops waiting.\<close>

fun stream :: "yielder \<Rightarrow> rx_event list \<Rightarrow> byte list" where
  "stream yielder [] = []"
| "stream yielder (RxError # evs) = []"
| "stream yielder (RxAgain left # evs) = (if yielder left \<noteq> 0 then [] else stream yielder evs)"
| "stream yielder (Chunk bs # evs) = (if bs = [] then [] else bs @ stream yielder evs)"

text \<open>A waiting receive gets exactly the next bytes of the stream, however it is fragmented, and
  leaves the others; if the stream is too short it returns less than was asked for.\<close>

lemma recv_waitall:
  assumes "length buf < len"
  shows "case hev_task_io_socket_recv yielder True False len buf evs of (res, buf', evs') \<Rightarrow>
    if len \<le> length buf + length (stream yielder evs)
    then res = int len \<and> buf' = buf @ take (len - length buf) (stream yielder evs) \<and>
      stream yielder evs' = drop (len - length buf) (stream yielder evs)
    else res < int len"
  using assms
proof (induction yielder True False len buf evs rule: hev_task_io_socket_recv.induct)
  case (4 yielder len buf bs evs)
  let ?n = "min (len - length buf) (length bs)"
  consider "bs = []" | "bs \<noteq> []" "length bs < len - length buf" | "bs \<noteq> []" "len - length buf \<le> length bs"
    by linarith
  then show ?case
  proof cases
    case 2
    then have n: "?n = length bs" "length (buf @ bs) < len" using 4(2) by auto
    then show ?thesis using 2 4(1) [of ?n "buf @ bs" evs] by (auto simp: Let_def)
  next
    case 3
    then show ?thesis using 4(2) by (auto simp: Let_def min_def)
  qed (use 4(2) in \<open>auto simp: size_or_def\<close>)
qed (auto simp: size_or_def)

text \<open>Receiving into a vector of buffers, given by their lengths; the bytes fill them in order.\<close>

fun len_advance :: "nat \<Rightarrow> nat list \<Rightarrow> nat list" where
  "len_advance s [] = []"
| "len_advance s (v # vs) = (if s < v then (v - s) # vs else len_advance (s - v) vs)"

function recvmsg_loop ::
  "yielder \<Rightarrow> bool \<Rightarrow> bool \<Rightarrow> nat \<Rightarrow> nat list \<Rightarrow> byte list \<Rightarrow> rx_event list \<Rightarrow> int \<times> byte list \<times> rx_event list" where
  "recvmsg_loop yielder waitall dontwait len iov buf [] =
     (if \<not> waitall then 0 else size_or (length buf) 0, buf, [])"
| "recvmsg_loop yielder waitall dontwait len iov buf (RxError # evs) =
     (if \<not> waitall then - 1 else size_or (length buf) (- 1), buf, evs)"
| "recvmsg_loop yielder waitall dontwait len iov buf (RxAgain left # evs) =
     (if dontwait then (if \<not> waitall then - 1 else size_or (length buf) (- 1), buf, evs)
      else if yielder left \<noteq> 0 then (size_or (length buf) (- 2), buf, evs)
      else recvmsg_loop yielder waitall dontwait len iov buf evs)"
| "recvmsg_loop yielder waitall dontwait len iov buf (Chunk bs # evs) =
     (let n = min (sum_list iov) (length bs);
          buf' = buf @ take n bs;
          rest = (if n < length bs then Chunk (drop n bs) # evs else evs)
      in if \<not> waitall then (int n, buf', rest)
         else if n = 0 then (size_or (length buf) 0, buf, rest)
         else if length buf' < len then recvmsg_loop yielder waitall dontwait len (len_advance n iov) buf' rest
         else (int (length buf'), buf', rest))"
  by pat_completeness auto
termination recvmsg_loop
  by (relation "measure (\<lambda>(_, _, _, _, _, _, evs). rx_size evs)") (auto simp: min_def split: if_splits)

definition hev_task_io_socket_recvmsg ::
  "yielder \<Rightarrow> bool \<Rightarrow> bool \<Rightarrow> nat list \<Rightarrow> rx_event list \<Rightarrow> int \<times> byte list \<times> rx_event list" where
  "hev_task_io_socket_recvmsg yielder waitall dontwait iov evs =
     recvmsg_loop yielder waitall dontwait (sum_list iov) iov [] evs"

lemma sum_len_advance: "s \<le> sum_list iov \<Longrightarrow> sum_list (len_advance s iov) = sum_list iov - s"
  by (induction s iov rule: len_advance.induct) auto

lemma recvmsg_loop_recv:
  "sum_list iov = len - length buf \<Longrightarrow> length buf \<le> len \<Longrightarrow>
   recvmsg_loop yielder waitall dontwait len iov buf evs = hev_task_io_socket_recv yielder waitall dontwait len buf evs"
proof (induction yielder waitall dontwait len iov buf evs rule: recvmsg_loop.induct)
  case (4 yielder waitall dontwait len iov buf bs evs)
  let ?n = "min (sum_list iov) (length bs)"
  have "sum_list (len_advance ?n iov) = len - length (buf @ take ?n bs)"
    using 4(2,3) sum_len_advance [of ?n iov] by auto
  then show ?case using 4(1) [OF refl refl refl] 4(2,3) by (auto simp: Let_def)
qed auto

lemma recvmsg_is_recv:
  "hev_task_io_socket_recvmsg yielder waitall dontwait iov evs =
   hev_task_io_socket_recv yielder waitall dontwait (sum_list iov) [] evs"
  unfolding hev_task_io_socket_recvmsg_def by (rule recvmsg_loop_recv) auto

text \<open>A single receive that may block gets some bytes if there are any.\<close>

lemma recv_some:
  assumes "0 < len" "stream yielder evs \<noteq> []"
  shows "\<exists>n evs'. hev_task_io_socket_recv yielder False False len [] evs = (int n, take n (stream yielder evs), evs') \<and>
    0 < n \<and> n \<le> len \<and> n \<le> length (stream yielder evs) \<and> stream yielder evs' = drop n (stream yielder evs)"
  using assms
proof (induction yielder False False len "[] :: byte list" evs rule: hev_task_io_socket_recv.induct)
  case (4 yielder len bs evs)
  then have "bs \<noteq> []" by (auto split: if_splits)
  then show ?case using 4(2)
    by (intro exI [of _ "min len (length bs)"] exI [of _ "if min len (length bs) < length bs then Chunk (drop (min len (length bs)) bs) # evs else evs"])
      (auto simp: Let_def min_def)
qed (auto split: if_splits)

section \<open>Sending\<close>

text \<open>The third list is what has been put on the wire.\<close>

fun hev_task_io_socket_send ::
  "yielder \<Rightarrow> bool \<Rightarrow> bool \<Rightarrow> byte list \<Rightarrow> nat \<Rightarrow> byte list \<Rightarrow> tx_event list \<Rightarrow> int \<times> byte list \<times> tx_event list" where
  "hev_task_io_socket_send yielder waitall dontwait buf sz tx [] =
     (if \<not> waitall then - 1 else size_or sz (- 1), tx, [])"
| "hev_task_io_socket_send yielder waitall dontwait buf sz tx (TxError # evs) =
     (if \<not> waitall then - 1 else size_or sz (- 1), tx, evs)"
| "hev_task_io_socket_send yielder waitall dontwait buf sz tx (TxAgain left # evs) =
     (if dontwait then (if \<not> waitall then - 1 else size_or sz (- 1), tx, evs)
      else if yielder left \<noteq> 0 then (size_or sz (- 2), tx, evs)
      else hev_task_io_socket_send yielder waitall dontwait buf sz tx evs)"
| "hev_task_io_socket_send yielder waitall dontwait buf sz tx (Accept k # evs) =
     (let n = min k (length buf - sz);
          tx' = tx @ take n (drop sz buf);
          rest = (if n < k then Accept (k - n) # evs else evs)
      in if \<not> waitall then (int n, tx', rest)
         else if n = 0 then (size_or sz 0, tx', rest)
         else if sz + n < length buf
              then hev_task_io_socket_send yielder waitall dontwait buf (sz + n) tx' evs
         else (int (sz + n), tx', rest))"

text \<open>The loop of \<open>sendmsg\<close> that moves the vector of buffers past the bytes sent.\<close>

fun iov_advance :: "nat \<Rightarrow> byte list list \<Rightarrow> byte list list" where
  "iov_advance s [] = []"
| "iov_advance s (v # vs) = (if s < length v then drop s v # vs else iov_advance (s - length v) vs)"

fun sendmsg_loop ::
  "yielder \<Rightarrow> bool \<Rightarrow> bool \<Rightarrow> nat \<Rightarrow> byte list list \<Rightarrow> nat \<Rightarrow> byte list \<Rightarrow> tx_event list \<Rightarrow>
   int \<times> byte list \<times> tx_event list" where
  "sendmsg_loop yielder waitall dontwait len iov sz tx [] =
     (if \<not> waitall then - 1 else size_or sz (- 1), tx, [])"
| "sendmsg_loop yielder waitall dontwait len iov sz tx (TxError # evs) =
     (if \<not> waitall then - 1 else size_or sz (- 1), tx, evs)"
| "sendmsg_loop yielder waitall dontwait len iov sz tx (TxAgain left # evs) =
     (if dontwait then (if \<not> waitall then - 1 else size_or sz (- 1), tx, evs)
      else if yielder left \<noteq> 0 then (size_or sz (- 2), tx, evs)
      else sendmsg_loop yielder waitall dontwait len iov sz tx evs)"
| "sendmsg_loop yielder waitall dontwait len iov sz tx (Accept k # evs) =
     (let n = min k (length (concat iov));
          tx' = tx @ take n (concat iov);
          rest = (if n < k then Accept (k - n) # evs else evs)
      in if \<not> waitall then (int n, tx', rest)
         else if n = 0 then (size_or sz 0, tx', rest)
         else if sz + n < len
              then sendmsg_loop yielder waitall dontwait len (iov_advance n iov) (sz + n) tx' evs
         else (int (sz + n), tx', rest))"

definition hev_task_io_socket_sendmsg ::
  "yielder \<Rightarrow> bool \<Rightarrow> bool \<Rightarrow> byte list list \<Rightarrow> byte list \<Rightarrow> tx_event list \<Rightarrow> int \<times> byte list \<times> tx_event list" where
  "hev_task_io_socket_sendmsg yielder waitall dontwait iov tx evs =
     sendmsg_loop yielder waitall dontwait (sum_list (map length iov)) iov 0 tx evs"

lemma concat_iov_advance: "concat (iov_advance s iov) = drop s (concat iov)"
  by (induction s iov rule: iov_advance.induct) auto

lemma sendmsg_loop_send:
  "concat iov = drop sz buf \<Longrightarrow> sz \<le> length buf \<Longrightarrow> len = length buf \<Longrightarrow>
   sendmsg_loop yielder waitall dontwait len iov sz tx evs =
   hev_task_io_socket_send yielder waitall dontwait buf sz tx evs"
proof (induction yielder waitall dontwait len iov sz tx evs rule: sendmsg_loop.induct)
  case (4 yielder waitall dontwait len iov sz tx k evs)
  let ?n = "min k (length (concat iov))"
  have "concat (iov_advance ?n iov) = drop (sz + ?n) buf"
    using 4(2) by (simp add: concat_iov_advance add.commute)
  then show ?case using 4(1) [OF refl refl] 4(2-4) by (auto simp: Let_def)
qed auto

lemma sendmsg_is_send:
  "hev_task_io_socket_sendmsg yielder waitall dontwait iov tx evs =
   hev_task_io_socket_send yielder waitall dontwait (concat iov) 0 tx evs"
  unfolding hev_task_io_socket_sendmsg_def by (rule sendmsg_loop_send) (auto simp: length_concat)

text \<open>What a sender puts on the wire is always a part of the buffer from its start; the return
  value is positive exactly when something was sent.\<close>

lemma send_prefix:
  assumes "sz \<le> length buf"
  shows "case hev_task_io_socket_send yielder True False buf sz tx evs of (res, tx', evs') \<Rightarrow>
    \<exists>n. sz \<le> n \<and> n \<le> length buf \<and> tx' = tx @ take (n - sz) (drop sz buf) \<and>
      (0 < n \<longrightarrow> res = int n) \<and> (n = 0 \<longrightarrow> res \<le> 0)"
  using assms
proof (induction yielder True False buf sz tx evs rule: hev_task_io_socket_send.induct)
  case (4 yielder buf sz tx k evs)
  let ?n = "min k (length buf - sz)"
  show ?case
  proof (cases "?n \<noteq> 0 \<and> sz + ?n < length buf")
    case True
    let ?tx = "tx @ take ?n (drop sz buf)"
    obtain res tx' evs' where run: "hev_task_io_socket_send yielder True False buf (sz + ?n) ?tx evs = (res, tx', evs')"
      by (metis prod_cases3)
    moreover have "sz + ?n \<le> length buf" using True by simp
    ultimately obtain m where m: "sz + ?n \<le> m" "m \<le> length buf"
        "tx' = ?tx @ take (m - (sz + ?n)) (drop (sz + ?n) buf)" "0 < m \<longrightarrow> res = int m" "m = 0 \<longrightarrow> res \<le> 0"
      using 4(1) [OF refl refl] True by auto
    have "tx' = tx @ take (m - sz) (drop sz buf)"
      using m(1,3) take_add [of ?n "m - (sz + ?n)" "drop sz buf"] by (simp add: add.commute)
    moreover have "hev_task_io_socket_send yielder True False buf sz tx (Accept k # evs) = (res, tx', evs')"
      using run True by (auto simp: Let_def)
    ultimately show ?thesis using m by (simp only: prod.case) (rule exI [of _ m], simp)
  next
    case False
    then consider "?n = 0" | "?n \<noteq> 0" "sz + ?n = length buf" by linarith
    then show ?thesis
    proof cases
      case 1
      then show ?thesis using 4(2) by (intro case_prodI2 exI [of _ sz]) (auto simp: Let_def size_or_def)
    next
      case 2
      then show ?thesis by (auto simp: Let_def intro!: exI [of _ "length buf"])
    qed
  qed
qed (auto simp: size_or_def split: if_splits)

text \<open>The number of bytes the kernel takes before the session stops waiting.\<close>

fun capacity :: "yielder \<Rightarrow> tx_event list \<Rightarrow> nat" where
  "capacity yielder [] = 0"
| "capacity yielder (TxError # evs) = 0"
| "capacity yielder (TxAgain left # evs) = (if yielder left \<noteq> 0 then 0 else capacity yielder evs)"
| "capacity yielder (Accept k # evs) = (if k = 0 then 0 else k + capacity yielder evs)"

lemma send_all:
  assumes "sz < length buf" "length buf - sz \<le> capacity yielder evs"
  shows "\<exists>evs'. hev_task_io_socket_send yielder True False buf sz tx evs = (int (length buf), tx @ drop sz buf, evs') \<and>
    capacity yielder evs' = capacity yielder evs - (length buf - sz)"
  using assms
proof (induction yielder True False buf sz tx evs rule: hev_task_io_socket_send.induct)
  case (4 yielder buf sz tx k evs)
  have k: "0 < k" using 4(2,3) by (auto split: if_splits)
  show ?case
  proof (cases "sz + k < length buf")
    case True
    have "length buf - (sz + k) \<le> capacity yielder evs" using 4(3) k by simp
    then obtain evs' where "hev_task_io_socket_send yielder True False buf (sz + k) (tx @ take k (drop sz buf)) evs =
        (int (length buf), (tx @ take k (drop sz buf)) @ drop (sz + k) buf, evs')"
        "capacity yielder evs' = capacity yielder evs - (length buf - (sz + k))"
      using 4(1) [OF refl refl] True k by auto
    moreover have "take k (drop sz buf) @ drop (sz + k) buf = drop sz buf"
      using append_take_drop_id [of k "drop sz buf"] by (simp add: add.commute)
    ultimately show ?thesis using True k by (auto simp: Let_def)
  next
    case False
    then show ?thesis using 4(2) k by (auto simp: Let_def min_def)
  qed
qed (auto split: if_splits)

section \<open>Connecting\<close>

datatype conn_event = Connected | InProgress int | IsConnected | ConnError

fun hev_task_io_socket_connect :: "yielder \<Rightarrow> conn_event list \<Rightarrow> int" where
  "hev_task_io_socket_connect yielder [] = - 1"
| "hev_task_io_socket_connect yielder (Connected # evs) = 0"
| "hev_task_io_socket_connect yielder (InProgress left # evs) =
     (if yielder left \<noteq> 0 then - 2 else hev_task_io_socket_connect yielder evs)"
| "hev_task_io_socket_connect yielder (IsConnected # evs) = 0"
| "hev_task_io_socket_connect yielder (ConnError # evs) = - 1"

section \<open>Sockets\<close>

record sock =
  rx :: "rx_event list"
  tx :: "byte list"
  txs :: "tx_event list"

section \<open>Properties\<close>

text \<open>Receiving with \<open>MSG_WAITALL\<close> is independent of how the peer's bytes are cut into
  pieces and of how often the call would block: it ends, and returns the requested number of
  bytes, the next ones of the stream, exactly when that many arrive before the end of the
  stream, an error or a wait that the session gives up; the remaining bytes stay available.\<close>

theorem recv_waitall_exact:
  assumes "0 < len"
  shows "case hev_task_io_socket_recv yielder True False len [] evs of (res, buf, evs') \<Rightarrow>
    (res = int len \<longleftrightarrow> len \<le> length (stream yielder evs)) \<and>
    (res = int len \<longrightarrow> buf = take len (stream yielder evs) \<and> stream yielder evs' = drop len (stream yielder evs))"
  using recv_waitall [of "[]" len yielder evs] assms by (auto split: prod.splits if_splits)

theorem recv_waitall_exact_witness:
  "case hev_task_io_socket_recv (hev_socks5_task_io_yielder 10) True False 3 [] [RxAgain 5, Chunk [1, 2], RxAgain 1, Chunk [3, 4]]
   of (res, buf, evs') \<Rightarrow> res = 3 \<and> buf = [1, 2, 3] \<and> stream (hev_socks5_task_io_yielder 10) evs' = [4]"
  using recv_waitall_exact [of 3 "hev_socks5_task_io_yielder 10" "[RxAgain 5, Chunk [1, 2], RxAgain 1, Chunk [3, 4]]"]
  by (auto simp: hev_socks5_task_io_yielder_def hev_task_sleep_def split: prod.splits)

text \<open>Sending a vector of buffers, with its loop that moves the vector past the bytes the
  kernel took, puts the same bytes on the wire and returns the same value as sending the
  concatenation of the buffers, for every sequence of kernel answers.\<close>

theorem sendmsg_equals_send:
  "hev_task_io_socket_sendmsg yielder waitall dontwait iov out evs =
   hev_task_io_socket_send yielder waitall dontwait (concat iov) 0 out evs"
  by (rule sendmsg_is_send)

text \<open>A send that stops early, because the session gives up waiting or the connection fails,
  returns the number of bytes it managed to send; the result is positive as soon as one byte is
  on the wire, so the callers' test \<open>res <= 0\<close> takes a truncated message for a sent one.\<close>

theorem send_short_is_positive:
  "case hev_task_io_socket_send yielder True False buf 0 out evs of (res, out', evs') \<Rightarrow>
    \<exists>n\<le>length buf. out' = out @ take n buf \<and> (if n = 0 then res \<le> 0 else res = int n)"
proof -
  obtain res out' evs' where r: "hev_task_io_socket_send yielder True False buf 0 out evs = (res, out', evs')"
    by (metis prod_cases3)
  obtain n where "n \<le> length buf" "out' = out @ take n buf" "0 < n \<longrightarrow> res = int n" "n = 0 \<longrightarrow> res \<le> 0"
    using send_prefix [of 0 buf out yielder evs] unfolding r prod.case by auto
  then show ?thesis unfolding r prod.case by (intro exI [of _ n]) simp
qed

end
