(* ===== verification/Socks5.thy ===== *)
theory Socks5
  imports Socks5Addr TaskIO
begin

text \<open>
  The base class of the SOCKS5 sessions (\<open>core/src/hev-socks5.c\<close>) and the parts of
  \<open>core/src/hev-socks5-misc.c\<close> that every session uses: the timeouts and the creation of
  sockets. A session holds the state of its connection, that is the script of the kernel and the
  bytes it has sent, and the list of the descriptors it has open.
\<close>

section \<open>Process-wide settings\<close>

record socks5_misc =
  connect_timeout :: int
  tcp_timeout :: int
  udp_timeout :: int
  task_stack_size :: int
  udp_recv_buffer_size :: int
  udp_copy_buffer_nums :: int

definition misc_default :: socks5_misc where
  "misc_default = \<lparr>connect_timeout = 10000, tcp_timeout = 300000, udp_timeout = 60000,
     task_stack_size = 8192, udp_recv_buffer_size = 512 * 1024, udp_copy_buffer_nums = 10\<rparr>"

definition hev_socks5_set_connect_timeout :: "socks5_misc \<Rightarrow> int \<Rightarrow> socks5_misc" where
  "hev_socks5_set_connect_timeout m timeout = m\<lparr>connect_timeout := timeout\<rparr>"

definition hev_socks5_set_tcp_timeout :: "socks5_misc \<Rightarrow> int \<Rightarrow> socks5_misc" where
  "hev_socks5_set_tcp_timeout m timeout = m\<lparr>tcp_timeout := timeout\<rparr>"

definition hev_socks5_set_udp_timeout :: "socks5_misc \<Rightarrow> int \<Rightarrow> socks5_misc" where
  "hev_socks5_set_udp_timeout m timeout = m\<lparr>udp_timeout := timeout\<rparr>"

definition hev_socks5_set_task_stack_size :: "socks5_misc \<Rightarrow> int \<Rightarrow> socks5_misc" where
  "hev_socks5_set_task_stack_size m stack_size = m\<lparr>task_stack_size := stack_size\<rparr>"

definition hev_socks5_set_udp_recv_buffer_size :: "socks5_misc \<Rightarrow> int \<Rightarrow> socks5_misc" where
  "hev_socks5_set_udp_recv_buffer_size m buffer_size = m\<lparr>udp_recv_buffer_size := buffer_size\<rparr>"

definition hev_socks5_set_udp_copy_buffer_nums :: "socks5_misc \<Rightarrow> int \<Rightarrow> socks5_misc" where
  "hev_socks5_set_udp_copy_buffer_nums m nums = m\<lparr>udp_copy_buffer_nums := nums\<rparr>"

section \<open>Sessions\<close>

datatype HevSocks5Type = TYPE_NONE | TYPE_TCP | TYPE_UDP_IN_TCP | TYPE_UDP_IN_UDP

record HevSocks5 =
  s_fd :: int
  s_timeout :: int
  s_type :: HevSocks5Type
  s_udp_associated :: bool
  s_family :: HevSocks5AddrFamily
  s_sock :: sock
  s_open :: "int list"

definition hev_socks5_set_timeout :: "'a HevSocks5_scheme \<Rightarrow> int \<Rightarrow> 'a HevSocks5_scheme" where
  "hev_socks5_set_timeout self timeout =
     (if s_timeout self \<noteq> 0 then self\<lparr>s_timeout := timeout\<rparr> else self)"

definition hev_socks5_set_addr_family ::
  "'a HevSocks5_scheme \<Rightarrow> HevSocks5AddrFamily \<Rightarrow> 'a HevSocks5_scheme" where
  "hev_socks5_set_addr_family self family = self\<lparr>s_family := family\<rparr>"

definition hev_socks5_construct :: "'a HevSocks5_scheme \<Rightarrow> HevSocks5Type \<Rightarrow> 'a HevSocks5_scheme" where
  "hev_socks5_construct self type =
     self\<lparr>s_fd := - 1, s_timeout := - 1, s_type := type, s_family := FAMILY_UNSPEC\<rparr>"

definition close_fd :: "'a HevSocks5_scheme \<Rightarrow> int \<Rightarrow> 'a HevSocks5_scheme" where
  "close_fd self fd = self\<lparr>s_open := remove1 fd (s_open self)\<rparr>"

definition hev_socks5_destruct :: "'a HevSocks5_scheme \<Rightarrow> 'a HevSocks5_scheme" where
  "hev_socks5_destruct self = (if 0 \<le> s_fd self then close_fd self (s_fd self) else self)"

text \<open>What the kernel and the binder of the session's class answer when a socket is created,
  bound and connected, and the connection that comes out of it.\<close>

record net =
  n_socket :: int
  n_v6only :: int
  n_reuse :: int
  n_binder :: int
  n_connect :: "conn_event list"
  n_stream :: sock

definition hev_socks5_socket :: "net \<Rightarrow> 'a HevSocks5_scheme \<Rightarrow> int \<times> 'a HevSocks5_scheme" where
  "hev_socks5_socket net self =
     (let fd = n_socket net in
      if fd < 0 then (- 1, self)
      else let self = self\<lparr>s_open := fd # s_open self\<rparr> in
        if n_v6only net < 0 then (- 1, close_fd self fd) else (fd, self))"

section \<open>Transfers of a session\<close>

abbreviation session_yielder :: "'a HevSocks5_scheme \<Rightarrow> yielder" where
  "session_yielder self \<equiv> hev_socks5_task_io_yielder (s_timeout self)"

definition sock_recv :: "'a HevSocks5_scheme \<Rightarrow> nat \<Rightarrow> int \<times> byte list \<times> 'a HevSocks5_scheme" where
  "sock_recv self len =
     (case hev_task_io_socket_recv (session_yielder self) True False len [] (rx (s_sock self)) of
        (res, buf, evs) \<Rightarrow> (res, buf, self\<lparr>s_sock := (s_sock self)\<lparr>rx := evs\<rparr>\<rparr>))"

definition sock_send :: "'a HevSocks5_scheme \<Rightarrow> byte list \<Rightarrow> int \<times> 'a HevSocks5_scheme" where
  "sock_send self buf =
     (case hev_task_io_socket_send (session_yielder self) True False buf 0 (tx (s_sock self)) (txs (s_sock self)) of
        (res, out, evs) \<Rightarrow> (res, self\<lparr>s_sock := (s_sock self)\<lparr>tx := out, txs := evs\<rparr>\<rparr>))"

definition sock_sendmsg :: "'a HevSocks5_scheme \<Rightarrow> byte list list \<Rightarrow> int \<times> 'a HevSocks5_scheme" where
  "sock_sendmsg self iov =
     (case hev_task_io_socket_sendmsg (session_yielder self) True False iov (tx (s_sock self)) (txs (s_sock self)) of
        (res, out, evs) \<Rightarrow> (res, self\<lparr>s_sock := (s_sock self)\<lparr>tx := out, txs := evs\<rparr>\<rparr>))"

lemma sock_sendmsg_send: "sock_sendmsg self iov = sock_send self (concat iov)"
  by (simp add: sock_sendmsg_def sock_send_def sendmsg_is_send)

text \<open>The state of a connection as its session sees it: the bytes it will receive, the bytes it
  has sent, and how many more it can send.\<close>

definition inp :: "'a HevSocks5_scheme \<Rightarrow> byte list" where
  "inp self = stream (session_yielder self) (rx (s_sock self))"

definition tx_room :: "'a HevSocks5_scheme \<Rightarrow> nat" where
  "tx_room self = capacity (session_yielder self) (txs (s_sock self))"

abbreviation sent :: "'a HevSocks5_scheme \<Rightarrow> byte list" where
  "sent self \<equiv> tx (s_sock self)"

lemma recv_ok:
  assumes "0 < n" "n \<le> length (inp self)"
  shows "\<exists>sk. sock_recv self n = (int n, take n (inp self), self\<lparr>s_sock := sk\<rparr>) \<and>
    inp (self\<lparr>s_sock := sk\<rparr>) = drop n (inp self) \<and> tx sk = sent self \<and> txs sk = txs (s_sock self)"
proof -
  obtain res buf evs where r: "hev_task_io_socket_recv (session_yielder self) True False n [] (rx (s_sock self)) = (res, buf, evs)"
    by (metis prod_cases3)
  then show ?thesis using recv_waitall [of "[]" n "session_yielder self" "rx (s_sock self)"] assms
    by (intro exI [of _ "(s_sock self)\<lparr>rx := evs\<rparr>"]) (simp add: sock_recv_def inp_def)
qed

lemma recv_short:
  assumes "0 < n" "length (inp self) < n"
  shows "\<exists>res buf sk. sock_recv self n = (res, buf, self\<lparr>s_sock := sk\<rparr>) \<and> res \<noteq> int n \<and>
    tx sk = sent self \<and> txs sk = txs (s_sock self)"
proof -
  obtain res buf evs where r: "hev_task_io_socket_recv (session_yielder self) True False n [] (rx (s_sock self)) = (res, buf, evs)"
    by (metis prod_cases3)
  then show ?thesis using recv_waitall [of "[]" n "session_yielder self" "rx (s_sock self)"] assms
    by (intro exI [of _ res] exI [of _ buf] exI [of _ "(s_sock self)\<lparr>rx := evs\<rparr>"]) (simp add: sock_recv_def inp_def)
qed

lemma recv_sock:
  "\<exists>res buf sk. sock_recv self n = (res, buf, self\<lparr>s_sock := sk\<rparr>) \<and> tx sk = sent self \<and> txs sk = txs (s_sock self)"
  by (auto simp: sock_recv_def split: prod.splits intro!: exI)

lemma send_ok:
  assumes "buf \<noteq> []" "length buf \<le> tx_room self"
  shows "\<exists>sk. sock_send self buf = (int (length buf), self\<lparr>s_sock := sk\<rparr>) \<and> tx sk = sent self @ buf \<and>
    rx sk = rx (s_sock self) \<and> tx_room (self\<lparr>s_sock := sk\<rparr>) = tx_room self - length buf"
proof -
  obtain evs where "hev_task_io_socket_send (session_yielder self) True False buf 0 (sent self) (txs (s_sock self)) =
      (int (length buf), sent self @ buf, evs)"
      "capacity (session_yielder self) evs = capacity (session_yielder self) (txs (s_sock self)) - length buf"
    using send_all [of 0 buf "session_yielder self" "txs (s_sock self)" "sent self"] assms by (auto simp: tx_room_def)
  then show ?thesis
    by (intro exI [of _ "(s_sock self)\<lparr>tx := sent self @ buf, txs := evs\<rparr>"]) (simp add: sock_send_def tx_room_def)
qed

lemma send_sock:
  "\<exists>res n sk. sock_send self buf = (res, self\<lparr>s_sock := sk\<rparr>) \<and> tx sk = sent self @ take n buf \<and>
    rx sk = rx (s_sock self)"
proof -
  obtain res out evs where r: "hev_task_io_socket_send (session_yielder self) True False buf 0 (sent self) (txs (s_sock self)) =
      (res, out, evs)" by (metis prod_cases3)
  then obtain n where "out = sent self @ take n buf"
    using send_prefix [of 0 buf "sent self" "session_yielder self" "txs (s_sock self)"] by auto
  then show ?thesis using r
    by (intro exI [of _ res] exI [of _ n] exI [of _ "(s_sock self)\<lparr>tx := out, txs := evs\<rparr>"]) (simp add: sock_send_def)
qed

lemma recv_cases:
  assumes "0 < n"
  shows "\<exists>res buf sk. sock_recv self n = (res, buf, self\<lparr>s_sock := sk\<rparr>) \<and> tx sk = sent self \<and>
    txs sk = txs (s_sock self) \<and> (res = int n \<longleftrightarrow> n \<le> length (inp self)) \<and>
    (res = int n \<longrightarrow> inp self = buf @ inp (self\<lparr>s_sock := sk\<rparr>) \<and> length buf = n)"
proof (cases "n \<le> length (inp self)")
  case True
  obtain sk where "sock_recv self n = (int n, take n (inp self), self\<lparr>s_sock := sk\<rparr>)"
      "inp (self\<lparr>s_sock := sk\<rparr>) = drop n (inp self)" "tx sk = sent self" "txs sk = txs (s_sock self)"
    using recv_ok [OF assms True] by blast
  then show ?thesis using True
    by (intro exI [of _ "int n"] exI [of _ "take n (inp self)"] exI [of _ sk]) simp
next
  case False
  then show ?thesis using recv_short [OF assms, of self] by (metis linorder_not_le)
qed

text \<open>Two bytes, as most messages have.\<close>

lemma recv2:
  "\<exists>res buf sk. sock_recv self 2 = (res, buf, self\<lparr>s_sock := sk\<rparr>) \<and> tx sk = sent self \<and>
    txs sk = txs (s_sock self) \<and>
    (case inp self of a # b # ys \<Rightarrow> res = 2 \<and> buf = [a, b] \<and> inp (self\<lparr>s_sock := sk\<rparr>) = ys | _ \<Rightarrow> res \<noteq> 2)"
proof -
  obtain res buf sk where r: "sock_recv self 2 = (res, buf, self\<lparr>s_sock := sk\<rparr>)" "tx sk = sent self"
      "txs sk = txs (s_sock self)" "res = 2 \<longleftrightarrow> 2 \<le> length (inp self)"
      "res = 2 \<longrightarrow> inp self = buf @ inp (self\<lparr>s_sock := sk\<rparr>) \<and> length buf = 2"
    using recv_cases [of 2 self] by auto
  then have "case inp self of a # b # ys \<Rightarrow> res = 2 \<and> buf = [a, b] \<and> inp (self\<lparr>s_sock := sk\<rparr>) = ys | _ \<Rightarrow> res \<noteq> 2"
    by (auto simp: length_Suc_conv numeral_2_eq_2 split: list.splits)
  then show ?thesis using r(1,2,3) by blast
qed

lemma recv_append:
  assumes "inp self = xs @ ys" "xs \<noteq> []" "n = length xs"
  shows "\<exists>sk. sock_recv self n = (int n, xs, self\<lparr>s_sock := sk\<rparr>) \<and> inp (self\<lparr>s_sock := sk\<rparr>) = ys \<and>
    tx sk = sent self \<and> txs sk = txs (s_sock self)"
  using recv_ok [of n self] assms by auto

lemma inp_sock_cong: "rx sk = rx (s_sock self) \<Longrightarrow> inp (self\<lparr>s_sock := sk\<rparr>) = inp self"
  by (simp add: inp_def)

lemma tx_room_sock_cong: "txs sk = txs (s_sock self) \<Longrightarrow> tx_room (self\<lparr>s_sock := sk\<rparr>) = tx_room self"
  by (simp add: tx_room_def)

lemma send_inp: "inp (snd (sock_send self buf)) = inp self"
  using send_sock [of self buf] by (auto simp: inp_def)

end
