(* ===== verification/Socks5Server.thy ===== *)
theory Socks5Server
  imports Socks5 Authenticator
begin

text \<open>
  The SOCKS5 server session: \<open>core/src/hev-socks5-server.c\<close>. The session holds the
  authenticator until a user has logged in and the user afterwards, in one union
  (\<open>v_obj\<close>); the memory of the authenticator and of the users, and the reference count of the
  authenticator, are part of the state. The sockets, the resolver and the two relays
  (\<open>hev_socks5_tcp_splice\<close>, \<open>hev_socks5_udp_splice\<close>) are parameters.
\<close>

section \<open>Sessions\<close>

datatype server_obj = NoObj | AuthObj | UserObj ptr

record HevSocks5Server = HevSocks5 +
  v_fd0 :: int
  v_fd1 :: int
  v_obj :: server_obj
  v_auth :: HevSocks5Authenticator
  v_auth_ref :: u32

text \<open>References to the authenticator; a count of 0 means that it has been freed.\<close>

definition auth_ref :: "HevSocks5Server \<Rightarrow> HevSocks5Server option" where
  "auth_ref self = (if v_auth_ref self = 0 then None else Some (self\<lparr>v_auth_ref := v_auth_ref self + 1\<rparr>))"

definition auth_unref :: "HevSocks5Server \<Rightarrow> HevSocks5Server option" where
  "auth_unref self =
     (if v_auth_ref self = 0 then None
      else if v_auth_ref self > 1 then Some (self\<lparr>v_auth_ref := v_auth_ref self - 1\<rparr>)
      else do {
        a \<leftarrow> hev_socks5_authenticator_destruct (v_auth self);
        Some (self\<lparr>v_auth := a, v_auth_ref := 0\<rparr>) })"

definition hev_socks5_server_set_auth :: "HevSocks5Server \<Rightarrow> HevSocks5Server option" where
  "hev_socks5_server_set_auth self = do {
     self \<leftarrow> (case v_obj self of
         NoObj \<Rightarrow> Some self
       | AuthObj \<Rightarrow> auth_unref self
       | UserObj u \<Rightarrow> do { a \<leftarrow> hev_object_unref (v_auth self) u; Some (self\<lparr>v_auth := a\<rparr>) });
     self \<leftarrow> auth_ref self;
     Some (self\<lparr>v_obj := AuthObj\<rparr>) }"

definition hev_socks5_server_construct :: "HevSocks5Server \<Rightarrow> int \<Rightarrow> HevSocks5Server" where
  "hev_socks5_server_construct self fd =
     (hev_socks5_construct self TYPE_NONE)\<lparr>s_fd := fd, v_fd0 := - 1, v_fd1 := - 1\<rparr>"

text \<open>A new session in zeroed memory, for an accepted connection with the descriptor \<open>fd\<close>.\<close>

definition hev_socks5_server_new ::
  "bool \<Rightarrow> sock \<Rightarrow> HevSocks5Authenticator \<Rightarrow> u32 \<Rightarrow> int \<Rightarrow> HevSocks5Server option" where
  "hev_socks5_server_new mem conn auth refs fd =
     (if \<not> mem then None
      else Some (hev_socks5_server_construct
        \<lparr>s_fd = 0, s_timeout = 0, s_type = TYPE_NONE, s_udp_associated = False, s_family = FAMILY_UNSPEC,
         s_sock = conn, s_open = [fd], v_fd0 = 0, v_fd1 = 0, v_obj = NoObj, v_auth = auth, v_auth_ref = refs\<rparr> fd))"

definition hev_socks5_server_get_fd :: "HevSocks5Server \<Rightarrow> int" where
  "hev_socks5_server_get_fd self =
     (case s_type self of TYPE_UDP_IN_TCP \<Rightarrow> s_fd self | TYPE_UDP_IN_UDP \<Rightarrow> v_fd1 self | _ \<Rightarrow> - 1)"

definition hev_socks5_server_destruct :: "HevSocks5Server \<Rightarrow> HevSocks5Server option" where
  "hev_socks5_server_destruct self = do {
     let self = (if 0 \<le> v_fd0 self then close_fd self (v_fd0 self) else self);
     let self = (if 0 \<le> v_fd1 self then close_fd self (v_fd1 self) else self);
     self \<leftarrow> (case v_obj self of
         NoObj \<Rightarrow> Some self
       | AuthObj \<Rightarrow> auth_unref self
       | UserObj u \<Rightarrow> do { a \<leftarrow> hev_object_unref (v_auth self) u; Some (self\<lparr>v_auth := a\<rparr>) });
     Some (hev_socks5_destruct self) }"

section \<open>Authentication\<close>

fun scan_methods :: "byte list \<Rightarrow> byte \<Rightarrow> int" where
  "scan_methods [] method = - 1"
| "scan_methods (b # bs) method = (if b = method then uint method else scan_methods bs method)"

definition hev_socks5_server_read_auth_method :: "HevSocks5Server \<Rightarrow> int \<times> HevSocks5Server" where
  "hev_socks5_server_read_auth_method self =
     (case sock_recv self 2 of (res, auth, self) \<Rightarrow>
        if res \<noteq> 2 then (- 1, self)
        else if auth ! 0 \<noteq> 5 then (- 1, self)
        else case sock_recv self (unat (auth ! 1)) of (res, methods, self) \<Rightarrow>
          if res \<noteq> int (unat (auth ! 1)) then (- 1, self)
          else (scan_methods methods (if v_obj self \<noteq> NoObj then 2 else 0), self))"

definition hev_socks5_server_write_auth_method :: "HevSocks5Server \<Rightarrow> int \<Rightarrow> int \<times> HevSocks5Server" where
  "hev_socks5_server_write_auth_method self auth_method =
     (case sock_send self [5, word_of_int auth_method] of (res, self) \<Rightarrow>
        if res \<le> 0 then (- 1, self) else (0, self))"

text \<open>The lookup and the check of received credentials.\<close>

definition check_login :: "HevSocks5Server \<Rightarrow> byte list \<Rightarrow> nat \<Rightarrow> byte list \<Rightarrow> nat \<Rightarrow> (int \<times> HevSocks5Server) option" where
  "check_login self name nlen pass plen =
     (if v_obj self \<noteq> AuthObj \<or> v_auth_ref self = 0 then None
      else do {
        user \<leftarrow> hev_socks5_authenticator_get (v_auth self) name (of_nat nlen);
        if user = NULL then Some (- 1, self)
        else do {
          res \<leftarrow> hev_socks5_user_check (v_auth self) user pass (of_nat plen);
          if res < 0 then Some (- 1, self)
          else do {
            a \<leftarrow> hev_object_atomic_ref (v_auth self) user True;
            self \<leftarrow> auth_unref (self\<lparr>v_auth := a\<rparr>);
            Some (0, self\<lparr>v_obj := UserObj user\<rparr>) } } })"

text \<open>The name is received together with the length of the password, which follows it.\<close>

definition hev_socks5_server_read_auth_user :: "HevSocks5Server \<Rightarrow> (int \<times> HevSocks5Server) option" where
  "hev_socks5_server_read_auth_user self =
     (case sock_recv self 2 of (res, head, self) \<Rightarrow>
        if res \<noteq> 2 then Some (- 1, self)
        else if head ! 0 \<noteq> 1 then Some (- 1, self)
        else let nlen = unat (head ! 1) in
          if nlen = 0 then Some (- 1, self)
          else case sock_recv self (nlen + 1) of (res, name, self) \<Rightarrow>
            if res \<noteq> int (nlen + 1) then Some (- 1, self)
            else let plen = unat (name ! nlen) in
              if plen = 0 then Some (- 1, self)
              else case sock_recv self plen of (res, pass, self) \<Rightarrow>
                if res \<noteq> int plen then Some (- 1, self)
                else check_login self name nlen pass plen)"

definition hev_socks5_server_write_auth_user :: "HevSocks5Server \<Rightarrow> int \<Rightarrow> int \<times> HevSocks5Server" where
  "hev_socks5_server_write_auth_user self auth_res =
     (case sock_send self [1, word_of_int auth_res] of (res, self) \<Rightarrow>
        if res \<le> 0 then (- 1, self) else (0, self))"

text \<open>The two results are combined by a bitwise or, which is negative if one of them is.\<close>

definition hev_socks5_server_auth :: "HevSocks5Server \<Rightarrow> (int \<times> HevSocks5Server) option" where
  "hev_socks5_server_auth self =
     (case hev_socks5_server_read_auth_method self of (method, self) \<Rightarrow>
      case hev_socks5_server_write_auth_method self method of (res, self) \<Rightarrow>
        if res < 0 then Some (- 1, self)
        else if method = 0 then Some (0, self)
        else if method = 2 then do {
          (res, self) \<leftarrow> hev_socks5_server_read_auth_user self;
          case hev_socks5_server_write_auth_user self res of (res2, self) \<Rightarrow>
            if res < 0 \<or> res2 < 0 then Some (- 1, self) else Some (0, self) }
        else Some (- 1, self))"

section \<open>Requests\<close>

definition request_rest :: "byte \<Rightarrow> byte \<Rightarrow> nat option" where
  "request_rest atype b =
     (if atype = HEV_SOCKS5_ADDR_TYPE_IPV4 then Some 5
      else if atype = HEV_SOCKS5_ADDR_TYPE_IPV6 then Some 17
      else if atype = HEV_SOCKS5_ADDR_TYPE_NAME then Some (2 + unat b)
      else None)"

text \<open>The results are the return value, the command (which is not set on an early return), the
  reply code and the address.\<close>

definition hev_socks5_server_read_request ::
  "resolver \<Rightarrow> HevSocks5Server \<Rightarrow> sockaddr_in6 \<Rightarrow>
   (int \<times> byte option \<times> int \<times> sockaddr_in6 \<times> HevSocks5Server) option" where
  "hev_socks5_server_read_request rs self addr =
     (case sock_recv self 5 of (res, req, self) \<Rightarrow>
        if res \<noteq> 5 then Some (- 1, None, 0, addr, self)
        else if req ! 0 \<noteq> 5 then Some (0, None, 1, addr, self)
        else (case request_rest (req ! 3) (req ! 4) of
          None \<Rightarrow> Some (0, None, 8, addr, self)
        | Some addrlen \<Rightarrow>
          (case sock_recv self addrlen of (res, tl5, self) \<Rightarrow>
            if res \<noteq> int addrlen then Some (0, None, 8, addr, self)
            else do {
              (addr, family, res) \<leftarrow> hev_socks5_addr_into_sockaddr6 rs (drop 3 req @ tl5) addr (s_family self);
              if res < 0 then Some (0, None, 8, addr, self)
              else Some (0, Some (req ! 1), 0, addr, hev_socks5_set_addr_family self family) })))"

text \<open>The response is built in a local variable of the size of the struct.\<close>

definition hev_socks5_server_write_response ::
  "HevSocks5Server \<Rightarrow> int \<Rightarrow> sockaddr_in6 \<Rightarrow> (int \<times> HevSocks5Server) option" where
  "hev_socks5_server_write_response self rep addr = do {
     (a, n) \<leftarrow> hev_socks5_addr_from_sockaddr6 (replicate 260 0) addr;
     case sock_send self (take (nat (3 + n)) ([5, word_of_int rep, 0] @ a)) of (ret, self) \<Rightarrow>
       if ret \<le> 0 then Some (- 1, self) else Some (0, self) }"

definition hev_socks5_server_connect ::
  "socks5_misc \<Rightarrow> net \<Rightarrow> HevSocks5Server \<Rightarrow> int \<times> HevSocks5Server" where
  "hev_socks5_server_connect m net self =
     (case hev_socks5_socket net self of (fd, self) \<Rightarrow>
        if fd < 0 then (- 1, self)
        else if n_binder net < 0 then (- 1, close_fd self fd)
        else let self = hev_socks5_set_timeout self (connect_timeout m) in
          if hev_task_io_socket_connect (session_yielder self) (n_connect net) < 0 then (- 1, close_fd self fd)
          else (0, (hev_socks5_set_timeout self (tcp_timeout m))\<lparr>v_fd0 := fd\<rparr>))"

text \<open>What \<open>getsockname\<close> and \<open>bind\<close> answer when the datagram socket is bound.\<close>

record bind_net =
  b_tcpname :: "sockaddr_in6 option"
  b_bind :: int
  b_udpname :: "sockaddr_in6 option"

definition hev_socks5_server_udp_bind :: "bind_net \<Rightarrow> sockaddr_in6 \<Rightarrow> int \<times> sockaddr_in6" where
  "hev_socks5_server_udp_bind b src =
     (case b_tcpname b of
        None \<Rightarrow> (- 1, src)
      | Some name \<Rightarrow>
          (let src = name\<lparr>sin6_port := 0\<rparr> in
           if b_bind b < 0 then (- 1, src)
           else case b_udpname b of None \<Rightarrow> (- 1, src) | Some name \<Rightarrow> (0, name)))"

text \<open>The address is absent when the datagrams go through the connection.\<close>

definition hev_socks5_server_bind ::
  "net \<Rightarrow> net \<Rightarrow> bind_net \<Rightarrow> HevSocks5Server \<Rightarrow> sockaddr_in6 option \<Rightarrow>
   int \<times> sockaddr_in6 option \<times> HevSocks5Server" where
  "hev_socks5_server_bind net net2 b self addr =
     (case hev_socks5_socket net self of (fd, self) \<Rightarrow>
        if fd < 0 then (- 1, addr, self)
        else let self = self\<lparr>v_fd0 := fd\<rparr> in
          (case addr of
            None \<Rightarrow> (0, addr, self)
          | Some src \<Rightarrow>
             (case hev_socks5_socket net2 self of (fd, self) \<Rightarrow>
                if fd < 0 then (- 1, addr, self)
                else if n_reuse net2 < 0 then (- 1, addr, close_fd self fd)
                else case hev_socks5_server_udp_bind b src of (res, src) \<Rightarrow>
                  if res < 0 then (- 1, Some src, close_fd self fd)
                  else (0, Some src, self\<lparr>v_fd1 := fd\<rparr>))))"

section \<open>The session\<close>

definition server_command ::
  "socks5_misc \<Rightarrow> net \<Rightarrow> net \<Rightarrow> bind_net \<Rightarrow> HevSocks5Server \<Rightarrow> byte \<Rightarrow> sockaddr_in6 \<Rightarrow>
   int \<times> sockaddr_in6 \<times> HevSocks5Server" where
  "server_command m net net2 b self cmd addr =
     (if cmd = 1 then
        (case hev_socks5_server_connect m net self of (res, self) \<Rightarrow>
           (if res < 0 then 4 else 0, addr, self\<lparr>s_type := TYPE_TCP\<rparr>))
      else if cmd = 3 then
        (case hev_socks5_server_bind net net2 b self (Some addr) of (res, addr', self) \<Rightarrow>
           (if res < 0 then 1 else 0, the addr', self\<lparr>s_type := TYPE_UDP_IN_UDP\<rparr>))
      else if cmd = 5 then
        (case hev_socks5_server_bind net net2 b self None of (res, addr', self) \<Rightarrow>
           (if res < 0 then 1 else 0, addr, self\<lparr>s_type := TYPE_UDP_IN_TCP\<rparr>))
      else (7, addr, self))"

definition hev_socks5_server_handshake ::
  "socks5_misc \<Rightarrow> resolver \<Rightarrow> net \<Rightarrow> net \<Rightarrow> bind_net \<Rightarrow> HevSocks5Server \<Rightarrow> (int \<times> HevSocks5Server) option" where
  "hev_socks5_server_handshake m rs net net2 b self = do {
     let self = hev_socks5_set_timeout self (tcp_timeout m);
     (res, self) \<leftarrow> hev_socks5_server_auth self;
     if res < 0 then Some (- 1, self)
     else do {
       (res, cmd, rep, addr, self) \<leftarrow> hev_socks5_server_read_request rs self \<lparr>sin6_port = 0, sin6_addr = replicate 16 0\<rparr>;
       if res < 0 then Some (- 1, self)
       else do {
         let (rep, addr, self) = (if rep = 0 then server_command m net net2 b self (the cmd) addr else (rep, addr, self));
         (res, self) \<leftarrow> hev_socks5_server_write_response self rep addr;
         if res < 0 \<or> rep \<noteq> 0 then Some (- 1, self) else Some (0, self) } } }"

definition hev_socks5_server_service ::
  "socks5_misc \<Rightarrow> (HevSocks5Server \<Rightarrow> int \<Rightarrow> HevSocks5Server) \<Rightarrow> (HevSocks5Server \<Rightarrow> int \<Rightarrow> HevSocks5Server) \<Rightarrow>
   HevSocks5Server \<Rightarrow> int \<times> HevSocks5Server" where
  "hev_socks5_server_service m tcp_splice udp_splice self =
     (case s_type self of
        TYPE_TCP \<Rightarrow> (0, tcp_splice self (v_fd0 self))
      | TYPE_NONE \<Rightarrow> (- 1, self)
      | _ \<Rightarrow> (0, udp_splice (hev_socks5_set_timeout self (udp_timeout m)) (v_fd0 self)))"

definition hev_socks5_server_run ::
  "socks5_misc \<Rightarrow> resolver \<Rightarrow> net \<Rightarrow> net \<Rightarrow> bind_net \<Rightarrow> (HevSocks5Server \<Rightarrow> int \<Rightarrow> HevSocks5Server) \<Rightarrow>
   (HevSocks5Server \<Rightarrow> int \<Rightarrow> HevSocks5Server) \<Rightarrow> HevSocks5Server \<Rightarrow> (int \<times> HevSocks5Server) option" where
  "hev_socks5_server_run m rs net net2 b tcp_splice udp_splice self = do {
     (res, self) \<leftarrow> hev_socks5_server_handshake m rs net net2 b self;
     if res < 0 then Some (- 1, self)
     else (case hev_socks5_server_service m tcp_splice udp_splice self of (res, self) \<Rightarrow>
       if res < 0 then Some (- 1, self) else Some (0, self)) }"

section \<open>The login\<close>

text \<open>The bytes of a name and a password, and the user they log in as.\<close>

definition login_bytes :: "byte list \<Rightarrow> byte list \<Rightarrow> byte list" where
  "login_bytes name pass = [1, of_nat (length name)] @ name @ [of_nat (length pass)] @ pass"

definition login :: "HevSocks5Authenticator \<Rightarrow> rbt \<Rightarrow> byte list \<Rightarrow> byte list \<Rightarrow> ptr \<Rightarrow> bool" where
  "login st t name pass p \<longleftrightarrow> registered st t name = Some p \<and> user_pass (the (a_users st p)) = pass"

text \<open>The authenticator is alive and no reference count is at its limit.\<close>

definition srv_inv :: "HevSocks5Server \<Rightarrow> rbt \<Rightarrow> bool" where
  "srv_inv self t \<longleftrightarrow> auth_inv (v_auth self) t \<and> v_auth_ref self \<noteq> 0 \<and>
     (\<forall>p u. a_users (v_auth self) p = Some u \<longrightarrow> u_ref u + 1 \<noteq> 0)"

lemma scan_methods_eq: "scan_methods bs m = (if m \<in> set bs then uint m else - 1)"
  by (induction bs) auto

lemma atomic_ref_user:
  assumes "auth_inv st t" "a_users st p = Some u" "u_ref u + 1 \<noteq> 0"
  shows "\<exists>st'. hev_object_atomic_ref st p True = Some st' \<and> auth_inv st' t \<and>
    a_users st' = (a_users st)(p \<mapsto> u\<lparr>u_ref := u_ref u + 1\<rparr>)"
proof -
  let ?u = "u\<lparr>u_ref := u_ref u + 1\<rparr>"
  let ?st = "st\<lparr>a_users := (a_users st)(p \<mapsto> ?u)\<rparr>"
  have p: "p \<noteq> NULL" "user_wf u" using auth_inv_user [OF assms(1,2)] by auto
  have run: "hev_object_atomic_ref st p True = Some ?st"
    using p assms(2) by (simp add: hev_object_atomic_ref_def wr_def rd_def)
  have un: "uname ?st q = uname st q" for q using assms(2) by (simp add: uname_def user_name_def)
  have "user_wf ?u" using p(2) assms(3) by (auto simp: user_wf_def word_gt_0)
  then have "auth_inv ?st t" using assms(1,2) unfolding auth_inv_def un by (auto simp: dom_def)
  then show ?thesis using run by (intro exI [of _ ?st]) simp
qed

text \<open>Giving up the authenticator keeps a user that has another reference.\<close>

lemma auth_unref_user:
  assumes "auth_inv (v_auth self) t" "v_auth_ref self \<noteq> 0"
  shows "\<exists>a refs. auth_unref self = Some (self\<lparr>v_auth := a, v_auth_ref := refs\<rparr>) \<and>
    (\<forall>p u. a_users (v_auth self) p = Some u \<longrightarrow> u_ref u > 1 \<longrightarrow>
       (\<exists>v. a_users a p = Some v \<and> user_name v = user_name u \<and> user_pass v = user_pass u))"
proof (cases "v_auth_ref self > 1")
  case True
  then show ?thesis using assms(2)
    by (intro exI [of _ "v_auth self"] exI [of _ "v_auth_ref self - 1"]) (simp add: auth_unref_def)
next
  case False
  obtain a where a: "hev_socks5_authenticator_clear (v_auth self) = Some a"
      "a_users a = (\<lambda>p. if p \<in> set (io t) then release (a_users (v_auth self)) p else a_users (v_auth self) p)"
    using auth_clear [OF assms(1)] by blast
  have "auth_unref self = Some (self\<lparr>v_auth := a, v_auth_ref := 0\<rparr>)"
    using False assms(2) a(1) by (simp add: auth_unref_def hev_socks5_authenticator_destruct_def)
  moreover have "\<exists>v. a_users a p = Some v \<and> user_name v = user_name u \<and> user_pass v = user_pass u"
    if "a_users (v_auth self) p = Some u" "u_ref u > 1" for p u
    using that by (auto simp: a(2) release_def user_name_def user_pass_def)
  ultimately show ?thesis by blast
qed

lemma byte_len: "0 < length xs \<Longrightarrow> length xs < 256 \<Longrightarrow> unat (of_nat (length xs) :: byte) = length xs \<and> (of_nat (length xs) :: byte) \<noteq> 0"
  using unat_of_nat_byte [of "length xs"] by auto

lemma unat_byte: "unat (b :: byte) < 256"
  using unsigned_less [of b, where 'a = nat] by simp

lemma unat_u32: "n \<le> 256 \<Longrightarrow> unat (of_nat n :: u32) = n"
  using unat_of_nat_lt [of n, where 'a = 32] by simp

lemma check_login:
  assumes inv: "srv_inv self t" and obj: "v_obj self = AuthObj"
    and len: "length name = nlen + 1" "nlen < 256" "length pass = plen" "plen < 256"
  shows "(\<exists>p a refs v. login (v_auth self) t (take nlen name) pass p \<and>
      check_login self name nlen pass plen = Some (0, self\<lparr>v_auth := a, v_auth_ref := refs, v_obj := UserObj p\<rparr>) \<and>
      a_users a p = Some v \<and> user_name v = take nlen name) \<or>
    (\<nexists>p. login (v_auth self) t (take nlen name) pass p) \<and> check_login self name nlen pass plen = Some (- 1, self)"
proof -
  let ?st = "v_auth self"
  have A: "auth_inv ?st t" "v_auth_ref self \<noteq> 0" using inv by (auto simp: srv_inv_def)
  have g: "hev_socks5_authenticator_get ?st name (of_nat nlen) =
      Some (case registered ?st t (take nlen name) of None \<Rightarrow> NULL | Some p \<Rightarrow> p)"
    using auth_get [OF A(1), of "of_nat nlen" name] len(1,2) unat_u32 [of nlen] by simp
  show ?thesis
  proof (cases "registered ?st t (take nlen name)")
    case None
    then show ?thesis using g obj A(2) by (simp add: check_login_def login_def)
  next
    case (Some p)
    then have p: "p \<in> set (io t)" "uname ?st p = take nlen name"
      using registered_iff [OF A(1), of "take nlen name" p] by auto
    obtain u where u: "a_users ?st p = Some u" "p \<noteq> NULL" "user_wf u" using auth_inv_mem [OF A(1) p(1)] by blast
    have c: "hev_socks5_user_check ?st p pass (of_nat plen) = Some (if user_pass u = pass then 0 else - 1)"
      using user_checker [OF u(3), of "of_nat plen" pass] u(1,2) len(3,4) unat_u32 [of plen]
      by (simp add: hev_socks5_user_check_def rd_def)
    show ?thesis
    proof (cases "user_pass u = pass")
      case False
      then show ?thesis using g c obj A(2) Some u by (simp add: check_login_def login_def)
    next
      case True
      have ne: "u_ref u + 1 \<noteq> 0" using inv u(1) by (simp add: srv_inv_def)
      obtain st' where st': "hev_object_atomic_ref ?st p True = Some st'" "auth_inv st' t"
          "a_users st' = (a_users ?st)(p \<mapsto> u\<lparr>u_ref := u_ref u + 1\<rparr>)"
        using atomic_ref_user [OF A(1) u(1) ne] by blast
      have "u_ref u > 0" using u(3) by (simp add: user_wf_def)
      moreover have "unat (u_ref u + 1) = Suc (unat (u_ref u))" using unatSuc [of "u_ref u"] ne by (simp add: add.commute)
      ultimately have r1: "u_ref u + 1 > 1" by (simp add: word_less_nat_alt)
      obtain a refs where a: "auth_unref (self\<lparr>v_auth := st'\<rparr>) = Some (self\<lparr>v_auth := st'\<rparr>\<lparr>v_auth := a, v_auth_ref := refs\<rparr>)"
          and keep: "\<forall>p u. a_users st' p = Some u \<longrightarrow> u_ref u > 1 \<longrightarrow>
            (\<exists>v. a_users a p = Some v \<and> user_name v = user_name u \<and> user_pass v = user_pass u)"
        using auth_unref_user [of "self\<lparr>v_auth := st'\<rparr>" t] st'(2) A(2) by auto
      have "\<exists>v. a_users a p = Some v \<and> user_name v = user_name (u\<lparr>u_ref := u_ref u + 1\<rparr>)"
        using keep [rule_format, of p "u\<lparr>u_ref := u_ref u + 1\<rparr>"] st'(3) r1 by auto
      note a = a this
      have "login ?st t (take nlen name) pass p" using Some True u(1) by (simp add: login_def)
      moreover have "check_login self name nlen pass plen = Some (0, self\<lparr>v_auth := a, v_auth_ref := refs, v_obj := UserObj p\<rparr>)"
        using g c obj A(2) Some u(2) True st'(1) a(1) by (simp add: check_login_def)
      moreover have "\<exists>v. a_users a p = Some v \<and> user_name v = take nlen name"
        using a(2) p(2) u(1) by (simp add: uname_def user_name_def)
      ultimately show ?thesis by blast
    qed
  qed
qed

lemma read_auth_user_ok:
  assumes "srv_inv self t" "v_obj self = AuthObj" "login (v_auth self) t name pass p"
    "0 < length name" "length name < 256" "0 < length pass" "length pass < 256" "inp self = login_bytes name pass @ ys"
  shows "\<exists>sk a refs. hev_socks5_server_read_auth_user self =
      Some (0, self\<lparr>s_sock := sk, v_auth := a, v_auth_ref := refs, v_obj := UserObj p\<rparr>) \<and>
    inp (self\<lparr>s_sock := sk\<rparr>) = ys \<and> tx sk = sent self \<and> txs sk = txs (s_sock self)"
proof -
  note N = byte_len [OF assms(4,5)] and P = byte_len [OF assms(6,7)]
  let ?n = "of_nat (length name) :: byte" and ?p = "of_nat (length pass) :: byte"
  obtain sk1 where 1: "sock_recv self 2 = (2, [1, ?n], self\<lparr>s_sock := sk1\<rparr>)"
      "inp (self\<lparr>s_sock := sk1\<rparr>) = (name @ [?p]) @ pass @ ys" "tx sk1 = sent self" "txs sk1 = txs (s_sock self)"
    using recv_append [of self "[1, ?n]" "name @ [?p] @ pass @ ys" 2] assms(8) by (auto simp: login_bytes_def)
  obtain sk2 where 2: "sock_recv (self\<lparr>s_sock := sk1\<rparr>) (length name + 1) = (int (length name + 1), name @ [?p], self\<lparr>s_sock := sk2\<rparr>)"
      "inp (self\<lparr>s_sock := sk2\<rparr>) = pass @ ys" "tx sk2 = tx sk1" "txs sk2 = txs sk1"
    using recv_append [OF 1(2), of "length name + 1"] by auto
  obtain sk3 where 3: "sock_recv (self\<lparr>s_sock := sk2\<rparr>) (length pass) = (int (length pass), pass, self\<lparr>s_sock := sk3\<rparr>)"
      "inp (self\<lparr>s_sock := sk3\<rparr>) = ys" "tx sk3 = tx sk2" "txs sk3 = txs sk2"
    using recv_append [OF 2(2), of "length pass"] assms(6) by auto
  have inv3: "srv_inv (self\<lparr>s_sock := sk3\<rparr>) t" using assms(1) by (simp add: srv_inv_def)
  obtain a refs where "check_login (self\<lparr>s_sock := sk3\<rparr>) (name @ [?p]) (length name) pass (length pass) =
      Some (0, self\<lparr>s_sock := sk3, v_auth := a, v_auth_ref := refs, v_obj := UserObj p\<rparr>)"
    using check_login [OF inv3, of "name @ [?p]" "length name" pass "length pass"] assms(2,3,5,7)
    by (auto simp: login_def)
  then have "hev_socks5_server_read_auth_user self = Some (0, self\<lparr>s_sock := sk3, v_auth := a, v_auth_ref := refs, v_obj := UserObj p\<rparr>)"
    using 1(1) 2(1) 3(1) N P assms(4,6) by (simp add: hev_socks5_server_read_auth_user_def Let_def)
  then show ?thesis using 1(3,4) 2(3,4) 3(2,3,4) by auto
qed

text \<open>Nobody gets in otherwise, and no input makes the code misbehave. The outcome of a login is that it is
  refused, with nothing changed but the socket, or that the client sent the name and the password of
  a user, whom the session keeps.\<close>

definition login_outcome :: "HevSocks5Server \<Rightarrow> rbt \<Rightarrow> int \<Rightarrow> HevSocks5Server \<Rightarrow> bool" where
  "login_outcome self t r self' \<longleftrightarrow>
    r = - 1 \<and> (\<exists>sk. self' = self\<lparr>s_sock := sk\<rparr> \<and> tx sk = sent self) \<or>
    r = 0 \<and> (\<exists>name pass p sk a refs v. inp self = login_bytes name pass @ inp self' \<and>
      login (v_auth self) t name pass p \<and> 0 < length name \<and> length name < 256 \<and> 0 < length pass \<and> length pass < 256 \<and>
      self' = self\<lparr>s_sock := sk, v_auth := a, v_auth_ref := refs, v_obj := UserObj p\<rparr> \<and>
      tx sk = sent self \<and> a_users a p = Some v \<and> user_name v = name)"

lemma login_refused: "tx sk = sent self \<Longrightarrow> login_outcome self t (- 1) (self\<lparr>s_sock := sk\<rparr>)"
  by (auto simp: login_outcome_def)

lemma login_granted:
  "inp self = login_bytes name pass @ inp (self\<lparr>s_sock := sk\<rparr>) \<Longrightarrow> login (v_auth self) t name pass p \<Longrightarrow>
   0 < length name \<Longrightarrow> length name < 256 \<Longrightarrow> 0 < length pass \<Longrightarrow> length pass < 256 \<Longrightarrow> tx sk = sent self \<Longrightarrow>
   a_users a p = Some v \<Longrightarrow> user_name v = name \<Longrightarrow>
   login_outcome self t 0 (self\<lparr>s_sock := sk, v_auth := a, v_auth_ref := refs, v_obj := UserObj p\<rparr>)"
  unfolding login_outcome_def
  by (intro disjI2 conjI exI [of _ name] exI [of _ pass] exI [of _ p] exI [of _ sk] exI [of _ a] exI [of _ refs] exI [of _ v])
    (simp_all add: inp_def)

text \<open>All fields of the message have been read: the name with the length of the password behind it,
  and the password.\<close>

lemma check_login_outcome:
  assumes inv: "srv_inv self t" "v_obj self = AuthObj" and tx: "tx sk = sent self"
    and nm: "length nm = unat n + 1" "n \<noteq> (0 :: byte)" and pw: "length pw = unat (nm ! unat n)" "nm ! unat n \<noteq> 0"
    and inp: "inp self = 1 # n # nm @ pw @ inp (self\<lparr>s_sock := sk\<rparr>)"
  shows "\<exists>r self'. check_login (self\<lparr>s_sock := sk\<rparr>) nm (unat n) pw (unat (nm ! unat n)) = Some (r, self') \<and>
    login_outcome self t r self'"
proof -
  let ?self = "self\<lparr>s_sock := sk\<rparr>" and ?nm = "take (unat n) nm"
  have s: "srv_inv ?self t" "v_obj ?self = AuthObj" using inv by (simp_all add: srv_inv_def)
  have L: "unat n < 256" "unat (nm ! unat n) < 256" by (rule unat_byte)+
  have len: "0 < length ?nm" "length ?nm < 256" "0 < length pw" "length pw < 256"
    using nm pw L by (simp_all add: unat_gt_0)
  have "nm = ?nm @ [nm ! unat n]" using nm(1) by (metis Suc_eq_plus1 lessI take_Suc_conv_app_nth take_all order_refl)
  then have bytes: "inp self = login_bytes ?nm pw @ inp ?self" using inp nm(1) pw(1) by (simp add: login_bytes_def)
  from check_login [OF s nm(1) L(1) pw(1) L(2)] show ?thesis
  proof (elim disjE exE conjE)
    fix p a refs v
    assume c: "login (v_auth ?self) t ?nm pw p" "a_users a p = Some v" "user_name v = ?nm"
      "check_login ?self nm (unat n) pw (unat (nm ! unat n)) = Some (0, ?self\<lparr>v_auth := a, v_auth_ref := refs, v_obj := UserObj p\<rparr>)"
    then show ?thesis using login_granted [OF bytes _ len tx c(2,3)] by simp
  qed (use login_refused [OF tx] in auto)
qed

lemma read_auth_user_only:
  assumes inv: "srv_inv self t" and obj: "v_obj self = AuthObj"
  shows "\<exists>r self'. hev_socks5_server_read_auth_user self = Some (r, self') \<and> login_outcome self t r self'"
proof -
  note run = hev_socks5_server_read_auth_user_def Let_def unat_eq_0
  obtain res buf sk1 where 1: "sock_recv self 2 = (res, buf, self\<lparr>s_sock := sk1\<rparr>)" "tx sk1 = sent self"
      "case inp self of a # b # ys \<Rightarrow> res = 2 \<and> buf = [a, b] \<and> inp (self\<lparr>s_sock := sk1\<rparr>) = ys | _ \<Rightarrow> res \<noteq> 2"
    using recv2 [of self] by blast
  show ?thesis
  proof (cases "res = 2 \<and> buf ! 0 = 1 \<and> buf ! 1 \<noteq> 0")
    case False
    then show ?thesis using 1(1) login_refused [OF 1(2)] by (auto simp: run)
  next
    case True
    then obtain n where n: "buf = [1, n]" "n \<noteq> 0" "inp self = 1 # n # inp (self\<lparr>s_sock := sk1\<rparr>)"
      using 1(3) by (auto split: list.splits)
    obtain res2 nm sk2 where 2: "sock_recv (self\<lparr>s_sock := sk1\<rparr>) (unat n + 1) = (res2, nm, self\<lparr>s_sock := sk2\<rparr>)" "tx sk2 = sent self"
        "res2 = int (unat n + 1) \<longrightarrow> inp (self\<lparr>s_sock := sk1\<rparr>) = nm @ inp (self\<lparr>s_sock := sk2\<rparr>) \<and> length nm = unat n + 1"
      using recv_cases [of "unat n + 1" "self\<lparr>s_sock := sk1\<rparr>"] 1(2) by auto
    show ?thesis
    proof (cases "res2 = int (unat n + 1) \<and> nm ! unat n \<noteq> 0")
      case False
      then show ?thesis using 1(1) True 2(1) n login_refused [OF 2(2)] by (auto simp: run)
    next
      case nm: True
      let ?p = "nm ! unat n"
      have p0: "0 < unat ?p" using nm by (simp add: unat_gt_0)
      obtain res3 pw sk3 where 3: "sock_recv (self\<lparr>s_sock := sk2\<rparr>) (unat ?p) = (res3, pw, self\<lparr>s_sock := sk3\<rparr>)" "tx sk3 = sent self"
          "res3 = int (unat ?p) \<longrightarrow> inp (self\<lparr>s_sock := sk2\<rparr>) = pw @ inp (self\<lparr>s_sock := sk3\<rparr>) \<and> length pw = unat ?p"
        using recv_cases [OF p0, of "self\<lparr>s_sock := sk2\<rparr>"] 2(2) by auto
      show ?thesis
      proof (cases "res3 = int (unat ?p)")
        case False
        then show ?thesis using 1(1) True 2(1) n nm 3(1) login_refused [OF 3(2)] by (auto simp: run)
      next
        case pw: True
        have "inp self = 1 # n # nm @ pw @ inp (self\<lparr>s_sock := sk3\<rparr>)" using n(3) 2(3) nm 3(3) pw by simp
        from check_login_outcome [OF inv obj 3(2) _ n(2) _ _ this] show ?thesis
          using 1(1) True 2 n nm 3 pw by (simp add: run)
      qed
    qed
  qed
qed

text \<open>The same in terms of the session that results.\<close>

definition logged_in :: "HevSocks5Server \<Rightarrow> rbt \<Rightarrow> HevSocks5Server \<Rightarrow> bool" where
  "logged_in self t self' \<longleftrightarrow> (\<exists>name pass p v. inp self = login_bytes name pass @ inp self' \<and>
     login (v_auth self) t name pass p \<and> 0 < length name \<and> length name < 256 \<and> 0 < length pass \<and> length pass < 256 \<and>
     v_obj self' = UserObj p \<and> a_users (v_auth self') p = Some v \<and> user_name v = name)"

lemma read_auth_user_result:
  assumes "srv_inv self t" "v_obj self = AuthObj"
  shows "\<exists>r self'. hev_socks5_server_read_auth_user self = Some (r, self') \<and> s_timeout self' = s_timeout self \<and>
    (r = - 1 \<or> r = 0 \<and> logged_in self t self')"
  using read_auth_user_only [OF assms, unfolded login_outcome_def]
proof (elim exE conjE disjE)
  fix r self' sk
  assume "hev_socks5_server_read_auth_user self = Some (r, self')" "r = - 1" "self' = self\<lparr>s_sock := sk\<rparr>"
  then show ?thesis by auto
next
  fix r self' name pass p sk a refs v
  assume run: "hev_socks5_server_read_auth_user self = Some (r, self')" "r = 0" and c: "inp self = login_bytes name pass @ inp self'"
    "login (v_auth self) t name pass p" "0 < length name" "length name < 256" "0 < length pass" "length pass < 256"
    and s': "self' = self\<lparr>s_sock := sk, v_auth := a, v_auth_ref := refs, v_obj := UserObj p\<rparr>"
    and v: "a_users a p = Some v" "user_name v = name"
  have "logged_in self t self'" unfolding logged_in_def
    using c v s' by (intro exI [of _ name] exI [of _ pass] exI [of _ p] exI [of _ v]) simp_all
  then show ?thesis using run s' by auto
qed

section \<open>The choice of the method\<close>

lemma recv_zero: "fst (snd (hev_task_io_socket_recv yielder True False 0 [] evs)) = []"
  by (induction yielder True False "0 :: nat" "[] :: byte list" evs rule: hev_task_io_socket_recv.induct) auto

abbreviation wanted :: "HevSocks5Server \<Rightarrow> byte" where
  "wanted self \<equiv> if v_obj self \<noteq> NoObj then 2 else 0"

text \<open>An offer of methods.\<close>

definition offer_bytes :: "byte list \<Rightarrow> byte list" where
  "offer_bytes methods = [5, of_nat (length methods)] @ methods"

lemma server_read_auth_method_ok:
  assumes "inp self = offer_bytes ms @ ys" "length ms < 256" "wanted self \<in> set ms"
  shows "\<exists>sk. hev_socks5_server_read_auth_method self = (uint (wanted self), self\<lparr>s_sock := sk\<rparr>) \<and>
    inp (self\<lparr>s_sock := sk\<rparr>) = ys \<and> tx sk = sent self \<and> txs sk = txs (s_sock self)"
proof -
  have ne: "0 < length ms" using assms(3) by (cases ms) auto
  note N = byte_len [OF ne assms(2)]
  let ?n = "of_nat (length ms) :: byte"
  obtain sk1 where 1: "sock_recv self 2 = (2, [5, ?n], self\<lparr>s_sock := sk1\<rparr>)"
      "inp (self\<lparr>s_sock := sk1\<rparr>) = ms @ ys" "tx sk1 = sent self" "txs sk1 = txs (s_sock self)"
    using recv_append [of self "[5, ?n]" "ms @ ys" 2] assms(1) by (auto simp: offer_bytes_def)
  obtain sk2 where 2: "sock_recv (self\<lparr>s_sock := sk1\<rparr>) (length ms) = (int (length ms), ms, self\<lparr>s_sock := sk2\<rparr>)"
      "inp (self\<lparr>s_sock := sk2\<rparr>) = ys" "tx sk2 = tx sk1" "txs sk2 = txs sk1"
    using recv_append [OF 1(2), of "length ms"] ne by auto
  have "hev_socks5_server_read_auth_method self = (uint (wanted self), self\<lparr>s_sock := sk2\<rparr>)"
    using 1(1) 2(1) N assms(3) by (simp add: hev_socks5_server_read_auth_method_def scan_methods_eq)
  then show ?thesis using 1(3,4) 2(2,3,4) by auto
qed

lemma server_read_auth_method_only:
  "\<exists>r sk. hev_socks5_server_read_auth_method self = (r, self\<lparr>s_sock := sk\<rparr>) \<and> tx sk = sent self \<and>
    (r = - 1 \<or> r = uint (wanted self) \<and>
      (\<exists>ms. inp self = offer_bytes ms @ inp (self\<lparr>s_sock := sk\<rparr>) \<and> length ms < 256 \<and> wanted self \<in> set ms))"
proof -
  obtain res buf sk1 where 1: "sock_recv self 2 = (res, buf, self\<lparr>s_sock := sk1\<rparr>)" "tx sk1 = sent self"
      "case inp self of a # b # ys \<Rightarrow> res = 2 \<and> buf = [a, b] \<and> inp (self\<lparr>s_sock := sk1\<rparr>) = ys | _ \<Rightarrow> res \<noteq> 2"
    using recv2 [of self] by blast
  show ?thesis
  proof (cases "res = 2 \<and> buf ! 0 = 5")
    case False
    then have "hev_socks5_server_read_auth_method self = (- 1, self\<lparr>s_sock := sk1\<rparr>)"
      using 1(1) by (auto simp: hev_socks5_server_read_auth_method_def)
    then show ?thesis using 1(2) by blast
  next
    case True
    then obtain n where n: "buf = [5, n]" "inp self = 5 # n # inp (self\<lparr>s_sock := sk1\<rparr>)"
      using 1(3) by (auto split: list.splits)
    obtain res2 ms sk2 where 2: "sock_recv (self\<lparr>s_sock := sk1\<rparr>) (unat n) = (res2, ms, self\<lparr>s_sock := sk2\<rparr>)" "tx sk2 = tx sk1"
        "0 < unat n \<Longrightarrow> res2 = int (unat n) \<longrightarrow> inp (self\<lparr>s_sock := sk1\<rparr>) = ms @ inp (self\<lparr>s_sock := sk2\<rparr>) \<and> length ms = unat n"
        "unat n = 0 \<Longrightarrow> res2 = int (unat n) \<longrightarrow> ms = []"
    proof (cases "n = 0")
      case False
      then have n0: "0 < unat n" by (simp add: unat_gt_0)
      then obtain r ms sk where "sock_recv (self\<lparr>s_sock := sk1\<rparr>) (unat n) = (r, ms, self\<lparr>s_sock := sk\<rparr>)" "tx sk = tx sk1"
          "r = int (unat n) \<longrightarrow> inp (self\<lparr>s_sock := sk1\<rparr>) = ms @ inp (self\<lparr>s_sock := sk\<rparr>) \<and> length ms = unat n"
        using recv_cases [of "unat n" "self\<lparr>s_sock := sk1\<rparr>"] by auto
      then show ?thesis using n0 by (intro that [of r ms sk]) simp_all
    next
      case True
      obtain r ms sk where r: "sock_recv (self\<lparr>s_sock := sk1\<rparr>) 0 = (r, ms, self\<lparr>s_sock := sk\<rparr>)" "tx sk = tx sk1"
        using recv_sock [of "self\<lparr>s_sock := sk1\<rparr>" 0] by auto
      moreover have "ms = []" using r(1) recv_zero [of "session_yielder self" "rx sk1"] by (auto simp: sock_recv_def split: prod.splits)
      ultimately show ?thesis using that True by auto
    qed
    show ?thesis
    proof (cases "res2 = int (unat n) \<and> wanted self \<in> set ms")
      case False
      then have "hev_socks5_server_read_auth_method self = (- 1, self\<lparr>s_sock := sk2\<rparr>)"
        using 1(1) True n(1) 2(1) by (auto simp: hev_socks5_server_read_auth_method_def scan_methods_eq)
      then show ?thesis using 1(2) 2(2) by auto
    next
      case ok: True
      then have "0 < unat n" using 2(4) by (cases "unat n = 0") auto
      then have m: "inp (self\<lparr>s_sock := sk1\<rparr>) = ms @ inp (self\<lparr>s_sock := sk2\<rparr>)" "length ms = unat n" using 2(3) ok by auto
      have "inp self = offer_bytes ms @ inp (self\<lparr>s_sock := sk2\<rparr>)" using n(2) m by (simp add: offer_bytes_def)
      moreover have "hev_socks5_server_read_auth_method self = (uint (wanted self), self\<lparr>s_sock := sk2\<rparr>)"
        using 1(1) True n(1) 2(1) ok by (simp add: hev_socks5_server_read_auth_method_def scan_methods_eq)
      moreover have "length ms < 256" "tx sk2 = sent self" using m(2) unat_byte [of n] 1(2) 2(2) by simp_all
      ultimately show ?thesis using ok
        by (intro exI [of _ "uint (wanted self)"] exI [of _ sk2] conjI disjI2 exI [of _ ms]) (simp_all only: simp_thms)
    qed
  qed
qed

section \<open>Authentication as a whole\<close>

text \<open>What a client that is let in has sent: an offer that contains the method the server wants
  and, when there is an authenticator, the credentials of a registered user.\<close>

definition authenticated :: "HevSocks5Server \<Rightarrow> rbt \<Rightarrow> byte list \<Rightarrow> bool" where
  "authenticated self t bs \<longleftrightarrow> (\<exists>ms. length ms < 256 \<and> wanted self \<in> set ms \<and>
     (if v_obj self = NoObj then bs = offer_bytes ms
      else \<exists>name pass p. bs = offer_bytes ms @ login_bytes name pass \<and> login (v_auth self) t name pass p \<and>
        0 < length name \<and> length name < 256 \<and> 0 < length pass \<and> length pass < 256))"

definition auth_reply :: "HevSocks5Server \<Rightarrow> byte list" where
  "auth_reply self = [5, wanted self] @ (if v_obj self = NoObj then [] else [1, 0])"

lemma send2:
  "\<exists>r sk. (case sock_send self [a, b] of (res, self) \<Rightarrow> if res \<le> 0 then (- 1 :: int, self) else (0, self)) =
     (r, self\<lparr>s_sock := sk\<rparr>) \<and> (r = 0 \<or> r = - 1) \<and> rx sk = rx (s_sock self) \<and>
     (2 \<le> tx_room self \<longrightarrow> r = 0 \<and> tx sk = sent self @ [a, b] \<and> tx_room (self\<lparr>s_sock := sk\<rparr>) = tx_room self - 2)"
proof (cases "2 \<le> tx_room self")
  case True
  then show ?thesis using send_ok [of "[a, b]" self] by auto
next
  case False
  then show ?thesis using send_sock [of self "[a, b]"] by auto
qed

lemma server_auth_ok:
  assumes "srv_inv self t \<or> v_obj self = NoObj" "v_obj self \<in> {NoObj, AuthObj}" "authenticated self t bs"
    "inp self = bs @ ys" "4 \<le> tx_room self"
  shows "\<exists>sk a refs obj. hev_socks5_server_auth self =
      Some (0, self\<lparr>s_sock := sk, v_auth := a, v_auth_ref := refs, v_obj := obj\<rparr>) \<and>
    inp (self\<lparr>s_sock := sk\<rparr>) = ys \<and> tx sk = sent self @ auth_reply self \<and>
    tx_room self - 4 \<le> tx_room (self\<lparr>s_sock := sk\<rparr>)"
proof -
  obtain ms cs where ms: "length ms < 256" "wanted self \<in> set ms" "bs = offer_bytes ms @ cs"
      "v_obj self = NoObj \<longrightarrow> cs = []"
      "v_obj self \<noteq> NoObj \<longrightarrow> (\<exists>name pass p. cs = login_bytes name pass \<and> login (v_auth self) t name pass p \<and>
        0 < length name \<and> length name < 256 \<and> 0 < length pass \<and> length pass < 256)"
    using assms(3) unfolding authenticated_def by (metis append_Nil2)
  obtain sk1 where 1: "hev_socks5_server_read_auth_method self = (uint (wanted self), self\<lparr>s_sock := sk1\<rparr>)"
      "inp (self\<lparr>s_sock := sk1\<rparr>) = cs @ ys" "tx sk1 = sent self" "txs sk1 = txs (s_sock self)"
    using server_read_auth_method_ok [of self ms "cs @ ys"] ms assms(4) by auto
  obtain sk2 where 2: "hev_socks5_server_write_auth_method (self\<lparr>s_sock := sk1\<rparr>) (uint (wanted self)) = (0, self\<lparr>s_sock := sk2\<rparr>)"
      "rx sk2 = rx sk1" "tx sk2 = tx sk1 @ [5, wanted self]" "tx_room (self\<lparr>s_sock := sk2\<rparr>) = tx_room self - 2"
    using send2 [of "self\<lparr>s_sock := sk1\<rparr>" 5 "wanted self"] assms(5) 1(4) tx_room_sock_cong [of sk1 self]
    by (auto simp: hev_socks5_server_write_auth_method_def)
  have i2: "inp (self\<lparr>s_sock := sk2\<rparr>) = cs @ ys" using 1(2) 2(2) by (simp add: inp_def)
  show ?thesis
  proof (cases "v_obj self = NoObj")
    case True
    then have "hev_socks5_server_auth self = Some (0, self\<lparr>s_sock := sk2\<rparr>)"
      using 1(1) 2(1) by (simp add: hev_socks5_server_auth_def)
    then show ?thesis using True i2 ms(4) 2(3,4) 1(3)
      by (intro exI [of _ sk2] exI [of _ "v_auth self"] exI [of _ "v_auth_ref self"] exI [of _ "v_obj self"]) (simp add: auth_reply_def)
  next
    case False
    then obtain name pass p where c: "cs = login_bytes name pass" "login (v_auth self) t name pass p"
        "0 < length name" "length name < 256" "0 < length pass" "length pass < 256" using ms(5) by blast
    have s2: "srv_inv (self\<lparr>s_sock := sk2\<rparr>) t" "v_obj (self\<lparr>s_sock := sk2\<rparr>) = AuthObj" "login (v_auth (self\<lparr>s_sock := sk2\<rparr>)) t name pass p"
      using assms(1,2) False c(2) by (auto simp: srv_inv_def)
    have i2': "inp (self\<lparr>s_sock := sk2\<rparr>) = login_bytes name pass @ ys" using i2 c(1) by simp
    obtain sk3 a refs where 3: "hev_socks5_server_read_auth_user (self\<lparr>s_sock := sk2\<rparr>) =
        Some (0, self\<lparr>s_sock := sk3, v_auth := a, v_auth_ref := refs, v_obj := UserObj p\<rparr>)"
        "inp (self\<lparr>s_sock := sk3\<rparr>) = ys" "tx sk3 = tx sk2" "txs sk3 = txs sk2"
      using read_auth_user_ok [OF s2 c(3-6) i2'] by auto
    let ?s3 = "self\<lparr>s_sock := sk3, v_auth := a, v_auth_ref := refs, v_obj := UserObj p\<rparr>"
    have r3: "tx_room ?s3 = tx_room self - 2" using 2(4) 3(4) by (simp add: tx_room_def)
    obtain sk4 where 4: "hev_socks5_server_write_auth_user ?s3 0 = (0, ?s3\<lparr>s_sock := sk4\<rparr>)"
        "rx sk4 = rx sk3" "tx sk4 = tx sk3 @ [1, 0]" "tx_room (?s3\<lparr>s_sock := sk4\<rparr>) = tx_room self - 4"
      using send2 [of ?s3 1 0] assms(5) r3 by (auto simp: hev_socks5_server_write_auth_user_def)
    have "hev_socks5_server_auth self = Some (0, self\<lparr>s_sock := sk4, v_auth := a, v_auth_ref := refs, v_obj := UserObj p\<rparr>)"
      using 1(1) 2(1) 3(1) 4(1) False by (simp add: hev_socks5_server_auth_def)
    moreover have "inp (self\<lparr>s_sock := sk4\<rparr>) = ys" using 3(2) 4(2) by (simp add: inp_def)
    moreover have "tx sk4 = sent self @ auth_reply self" using 1(3) 2(3) 3(3) 4(3) False by (simp add: auth_reply_def)
    moreover have "tx_room (self\<lparr>s_sock := sk4\<rparr>) = tx_room self - 4" using 4(4) by (simp add: tx_room_def)
    ultimately show ?thesis by (intro exI [of _ sk4] exI [of _ a] exI [of _ refs] exI [of _ "UserObj p"]) simp
  qed
qed

text \<open>The exchange of the name and the password, and what it means for the session.\<close>

lemma login_exchange:
  assumes "srv_inv self t" "v_obj self = AuthObj"
  shows "\<exists>r3 s3 r4 sk4. hev_socks5_server_read_auth_user self = Some (r3, s3) \<and>
    hev_socks5_server_write_auth_user s3 r3 = (r4, s3\<lparr>s_sock := sk4\<rparr>) \<and> s_timeout s3 = s_timeout self \<and>
    (r3 < 0 \<or> r4 < 0 \<or> logged_in self t (s3\<lparr>s_sock := sk4\<rparr>))"
proof -
  obtain r3 s3 where 3: "hev_socks5_server_read_auth_user self = Some (r3, s3)"
      "s_timeout s3 = s_timeout self" "r3 = - 1 \<or> r3 = 0 \<and> logged_in self t s3"
    using read_auth_user_result [OF assms] by auto
  obtain r4 sk4 where 4: "hev_socks5_server_write_auth_user s3 r3 = (r4, s3\<lparr>s_sock := sk4\<rparr>)" "rx sk4 = rx (s_sock s3)"
    using send2 [of s3 1 "word_of_int r3"] by (auto simp: hev_socks5_server_write_auth_user_def)
  have "logged_in self t s3 \<Longrightarrow> logged_in self t (s3\<lparr>s_sock := sk4\<rparr>)" using 4(2) by (simp add: logged_in_def inp_def)
  then show ?thesis using 3 4(1) by auto
qed

lemma logged_in_authenticated:
  assumes "logged_in (self\<lparr>s_sock := sk\<rparr>) t self'" "inp self = offer_bytes ms @ inp (self\<lparr>s_sock := sk\<rparr>)"
    "length ms < 256" "wanted self \<in> set ms"
  shows "v_obj self = AuthObj \<Longrightarrow> (\<exists>bs. inp self = bs @ inp self' \<and> authenticated self t bs) \<and>
    (\<exists>p v. v_obj self' = UserObj p \<and> a_users (v_auth self') p = Some v)"
proof -
  assume obj: "v_obj self = AuthObj"
  obtain name pass p v where c: "inp (self\<lparr>s_sock := sk\<rparr>) = login_bytes name pass @ inp self'"
      "login (v_auth self) t name pass p" "0 < length name" "length name < 256" "0 < length pass" "length pass < 256"
      "v_obj self' = UserObj p" "a_users (v_auth self') p = Some v"
    using assms(1) by (auto simp: logged_in_def)
  have "authenticated self t (offer_bytes ms @ login_bytes name pass)"
    using assms(3,4) obj c(2-6) unfolding authenticated_def by auto
  moreover have "inp self = (offer_bytes ms @ login_bytes name pass) @ inp self'" using assms(2) c(1) by simp
  ultimately show ?thesis using c(7,8) by blast
qed

lemma server_auth_only:
  assumes "srv_inv self t \<or> v_obj self = NoObj" "v_obj self \<in> {NoObj, AuthObj}"
  shows "\<exists>r self'. hev_socks5_server_auth self = Some (r, self') \<and> (r = - 1 \<or> r = 0) \<and> s_timeout self' = s_timeout self \<and>
    (r = 0 \<longrightarrow> (\<exists>bs. inp self = bs @ inp self' \<and> authenticated self t bs) \<and>
       (v_obj self = AuthObj \<longrightarrow> (\<exists>p v. v_obj self' = UserObj p \<and> a_users (v_auth self') p = Some v)))"
proof -
  obtain r sk1 where 1: "hev_socks5_server_read_auth_method self = (r, self\<lparr>s_sock := sk1\<rparr>)"
      "r = - 1 \<or> r = uint (wanted self) \<and>
      (\<exists>ms. inp self = offer_bytes ms @ inp (self\<lparr>s_sock := sk1\<rparr>) \<and> length ms < 256 \<and> wanted self \<in> set ms)"
    using server_read_auth_method_only [of self] by blast
  obtain r2 sk2 where 2: "hev_socks5_server_write_auth_method (self\<lparr>s_sock := sk1\<rparr>) r = (r2, self\<lparr>s_sock := sk2\<rparr>)"
      "r2 = 0 \<or> r2 = - 1" "rx sk2 = rx sk1"
    using send2 [of "self\<lparr>s_sock := sk1\<rparr>" 5 "word_of_int r"] by (auto simp: hev_socks5_server_write_auth_method_def)
  show ?thesis
  proof (cases "r = - 1 \<or> r2 = - 1")
    case True
    then have "hev_socks5_server_auth self = Some (- 1, self\<lparr>s_sock := sk2\<rparr>)"
      using 1(1) 2(1,2) by (auto simp: hev_socks5_server_auth_def)
    then show ?thesis by (intro exI [of _ "- 1"] exI [of _ "self\<lparr>s_sock := sk2\<rparr>"]) simp
  next
    case False
    then obtain ms where r: "r2 = 0" "r = uint (wanted self)" and
        ms: "inp self = offer_bytes ms @ inp (self\<lparr>s_sock := sk1\<rparr>)" "length ms < 256" "wanted self \<in> set ms"
      using 1(2) 2(2) by blast
    have i2: "inp (self\<lparr>s_sock := sk2\<rparr>) = inp (self\<lparr>s_sock := sk1\<rparr>)" using 2(3) by (simp add: inp_def)
    show ?thesis
    proof (cases "v_obj self = NoObj")
      case True
      then have "hev_socks5_server_auth self = Some (0, self\<lparr>s_sock := sk2\<rparr>)"
        using 1(1) 2(1) r by (simp add: hev_socks5_server_auth_def)
      moreover have "authenticated self t (offer_bytes ms)" using ms(2,3) True by (auto simp: authenticated_def)
      ultimately show ?thesis using ms(1) i2 True by (intro exI [of _ 0] exI [of _ "self\<lparr>s_sock := sk2\<rparr>"]) auto
    next
      case obj: False
      have s2: "srv_inv (self\<lparr>s_sock := sk2\<rparr>) t" "v_obj (self\<lparr>s_sock := sk2\<rparr>) = AuthObj"
        using assms obj by (auto simp: srv_inv_def)
      obtain r3 s3 r4 sk4 where 3: "hev_socks5_server_read_auth_user (self\<lparr>s_sock := sk2\<rparr>) = Some (r3, s3)"
          "hev_socks5_server_write_auth_user s3 r3 = (r4, s3\<lparr>s_sock := sk4\<rparr>)" "s_timeout s3 = s_timeout self"
          "r3 < 0 \<or> r4 < 0 \<or> logged_in (self\<lparr>s_sock := sk2\<rparr>) t (s3\<lparr>s_sock := sk4\<rparr>)"
        using login_exchange [OF s2] by auto
      have run: "hev_socks5_server_auth self = Some (if r3 < 0 \<or> r4 < 0 then - 1 else 0, s3\<lparr>s_sock := sk4\<rparr>)"
        using 1(1) 2(1) r obj 3(1,2) by (simp add: hev_socks5_server_auth_def)
      show ?thesis
      proof (cases "r3 < 0 \<or> r4 < 0")
        case True
        then show ?thesis using run 3(3) by (intro exI [of _ "- 1"] exI [of _ "s3\<lparr>s_sock := sk4\<rparr>"]) simp
      next
        case False
        then have "logged_in (self\<lparr>s_sock := sk2\<rparr>) t (s3\<lparr>s_sock := sk4\<rparr>)" using 3(4) by blast
        from logged_in_authenticated [OF this ms(1) [folded i2] ms(2,3)] show ?thesis using run False 3(3) s2(2) by auto
      qed
    qed
  qed
qed

section \<open>Requests and the whole handshake\<close>

lemma wire_addr_split:
  assumes "wire_addr addr"
  shows "\<exists>x y zs. addr = x # y # zs \<and> request_rest x y = Some (length zs) \<and> zs \<noteq> []"
proof -
  consider ip port where "length ip = 4" "addr = wire_ipv4 ip port"
    | ip port where "length ip = 16" "addr = wire_ipv6 ip port"
    | name port where "length name < 256" "addr = wire_domain name port"
    using assms unfolding wire_addr_def by blast
  then show ?thesis
  proof cases
    case 1
    then show ?thesis by (cases ip) (auto simp: wire_ipv4_def request_rest_def)
  next
    case 2
    then show ?thesis by (cases ip) (auto simp: wire_ipv6_def request_rest_def)
  next
    case 3
    then show ?thesis using unat_of_nat_byte [of "length name"] by (auto simp: wire_domain_def request_rest_def bytes16_def)
  qed
qed

lemma read_request_ok:
  assumes "inp self = [5, cmd, rsv] @ addr @ rest" "wire_addr addr"
    "hev_socks5_addr_into_sockaddr6 rs addr sa0 (s_family self) = Some (sa, fam, 0)"
  shows "\<exists>sk. hev_socks5_server_read_request rs self sa0 =
      Some (0, Some cmd, 0, sa, self\<lparr>s_sock := sk, s_family := fam\<rparr>) \<and>
    inp (self\<lparr>s_sock := sk\<rparr>) = rest \<and> tx sk = sent self \<and> txs sk = txs (s_sock self)"
proof -
  obtain x y zs where a: "addr = x # y # zs" "request_rest x y = Some (length zs)" "zs \<noteq> []"
    using wire_addr_split [OF assms(2)] by blast
  obtain sk1 where 1: "sock_recv self 5 = (5, [5, cmd, rsv, x, y], self\<lparr>s_sock := sk1\<rparr>)"
      "inp (self\<lparr>s_sock := sk1\<rparr>) = zs @ rest" "tx sk1 = sent self" "txs sk1 = txs (s_sock self)"
    using recv_append [of self "[5, cmd, rsv, x, y]" "zs @ rest" 5] assms(1) a(1) by auto
  obtain sk2 where 2: "sock_recv (self\<lparr>s_sock := sk1\<rparr>) (length zs) = (int (length zs), zs, self\<lparr>s_sock := sk2\<rparr>)"
      "inp (self\<lparr>s_sock := sk2\<rparr>) = rest" "tx sk2 = tx sk1" "txs sk2 = txs sk1"
    using recv_append [OF 1(2) a(3) refl] by auto
  have "hev_socks5_server_read_request rs self sa0 = Some (0, Some cmd, 0, sa, self\<lparr>s_sock := sk2, s_family := fam\<rparr>)"
    using 1(1) 2(1) a assms(3) by (simp add: hev_socks5_server_read_request_def hev_socks5_set_addr_family_def)
  then show ?thesis using 1(3,4) 2(2,3,4) by auto
qed

lemma write_response_ok:
  assumes "length (sin6_addr sa) = 16" "22 \<le> tx_room self"
  shows "\<exists>sk. hev_socks5_server_write_response self 0 sa = Some (0, self\<lparr>s_sock := sk\<rparr>) \<and>
    tx sk = sent self @ [5, 0, 0] @ wire_sockaddr sa \<and> rx sk = rx (s_sock self)"
proof -
  have len: "length (wire_sockaddr sa) \<le> 19" using assms(1) by (simp add: wire_sockaddr_def)
  obtain sk where "sock_send self ([5, 0, 0] @ wire_sockaddr sa) = (int (length ([5, 0, 0 :: byte] @ wire_sockaddr sa)), self\<lparr>s_sock := sk\<rparr>)"
      "tx sk = sent self @ [5, 0, 0] @ wire_sockaddr sa" "rx sk = rx (s_sock self)"
    using send_ok [of "[5, 0, 0] @ wire_sockaddr sa" self] assms(2) len by auto
  moreover have "take (nat (3 + int (length (wire_sockaddr sa)))) ([5, 0, 0] @ wire_sockaddr sa @ drop (length (wire_sockaddr sa)) (replicate 260 0)) =
      [5, 0, 0] @ wire_sockaddr sa"
    by (simp add: nat_add_distrib numeral_3_eq_3)
  ultimately show ?thesis
    using from_sockaddr6_wire [OF assms(1), of "replicate 260 0"]
    by (intro exI [of _ sk]) (simp add: hev_socks5_server_write_response_def)
qed

text \<open>The command can be carried out, and the address that is reported then.\<close>

definition sock_up :: "net \<Rightarrow> bool" where
  "sock_up net \<longleftrightarrow> 0 \<le> n_socket net \<and> 0 \<le> n_v6only net"

definition command_ok ::
  "socks5_misc \<Rightarrow> net \<Rightarrow> net \<Rightarrow> bind_net \<Rightarrow> int \<Rightarrow> byte \<Rightarrow> sockaddr_in6 \<Rightarrow> sockaddr_in6 \<Rightarrow> bool" where
  "command_ok m net net2 b timeout cmd sa sa' \<longleftrightarrow> sock_up net \<and>
     (cmd = 1 \<and> 0 \<le> n_binder net \<and> sa' = sa \<and>
        0 \<le> hev_task_io_socket_connect (hev_socks5_task_io_yielder (if timeout \<noteq> 0 then connect_timeout m else 0)) (n_connect net) \<or>
      cmd = 3 \<and> sock_up net2 \<and> 0 \<le> n_reuse net2 \<and> b_tcpname b \<noteq> None \<and> 0 \<le> b_bind b \<and> b_udpname b = Some sa' \<or>
      cmd = 5 \<and> sa' = sa)"

definition command_type :: "byte \<Rightarrow> HevSocks5Type" where
  "command_type cmd = (if cmd = 1 then TYPE_TCP else if cmd = 3 then TYPE_UDP_IN_UDP else TYPE_UDP_IN_TCP)"

lemma server_command_ok:
  assumes "command_ok m net net2 b (s_timeout self) cmd sa sa'" "connect_timeout m \<noteq> 0"
    "s_timeout self \<noteq> 0 \<longrightarrow> s_timeout self = tcp_timeout m"
  shows "\<exists>self'. server_command m net net2 b self cmd sa = (0, sa', self') \<and> s_sock self' = s_sock self \<and>
    s_timeout self' = s_timeout self \<and> s_type self' = command_type cmd \<and> v_fd0 self' = n_socket net \<and>
    (cmd = 3 \<longrightarrow> v_fd1 self' = n_socket net2)"
  using assms
  by (auto simp: command_ok_def sock_up_def server_command_def hev_socks5_server_connect_def hev_socks5_server_bind_def
      hev_socks5_server_udp_bind_def hev_socks5_socket_def hev_socks5_set_timeout_def command_type_def Let_def
      split: if_split_asm)

lemma server_handshake_ok:
  assumes self0: "self0 = hev_socks5_set_timeout self (tcp_timeout m)"
    and auth: "srv_inv self0 t \<or> v_obj self0 = NoObj" "v_obj self0 \<in> {NoObj, AuthObj}" "authenticated self0 t bs"
    and req: "inp self0 = bs @ [5, cmd, rsv] @ addr @ rest" "wire_addr addr"
      "hev_socks5_addr_into_sockaddr6 rs addr \<lparr>sin6_port = 0, sin6_addr = replicate 16 0\<rparr> (s_family self0) = Some (sa, fam, 0)"
    and cmd: "command_ok m net net2 b (s_timeout self0) cmd sa sa'" "connect_timeout m \<noteq> 0" "length (sin6_addr sa') = 16"
    and room: "26 \<le> tx_room self0"
  shows "\<exists>self'. hev_socks5_server_handshake m rs net net2 b self = Some (0, self') \<and>
    sent self' = sent self @ auth_reply self0 @ [5, 0, 0] @ wire_sockaddr sa' \<and> inp self' = rest \<and>
    s_type self' = command_type cmd \<and> v_fd0 self' = n_socket net"
proof -
  obtain sk1 a refs obj where 1: "hev_socks5_server_auth self0 =
      Some (0, self0\<lparr>s_sock := sk1, v_auth := a, v_auth_ref := refs, v_obj := obj\<rparr>)"
      "inp (self0\<lparr>s_sock := sk1\<rparr>) = [5, cmd, rsv] @ addr @ rest" "tx sk1 = sent self0 @ auth_reply self0"
      "tx_room self0 - 4 \<le> tx_room (self0\<lparr>s_sock := sk1\<rparr>)"
    using server_auth_ok [OF auth req(1)] room by auto
  let ?s1 = "self0\<lparr>s_sock := sk1, v_auth := a, v_auth_ref := refs, v_obj := obj\<rparr>"
  have i1: "inp ?s1 = [5, cmd, rsv] @ addr @ rest" using 1(2) by (simp add: inp_def)
  have f1: "hev_socks5_addr_into_sockaddr6 rs addr \<lparr>sin6_port = 0, sin6_addr = replicate 16 0\<rparr> (s_family ?s1) = Some (sa, fam, 0)"
    using req(3) by simp
  obtain sk2 where 2: "hev_socks5_server_read_request rs ?s1 \<lparr>sin6_port = 0, sin6_addr = replicate 16 0\<rparr> =
      Some (0, Some cmd, 0, sa, ?s1\<lparr>s_sock := sk2, s_family := fam\<rparr>)"
      "inp (?s1\<lparr>s_sock := sk2\<rparr>) = rest" "tx sk2 = tx sk1" "txs sk2 = txs sk1"
    using read_request_ok [OF i1 req(2) f1] by auto
  let ?s2 = "?s1\<lparr>s_sock := sk2, s_family := fam\<rparr>"
  have t2: "s_timeout ?s2 = s_timeout self0" "s_timeout self0 \<noteq> 0 \<longrightarrow> s_timeout self0 = tcp_timeout m"
    by (simp_all add: self0 hev_socks5_set_timeout_def)
  obtain s3 where 3: "server_command m net net2 b ?s2 cmd sa = (0, sa', s3)" "s_sock s3 = sk2" "s_timeout s3 = s_timeout self0"
      "s_type s3 = command_type cmd" "v_fd0 s3 = n_socket net"
    using server_command_ok [of m net net2 b ?s2 cmd sa sa'] cmd(1,2) t2 by auto
  have "tx_room s3 = tx_room (self0\<lparr>s_sock := sk1\<rparr>)" using 3(2,3) 2(4) by (simp add: tx_room_def)
  then have "22 \<le> tx_room s3" using 1(4) room by linarith
  then obtain sk4 where 4: "hev_socks5_server_write_response s3 0 sa' = Some (0, s3\<lparr>s_sock := sk4\<rparr>)"
      "tx sk4 = sent s3 @ [5, 0, 0] @ wire_sockaddr sa'" "rx sk4 = rx sk2"
    using write_response_ok [OF cmd(3)] 3(2) by auto
  have "hev_socks5_server_handshake m rs net net2 b self = Some (0, s3\<lparr>s_sock := sk4\<rparr>)"
    using 1(1) 2(1) 3(1) 4(1) unfolding hev_socks5_server_handshake_def Let_def self0 [symmetric] by simp
  moreover have "inp (s3\<lparr>s_sock := sk4\<rparr>) = rest" using 2(2) 3(3) 4(3) by (simp add: inp_def)
  moreover have "sent self0 = sent self" by (simp add: self0 hev_socks5_set_timeout_def)
  ultimately show ?thesis using 1(3) 2(3) 3(2,4,5) 4(2) by (intro exI [of _ "s3\<lparr>s_sock := sk4\<rparr>"]) simp
qed

section \<open>Descriptors\<close>

definition fds :: "HevSocks5Server \<Rightarrow> int \<times> int \<times> int \<times> int list" where
  "fds self = (s_fd self, v_fd0 self, v_fd1 self, s_open self)"

text \<open>The open descriptors are exactly those the session will close.\<close>

definition fds_ok :: "HevSocks5Server \<Rightarrow> bool" where
  "fds_ok self \<longleftrightarrow> 0 \<le> s_fd self \<and> s_open self = filter ((\<le>) 0) [v_fd1 self, v_fd0 self, s_fd self]"

lemma fds_ok_cong: "fds self' = fds self \<Longrightarrow> fds_ok self' = fds_ok self"
  by (simp add: fds_def fds_ok_def)

lemma fds_io [simp]:
  "fds (snd (snd (sock_recv self n))) = fds self"
  "fds (snd (sock_send self buf)) = fds self"
  by (simp_all add: fds_def sock_recv_def sock_send_def split: prod.splits)

lemma fds_upd [simp]:
  "fds (self\<lparr>s_sock := sk\<rparr>) = fds self" "fds (self\<lparr>v_obj := obj\<rparr>) = fds self" "fds (self\<lparr>v_auth := a\<rparr>) = fds self"
  "fds (self\<lparr>v_auth_ref := n\<rparr>) = fds self" "fds (self\<lparr>s_family := fam\<rparr>) = fds self" "fds (self\<lparr>s_type := ty\<rparr>) = fds self"
  "fds (hev_socks5_set_timeout self tm) = fds self"
  by (simp_all add: fds_def hev_socks5_set_timeout_def)

lemma fds_auth_unref: "auth_unref self = Some self' \<Longrightarrow> fds self' = fds self"
  by (auto simp: auth_unref_def Option.bind_eq_Some_conv split: if_split_asm)

lemma fds_check_login: "check_login self name nlen pass plen = Some (r, self') \<Longrightarrow> fds self' = fds self"
  by (auto simp: check_login_def Option.bind_eq_Some_conv dest!: fds_auth_unref split: if_split_asm)

lemma fds_read_auth_method: "fds (snd (hev_socks5_server_read_auth_method self)) = fds self"
  by (simp add: hev_socks5_server_read_auth_method_def case_prod_beta)

lemma fds_read_auth_user: "hev_socks5_server_read_auth_user self = Some (r, self') \<Longrightarrow> fds self' = fds self"
  by (auto simp: hev_socks5_server_read_auth_user_def case_prod_beta Let_def dest!: fds_check_login split: if_split_asm)

lemma fds_write_auth:
  "fds (snd (hev_socks5_server_write_auth_method self r)) = fds self"
  "fds (snd (hev_socks5_server_write_auth_user self r)) = fds self"
  by (simp_all add: hev_socks5_server_write_auth_method_def hev_socks5_server_write_auth_user_def case_prod_beta)

lemma fds_auth: "hev_socks5_server_auth self = Some (r, self') \<Longrightarrow> fds self' = fds self"
  by (auto simp: hev_socks5_server_auth_def case_prod_beta Option.bind_eq_Some_conv fds_read_auth_method fds_write_auth
      dest!: fds_read_auth_user split: if_split_asm)

lemma fds_read_request:
  "hev_socks5_server_read_request rs self sa = Some (r, cmd, rep, sa', self') \<Longrightarrow> fds self' = fds self"
  by (auto simp: hev_socks5_server_read_request_def case_prod_beta Option.bind_eq_Some_conv hev_socks5_set_addr_family_def
      split: if_split_asm option.split_asm)

lemma fds_write_response: "hev_socks5_server_write_response self rep sa = Some (r, self') \<Longrightarrow> fds self' = fds self"
  by (auto simp: hev_socks5_server_write_response_def case_prod_beta Option.bind_eq_Some_conv split: if_split_asm)

lemma server_command_fds:
  assumes "fds_ok self" "v_fd0 self = - 1" "v_fd1 self = - 1" "server_command m net net2 b self cmd sa = (rep, sa', self')"
  shows "fds_ok self'"
proof -
  have o: "0 \<le> s_fd self" "s_open self = [s_fd self]" using assms(1-3) by (auto simp: fds_ok_def)
  consider "cmd = 1" | "cmd = 3" | "cmd = 5" | "cmd \<noteq> 1" "cmd \<noteq> 3" "cmd \<noteq> 5" by blast
  then show ?thesis
  proof cases
    case 1
    then show ?thesis using assms(2-4) o
      by (auto simp: server_command_def hev_socks5_server_connect_def hev_socks5_socket_def close_fd_def fds_ok_def
          hev_socks5_set_timeout_def Let_def split: if_split_asm)
  next
    case 2
    then show ?thesis using assms(2-4) o
      by (auto simp: server_command_def hev_socks5_server_bind_def hev_socks5_socket_def close_fd_def fds_ok_def
          Let_def case_prod_beta split: if_split_asm)
  next
    case 3
    then show ?thesis using assms(2-4) o
      by (auto simp: server_command_def hev_socks5_server_bind_def hev_socks5_socket_def close_fd_def fds_ok_def
          Let_def split: if_split_asm)
  next
    case 4
    then show ?thesis using assms(1,4) by (auto simp: server_command_def)
  qed
qed

lemma server_handshake_fds:
  assumes "fds_ok self" "v_fd0 self = - 1" "v_fd1 self = - 1" "hev_socks5_server_handshake m rs net net2 b self = Some (r, self')"
  shows "fds_ok self'"
proof -
  obtain r1 s1 where 1: "hev_socks5_server_auth (hev_socks5_set_timeout self (tcp_timeout m)) = Some (r1, s1)"
    using assms(4) by (auto simp: hev_socks5_server_handshake_def Let_def Option.bind_eq_Some_conv)
  have f1: "fds s1 = fds self" using fds_auth [OF 1] by simp
  show ?thesis
  proof (cases "r1 < 0")
    case True
    then have "self' = s1" using assms(4) 1 by (simp add: hev_socks5_server_handshake_def Let_def)
    then show ?thesis using f1 assms(1) fds_ok_cong by blast
  next
    case False
    obtain r2 cmd rep sa s2 where 2: "hev_socks5_server_read_request rs s1 \<lparr>sin6_port = 0, sin6_addr = replicate 16 0\<rparr> = Some (r2, cmd, rep, sa, s2)"
      using assms(4) 1 False by (auto simp: hev_socks5_server_handshake_def Let_def Option.bind_eq_Some_conv)
    have f2: "fds s2 = fds self" using fds_read_request [OF 2] f1 by simp
    then have ok2: "fds_ok s2" "v_fd0 s2 = - 1" "v_fd1 s2 = - 1"
      using assms(1-3) fds_ok_cong [OF f2] by (simp_all add: fds_def)
    show ?thesis
    proof (cases "r2 < 0")
      case True
      then have "self' = s2" using assms(4) 1 False 2 by (simp add: hev_socks5_server_handshake_def Let_def)
      then show ?thesis using ok2(1) by simp
    next
      case r2: False
      obtain rep3 sa3 s3 where 3: "(if rep = 0 then server_command m net net2 b s2 (the cmd) sa else (rep, sa, s2)) = (rep3, sa3, s3)"
        by (metis prod_cases3)
      then have ok3: "fds_ok s3" using server_command_fds [OF ok2] ok2(1) by (auto split: if_split_asm)
      obtain r4 where "hev_socks5_server_write_response s3 rep3 sa3 = Some (r4, self')"
        using assms(4) 1 False 2 r2 3
        by (auto simp: hev_socks5_server_handshake_def Let_def Option.bind_eq_Some_conv split: if_split_asm)
      then show ?thesis using fds_write_response ok3 fds_ok_cong by blast
    qed
  qed
qed

lemma destruct_closes:
  assumes "fds_ok self" "hev_socks5_server_destruct self = Some self'"
  shows "s_open self' = []"
proof -
  let ?s1 = "if 0 \<le> v_fd0 self then close_fd self (v_fd0 self) else self"
  let ?s2 = "if 0 \<le> v_fd1 ?s1 then close_fd ?s1 (v_fd1 ?s1) else ?s1"
  obtain s3 where s3: "(case v_obj ?s2 of
         NoObj \<Rightarrow> Some ?s2
       | AuthObj \<Rightarrow> auth_unref ?s2
       | UserObj u \<Rightarrow> do { a \<leftarrow> hev_object_unref (v_auth ?s2) u; Some (?s2\<lparr>v_auth := a\<rparr>) }) = Some s3"
      "self' = hev_socks5_destruct s3"
    using assms(2) by (auto simp: hev_socks5_server_destruct_def Let_def Option.bind_eq_Some_conv)
  then have "fds s3 = fds ?s2"
    by (auto simp: Option.bind_eq_Some_conv dest: fds_auth_unref split: server_obj.split_asm)
  then have "s_fd s3 = s_fd self" "s_open s3 = s_open ?s2" by (auto simp: fds_def close_fd_def)
  moreover have "s_open ?s2 = [s_fd self]" using assms(1) by (auto simp: fds_ok_def close_fd_def)
  ultimately show ?thesis using s3(2) assms(1) by (auto simp: hev_socks5_destruct_def close_fd_def fds_ok_def)
qed

section \<open>Properties\<close>

text \<open>C3: Nobody is served without a login: when the session has an authenticator, the handshake
  succeeds only if the first bytes of the client are an offer that contains the method
  ``username/password'' followed by the name and the password of a registered user, both not
  empty. This holds for every sequence of bytes the client sends, however they are fragmented.\<close>

theorem server_login_required:
  assumes "self0 = hev_socks5_set_timeout self (tcp_timeout m)" and "srv_inv self0 t" and "v_obj self0 = AuthObj"
    and "hev_socks5_server_handshake m rs net net2 b self = Some (0, self')"
  shows "\<exists>ms name pass p rest. inp self0 = offer_bytes ms @ login_bytes name pass @ rest \<and> 2 \<in> set ms \<and>
    registered (v_auth self0) t name = Some p \<and> user_pass (the (a_users (v_auth self0) p)) = pass \<and> name \<noteq> [] \<and> pass \<noteq> []"
proof -
  obtain r s1 where 1: "hev_socks5_server_auth self0 = Some (r, s1)" "r = - 1 \<or> r = 0"
      "r = 0 \<longrightarrow> (\<exists>bs. inp self0 = bs @ inp s1 \<and> authenticated self0 t bs)"
    using server_auth_only [of self0 t] assms(2,3) by auto
  have "r = 0" using 1(1,2) assms(4) unfolding hev_socks5_server_handshake_def Let_def assms(1) [symmetric] by auto
  then obtain bs where "inp self0 = bs @ inp s1" "authenticated self0 t bs" using 1(3) by blast
  then show ?thesis using assms(3) unfolding authenticated_def login_def by fastforce
qed

text \<open>The witness: \<open>al\<close> logs in with the password \<open>x\<close> and requests \<open>1.2.3.4\<close>, port 80.\<close>

definition server0 :: HevSocks5Server where
  "server0 = \<lparr>s_fd = 5, s_timeout = - 1, s_type = TYPE_NONE, s_udp_associated = False, s_family = FAMILY_UNSPEC,
     s_sock = \<lparr>rx = [Chunk [5, 1], RxAgain 9, Chunk [2, 1, 2, 97, 108, 1, 120, 5, 1, 0, 1, 1], RxAgain 9, Chunk [2, 3, 4, 0, 0x50, 42]],
       tx = [], txs = [Accept 100]\<rparr>, s_open = [5],
     v_fd0 = - 1, v_fd1 = - 1, v_obj = AuthObj, v_auth = auth0, v_auth_ref = 2\<rparr>"

definition netc :: net where
  "netc = \<lparr>n_socket = 9, n_v6only = 0, n_reuse = 0, n_binder = 0, n_connect = [InProgress 5, Connected],
     n_stream = \<lparr>rx = [], tx = [], txs = []\<rparr>\<rparr>"

definition bind0 :: bind_net where
  "bind0 = \<lparr>b_tcpname = None, b_bind = 0, b_udpname = None\<rparr>"

abbreviation (input) tree_al :: rbt where "tree_al \<equiv> Nd Black Lf 16 Lf"

lemma server0_inv: "srv_inv (hev_socks5_set_timeout server0 300000) tree_al" "v_obj (hev_socks5_set_timeout server0 300000) = AuthObj"
  using auth0_inv
  by (auto simp: srv_inv_def hev_socks5_set_timeout_def server0_def auth0_def user_al_def user_bob_def split: if_splits)

lemma server0_auth: "authenticated (hev_socks5_set_timeout server0 300000) tree_al (offer_bytes [2] @ login_bytes [97, 108] [120])"
proof -
  have "login (v_auth (hev_socks5_set_timeout server0 300000)) tree_al [97, 108] [120] 16"
    using auth0_registered auth0_users
    by (simp add: login_def hev_socks5_set_timeout_def server0_def user_pass_def user_al_def)
  then show ?thesis using server0_inv(2) unfolding authenticated_def
    by (intro exI [of _ "[2]"]) force
qed

lemma server0_inp:
  "inp (hev_socks5_set_timeout server0 300000) =
     (offer_bytes [2] @ login_bytes [97, 108] [120]) @ [5, 1, 0] @ wire_ipv4 [1, 2, 3, 4] 0x5000 @ [42]"
  by (simp add: inp_def hev_socks5_set_timeout_def server0_def hev_socks5_task_io_yielder_def hev_task_sleep_def
      offer_bytes_def login_bytes_def wire_ipv4_def bytes16_def)

definition sa1234 :: sockaddr_in6 where
  "sa1234 = \<lparr>sin6_port = 0x5000, sin6_addr = replicate 10 0 @ [0xff, 0xff] @ [1, 2, 3, 4]\<rparr>"

lemma server0_handshake:
  "\<exists>self'. hev_socks5_server_handshake misc_default rs_none netc netc bind0 server0 = Some (0, self') \<and>
     sent self' = [5, 2, 1, 0, 5, 0, 0] @ wire_sockaddr sa1234 \<and> inp self' = [42] \<and> s_type self' = TYPE_TCP \<and> v_fd0 self' = 9"
proof -
  let ?s = "hev_socks5_set_timeout server0 300000"
  have w: "wire_addr (wire_ipv4 [1, 2, 3, 4] 0x5000)"
    unfolding wire_addr_def by (intro disjI1 exI [of _ "[1, 2, 3, 4]"] exI [of _ "0x5000"]) simp
  have into: "hev_socks5_addr_into_sockaddr6 rs_none (wire_ipv4 [1, 2, 3, 4] 0x5000) \<lparr>sin6_port = 0, sin6_addr = replicate 16 0\<rparr> (s_family ?s)
      = Some (sa1234, FAMILY_IPV4, 0)"
    using into_sockaddr6_ipv4 [of "[1, 2, 3, 4]" "\<lparr>sin6_port = 0, sin6_addr = replicate 16 0\<rparr>" rs_none "0x5000" "[]"]
    by (simp add: sa1234_def)
  have cmd: "command_ok misc_default netc netc bind0 (s_timeout ?s) 1 sa1234 sa1234"
    by (simp add: command_ok_def sock_up_def netc_def hev_socks5_set_timeout_def server0_def hev_socks5_task_io_yielder_def
        hev_task_sleep_def misc_default_def)
  have room: "26 \<le> tx_room ?s"
    by (simp add: tx_room_def hev_socks5_set_timeout_def server0_def)
  have "auth_reply ?s = [5, 2, 1, 0]" using server0_inv(2) by (simp add: auth_reply_def)
  then show ?thesis
    using server_handshake_ok [of ?s server0 misc_default, OF _ disjI1 [OF server0_inv(1)] _ server0_auth server0_inp w into cmd _ _ room]
      server0_inv(2) by (simp add: misc_default_def sa1234_def server0_def command_type_def netc_def)
qed

theorem server_login_required_witness:
  "\<exists>ms name pass p rest. inp (hev_socks5_set_timeout server0 300000) = offer_bytes ms @ login_bytes name pass @ rest \<and> 2 \<in> set ms \<and>
    registered auth0 tree_al name = Some p \<and> user_pass (the (a_users auth0 p)) = pass \<and> name \<noteq> [] \<and> pass \<noteq> []"
proof -
  obtain self' where "hev_socks5_server_handshake misc_default rs_none netc netc bind0 server0 = Some (0, self')"
    using server0_handshake by blast
  from server_login_required [OF _ server0_inv this] show ?thesis
    by (simp add: misc_default_def hev_socks5_set_timeout_def server0_def)
qed

text \<open>C23: A client that follows the protocol is served: after its offer, its credentials when an
  authenticator is set, and a request whose address can be resolved and whose command can be
  carried out, the server answers each step with exactly the bytes of the protocol, reports the
  address, leaves the payload that follows the request unread, and has the socket of the other
  side open. The three commands and both login modes are covered.\<close>

theorem server_handshake_complete:
  assumes "self0 = hev_socks5_set_timeout self (tcp_timeout m)"
    and "srv_inv self0 t \<or> v_obj self0 = NoObj" "v_obj self0 \<in> {NoObj, AuthObj}" "authenticated self0 t bs"
    and "inp self0 = bs @ [5, cmd, rsv] @ addr @ rest" "wire_addr addr"
    and "hev_socks5_addr_into_sockaddr6 rs addr \<lparr>sin6_port = 0, sin6_addr = replicate 16 0\<rparr> (s_family self0) = Some (sa, fam, 0)"
    and "command_ok m net net2 b (s_timeout self0) cmd sa sa'" "connect_timeout m \<noteq> 0" "length (sin6_addr sa') = 16"
    and "26 \<le> tx_room self0"
  shows "\<exists>self'. hev_socks5_server_handshake m rs net net2 b self = Some (0, self') \<and>
    sent self' = sent self @ auth_reply self0 @ [5, 0, 0] @ wire_sockaddr sa' \<and> inp self' = rest \<and>
    s_type self' = command_type cmd \<and> v_fd0 self' = n_socket net"
  using server_handshake_ok [OF assms] .

theorem server_handshake_complete_witness:
  "\<exists>self'. hev_socks5_server_handshake misc_default rs_none netc netc bind0 (server0\<lparr>v_obj := NoObj,
      s_sock := \<lparr>rx = [Chunk ([5, 1, 0, 5, 5, 0] @ wire_ipv4 [1, 2, 3, 4] 0x5000)], tx = [], txs = [Accept 30]\<rparr>\<rparr>) = Some (0, self') \<and>
     sent self' = [5, 0, 5, 0, 0] @ wire_sockaddr sa1234 \<and> inp self' = [] \<and> s_type self' = TYPE_UDP_IN_TCP \<and> v_fd0 self' = 9"
proof -
  let ?self = "server0\<lparr>v_obj := NoObj, s_sock := \<lparr>rx = [Chunk ([5, 1, 0, 5, 5, 0] @ wire_ipv4 [1, 2, 3, 4] 0x5000)], tx = [], txs = [Accept 30]\<rparr>\<rparr>"
  let ?s = "hev_socks5_set_timeout ?self 300000"
  have w: "wire_addr (wire_ipv4 [1, 2, 3, 4] 0x5000)"
    unfolding wire_addr_def by (intro disjI1 exI [of _ "[1, 2, 3, 4]"] exI [of _ "0x5000"]) simp
  have into: "hev_socks5_addr_into_sockaddr6 rs_none (wire_ipv4 [1, 2, 3, 4] 0x5000) \<lparr>sin6_port = 0, sin6_addr = replicate 16 0\<rparr> (s_family ?s)
      = Some (sa1234, FAMILY_IPV4, 0)"
    using into_sockaddr6_ipv4 [of "[1, 2, 3, 4]" "\<lparr>sin6_port = 0, sin6_addr = replicate 16 0\<rparr>" rs_none "0x5000" "[]"]
    by (simp add: sa1234_def)
  have cmd: "command_ok misc_default netc netc bind0 (s_timeout ?s) 5 sa1234 sa1234"
    by (simp add: command_ok_def sock_up_def netc_def)
  have st: "v_obj ?s = NoObj" "sent ?s = []" "tx_room ?s = 30" by (simp_all add: hev_socks5_set_timeout_def server0_def tx_room_def)
  have a: "authenticated ?s tree_al (offer_bytes [0])" using st(1) unfolding authenticated_def by (intro exI [of _ "[0]"]) simp
  have i: "inp ?s = offer_bytes [0] @ [5, 5, 0] @ wire_ipv4 [1, 2, 3, 4] 0x5000 @ []"
    by (simp add: inp_def hev_socks5_set_timeout_def server0_def offer_bytes_def)
  have "auth_reply ?s = [5, 0]" using st(1) by (simp add: auth_reply_def)
  then show ?thesis
    using server_handshake_complete [of ?s ?self misc_default, OF _ disjI2 [OF st(1)] _ a i w into cmd] st
    by (simp add: misc_default_def sa1234_def command_type_def netc_def)
qed

text \<open>C32: The session never loses a descriptor: whatever the client sends and whatever the kernel
  answers, after the handshake of a fresh session, successful or not, destruction closes every
  descriptor the session has opened and the connection itself.\<close>

theorem server_descriptors_closed:
  assumes "s_open self = [s_fd self]" "0 \<le> s_fd self" "v_fd0 self = - 1" "v_fd1 self = - 1"
    and "hev_socks5_server_handshake m rs net net2 b self = Some (r, self')" "hev_socks5_server_destruct self' = Some self''"
  shows "s_open self'' = []"
proof -
  have "fds_ok self" using assms(1-4) by (simp add: fds_ok_def)
  then show ?thesis using server_handshake_fds [OF _ assms(3-5)] destruct_closes [OF _ assms(6)] by blast
qed

theorem server_descriptors_closed_witness:
  "\<exists>self' self''. hev_socks5_server_handshake misc_default rs_none netc netc bind0 (server0\<lparr>v_obj := NoObj\<rparr>) = Some (- 1, self') \<and>
     hev_socks5_server_destruct self' = Some self'' \<and> s_open self'' = []"
proof -
  let ?self = "server0\<lparr>v_obj := NoObj\<rparr>"
  obtain self' where h: "hev_socks5_server_handshake misc_default rs_none netc netc bind0 ?self = Some (- 1, self')"
      "v_obj self' = NoObj" "v_fd0 self' = - 1" "v_fd1 self' = - 1"
    by (simp add: hev_socks5_server_handshake_def hev_socks5_server_auth_def hev_socks5_server_read_auth_method_def
        hev_socks5_server_write_auth_method_def sock_recv_def sock_send_def server0_def hev_socks5_set_timeout_def misc_default_def
        hev_socks5_task_io_yielder_def hev_task_sleep_def size_or_def)
  then obtain self'' where d: "hev_socks5_server_destruct self' = Some self''"
    by (simp add: hev_socks5_server_destruct_def)
  have "s_open ?self = [s_fd ?self]" "0 \<le> s_fd ?self" "v_fd0 ?self = - 1" "v_fd1 ?self = - 1" by (simp_all add: server0_def)
  from server_descriptors_closed [OF this h(1) d] show ?thesis using h d by blast
qed

end
