(* ===== verification/RingBuffer.thy ===== *)
theory RingBuffer
  imports Prelude
begin

text \<open>
  The ring buffer of \<open>misc/hev-ring-buffer.c\<close>, in which a TCP session keeps the
  bytes read from the SOCKS5 server until the client has acknowledged them. All counters are
  64-bit words, as \<open>size_t\<close> is. The theory shows that the buffer is a FIFO of bytes
  in two parts: the bytes handed to the TCP stack by reference and not yet released
  (\<^verbatim>\<open>inflight\<close>) and the bytes not yet handed over (\<^verbatim>\<open>pending\<close>).
\<close>

section \<open>The buffer\<close>

record iovec =
  iov_base :: size_t
  iov_len :: size_t

text \<open>\<open>iov_base\<close> is the offset into \<open>data\<close>: the C code stores
  \<open>self->data + offset\<close>.\<close>

record HevRingBuffer =
  rp :: size_t
  wp :: size_t
  rda_size :: size_t
  use_size :: size_t
  max_size :: size_t
  data :: "byte list"

definition hev_ring_buffer_alloca :: "size_t \<Rightarrow> byte list \<Rightarrow> HevRingBuffer" where
  "hev_ring_buffer_alloca s mem =
     \<lparr>rp = 0, wp = 0, rda_size = 0, use_size = 0, max_size = s, data = mem\<rparr>"

definition hev_ring_buffer_get_max_size :: "HevRingBuffer \<Rightarrow> size_t" where
  "hev_ring_buffer_get_max_size self = max_size self"

definition hev_ring_buffer_get_use_size :: "HevRingBuffer \<Rightarrow> size_t" where
  "hev_ring_buffer_get_use_size self = use_size self"

text \<open>The C function returns the number of entries of \<open>iov\<close> it filled: here, the
  length of the list.\<close>

definition hev_ring_buffer_reading :: "HevRingBuffer \<Rightarrow> iovec list" where
  "hev_ring_buffer_reading self =
     (if rda_size self = 0 then []
      else let upper_size = max_size self - rp self in
        if rda_size self \<le> upper_size
        then [\<lparr>iov_base = rp self, iov_len = rda_size self\<rparr>]
        else [\<lparr>iov_base = rp self, iov_len = upper_size\<rparr>,
              \<lparr>iov_base = 0, iov_len = rda_size self - upper_size\<rparr>])"

text \<open>The remainder by \<open>max_size\<close> is undefined for an empty buffer: \<^term>\<open>None\<close>.\<close>

definition hev_ring_buffer_read_finish :: "HevRingBuffer \<Rightarrow> size_t \<Rightarrow> HevRingBuffer option" where
  "hev_ring_buffer_read_finish self sz =
     (if max_size self = 0 then None
      else Some (self\<lparr>rp := (rp self + sz) mod max_size self,
                      rda_size := rda_size self - sz\<rparr>))"

definition hev_ring_buffer_read_release :: "HevRingBuffer \<Rightarrow> size_t \<Rightarrow> HevRingBuffer" where
  "hev_ring_buffer_read_release self sz =
     (let self = self\<lparr>use_size := use_size self - sz\<rparr> in
      if use_size self = 0 then self\<lparr>rp := 0, wp := 0\<rparr> else self)"

definition hev_ring_buffer_writing :: "HevRingBuffer \<Rightarrow> iovec list" where
  "hev_ring_buffer_writing self =
     (if use_size self = max_size self then []
      else let upper_size = max_size self - wp self;
               spc_size = max_size self - use_size self in
        if spc_size \<le> upper_size
        then [\<lparr>iov_base = wp self, iov_len = spc_size\<rparr>]
        else [\<lparr>iov_base = wp self, iov_len = upper_size\<rparr>,
              \<lparr>iov_base = 0, iov_len = spc_size - upper_size\<rparr>])"

definition hev_ring_buffer_write_finish :: "HevRingBuffer \<Rightarrow> size_t \<Rightarrow> HevRingBuffer option" where
  "hev_ring_buffer_write_finish self sz =
     (if max_size self = 0 then None
      else Some (self\<lparr>wp := (wp self + sz) mod max_size self,
                      use_size := use_size self + sz,
                      rda_size := rda_size self + sz\<rparr>))"

section \<open>Vectored input and output\<close>

text \<open>\<open>readv\<close> stores the bytes it received into the vector's segments in order, and
  \<open>writev\<close> (or a \<open>tcp_write\<close> per segment) takes them from there.\<close>

definition blit :: "byte list \<Rightarrow> nat \<Rightarrow> byte list \<Rightarrow> byte list" where
  "blit mem off bs = take off mem @ bs @ drop (off + length bs) mem"

fun iov_scatter :: "byte list \<Rightarrow> iovec list \<Rightarrow> byte list \<Rightarrow> byte list" where
  "iov_scatter mem [] bs = mem"
| "iov_scatter mem (v # vs) bs =
     iov_scatter (blit mem (unat (iov_base v)) (take (unat (iov_len v)) bs)) vs
       (drop (unat (iov_len v)) bs)"

definition iov_gather :: "byte list \<Rightarrow> iovec list \<Rightarrow> byte list" where
  "iov_gather mem vs = concat (map (\<lambda>v. take (unat (iov_len v)) (drop (unat (iov_base v)) mem)) vs)"

definition iov_room :: "iovec list \<Rightarrow> nat" where
  "iov_room vs = sum_list (map (\<lambda>v. unat (iov_len v)) vs)"

text \<open>The three things the session does with the buffer: fill it from a socket, hand what
  is readable to the TCP stack, and release what the peer acknowledged.\<close>

definition ring_fill :: "HevRingBuffer \<Rightarrow> byte list \<Rightarrow> HevRingBuffer option" where
  "ring_fill self bs =
     hev_ring_buffer_write_finish
       (self\<lparr>data := iov_scatter (data self) (hev_ring_buffer_writing self) bs\<rparr>)
       (of_nat (length bs))"

section \<open>Abstraction and invariant\<close>

definition ring_at :: "HevRingBuffer \<Rightarrow> nat \<Rightarrow> nat \<Rightarrow> byte list" where
  "ring_at b start n = map (\<lambda>i. data b ! ((start + i) mod unat (max_size b))) [0..<n]"

definition held :: "HevRingBuffer \<Rightarrow> nat" where
  "held b = unat (use_size b) - unat (rda_size b)"

definition pending :: "HevRingBuffer \<Rightarrow> byte list" where
  "pending b = ring_at b (unat (rp b)) (unat (rda_size b))"

definition inflight :: "HevRingBuffer \<Rightarrow> byte list" where
  "inflight b = ring_at b (unat (rp b) + unat (max_size b) - held b) (held b)"

definition room :: "HevRingBuffer \<Rightarrow> nat" where
  "room b = unat (max_size b) - unat (use_size b)"

definition ring_inv :: "HevRingBuffer \<Rightarrow> bool" where
  "ring_inv b \<longleftrightarrow>
     length (data b) = unat (max_size b) \<and> 0 < unat (max_size b) \<and>
     unat (max_size b) < 2 ^ 63 \<and> unat (rp b) < unat (max_size b) \<and>
     unat (rda_size b) \<le> unat (use_size b) \<and> unat (use_size b) \<le> unat (max_size b) \<and>
     unat (wp b) = (unat (rp b) + unat (rda_size b)) mod unat (max_size b)"

lemma ring_invD:
  assumes "ring_inv b"
  shows "length (data b) = unat (max_size b)" "0 < unat (max_size b)"
    "unat (max_size b) < 2 ^ 63" "unat (rp b) < unat (max_size b)"
    "unat (rda_size b) \<le> unat (use_size b)" "unat (use_size b) \<le> unat (max_size b)"
    "unat (wp b) < unat (max_size b)" "unat (rda_size b) \<le> unat (max_size b)"
    "max_size b \<noteq> 0"
  using assms by (auto simp: ring_inv_def)

lemma ring_inv_wp:
  "ring_inv b \<Longrightarrow> unat (wp b) = (unat (rp b) + unat (rda_size b)) mod unat (max_size b)"
  by (simp add: ring_inv_def)

lemma ring_alloca_inv:
  assumes "length mem = unat s" "0 < unat s" "unat s < 2 ^ 63"
  shows "ring_inv (hev_ring_buffer_alloca s mem)"
    and "pending (hev_ring_buffer_alloca s mem) = []"
    and "inflight (hev_ring_buffer_alloca s mem) = []"
  using assms
  by (simp_all add: ring_inv_def hev_ring_buffer_alloca_def pending_def inflight_def
      ring_at_def held_def)

lemma ring_at_length [simp]: "length (ring_at b s n) = n"
  by (simp add: ring_at_def)

lemma ring_at_append: "ring_at b s (m + n) = ring_at b s m @ ring_at b (s + m) n"
  by (rule nth_equalityI) (auto simp: ring_at_def nth_append add.assoc)

lemma ring_at_mod: "ring_at b (s mod unat (max_size b)) n = ring_at b s n"
  by (simp add: ring_at_def mod_add_left_eq)

lemma ring_at_straight:
  assumes "length (data b) = unat (max_size b)" "s + n \<le> unat (max_size b)"
  shows "ring_at b s n = take n (drop s (data b))"
  using assms by (intro nth_equalityI) (auto simp: ring_at_def)

lemma reading_gathers_pending:
  assumes inv: "ring_inv b"
  shows "iov_gather (data b) (hev_ring_buffer_reading b) = pending b"
proof -
  note D = ring_invD [OF inv]
  let ?u = "unat (max_size b) - unat (rp b)"
  have u: "unat (max_size b - rp b) = ?u" using D by (simp add: unat_sub_le)
  consider (none) "rda_size b = 0"
    | (one) "rda_size b \<noteq> 0" "unat (rda_size b) \<le> ?u"
    | (two) "rda_size b \<noteq> 0" "?u < unat (rda_size b)" by linarith
  then show ?thesis
  proof cases
    case none
    then show ?thesis
      by (simp add: hev_ring_buffer_reading_def iov_gather_def pending_def ring_at_def)
  next
    case one
    then have "iov_gather (data b) (hev_ring_buffer_reading b) =
        take (unat (rda_size b)) (drop (unat (rp b)) (data b))"
      by (simp add: hev_ring_buffer_reading_def iov_gather_def Let_def word_le_nat_alt u)
    then show ?thesis using one D by (simp add: pending_def ring_at_straight)
  next
    case two
    let ?n = "unat (rda_size b) - ?u"
    have "unat (rda_size b - (max_size b - rp b)) = ?n"
      using two u by (simp add: unat_sub_le)
    then have g: "iov_gather (data b) (hev_ring_buffer_reading b) =
        take ?u (drop (unat (rp b)) (data b)) @ take ?n (data b)"
      using two by (simp add: hev_ring_buffer_reading_def iov_gather_def Let_def word_le_nat_alt u)
    have "pending b = ring_at b (unat (rp b)) (?u + ?n)"
      using two by (simp add: pending_def)
    also have "\<dots> = ring_at b (unat (rp b)) ?u @ ring_at b (unat (rp b) + ?u) ?n"
      by (rule ring_at_append)
    also have "ring_at b (unat (rp b) + ?u) ?n = ring_at b 0 ?n"
      using D ring_at_mod [of b "unat (rp b) + ?u" ?n] by simp
    also have "ring_at b (unat (rp b)) ?u @ ring_at b 0 ?n =
        take ?u (drop (unat (rp b)) (data b)) @ take ?n (data b)"
      using D by (simp add: ring_at_straight)
    finally show ?thesis using g by simp
  qed
qed

lemma reading_segments:
  assumes inv: "ring_inv b"
  shows "\<forall>v \<in> set (hev_ring_buffer_reading b). unat (iov_base v) + unat (iov_len v) \<le> length (data b)"
    and "iov_room (hev_ring_buffer_reading b) = length (pending b)"
    and "hev_ring_buffer_reading b = [] \<longleftrightarrow> pending b = []"
proof -
  note D = ring_invD [OF inv]
  have u: "unat (max_size b - rp b) = unat (max_size b) - unat (rp b)" using D by (simp add: unat_sub_le)
  have l: "length (pending b) = unat (rda_size b)" by (simp add: pending_def)
  have w: "unat (rda_size b - (max_size b - rp b)) = unat (rda_size b) - (unat (max_size b) - unat (rp b))"
    if "\<not> rda_size b \<le> max_size b - rp b"
    using that u by (simp add: unat_sub_le word_le_nat_alt)
  show "\<forall>v \<in> set (hev_ring_buffer_reading b). unat (iov_base v) + unat (iov_len v) \<le> length (data b)"
    using D u w by (auto simp: hev_ring_buffer_reading_def Let_def word_le_nat_alt)
  show "iov_room (hev_ring_buffer_reading b) = length (pending b)"
    using D u w l by (auto simp: hev_ring_buffer_reading_def Let_def word_le_nat_alt iov_room_def)
  have "pending b = [] \<longleftrightarrow> rda_size b = 0" using l by (simp add: word_eq_0_unat flip: length_0_conv)
  then show "hev_ring_buffer_reading b = [] \<longleftrightarrow> pending b = []"
    by (simp add: hev_ring_buffer_reading_def Let_def)
qed

lemma writing_room:
  assumes inv: "ring_inv b"
  shows "iov_room (hev_ring_buffer_writing b) = room b" and "hev_ring_buffer_writing b = [] \<longleftrightarrow> room b = 0"
proof -
  note D = ring_invD [OF inv]
  have up: "unat (max_size b - wp b) = unat (max_size b) - unat (wp b)"
    and sp: "unat (max_size b - use_size b) = room b"
    using D by (simp_all add: unat_sub_le room_def)
  then show "iov_room (hev_ring_buffer_writing b) = room b"
    using unat_sub_le [of "max_size b - wp b" "max_size b - use_size b"]
    by (auto simp: hev_ring_buffer_writing_def Let_def word_le_nat_alt room_def iov_room_def)
  have "use_size b = max_size b \<longleftrightarrow> room b = 0" using D by (auto simp: room_def word_unat_eq_iff)
  then show "hev_ring_buffer_writing b = [] \<longleftrightarrow> room b = 0"
    by (simp add: hev_ring_buffer_writing_def Let_def)
qed

lemma blit_length [simp]:
  "off + length bs \<le> length mem \<Longrightarrow> length (blit mem off bs) = length mem"
  by (simp add: blit_def)

lemma blit_nth:
  "off + length bs \<le> length mem \<Longrightarrow> j < length mem \<Longrightarrow>
     blit mem off bs ! j = (if off \<le> j \<and> j < off + length bs then bs ! (j - off) else mem ! j)"
  by (auto simp: blit_def nth_append)

text \<open>\<open>ring_off m w j\<close> is the distance of cell \<open>j\<close> from the write
  position \<open>w\<close>, going up and around.\<close>

definition ring_off :: "nat \<Rightarrow> nat \<Rightarrow> nat \<Rightarrow> nat" where
  "ring_off m w j = (if w \<le> j then j - w else j + m - w)"

lemma ring_off_mod: "w < m \<Longrightarrow> k < m \<Longrightarrow> ring_off m w ((w + k) mod m) = k"
  by (auto simp: ring_off_def mod_if)

lemma blit_straight:
  assumes "w + length bs \<le> m" "length mem = m" "j < m"
  shows "blit mem w bs ! j = (if ring_off m w j < length bs then bs ! ring_off m w j else mem ! j)"
  using assms by (auto simp: blit_nth ring_off_def)

lemma blit_around:
  assumes w: "w < m" "length mem = m" and bs: "m \<le> w + length bs" "length bs \<le> m"
  defines "out \<equiv> blit (blit mem w (take (m - w) bs)) 0 (drop (m - w) bs)"
  shows "length out = m"
    and "j < m \<Longrightarrow> out ! j =
      (if ring_off m w j < length bs then bs ! ring_off m w j else mem ! j)"
proof -
  have l1: "length (blit mem w (take (m - w) bs)) = m"
    using w bs by (simp add: blit_def)
  then show "length out = m" using w bs by (simp add: out_def)
  assume j: "j < m"
  have "out ! j = (if j < length bs - (m - w) then bs ! (m - w + j)
      else blit mem w (take (m - w) bs) ! j)"
    using j l1 w bs by (simp add: out_def blit_nth [where mem = "blit mem w (take (m - w) bs)"])
  also have "blit mem w (take (m - w) bs) ! j = (if w \<le> j then bs ! (j - w) else mem ! j)"
    using j w bs by (auto simp: blit_nth)
  also have "(if j < length bs - (m - w) then bs ! (m - w + j)
      else if w \<le> j then bs ! (j - w) else mem ! j) =
      (if ring_off m w j < length bs then bs ! ring_off m w j else mem ! j)"
    using j w bs by (auto simp: ring_off_def add.commute)
  finally show "out ! j = (if ring_off m w j < length bs then bs ! ring_off m w j else mem ! j)" .
qed

text \<open>What a scattered write does to every cell of the buffer, whether or not it wraps.\<close>

lemma ring_scatter:
  assumes inv: "ring_inv b" and len: "length bs \<le> room b"
  defines "mem \<equiv> iov_scatter (data b) (hev_ring_buffer_writing b) bs"
    and "off \<equiv> ring_off (unat (max_size b)) (unat (wp b))"
  shows "length mem = unat (max_size b)"
    and "j < unat (max_size b) \<Longrightarrow>
      mem ! j = (if off j < length bs then bs ! off j else data b ! j)"
proof -
  note D = ring_invD [OF inv]
  let ?m = "unat (max_size b)" and ?w = "unat (wp b)" and ?u = "unat (use_size b)"
  have up: "unat (max_size b - wp b) = ?m - ?w" and sp: "unat (max_size b - use_size b) = ?m - ?u"
    using D by (simp_all add: unat_sub_le)
  have n: "length bs \<le> ?m - ?u" using len by (simp add: room_def)
  consider (full) "?u = ?m" | (one) "?u < ?m" "?m - ?u \<le> ?m - ?w"
    | (two) "?u < ?m" "?m - ?w < ?m - ?u" using D by linarith
  then have "length mem = ?m \<and> (\<forall>j < ?m. mem ! j =
      (if off j < length bs then bs ! off j else data b ! j))"
  proof cases
    case full
    then have "hev_ring_buffer_writing b = []" and "bs = []"
      using n by (auto simp: hev_ring_buffer_writing_def word_unat_eq_iff)
    then show ?thesis using D by (simp add: mem_def)
  next
    case one
    have "use_size b \<noteq> max_size b" using one by auto
    then have "mem = blit (data b) ?w bs"
      using one n by (simp add: mem_def hev_ring_buffer_writing_def Let_def word_le_nat_alt up sp)
    moreover have "?w + length bs \<le> ?m" using one n D by linarith
    ultimately show ?thesis using D by (simp add: blit_straight off_def)
  next
    case two
    have ne: "use_size b \<noteq> max_size b" using two by auto
    have "unat (max_size b - use_size b - (max_size b - wp b)) = (?m - ?u) - (?m - ?w)"
      using two up sp unat_sub_le [of "max_size b - wp b" "max_size b - use_size b"] by linarith
    then have mem: "mem = blit (blit (data b) ?w (take (?m - ?w) bs)) 0 (drop (?m - ?w) bs)"
      using two ne n by (simp add: mem_def hev_ring_buffer_writing_def Let_def word_le_nat_alt up sp)
    show ?thesis
    proof (cases "?m \<le> ?w + length bs")
      case True
      then show ?thesis
        using mem D n blit_around [of ?w ?m "data b" bs] by (simp add: off_def)
    next
      case False
      then have "mem = blit (data b) ?w bs" using mem by (simp add: blit_def)
      then show ?thesis
        using D False blit_straight [of ?w bs ?m "data b"] by (simp add: off_def)
    qed
  qed
  then show "length mem = ?m" and "j < ?m \<Longrightarrow>
      mem ! j = (if off j < length bs then bs ! off j else data b ! j)" by auto
qed

text \<open>Positions of the ring relative to the write position.\<close>

lemma wrap_lt: "a < 2 * (m::nat) \<Longrightarrow> a mod m = (if a < m then a else a - m)"
  by (simp add: mod_if)

text \<open>A scattered write within the free space changes no byte the buffer holds, and puts the
  new bytes behind them.\<close>

lemma ring_scatter_cells:
  assumes inv: "ring_inv b" and len: "length bs \<le> room b"
  defines "mem \<equiv> iov_scatter (data b) (hev_ring_buffer_writing b) bs"
    and "m \<equiv> unat (max_size b)"
  shows "k < unat (rda_size b) \<Longrightarrow>
      mem ! ((unat (rp b) + k) mod m) = data b ! ((unat (rp b) + k) mod m)"
    and "k < length bs \<Longrightarrow> mem ! ((unat (rp b) + unat (rda_size b) + k) mod m) = bs ! k"
    and "k < held b \<Longrightarrow> mem ! ((unat (rp b) + m - held b + k) mod m) =
      data b ! ((unat (rp b) + m - held b + k) mod m)"
proof -
  note D = ring_invD [OF inv] and W = ring_inv_wp [OF inv]
  let ?w = "unat (wp b)" and ?u = "unat (use_size b)" and ?r = "unat (rp b)"
    and ?d = "unat (rda_size b)" and ?n = "length bs"
  have n: "?n \<le> m - ?u" using len by (simp add: room_def m_def)
  note D = D [folded m_def] and W = W [folded m_def]
  have cell: "mem ! j = (if k < ?n then bs ! k else data b ! j)"
    if "k < m" "j = (?r + ?d + k) mod m" for j k
  proof -
    have "j = (?w + k) mod m" using that by (simp add: W mod_add_left_eq)
    then show ?thesis
      using that(1) D ring_scatter(2) [OF inv len, of j]
      by (simp add: ring_off_mod mem_def flip: m_def)
  qed
  show "mem ! ((?r + ?d + k) mod m) = bs ! k" if "k < ?n"
    using that D n cell [of k "(?r + ?d + k) mod m"] by simp
  show "mem ! ((?r + k) mod m) = data b ! ((?r + k) mod m)" if k: "k < ?d"
  proof -
    have "?r + ?d + (m - ?d + k) = (?r + k) + m" using D by linarith
    then have "(?r + k) mod m = (?r + ?d + (m - ?d + k)) mod m" by (metis mod_add_self2)
    moreover have "m - ?d + k < m" "\<not> m - ?d + k < ?n" using k D n by linarith+
    ultimately show ?thesis using cell by metis
  qed
  show "mem ! ((?r + m - held b + k) mod m) = data b ! ((?r + m - held b + k) mod m)"
    if k: "k < held b"
  proof -
    have k': "k < ?u - ?d" using k by (simp add: held_def)
    then have "?r + ?d + (m - ?u + k) = ?r + m - held b + k" using D by (simp add: held_def)
    moreover have "m - ?u + k < m" "\<not> m - ?u + k < ?n" using k' D n by linarith+
    ultimately show ?thesis using cell by metis
  qed
qed

lemma ring_scatter_keeps:
  assumes "ring_inv b" "length bs \<le> room b"
  shows "pending (b\<lparr>data := iov_scatter (data b) (hev_ring_buffer_writing b) bs\<rparr>) = pending b"
    and "inflight (b\<lparr>data := iov_scatter (data b) (hev_ring_buffer_writing b) bs\<rparr>) = inflight b"
  using ring_scatter_cells [OF assms]
  by (simp_all add: pending_def inflight_def ring_at_def held_def)

lemma ring_fill_correct:
  assumes inv: "ring_inv b" and len: "length bs \<le> room b"
  shows "\<exists>b'. ring_fill b bs = Some b' \<and> ring_inv b' \<and> pending b' = pending b @ bs \<and>
    inflight b' = inflight b \<and> room b' = room b - length bs"
proof -
  note D = ring_invD [OF inv]
  let ?m = "unat (max_size b)" and ?w = "unat (wp b)" and ?u = "unat (use_size b)"
    and ?r = "unat (rp b)" and ?d = "unat (rda_size b)" and ?n = "length bs"
  let ?mem = "iov_scatter (data b) (hev_ring_buffer_writing b) bs"
  let ?b' = "b\<lparr>data := ?mem, wp := (wp b + of_nat ?n) mod max_size b,
    use_size := use_size b + of_nat ?n, rda_size := rda_size b + of_nat ?n\<rparr>"
  have n: "?n \<le> ?m - ?u" using len by (simp add: room_def)
  have un: "unat (of_nat ?n :: 64 word) = ?n"
    using n D by (intro unat_of_nat_lt) simp
  have uw: "unat ((wp b + of_nat ?n) mod max_size b) = (?w + ?n) mod ?m"
    and uu: "unat (use_size b + of_nat ?n) = ?u + ?n"
    and ud: "unat (rda_size b + of_nat ?n) = ?d + ?n"
    using n D un by (simp_all add: unat_mod unat_add_lt)
  have fill: "ring_fill b bs = Some ?b'"
    using D by (simp add: ring_fill_def hev_ring_buffer_write_finish_def)
  note W = ring_inv_wp [OF inv]
  have inv': "ring_inv ?b'"
    using D n by (simp add: ring_inv_def uw uu ud ring_scatter(1) [OF inv len] W mod_add_left_eq
        add.assoc)
  have "?mem ! ((?r + k) mod ?m) = bs ! (k - ?d)" if "k < ?d + ?n" "\<not> k < ?d" for k
    using ring_scatter_cells(2) [OF inv len, of "k - ?d"] that by simp
  then have "pending ?b' = pending b @ bs"
    using ring_scatter_cells(1) [OF inv len] by (intro nth_equalityI) (auto simp: pending_def ring_at_def ud nth_append)
  moreover have "inflight ?b' = inflight b"
    using ring_scatter_cells(3) [OF inv len] by (simp add: inflight_def ring_at_def held_def uu ud)
  moreover have "room ?b' = room b - ?n"
    by (simp add: room_def uu)
  ultimately show ?thesis using fill inv' by blast
qed

lemma ring_read_finish_correct:
  assumes inv: "ring_inv b" and len: "unat n \<le> length (pending b)"
  shows "\<exists>b'. hev_ring_buffer_read_finish b n = Some b' \<and> ring_inv b' \<and>
    pending b' = drop (unat n) (pending b) \<and>
    inflight b' = inflight b @ take (unat n) (pending b) \<and> room b' = room b"
proof -
  note D = ring_invD [OF inv]
  let ?m = "unat (max_size b)" and ?u = "unat (use_size b)" and ?r = "unat (rp b)"
    and ?d = "unat (rda_size b)" and ?n = "unat n" and ?h = "held b"
  let ?b' = "b\<lparr>rp := (rp b + n) mod max_size b, rda_size := rda_size b - n\<rparr>"
  have n: "?n \<le> ?d" using len by (simp add: pending_def)
  have ur: "unat ((rp b + n) mod max_size b) = (?r + ?n) mod ?m"
    and ud: "unat (rda_size b - n) = ?d - ?n"
    using n D by (simp_all add: unat_mod unat_add_lt unat_sub_le)
  have fin: "hev_ring_buffer_read_finish b n = Some ?b'"
    using D by (simp add: hev_ring_buffer_read_finish_def)
  have "((?r + ?n) mod ?m + (?d - ?n)) mod ?m = (?r + ?d) mod ?m"
    using mod_add_left_eq [of "?r + ?n" ?m "?d - ?n"] n by simp
  then have inv': "ring_inv ?b'"
    using D n ring_inv_wp [OF inv] by (simp add: ring_inv_def ur ud)
  have same: "ring_at ?b' s k = ring_at b s k" for s k
    by (simp add: ring_at_def)
  have split: "pending b = ring_at b ?r ?n @ ring_at b (?r + ?n) (?d - ?n)"
    using n ring_at_append [of b ?r ?n "?d - ?n"] by (simp add: pending_def)
  have pend: "pending ?b' = ring_at b (?r + ?n) (?d - ?n)"
    using ring_at_mod [of b "?r + ?n" "?d - ?n"] by (simp add: pending_def ur ud same)
  have h: "held ?b' = ?h + ?n" using n D by (simp add: held_def ud)
  have "inflight ?b' = ring_at b ((?r + ?n) mod ?m + ?m - (?h + ?n)) (?h + ?n)"
    by (simp add: inflight_def ur h same)
  also have "\<dots> = ring_at b (?r + ?m - ?h) (?h + ?n)"
  proof -
    have "((?r + ?n) mod ?m + ?m - (?h + ?n)) mod ?m = (?r + ?m - ?h) mod ?m"
      using D n by (auto simp: wrap_lt held_def mod_if)
    then show ?thesis by (metis ring_at_mod)
  qed
  also have "\<dots> = inflight b @ ring_at b (?r + ?m - ?h + ?h) ?n"
    by (simp add: ring_at_append inflight_def)
  also have "ring_at b (?r + ?m - ?h + ?h) ?n = ring_at b ?r ?n"
    using ring_at_mod [of b "?r + ?m" ?n] ring_at_mod [of b ?r ?n] D by (simp add: held_def)
  finally have infl: "inflight ?b' = inflight b @ ring_at b ?r ?n" .
  have "room ?b' = room b" by (simp add: room_def)
  then show ?thesis using fin inv' pend infl split by simp
qed

lemma ring_read_release_correct:
  assumes inv: "ring_inv b" and len: "unat n \<le> length (inflight b)"
  shows "ring_inv (hev_ring_buffer_read_release b n)"
    and "pending (hev_ring_buffer_read_release b n) = pending b"
    and "inflight (hev_ring_buffer_read_release b n) = drop (unat n) (inflight b)"
    and "room (hev_ring_buffer_read_release b n) = room b + unat n"
proof -
  note D = ring_invD [OF inv]
  let ?m = "unat (max_size b)" and ?u = "unat (use_size b)" and ?r = "unat (rp b)"
    and ?d = "unat (rda_size b)" and ?n = "unat n" and ?h = "held b"
  have n: "?n \<le> ?u - ?d" "?n \<le> ?h" using len by (simp_all add: inflight_def held_def)
  have uu: "unat (use_size b - n) = ?u - ?n" using n D by (simp add: unat_sub_le)
  have z: "use_size b - n = 0 \<longleftrightarrow> ?u = ?n" using uu n by (auto simp: word_eq_0_unat)
  have infl: "inflight b = ring_at b (?r + ?m - ?h) ?n @ ring_at b (?r + ?m - ?h + ?n) (?h - ?n)"
    using n ring_at_append [of b "?r + ?m - ?h" ?n "?h - ?n"]
    by (simp add: inflight_def held_def [symmetric] del: diff_diff_left)
  have same: "ring_at (b\<lparr>use_size := x\<rparr>) s k = ring_at b s k" for x s k
    by (simp add: ring_at_def)
  show "ring_inv (hev_ring_buffer_read_release b n)"
    using D n uu z ring_inv_wp [OF inv] by (auto simp: ring_inv_def hev_ring_buffer_read_release_def Let_def)
  show "pending (hev_ring_buffer_read_release b n) = pending b"
    using D n z by (auto simp: pending_def ring_at_def hev_ring_buffer_read_release_def Let_def)
  show "room (hev_ring_buffer_read_release b n) = room b + ?n"
    using D n uu z by (auto simp: room_def hev_ring_buffer_read_release_def Let_def)
  show "inflight (hev_ring_buffer_read_release b n) = drop ?n (inflight b)"
  proof (cases "use_size b - n = 0")
    case True
    then have "?u = ?n" "?d = 0" using z n D by linarith+
    then show ?thesis
      using uu True by (simp add: inflight_def held_def hev_ring_buffer_read_release_def Let_def
          ring_at_def)
  next
    case False
    have "?r + ?m - (?u - ?n - ?d) = ?r + ?m - ?h + ?n"
      using n D by (simp add: held_def)
    then show ?thesis
      using False uu infl n by (simp add: hev_ring_buffer_read_release_def Let_def inflight_def [of "b\<lparr>use_size := _\<rparr>"]
          held_def same diff_right_commute add.commute)
  qed
qed

section \<open>Refinement of a byte queue\<close>

text \<open>The abstract buffer: a bounded queue of bytes whose front part has been handed out.\<close>

record fifo =
  f_inflight :: "byte list"
  f_pending :: "byte list"
  f_room :: nat

datatype ring_op = Fill "byte list" | Hand size_t | Release size_t

fun ring_step :: "HevRingBuffer \<Rightarrow> ring_op \<Rightarrow> HevRingBuffer option" where
  "ring_step b (Fill bs) = ring_fill b bs"
| "ring_step b (Hand n) = hev_ring_buffer_read_finish b n"
| "ring_step b (Release n) = Some (hev_ring_buffer_read_release b n)"

fun fifo_step :: "fifo \<Rightarrow> ring_op \<Rightarrow> fifo option" where
  "fifo_step f (Fill bs) =
     (if length bs \<le> f_room f
      then Some (f\<lparr>f_pending := f_pending f @ bs, f_room := f_room f - length bs\<rparr>) else None)"
| "fifo_step f (Hand n) =
     (if unat n \<le> length (f_pending f)
      then Some (f\<lparr>f_inflight := f_inflight f @ take (unat n) (f_pending f),
                   f_pending := drop (unat n) (f_pending f)\<rparr>) else None)"
| "fifo_step f (Release n) =
     (if unat n \<le> length (f_inflight f)
      then Some (f\<lparr>f_inflight := drop (unat n) (f_inflight f), f_room := f_room f + unat n\<rparr>)
      else None)"

definition ring_abs :: "HevRingBuffer \<Rightarrow> fifo" where
  "ring_abs b = \<lparr>f_inflight = inflight b, f_pending = pending b, f_room = room b\<rparr>"

interpretation ring: data_refinement ring_step fifo_step ring_inv ring_abs
proof
  fix b :: HevRingBuffer and a' op
  assume inv: "ring_inv b" and a: "fifo_step (ring_abs b) op = Some a'"
  show "\<exists>b'. ring_step b op = Some b' \<and> ring_inv b' \<and> ring_abs b' = a'"
  proof (cases op)
    case (Fill bs)
    then show ?thesis using a ring_fill_correct [OF inv, of bs]
      by (auto simp: ring_abs_def split: if_splits)
  next
    case (Hand n)
    then show ?thesis using a ring_read_finish_correct [OF inv, of n]
      by (auto simp: ring_abs_def split: if_splits)
  next
    case (Release n)
    then show ?thesis using a ring_read_release_correct [OF inv, of n]
      by (auto simp: ring_abs_def split: if_splits)
  qed
qed

text \<open>Everything that was put in and everything that was released, over a sequence of
  operations.\<close>

fun filled :: "ring_op list \<Rightarrow> byte list" where
  "filled [] = []"
| "filled (Fill bs # ops) = bs @ filled ops"
| "filled (_ # ops) = filled ops"

fun released :: "ring_op list \<Rightarrow> nat" where
  "released [] = 0"
| "released (Release n # ops) = unat n + released ops"
| "released (_ # ops) = released ops"

lemma filled_Cons: "filled (op # ops) = filled [op] @ filled ops"
  by (cases op) auto

lemma released_Cons: "released (op # ops) = released [op] + released ops"
  by (cases op) auto

lemma fifo_step_stream:
  assumes "fifo_step f op = Some g"
  shows "released [op] \<le> length (f_inflight f)"
    and "f_inflight g @ f_pending g = drop (released [op]) (f_inflight f) @ f_pending f @ filled [op]"
  using assms by (cases op; auto split: if_splits)+

lemma fifo_run_stream:
  "run fifo_step f ops = Some f' \<Longrightarrow>
     f_inflight f' @ f_pending f' = drop (released ops) (f_inflight f @ f_pending f @ filled ops)"
proof (induction ops arbitrary: f)
  case Nil
  then show ?case by simp
next
  case (Cons op ops)
  then obtain g where g: "fifo_step f op = Some g" and r: "run fifo_step g ops = Some f'"
    by (auto split: option.splits)
  have "f_inflight f' @ f_pending f' = drop (released ops) ((f_inflight g @ f_pending g) @ filled ops)"
    using Cons.IH [OF r] by simp
  also have "(f_inflight g @ f_pending g) @ filled ops =
      drop (released [op]) (f_inflight f @ f_pending f @ filled (op # ops))"
    using fifo_step_stream [OF g] by (simp only: filled_Cons [of op ops]) simp
  finally show ?case
    by (simp only: released_Cons [of op ops] drop_drop add.commute [of "released [op]"])
qed

section \<open>Properties\<close>

text \<open>C6: what a session puts into the ring buffer comes out in order, once and unchanged.
  From a freshly allocated buffer, any sequence of fills within the free space, hand-overs
  of readable bytes and releases of handed-over bytes succeeds in the C code's
  arithmetic on \<open>size_t\<close>, and afterwards the bytes still held (first those handed to
  the TCP stack by reference, then those not yet handed over) are exactly the bytes filled
  in so far without the ones released.\<close>

theorem ring_stream_integrity:
  assumes "length mem = unat s" "0 < unat s" "unat s < 2 ^ 63"
    and "run fifo_step (ring_abs (hev_ring_buffer_alloca s mem)) ops = Some f"
  shows "\<exists>b. run ring_step (hev_ring_buffer_alloca s mem) ops = Some b \<and> ring_inv b \<and>
    ring_abs b = f \<and> inflight b @ pending b = drop (released ops) (filled ops)"
proof -
  obtain b where b: "run ring_step (hev_ring_buffer_alloca s mem) ops = Some b" "ring_inv b"
      "ring_abs b = f"
    using ring.run_refines [OF ring_alloca_inv(1) [OF assms(1-3)] assms(4)] by blast
  have "f_inflight f @ f_pending f = drop (released ops) (filled ops)"
    using fifo_run_stream [OF assms(4)] ring_alloca_inv(2,3) [OF assms(1-3)]
    by (simp add: ring_abs_def)
  then show ?thesis using b by (auto simp: ring_abs_def)
qed

theorem ring_stream_integrity_witness:
  "\<exists>b. run ring_step (hev_ring_buffer_alloca 4 [0, 0, 0, 0])
       [Fill [1, 2, 3], Hand 2, Release 2, Fill [4, 5, 6], Hand 3] = Some b \<and>
     inflight b @ pending b = [3, 4, 5, 6]"
proof -
  let ?ops = "[Fill [1, 2, 3], Hand 2, Release 2, Fill [4, 5, 6], Hand 3]"
  have "ring_abs (hev_ring_buffer_alloca 4 [0, 0, 0, 0]) =
      \<lparr>f_inflight = [], f_pending = [], f_room = 4\<rparr>"
    by (simp add: ring_abs_def hev_ring_buffer_alloca_def inflight_def pending_def room_def
        ring_at_def held_def)
  moreover have "run fifo_step \<lparr>f_inflight = [], f_pending = [], f_room = 4\<rparr> ?ops =
      Some \<lparr>f_inflight = [3, 4, 5], f_pending = [6], f_room = 0\<rparr>"
    by simp
  ultimately obtain b where "run ring_step (hev_ring_buffer_alloca 4 [0, 0, 0, 0]) ?ops = Some b"
      "inflight b @ pending b = drop (released ?ops) (filled ?ops)"
    using ring_stream_integrity [of "[0, 0, 0, 0]" 4 ?ops] by auto
  moreover have "drop (released ?ops) (filled ?ops) = [3, 4, 5, 6]" by simp
  ultimately show ?thesis by auto
qed

text \<open>The segments that \<open>hev_ring_buffer_reading\<close> returns cover the bytes not
  yet handed over, in order and completely, and the segments of
  \<open>hev_ring_buffer_writing\<close> cover the free space and nothing else: a vectored read
  into them leaves every byte held, also those the TCP stack still refers to, unchanged.\<close>

theorem ring_segments_exact:
  assumes "ring_inv b"
  shows "iov_gather (data b) (hev_ring_buffer_reading b) = pending b \<and>
    (\<Sum>v \<leftarrow> hev_ring_buffer_writing b. unat (iov_len v)) = room b \<and>
    (\<forall>bs. length bs \<le> room b \<longrightarrow>
       (let b' = b\<lparr>data := iov_scatter (data b) (hev_ring_buffer_writing b) bs\<rparr> in
        pending b' = pending b \<and> inflight b' = inflight b))"
proof (intro conjI allI impI)
  show "iov_gather (data b) (hev_ring_buffer_reading b) = pending b"
    by (rule reading_gathers_pending [OF assms])
  note D = ring_invD [OF assms]
  have up: "unat (max_size b - wp b) = unat (max_size b) - unat (wp b)"
    and sp: "unat (max_size b - use_size b) = room b"
    using D by (simp_all add: unat_sub_le room_def)
  then show "(\<Sum>v \<leftarrow> hev_ring_buffer_writing b. unat (iov_len v)) = room b"
    using unat_sub_le [of "max_size b - wp b" "max_size b - use_size b"]
    by (auto simp: hev_ring_buffer_writing_def Let_def word_le_nat_alt room_def)
  fix bs :: "byte list"
  assume "length bs \<le> room b"
  then show "let b' = b\<lparr>data := iov_scatter (data b) (hev_ring_buffer_writing b) bs\<rparr> in
      pending b' = pending b \<and> inflight b' = inflight b"
    using ring_scatter_keeps [OF assms] by (simp add: Let_def)
qed

theorem ring_segments_exact_witness:
  "let b = hev_ring_buffer_alloca 2 [7, 8] in
     (\<Sum>v \<leftarrow> hev_ring_buffer_writing b. unat (iov_len v)) = 2 \<and>
     iov_gather (data b) (hev_ring_buffer_reading b) = []"
proof -
  have "ring_inv (hev_ring_buffer_alloca 2 [7, 8])"
    by (rule ring_alloca_inv) simp_all
  then show ?thesis
    using ring_segments_exact [of "hev_ring_buffer_alloca 2 [7, 8]"]
    by (simp add: Let_def hev_ring_buffer_alloca_def room_def pending_def ring_at_def)
qed

end
