(* ===== verification/CircularBuffer.thy ===== *)
theory CircularBuffer
  imports RingBuffer
begin

text \<open>
  The circular buffer of the task library, \<open>lib/io/buffer/hev-circular-buffer.c\<close>, which the TCP
  relay of the core uses where the kernel has no \<open>splice\<close>. It keeps no write position and no
  bytes in flight. The theory shows that it is the ring buffer of the sessions with nothing in
  flight, and takes its correctness from there.
\<close>

section \<open>The buffer\<close>

text \<open>\<open>cb_ptr\<close> is the address that the allocator returned.\<close>

record HevCircularBuffer =
  cb_ptr :: int
  cb_rp :: size_t
  cb_use :: size_t
  cb_max :: size_t
  cb_ref :: "32 word"
  cb_data :: "byte list"

text \<open>The allocator is an argument: an address and the content of the memory there, or nothing. The
  list is the memory that is allocated.\<close>

definition hev_circular_buffer_new ::
  "(int \<times> byte list) option \<Rightarrow> size_t \<Rightarrow> int list \<Rightarrow> HevCircularBuffer option \<times> int list" where
  "hev_circular_buffer_new mem sz heap =
     (case mem of
        None \<Rightarrow> (None, heap)
      | Some (p, bs) \<Rightarrow>
          (Some \<lparr>cb_ptr = p, cb_rp = 0, cb_use = 0, cb_max = sz, cb_ref = 1, cb_data = bs\<rparr>, p # heap))"

definition hev_circular_buffer_ref :: "HevCircularBuffer \<Rightarrow> HevCircularBuffer" where
  "hev_circular_buffer_ref self = self\<lparr>cb_ref := cb_ref self + 1\<rparr>"

definition hev_circular_buffer_unref :: "HevCircularBuffer \<Rightarrow> int list \<Rightarrow> HevCircularBuffer \<times> int list" where
  "hev_circular_buffer_unref self heap =
     (let self = self\<lparr>cb_ref := cb_ref self - 1\<rparr> in
      if cb_ref self \<noteq> 0 then (self, heap) else (self, remove1 (cb_ptr self) heap))"

definition hev_circular_buffer_get_max_size :: "HevCircularBuffer \<Rightarrow> size_t" where
  "hev_circular_buffer_get_max_size self = cb_max self"

definition hev_circular_buffer_get_use_size :: "HevCircularBuffer \<Rightarrow> size_t" where
  "hev_circular_buffer_get_use_size self = cb_use self"

definition hev_circular_buffer_reading :: "HevCircularBuffer \<Rightarrow> iovec list" where
  "hev_circular_buffer_reading self =
     (let upper_size = cb_max self - cb_rp self in
      if cb_use self = 0 then []
      else if cb_use self \<le> upper_size then [\<lparr>iov_base = cb_rp self, iov_len = cb_use self\<rparr>]
      else [\<lparr>iov_base = cb_rp self, iov_len = upper_size\<rparr>, \<lparr>iov_base = 0, iov_len = cb_use self - upper_size\<rparr>])"

definition hev_circular_buffer_read_finish :: "HevCircularBuffer \<Rightarrow> size_t \<Rightarrow> HevCircularBuffer option" where
  "hev_circular_buffer_read_finish self sz =
     (if cb_max self = 0 then None
      else Some (self\<lparr>cb_rp := (cb_rp self + sz) mod cb_max self, cb_use := cb_use self - sz\<rparr>))"

definition hev_circular_buffer_writing :: "HevCircularBuffer \<Rightarrow> iovec list option" where
  "hev_circular_buffer_writing self =
     (if cb_max self = 0 then None
      else
        let wp = (cb_rp self + cb_use self) mod cb_max self;
            upper_size = cb_max self - wp;
            spc_size = cb_max self - cb_use self
        in Some (if cb_use self = cb_max self then []
             else if spc_size \<le> upper_size then [\<lparr>iov_base = wp, iov_len = spc_size\<rparr>]
             else [\<lparr>iov_base = wp, iov_len = upper_size\<rparr>, \<lparr>iov_base = 0, iov_len = spc_size - upper_size\<rparr>]))"

definition hev_circular_buffer_write_finish :: "HevCircularBuffer \<Rightarrow> size_t \<Rightarrow> HevCircularBuffer" where
  "hev_circular_buffer_write_finish self sz = self\<lparr>cb_use := cb_use self + sz\<rparr>"

section \<open>A ring with nothing in flight\<close>

definition as_ring :: "HevCircularBuffer \<Rightarrow> HevRingBuffer" where
  "as_ring b =
     \<lparr>rp = cb_rp b, wp = (cb_rp b + cb_use b) mod cb_max b, rda_size = cb_use b, use_size = cb_use b,
      max_size = cb_max b, data = cb_data b\<rparr>"

definition cb_inv :: "HevCircularBuffer \<Rightarrow> bool" where
  "cb_inv b \<longleftrightarrow>
     length (cb_data b) = unat (cb_max b) \<and> 0 < unat (cb_max b) \<and> unat (cb_max b) < 2 ^ 63 \<and>
     unat (cb_rp b) < unat (cb_max b) \<and> unat (cb_use b) \<le> unat (cb_max b)"

definition cb_stored :: "HevCircularBuffer \<Rightarrow> byte list" where
  "cb_stored b = pending (as_ring b)"

lemma as_ring_sel [simp]:
  "rp (as_ring b) = cb_rp b" "wp (as_ring b) = (cb_rp b + cb_use b) mod cb_max b" "rda_size (as_ring b) = cb_use b"
  "use_size (as_ring b) = cb_use b" "max_size (as_ring b) = cb_max b" "data (as_ring b) = cb_data b"
  by (simp_all add: as_ring_def)

lemma cb_inv_ring: "cb_inv b \<longleftrightarrow> ring_inv (as_ring b)"
proof -
  have "unat ((cb_rp b + cb_use b) mod cb_max b) = (unat (cb_rp b) + unat (cb_use b)) mod unat (cb_max b)"
    if "cb_inv b"
    using that by (simp add: cb_inv_def unat_mod unat_add_lt)
  then show ?thesis by (auto simp: cb_inv_def ring_inv_def)
qed

lemma cb_reading_ring: "hev_circular_buffer_reading b = hev_ring_buffer_reading (as_ring b)"
  by (simp add: hev_circular_buffer_reading_def hev_ring_buffer_reading_def Let_def)

lemma cb_writing_ring: "cb_max b \<noteq> 0 \<Longrightarrow> hev_circular_buffer_writing b = Some (hev_ring_buffer_writing (as_ring b))"
  by (simp add: hev_circular_buffer_writing_def hev_ring_buffer_writing_def Let_def)

lemma cb_max_pos: "cb_inv b \<Longrightarrow> cb_max b \<noteq> 0"
  by (auto simp: cb_inv_def)

lemma length_cb_stored: "length (cb_stored b) = unat (cb_use b)"
  by (simp add: cb_stored_def pending_def)

text \<open>Filling the buffer, as \<open>readv\<close> does, and emptying it, as \<open>writev\<close> does.\<close>

lemma cb_fill:
  assumes "cb_inv b" "length bs \<le> unat (cb_max b) - unat (cb_use b)"
  defines "b' \<equiv> hev_circular_buffer_write_finish
    (b\<lparr>cb_data := iov_scatter (cb_data b) (hev_ring_buffer_writing (as_ring b)) bs\<rparr>) (of_nat (length bs))"
  shows "cb_inv b'" "cb_stored b' = cb_stored b @ bs"
proof -
  have room: "length bs \<le> room (as_ring b)" using assms(2) by (simp add: room_def)
  obtain r where r: "ring_fill (as_ring b) bs = Some r" "ring_inv r" "pending r = pending (as_ring b) @ bs"
    using ring_fill_correct [OF assms(1) [unfolded cb_inv_ring] room] by blast
  have d: "length (iov_scatter (cb_data b) (hev_ring_buffer_writing (as_ring b)) bs) = unat (cb_max b)"
    using ring_scatter(1) [OF assms(1) [unfolded cb_inv_ring] room] by simp
  have n: "unat (of_nat (length bs) :: size_t) = length bs"
    using assms(1,2) by (intro unat_of_nat_lt) (auto simp: cb_inv_def)
  have "unat (cb_use b + of_nat (length bs)) = unat (cb_use b) + length bs"
    using assms(1,2) n unat_add_lt [of "cb_use b" "of_nat (length bs)"] by (auto simp: cb_inv_def)
  then show "cb_inv b'"
    using assms(1,2) d by (auto simp: cb_inv_def b'_def hev_circular_buffer_write_finish_def)
  have "rp r = rp (as_ring b')" "rda_size r = rda_size (as_ring b')" "max_size r = max_size (as_ring b')"
      "data r = data (as_ring b')"
    using r(1) by (auto simp: ring_fill_def hev_ring_buffer_write_finish_def b'_def hev_circular_buffer_write_finish_def
        split: if_splits)
  then have "pending (as_ring b') = pending r" by (simp add: pending_def ring_at_def)
  then show "cb_stored b' = cb_stored b @ bs" using r(3) by (simp add: cb_stored_def)
qed

lemma cb_drain:
  assumes "cb_inv b" "n \<le> length (cb_stored b)"
  obtains b' where "hev_circular_buffer_read_finish b (of_nat n) = Some b'" "cb_inv b'"
    "cb_stored b' = drop n (cb_stored b)" "cb_ptr b' = cb_ptr b" "cb_ref b' = cb_ref b"
proof -
  have n: "unat (of_nat n :: size_t) = n"
    using assms by (intro unat_of_nat_lt) (auto simp: cb_inv_def length_cb_stored)
  let ?b = "b\<lparr>cb_rp := (cb_rp b + of_nat n) mod cb_max b, cb_use := cb_use b - of_nat n\<rparr>"
  obtain r where r: "hev_ring_buffer_read_finish (as_ring b) (of_nat n) = Some r" "ring_inv r"
      "pending r = drop n (pending (as_ring b))"
    using ring_read_finish_correct [OF assms(1) [unfolded cb_inv_ring], of "of_nat n"] assms(2) n
    by (auto simp: cb_stored_def)
  have f: "r = (as_ring b)\<lparr>rp := (cb_rp b + of_nat n) mod cb_max b, rda_size := cb_use b - of_nat n\<rparr>"
    using r(1) by (auto simp: hev_ring_buffer_read_finish_def split: if_splits)
  then have "pending (as_ring ?b) = pending r" by (simp add: pending_def ring_at_def)
  then have "cb_stored ?b = drop n (cb_stored b)" using r(3) by (simp add: cb_stored_def)
  moreover have "cb_inv ?b"
    using ring_invD [OF r(2)] assms n by (simp add: cb_inv_def f length_cb_stored unat_sub_le)
  ultimately show ?thesis
    using that [of ?b] cb_max_pos [OF assms(1)] by (simp add: hev_circular_buffer_read_finish_def)
qed

end
