(* ===== verification/StreamRelay.thy ===== *)
theory StreamRelay
  imports CircularBuffer Socks5
begin

text \<open>
  The relay between two streams: \<open>hev_task_io_splice\<close> of the task library
  (\<open>lib/io/basic/hev-task-io.c\<close>) and \<open>hev_socks5_tcp_splicer\<close> of the core
  (\<open>core/src/hev-socks5-tcp.c\<close>), which a server session runs between its client and the target.
  The library has two splicers, one that moves data through a pipe in the kernel and one that copies
  through a circular buffer; the loop and its correctness are independent of the choice.
\<close>

section \<open>System calls that do not wait\<close>

text \<open>The results are the return value, whether \<open>errno\<close> is \<open>EAGAIN\<close>, the data, and the rest of the
  script. A stream that has ended, or failed, gives no data any more.\<close>

fun sys_readv :: "nat \<Rightarrow> rx_event list \<Rightarrow> int \<times> bool \<times> byte list \<times> rx_event list" where
  "sys_readv len [] = (0, False, [], [])"
| "sys_readv len (RxError # evs) = (- 1, False, [], [])"
| "sys_readv len (RxAgain left # evs) = (- 1, True, [], evs)"
| "sys_readv len (Chunk bs # evs) =
     (let n = min len (length bs) in
      if bs = [] then (0, False, [], [])
      else (int n, False, take n bs, if n < length bs then Chunk (drop n bs) # evs else evs))"

fun sys_writev :: "byte list \<Rightarrow> sock \<Rightarrow> int \<times> bool \<times> sock" where
  "sys_writev bs s =
     (case txs s of
        [] \<Rightarrow> (- 1, False, s)
      | TxError # evs \<Rightarrow> (- 1, False, s\<lparr>txs := evs\<rparr>)
      | TxAgain left # evs \<Rightarrow> (- 1, True, s\<lparr>txs := evs\<rparr>)
      | Accept k # evs \<Rightarrow>
          let n = min k (length bs) in
          (int n, False, s\<lparr>tx := tx s @ take n bs, txs := if n < k then Accept (k - n) # evs else evs\<rparr>))"

text \<open>The end of one direction: the socket it writes to and whether it was shut down for writing.\<close>

record sink =
  s_out :: sock
  s_shut :: bool

section \<open>The splicer on a circular buffer\<close>

definition io_failed :: "int \<Rightarrow> bool \<Rightarrow> int" where
  "io_failed s again = (if s < 0 \<and> again then 0 else - 1)"

definition task_io_splicer_init_buf ::
  "(int \<times> byte list) option \<Rightarrow> size_t \<Rightarrow> int list \<Rightarrow> HevCircularBuffer option \<times> int list" where
  "task_io_splicer_init_buf mem buf_size heap = hev_circular_buffer_new mem buf_size heap"

definition task_io_splicer_fini_buf :: "HevCircularBuffer \<Rightarrow> int list \<Rightarrow> int list" where
  "task_io_splicer_fini_buf buf heap = snd (hev_circular_buffer_unref buf heap)"

definition task_io_splice_buf ::
  "HevCircularBuffer \<Rightarrow> rx_event list \<Rightarrow> sink \<Rightarrow> (int \<times> HevCircularBuffer \<times> rx_event list \<times> sink) option" where
  "task_io_splice_buf buf fd_in fd_out = do {
     iov \<leftarrow> hev_circular_buffer_writing buf;
     let (res, buf, fd_in) =
       (if iov = [] then (1, buf, fd_in)
        else case sys_readv (iov_room iov) fd_in of (s, again, bs, fd_in) \<Rightarrow>
          if s \<le> 0 then (io_failed s again, buf, fd_in)
          else (1, hev_circular_buffer_write_finish (buf\<lparr>cb_data := iov_scatter (cb_data buf) iov bs\<rparr>) (of_int s), fd_in));
     let iov = hev_circular_buffer_reading buf;
     if iov \<noteq> [] then
       (case sys_writev (iov_gather (cb_data buf) iov) (s_out fd_out) of (s, again, out) \<Rightarrow>
          let fd_out = fd_out\<lparr>s_out := out\<rparr> in
          if s \<le> 0 then Some (io_failed s again, buf, fd_in, fd_out)
          else do { buf \<leftarrow> hev_circular_buffer_read_finish buf (of_int s); Some (1, buf, fd_in, fd_out) })
     else if res < 0 then Some (res, buf, fd_in, fd_out\<lparr>s_shut := True\<rparr>)
     else Some (res, buf, fd_in, fd_out) }"

section \<open>The splicer on a pipe\<close>

text \<open>\<open>p_data\<close> is what the pipe holds and \<open>p_room\<close> what it has room for at the next calls, in bytes;
  the kernel counts pages, so this is not determined by the data. A pipe never holds more than its
  size, which \<open>init\<close> asks for, and an empty pipe has room.\<close>

record splice_pipe =
  p_fd0 :: int
  p_fd1 :: int
  p_wlen :: size_t
  p_blen :: size_t
  p_data :: "byte list"
  p_room :: "nat list"

record pipe_env =
  e_pipe2 :: "(int \<times> int) option"
  e_add0 :: bool
  e_add1 :: bool
  e_size :: size_t
  e_room :: "nat list"

definition task_io_splicer_init_pipe :: "pipe_env \<Rightarrow> int list \<Rightarrow> splice_pipe option \<times> int list" where
  "task_io_splicer_init_pipe env fds =
     (case e_pipe2 env of
        None \<Rightarrow> (None, fds)
      | Some (a, b) \<Rightarrow>
          let fds' = a # b # fds in
          if \<not> e_add0 env then (None, remove1 b (remove1 a fds'))
          else if \<not> e_add1 env then (None, remove1 b (remove1 a fds'))
          else (Some \<lparr>p_fd0 = a, p_fd1 = b, p_wlen = 0, p_blen = e_size env, p_data = [], p_room = e_room env\<rparr>, fds'))"

definition task_io_splicer_fini_pipe :: "splice_pipe \<Rightarrow> int list \<Rightarrow> int list" where
  "task_io_splicer_fini_pipe self fds = remove1 (p_fd1 self) (remove1 (p_fd0 self) fds)"

definition pipe_space :: "splice_pipe \<Rightarrow> nat" where
  "pipe_space self =
     (let free = unat (p_blen self) - length (p_data self) in
      case p_room self of [] \<Rightarrow> free | r # rs \<Rightarrow> min free (if p_data self = [] then max 1 r else r))"

text \<open>\<open>splice\<close> from a socket into the pipe.\<close>

definition splice_in ::
  "splice_pipe \<Rightarrow> rx_event list \<Rightarrow> int \<times> bool \<times> splice_pipe \<times> rx_event list" where
  "splice_in self fd_in =
     (let space = pipe_space self; self = self\<lparr>p_room := tl (p_room self)\<rparr> in
      if space = 0 then (- 1, True, self, fd_in)
      else case sys_readv (min (unat (p_blen self)) space) fd_in of (s, again, bs, fd_in) \<Rightarrow>
        (s, again, self\<lparr>p_data := p_data self @ bs\<rparr>, fd_in))"

text \<open>\<open>splice\<close> from the pipe to a socket.\<close>

definition splice_out :: "splice_pipe \<Rightarrow> sock \<Rightarrow> int \<times> bool \<times> splice_pipe \<times> sock" where
  "splice_out self out =
     (case sys_writev (take (unat (p_blen self)) (p_data self)) out of (s, again, out) \<Rightarrow>
        (s, again, self\<lparr>p_data := drop (nat s) (p_data self)\<rparr>, out))"

definition task_io_splice_pipe ::
  "splice_pipe \<Rightarrow> rx_event list \<Rightarrow> sink \<Rightarrow> (int \<times> splice_pipe \<times> rx_event list \<times> sink) option" where
  "task_io_splice_pipe self fd_in fd_out =
     (case splice_in self fd_in of (s, again, self, fd_in) \<Rightarrow>
      let (res, self) = (if s \<le> 0 then (io_failed s again, self) else (1, self\<lparr>p_wlen := p_wlen self + of_int s\<rparr>)) in
      if p_wlen self \<noteq> 0 then
        (case splice_out self (s_out fd_out) of (s, again, self, out) \<Rightarrow>
           let fd_out = fd_out\<lparr>s_out := out\<rparr> in
           if s \<le> 0 then Some (io_failed s again, self, fd_in, fd_out)
           else Some (1, self\<lparr>p_wlen := p_wlen self - of_int s\<rparr>, fd_in, fd_out))
      else if res < 0 then Some (res, self, fd_in, fd_out\<lparr>s_shut := True\<rparr>)
      else Some (res, self, fd_in, fd_out))"

section \<open>The loop\<close>

text \<open>Socket \<open>a\<close> and socket \<open>b\<close>, each with what can still be read from it and the end it is for the
  other direction. \<open>yields\<close> counts the calls of the yielder.\<close>

record 'b relay =
  r_buf_f :: 'b
  r_buf_b :: 'b
  r_in_a :: "rx_event list"
  r_in_b :: "rx_event list"
  r_out_a :: sink
  r_out_b :: sink
  r_res_f :: int
  r_res_b :: int
  yields :: nat

type_synonym 'b splice_fn = "'b \<Rightarrow> rx_event list \<Rightarrow> sink \<Rightarrow> (int \<times> 'b \<times> rx_event list \<times> sink) option"

definition splice_forward :: "'b splice_fn \<Rightarrow> 'b relay \<Rightarrow> 'b relay option" where
  "splice_forward move r =
     (if 0 \<le> r_res_f r then do {
        (res, buf, fd_in, fd_out) \<leftarrow> move (r_buf_f r) (r_in_a r) (r_out_b r);
        Some (r\<lparr>r_res_f := res, r_buf_f := buf, r_in_a := fd_in, r_out_b := fd_out\<rparr>) }
      else Some r)"

definition splice_backward :: "'b splice_fn \<Rightarrow> 'b relay \<Rightarrow> 'b relay option" where
  "splice_backward move r =
     (if 0 \<le> r_res_b r then do {
        (res, buf, fd_in, fd_out) \<leftarrow> move (r_buf_b r) (r_in_b r) (r_out_a r);
        Some (r\<lparr>r_res_b := res, r_buf_b := buf, r_in_b := fd_in, r_out_a := fd_out\<rparr>) }
      else Some r)"

text \<open>The yielder is given the kind of the wait and, for the schedule, the number of the call; a
  nonzero answer ends the loop. Without one the task just yields.\<close>

type_synonym splice_yielder = "(HevTaskYieldType \<Rightarrow> nat \<Rightarrow> int) option"

definition splice_yield :: "splice_yielder \<Rightarrow> HevTaskYieldType \<Rightarrow> nat \<Rightarrow> bool" where
  "splice_yield yielder type n = (case yielder of None \<Rightarrow> True | Some f \<Rightarrow> f type n = 0)"

partial_function (option) splice_loop :: "'b splice_fn \<Rightarrow> splice_yielder \<Rightarrow> 'b relay \<Rightarrow> 'b relay option" where
  "splice_loop move yielder r = do {
     r \<leftarrow> splice_forward move r;
     r \<leftarrow> splice_backward move r;
     if 0 < r_res_f r \<or> 0 < r_res_b r \<or> (r_res_f r AND r_res_b r) = 0 then
       (let type = (if 0 < r_res_f r \<or> 0 < r_res_b r then HEV_TASK_YIELD else HEV_TASK_WAITIO) in
        if splice_yield yielder type (yields r) then splice_loop move yielder (r\<lparr>yields := Suc (yields r)\<rparr>)
        else Some r)
     else Some r }"

text \<open>\<open>init\<close> and \<open>fini\<close> of the splicer are arguments as well, with the list of what is allocated or
  open.\<close>

definition hev_task_io_splice ::
  "(int list \<Rightarrow> 'b option \<times> int list) \<Rightarrow> (int list \<Rightarrow> 'b option \<times> int list) \<Rightarrow> ('b \<Rightarrow> int list \<Rightarrow> int list) \<Rightarrow>
   'b splice_fn \<Rightarrow> splice_yielder \<Rightarrow> (rx_event list \<times> sink) \<Rightarrow> (rx_event list \<times> sink) \<Rightarrow> int list \<Rightarrow>
   ((rx_event list \<times> sink) \<times> (rx_event list \<times> sink) \<times> int list) option" where
  "hev_task_io_splice init_f init_b fini move yielder a b hs =
     (case init_f hs of
        (None, hs) \<Rightarrow> Some (a, b, hs)
      | (Some splicer_f, hs) \<Rightarrow>
          (case init_b hs of
             (None, hs) \<Rightarrow> Some (a, b, fini splicer_f hs)
           | (Some splicer_b, hs) \<Rightarrow> do {
               r \<leftarrow> splice_loop move yielder
                 \<lparr>r_buf_f = splicer_f, r_buf_b = splicer_b, r_in_a = fst a, r_in_b = fst b, r_out_a = snd a,
                  r_out_b = snd b, r_res_f = 1, r_res_b = 1, yields = 0\<rparr>;
               Some ((r_in_a r, r_out_a r), (r_in_b r, r_out_b r), fini (r_buf_f r) (fini (r_buf_b r) hs)) }))"

section \<open>The relay of a session\<close>

text \<open>The two builds of the library: with a copying splicer, for what the allocator returns, and with
  pipes, for what the kernel returns. What is allocated or open is the list at the end.\<close>

definition splice_copying ::
  "(int \<times> byte list) option \<Rightarrow> (int \<times> byte list) option \<Rightarrow> size_t \<Rightarrow> splice_yielder \<Rightarrow> (rx_event list \<times> sink) \<Rightarrow>
   (rx_event list \<times> sink) \<Rightarrow> int list \<Rightarrow> ((rx_event list \<times> sink) \<times> (rx_event list \<times> sink) \<times> int list) option" where
  "splice_copying mem_f mem_b buf_size =
     hev_task_io_splice (task_io_splicer_init_buf mem_f buf_size) (task_io_splicer_init_buf mem_b buf_size)
       task_io_splicer_fini_buf task_io_splice_buf"

definition splice_piping ::
  "pipe_env \<Rightarrow> pipe_env \<Rightarrow> size_t \<Rightarrow> splice_yielder \<Rightarrow> (rx_event list \<times> sink) \<Rightarrow> (rx_event list \<times> sink) \<Rightarrow> int list \<Rightarrow>
   ((rx_event list \<times> sink) \<times> (rx_event list \<times> sink) \<times> int list) option" where
  "splice_piping env_f env_b buf_size =
     hev_task_io_splice (task_io_splicer_init_pipe env_f) (task_io_splicer_init_pipe env_b)
       task_io_splicer_fini_pipe task_io_splice_pipe"

text \<open>\<open>hev_socks5_task_io_yielder\<close> with both kinds of waits; \<open>left\<close> is the time left after each.\<close>

definition typed_yielder :: "int \<Rightarrow> (nat \<Rightarrow> int) \<Rightarrow> HevTaskYieldType \<Rightarrow> nat \<Rightarrow> int" where
  "typed_yielder timeout left type n =
     (if type = HEV_TASK_YIELD then 0 else hev_socks5_task_io_yielder timeout (left n))"

text \<open>\<open>target\<close> is the socket behind the descriptor that the session was given. Adding it to the poller
  may fail, which is ignored.\<close>

definition hev_socks5_tcp_splicer ::
  "(size_t \<Rightarrow> splice_yielder \<Rightarrow> (rx_event list \<times> sink) \<Rightarrow> (rx_event list \<times> sink) \<Rightarrow> int list \<Rightarrow>
     ((rx_event list \<times> sink) \<times> (rx_event list \<times> sink) \<times> int list) option) \<Rightarrow> (nat \<Rightarrow> int) \<Rightarrow> 'a HevSocks5_scheme \<Rightarrow>
   rx_event list \<times> sink \<Rightarrow> int list \<Rightarrow> (int \<times> (rx_event list \<times> sink) \<times> (rx_event list \<times> sink) \<times> int list) option" where
  "hev_socks5_tcp_splicer task_io_splice left self target hs =
     (let client = (rx (s_sock self), \<lparr>s_out = s_sock self, s_shut = False\<rparr>) in
      if s_fd self < 0 then Some (- 1, client, target, hs)
      else do {
        (client, target, hs) \<leftarrow> task_io_splice 8192 (Some (typed_yielder (s_timeout self) left)) client target hs;
        Some (0, client, target, hs) })"

section \<open>Laws of the calls\<close>

text \<open>All that a stream will deliver, and all that a socket will take.\<close>

abbreviation (input) all_of :: "rx_event list \<Rightarrow> byte list" where
  "all_of \<equiv> stream (\<lambda>_. 0)"

abbreviation (input) space :: "sock \<Rightarrow> nat" where
  "space s \<equiv> capacity (\<lambda>_. 0) (txs s)"

fun tx_size :: "tx_event list \<Rightarrow> nat" where
  "tx_size [] = 0"
| "tx_size (Accept k # evs) = Suc k + tx_size evs"
| "tx_size (e # evs) = Suc (tx_size evs)"

lemma sys_readv_laws:
  assumes "sys_readv len evs = (s, again, bs, evs')" "0 < len"
  shows "all_of evs = bs @ all_of evs'" "s \<le> 0 \<Longrightarrow> bs = []" "0 < s \<Longrightarrow> s = int (length bs) \<and> length bs \<le> len"
    "rx_size evs' \<le> rx_size evs" "0 < s \<or> s < 0 \<and> again \<Longrightarrow> rx_size evs' < rx_size evs"
    "s \<le> 0 \<Longrightarrow> \<not> (s < 0 \<and> again) \<Longrightarrow> all_of evs' = []"
  using assms by (induction len evs rule: sys_readv.induct) (auto simp: Let_def min_def split: if_splits)

lemma sys_writev_laws:
  assumes "sys_writev bs s = (n, again, s')"
  shows "0 < n \<Longrightarrow> nat n \<le> length bs \<and> tx s' = tx s @ take (nat n) bs \<and> space s' = space s - nat n"
    "n \<le> 0 \<Longrightarrow> tx s' = tx s" "tx_size (txs s') \<le> tx_size (txs s)"
    "0 < n \<or> n < 0 \<and> again \<Longrightarrow> tx_size (txs s') < tx_size (txs s)" "n < 0 \<Longrightarrow> again \<Longrightarrow> space s' = space s"
    "n \<le> 0 \<Longrightarrow> \<not> (n < 0 \<and> again) \<Longrightarrow> bs \<noteq> [] \<Longrightarrow> space s = 0"
  using assms by (auto simp: Let_def min_def split: list.splits tx_event.splits if_splits)

section \<open>What a splicer promises\<close>

text \<open>Nothing is lost, invented or reordered between what was read and what was written; the other
  side is told that the stream has ended only when everything has been passed on; a socket with
  enough room does not make it fail; and while it does not end it makes progress.\<close>

definition moved ::
  "('b \<Rightarrow> byte list) \<Rightarrow> 'b \<Rightarrow> rx_event list \<Rightarrow> sink \<Rightarrow> int \<Rightarrow> 'b \<Rightarrow> rx_event list \<Rightarrow> sink \<Rightarrow> bool" where
  "moved stored b evs w res b' evs' w' \<longleftrightarrow>
     (\<exists>ws. tx (s_out w') = tx (s_out w) @ ws) \<and>
     tx (s_out w') @ stored b' @ all_of evs' = tx (s_out w) @ stored b @ all_of evs \<and>
     (s_shut w \<longrightarrow> s_shut w') \<and> (s_shut w' \<and> \<not> s_shut w \<longrightarrow> res < 0 \<and> stored b' = [] \<and> all_of evs' = []) \<and>
     (length (stored b @ all_of evs) \<le> space (s_out w) \<longrightarrow>
        length (stored b' @ all_of evs') \<le> space (s_out w') \<and> (res < 0 \<longrightarrow> s_shut w')) \<and>
     (0 \<le> res \<longrightarrow> rx_size evs' + tx_size (txs (s_out w')) < rx_size evs + tx_size (txs (s_out w)))"

text \<open>The two halves of a splicer: reading into its store, and writing from it.\<close>

lemma moved_halves:
  assumes read: "st1 @ all_of evs' = stored b @ all_of evs" "rx_size evs' \<le> rx_size evs"
      "0 \<le> res1 \<Longrightarrow> st1 = [] \<Longrightarrow> rx_size evs' < rx_size evs" "res1 < 0 \<Longrightarrow> all_of evs' = []"
    and "write": "if st1 = [] then res = res1 \<and> stored b' = [] \<and> w' = (if res < 0 then w\<lparr>s_shut := True\<rparr> else w)
      else \<exists>s again out. sys_writev bs (s_out w) = (s, again, out) \<and> w' = w\<lparr>s_out := out\<rparr> \<and> bs \<noteq> [] \<and>
        take (length bs) st1 = bs \<and> (if s \<le> 0 then res = io_failed s again \<and> stored b' = st1 else res = 1 \<and> stored b' = drop (nat s) st1)"
  shows "moved stored b evs w res b' evs' w'"
proof (cases "st1 = []")
  case True
  then show ?thesis using "write" read by (cases "res < 0") (auto simp: moved_def simp flip: length_append)
next
  case False
  then obtain s again out where c: "sys_writev bs (s_out w) = (s, again, out)" "w' = w\<lparr>s_out := out\<rparr>" "bs \<noteq> []"
      "take (length bs) st1 = bs" "if s \<le> 0 then res = io_failed s again \<and> stored b' = st1 else res = 1 \<and> stored b' = drop (nat s) st1"
    using "write" by auto
  note L = sys_writev_laws [OF c(1)]
  have len: "length (stored b @ all_of evs) = length (st1 @ all_of evs')" using read(1) by simp
  show ?thesis
  proof (cases "0 < s")
    case True
    have "take (nat s) bs = take (nat s) st1" using L(1) [OF True] c(4) by (metis min.absorb1 take_take)
    moreover have "nat s \<le> length st1" using L(1) [OF True] c(4) by (metis le_trans length_take min.cobounded1)
    moreover have "take (nat s) st1 @ drop (nat s) st1 @ all_of evs' = stored b @ all_of evs"
      using read(1) by (simp flip: append_assoc)
    moreover have "length (drop (nat s) st1 @ all_of evs') = length (stored b @ all_of evs) - nat s"
      using calculation(2) len by simp
    ultimately show ?thesis
      using True c(2,5) L(1) [OF True] L(4) read(2) by (simp add: moved_def diff_le_mono)
  next
    case s: False
    show ?thesis
    proof (cases "s < 0 \<and> again")
      case True
      then show ?thesis
        using s c(2,5) L(2,4,5) read(1,2) unfolding moved_def len by (auto simp: io_failed_def)
    next
      case f: False
      have "length (st1 @ all_of evs') > 0" using False by simp
      then show ?thesis
        using s f c(2,3,5) L(2) L(6) read(1) unfolding moved_def len by (auto simp: io_failed_def)
    qed
  qed
qed

text \<open>One direction of a relay: what it has passed on, keeps and can still read is what was there at
  the start, and if the socket had room for all of it, only the end of the stream ends it.\<close>

definition direction ::
  "('b \<Rightarrow> byte list) \<Rightarrow> ('b \<Rightarrow> bool) \<Rightarrow> ('b \<Rightarrow> int list) \<Rightarrow> int list \<Rightarrow> rx_event list \<Rightarrow> sock \<Rightarrow>
   int \<Rightarrow> 'b \<Rightarrow> rx_event list \<Rightarrow> sink \<Rightarrow> bool" where
  "direction stored ok owns hs evs0 out0 res b evs w \<longleftrightarrow>
     ok b \<and> owns b = hs \<and> (\<exists>ws. tx (s_out w) = tx out0 @ ws) \<and>
     tx (s_out w) @ stored b @ all_of evs = tx out0 @ all_of evs0 \<and>
     (s_shut w \<longrightarrow> res < 0 \<and> stored b = [] \<and> all_of evs = []) \<and>
     (length (all_of evs0) \<le> space out0 \<longrightarrow>
        length (stored b @ all_of evs) \<le> space (s_out w) \<and> (res < 0 \<longrightarrow> s_shut w))"

locale splicer =
  fixes move :: "'b splice_fn" and stored :: "'b \<Rightarrow> byte list" and ok :: "'b \<Rightarrow> bool" and owns :: "'b \<Rightarrow> int list"
  assumes move_ok: "ok b \<Longrightarrow> \<exists>res b' evs' w'. move b evs w = Some (res, b', evs', w') \<and> ok b' \<and> owns b' = owns b \<and>
      moved stored b evs w res b' evs' w'"
begin

abbreviation (input) forward :: "int list \<Rightarrow> rx_event list \<Rightarrow> sock \<Rightarrow> 'b relay \<Rightarrow> bool" where
  "forward hs evs0 out0 r \<equiv> direction stored ok owns hs evs0 out0 (r_res_f r) (r_buf_f r) (r_in_a r) (r_out_b r)"

abbreviation (input) backward :: "int list \<Rightarrow> rx_event list \<Rightarrow> sock \<Rightarrow> 'b relay \<Rightarrow> bool" where
  "backward hs evs0 out0 r \<equiv> direction stored ok owns hs evs0 out0 (r_res_b r) (r_buf_b r) (r_in_b r) (r_out_a r)"

lemma move_direction:
  assumes "direction stored ok owns hs evs0 out0 res b evs w" "0 \<le> res"
  obtains res' b' evs' w' where "move b evs w = Some (res', b', evs', w')"
    "direction stored ok owns hs evs0 out0 res' b' evs' w'"
    "0 \<le> res' \<Longrightarrow> rx_size evs' + tx_size (txs (s_out w')) < rx_size evs + tx_size (txs (s_out w))"
proof -
  obtain res' b' evs' w' where m: "move b evs w = Some (res', b', evs', w')" "ok b'" "owns b' = owns b"
      "moved stored b evs w res' b' evs' w'"
    using move_ok [of b evs w] assms(1) by (auto simp: direction_def)
  have "\<not> s_shut w" using assms by (auto simp: direction_def)
  then have "direction stored ok owns hs evs0 out0 res' b' evs' w'"
    using assms(1) m(2-4) unfolding direction_def moved_def by auto
  moreover have "0 \<le> res' \<Longrightarrow> rx_size evs' + tx_size (txs (s_out w')) < rx_size evs + tx_size (txs (s_out w))"
    using m(4) unfolding moved_def by simp
  ultimately show ?thesis using that m(1) by blast
qed

text \<open>The measure of the loop: what the directions that have not ended can still consume.\<close>

definition left_f :: "'b relay \<Rightarrow> nat" where
  "left_f r = (if 0 \<le> r_res_f r then Suc (rx_size (r_in_a r) + tx_size (txs (s_out (r_out_b r)))) else 0)"

definition left_b :: "'b relay \<Rightarrow> nat" where
  "left_b r = (if 0 \<le> r_res_b r then Suc (rx_size (r_in_b r) + tx_size (txs (s_out (r_out_a r)))) else 0)"

lemma forward_step:
  assumes "forward hf e1 o1 r" "backward hb e2 o2 r"
  obtains r' where "splice_forward move r = Some r'" "forward hf e1 o1 r'" "backward hb e2 o2 r'"
    "left_b r' = left_b r" "left_f r' \<le> left_f r" "0 \<le> r_res_f r' \<Longrightarrow> left_f r' < left_f r"
proof (cases "0 \<le> r_res_f r")
  case True
  obtain res' b' evs' w' where m: "move (r_buf_f r) (r_in_a r) (r_out_b r) = Some (res', b', evs', w')"
      "direction stored ok owns hf e1 o1 res' b' evs' w'"
      "0 \<le> res' \<Longrightarrow> rx_size evs' + tx_size (txs (s_out w')) < rx_size (r_in_a r) + tx_size (txs (s_out (r_out_b r)))"
    using move_direction [OF assms(1) True] by metis
  show ?thesis
    by (rule that [of "r\<lparr>r_res_f := res', r_buf_f := b', r_in_a := evs', r_out_b := w'\<rparr>"])
      (use True m assms(2) in \<open>simp_all add: splice_forward_def left_f_def left_b_def less_imp_le\<close>)
next
  case False
  show ?thesis
    by (rule that [of r]) (use False assms in \<open>simp_all add: splice_forward_def\<close>)
qed

lemma backward_step:
  assumes "forward hf e1 o1 r" "backward hb e2 o2 r"
  obtains r' where "splice_backward move r = Some r'" "forward hf e1 o1 r'" "backward hb e2 o2 r'"
    "left_f r' = left_f r" "r_res_f r' = r_res_f r" "left_b r' \<le> left_b r" "0 \<le> r_res_b r' \<Longrightarrow> left_b r' < left_b r"
proof (cases "0 \<le> r_res_b r")
  case True
  obtain res' b' evs' w' where m: "move (r_buf_b r) (r_in_b r) (r_out_a r) = Some (res', b', evs', w')"
      "direction stored ok owns hb e2 o2 res' b' evs' w'"
      "0 \<le> res' \<Longrightarrow> rx_size evs' + tx_size (txs (s_out w')) < rx_size (r_in_b r) + tx_size (txs (s_out (r_out_a r)))"
    using move_direction [OF assms(2) True] by metis
  show ?thesis
    by (rule that [of "r\<lparr>r_res_b := res', r_buf_b := b', r_in_b := evs', r_out_a := w'\<rparr>"])
      (use True m assms(1) in \<open>simp_all add: splice_backward_def left_f_def left_b_def less_imp_le\<close>)
next
  case False
  show ?thesis
    by (rule that [of r]) (use False assms in \<open>simp_all add: splice_backward_def\<close>)
qed

lemma loop_returns:
  assumes "forward hf e1 o1 r" "backward hb e2 o2 r"
  shows "\<exists>r'. splice_loop move yielder r = Some r' \<and> forward hf e1 o1 r' \<and> backward hb e2 o2 r' \<and>
    ((\<forall>type n. splice_yield yielder type n) \<longrightarrow> r_res_f r' < 0 \<and> r_res_b r' < 0)"
  using assms
proof (induction "left_f r + left_b r" arbitrary: r rule: less_induct)
  case less
  obtain r1 where r1: "splice_forward move r = Some r1" "forward hf e1 o1 r1" "backward hb e2 o2 r1"
      "left_b r1 = left_b r" "left_f r1 \<le> left_f r" "0 \<le> r_res_f r1 \<Longrightarrow> left_f r1 < left_f r"
    using forward_step [OF less.prems] by metis
  obtain r2 where r2: "splice_backward move r1 = Some r2" "forward hf e1 o1 r2" "backward hb e2 o2 r2"
      "left_f r2 = left_f r1" "r_res_f r2 = r_res_f r1" "left_b r2 \<le> left_b r1" "0 \<le> r_res_b r2 \<Longrightarrow> left_b r2 < left_b r1"
    using backward_step [OF r1(2,3)] by metis
  let ?on = "0 < r_res_f r2 \<or> 0 < r_res_b r2 \<or> (r_res_f r2 AND r_res_b r2) = 0"
  let ?type = "if 0 < r_res_f r2 \<or> 0 < r_res_b r2 then HEV_TASK_YIELD else HEV_TASK_WAITIO"
  let ?r = "r2\<lparr>yields := Suc (yields r2)\<rparr>"
  have loop: "splice_loop move yielder r =
      (if ?on \<and> splice_yield yielder ?type (yields r2) then splice_loop move yielder ?r else Some r2)"
    by (subst splice_loop.simps) (simp add: r1(1) r2(1) Let_def)
  show ?case
  proof (cases "?on \<and> splice_yield yielder ?type (yields r2)")
    case True
    have "\<not> (r_res_f r2 < 0 \<and> r_res_b r2 < 0)"
    proof
      assume n: "r_res_f r2 < 0 \<and> r_res_b r2 < 0"
      then have "(r_res_f r2 AND r_res_b r2) = 0" using True by auto
      moreover have "(r_res_f r2 AND r_res_b r2) < 0" using n by (simp only: and_negative_int_iff)
      ultimately show False by linarith
    qed
    then have "left_f r2 + left_b r2 < left_f r + left_b r" using r1(4-6) r2(4-7) by fastforce
    moreover have "left_f ?r = left_f r2" "left_b ?r = left_b r2" by (simp_all add: left_f_def left_b_def)
    ultimately have "left_f ?r + left_b ?r < left_f r + left_b r" by simp
    then show ?thesis using less.hyps [of ?r] r2(2,3) True by (simp add: loop)
  next
    case False
    have "r_res_f r2 < 0 \<and> r_res_b r2 < 0" if "\<not> ?on"
      using that by (metis and_zero_eq linorder_cases zero_and_eq)
    then show ?thesis using False r2(2,3) by (simp only: loop if_False) auto
  qed
qed

end

text \<open>What one direction has done in the end: it passed on a part of the stream, from its start, and
  all of it if it reported the end of the stream.\<close>

definition relayed :: "rx_event list \<Rightarrow> sink \<Rightarrow> sink \<Rightarrow> bool" where
  "relayed evs w w' \<longleftrightarrow>
     (\<exists>n. tx (s_out w') = tx (s_out w) @ take n (all_of evs)) \<and>
     (s_shut w' \<longrightarrow> tx (s_out w') = tx (s_out w) @ all_of evs)"

lemma direction_relayed:
  assumes "direction stored ok owns hs evs (s_out w) res b evs' w'"
  shows "relayed evs w w'"
proof -
  obtain ws where ws: "tx (s_out w') = tx (s_out w) @ ws" using assms by (auto simp: direction_def)
  then have e: "all_of evs = ws @ stored b @ all_of evs'" using assms by (simp add: direction_def)
  then have "ws = take (length ws) (all_of evs)" by simp
  moreover have "s_shut w' \<Longrightarrow> all_of evs = ws" using e assms by (simp add: direction_def)
  ultimately show ?thesis using ws by (auto simp: relayed_def)
qed

text \<open>\<open>init\<close> gives an empty splicer or leaves nothing behind, and \<open>fini\<close> releases what a splicer owns.\<close>

definition gives :: "('b \<Rightarrow> byte list) \<Rightarrow> ('b \<Rightarrow> bool) \<Rightarrow> ('b \<Rightarrow> int list) \<Rightarrow> (int list \<Rightarrow> 'b option \<times> int list) \<Rightarrow> int list \<Rightarrow> bool" where
  "gives stored ok owns init hs \<longleftrightarrow>
     (case init hs of
        (None, hs') \<Rightarrow> hs' = hs
      | (Some b, hs') \<Rightarrow> ok b \<and> stored b = [] \<and> hs' = owns b @ hs)"

locale relay_of = splicer move stored ok owns
    for move :: "'b splice_fn" and stored :: "'b \<Rightarrow> byte list" and ok :: "'b \<Rightarrow> bool" and owns :: "'b \<Rightarrow> int list" +
  fixes fini :: "'b \<Rightarrow> int list \<Rightarrow> int list"
  assumes fini_owns: "ok b \<Longrightarrow> fini b (owns b @ hs) = hs"
begin

lemma splice_relays:
  assumes "\<And>hs. gives stored ok owns init_f hs" "\<And>hs. gives stored ok owns init_b hs"
    and "\<not> s_shut (snd a)" "\<not> s_shut (snd b)"
  obtains a' b' where "hev_task_io_splice init_f init_b fini move yielder a b hs = Some (a', b', hs)"
    "relayed (fst a) (snd b) (snd b')" "relayed (fst b) (snd a) (snd a')"
    "(\<forall>type n. splice_yield yielder type n) \<and> (\<forall>hs. fst (init_f hs) \<noteq> None) \<and> (\<forall>hs. fst (init_b hs) \<noteq> None) \<and>
      length (all_of (fst a)) \<le> space (s_out (snd b)) \<longrightarrow> s_shut (snd b')"
    "(\<forall>type n. splice_yield yielder type n) \<and> (\<forall>hs. fst (init_f hs) \<noteq> None) \<and> (\<forall>hs. fst (init_b hs) \<noteq> None) \<and>
      length (all_of (fst b)) \<le> space (s_out (snd a)) \<longrightarrow> s_shut (snd a')"
proof (cases "init_f hs")
  case f: (Pair f h1)
  have self: "relayed evs w w" if "\<not> s_shut w" for evs w
    using that by (auto simp: relayed_def intro: exI [of _ 0])
  show ?thesis
  proof (cases f)
    case None
    then have "h1 = hs" "\<not> (\<forall>hs. fst (init_f hs) \<noteq> None)" using assms(1) [of hs] f by (auto simp: gives_def intro: exI [of _ hs])
    then show ?thesis
      by (intro that [of a b]) (use f None self assms(3,4) in \<open>simp_all add: hev_task_io_splice_def\<close>)
  next
    case (Some bf)
    have bf: "ok bf" "stored bf = []" "h1 = owns bf @ hs" using assms(1) [of hs] f Some by (auto simp: gives_def)
    obtain g h2 where g: "init_b h1 = (g, h2)" by (rule prod.exhaust)
    show ?thesis
    proof (cases g)
      case None
      then have "h2 = owns bf @ hs" "\<not> (\<forall>hs. fst (init_b hs) \<noteq> None)"
        using assms(2) [of h1] g bf(3) by (auto simp: gives_def intro: exI [of _ h1])
      then show ?thesis
        by (intro that [of a b]) (use f Some g None bf(1) self assms(3,4) in \<open>simp_all add: hev_task_io_splice_def fini_owns\<close>)
    next
      case (Some bb)
      have bb: "ok bb" "stored bb = []" "h2 = owns bb @ h1" using assms(2) [of h1] g Some by (auto simp: gives_def)
      let ?r = "\<lparr>r_buf_f = bf, r_buf_b = bb, r_in_a = fst a, r_in_b = fst b, r_out_a = snd a, r_out_b = snd b,
        r_res_f = 1, r_res_b = 1, yields = 0\<rparr>"
      have "forward (owns bf) (fst a) (s_out (snd b)) ?r" "backward (owns bb) (fst b) (s_out (snd a)) ?r"
        using bf bb assms(3,4) by (simp_all add: direction_def)
      from loop_returns [OF this, of yielder] obtain r where r: "splice_loop move yielder ?r = Some r"
          "forward (owns bf) (fst a) (s_out (snd b)) r" "backward (owns bb) (fst b) (s_out (snd a)) r"
          "(\<forall>type n. splice_yield yielder type n) \<longrightarrow> r_res_f r < 0 \<and> r_res_b r < 0"
        by (elim exE conjE)
      have "fini (r_buf_f r) (fini (r_buf_b r) h2) = hs"
        using r(2,3) bf(3) bb(3) fini_owns [of "r_buf_b r" h1] fini_owns [of "r_buf_f r" hs] by (simp add: direction_def)
      then have run: "hev_task_io_splice init_f init_b fini move yielder a b hs =
          Some ((r_in_a r, r_out_a r), (r_in_b r, r_out_b r), hs)"
        using f \<open>f = Some bf\<close> g Some r(1) by (simp add: hev_task_io_splice_def)
      show ?thesis
        by (rule that [OF run]) (use direction_relayed [OF r(2)] direction_relayed [OF r(3)] r(2-4) in \<open>auto simp: direction_def\<close>)
    qed
  qed
qed

end

section \<open>Both splicers keep the promise\<close>

lemma cb_room: "cb_inv b \<Longrightarrow> iov_room (hev_ring_buffer_writing (as_ring b)) = unat (cb_max b) - unat (cb_use b)"
  using writing_room(1) [of "as_ring b"] by (simp add: cb_inv_ring room_def)

text \<open>The first half of the splicer on a buffer.\<close>

lemma buf_reads:
  assumes "cb_inv b"
  defines "iov \<equiv> hev_ring_buffer_writing (as_ring b)"
  assumes one: "(if iov = [] then (1, b, evs)
      else case sys_readv (iov_room iov) evs of (s, again, bs, evs') \<Rightarrow>
        if s \<le> 0 then (io_failed s again, b, evs')
        else (1, hev_circular_buffer_write_finish (b\<lparr>cb_data := iov_scatter (cb_data b) iov bs\<rparr>) (of_int s), evs')) =
      (res1, b1, evs')"
  shows "cb_inv b1 \<and> cb_ptr b1 = cb_ptr b \<and> cb_ref b1 = cb_ref b \<and> cb_stored b1 @ all_of evs' = cb_stored b @ all_of evs \<and>
    rx_size evs' \<le> rx_size evs \<and> (0 \<le> res1 \<longrightarrow> cb_stored b1 = [] \<longrightarrow> rx_size evs' < rx_size evs) \<and>
    (res1 < 0 \<longrightarrow> all_of evs' = [])"
proof (cases "iov = []")
  case True
  have "cb_stored b \<noteq> []"
    using writing_room(2) [of "as_ring b"] True assms(1) length_cb_stored [of b]
    by (auto simp: room_def cb_inv_def iov_def simp flip: cb_inv_ring)
  then show ?thesis using one True assms(1) by auto
next
  case False
  obtain s again bs evs1 where r: "sys_readv (iov_room iov) evs = (s, again, bs, evs1)" by (rule prod_cases4)
  have "0 < iov_room iov" using False writing_room [of "as_ring b"] assms(1) by (simp add: iov_def cb_inv_ring)
  note L = sys_readv_laws [OF r this]
  show ?thesis
  proof (cases "0 < s")
    case True
    then have s: "(of_int s :: size_t) = of_nat (length bs)" "length bs \<le> unat (cb_max b) - unat (cb_use b)"
      using L(3) cb_room [OF assms(1)] by (auto simp: iov_def)
    show ?thesis
      using one False r True cb_fill [OF assms(1) s(2)] L(1,5) s(1)
      by (auto simp: hev_circular_buffer_write_finish_def iov_def)
  next
    case s: False
    then show ?thesis using one False r assms(1) L(1,2,4-6) by (auto simp: io_failed_def split: if_splits)
  qed
qed

lemma buf_moves:
  assumes "cb_inv b"
  shows "\<exists>res b' evs' w'. task_io_splice_buf b evs w = Some (res, b', evs', w') \<and> cb_inv b' \<and>
    (cb_ptr b', cb_ref b') = (cb_ptr b, cb_ref b) \<and> moved cb_stored b evs w res b' evs' w'"
proof -
  let ?iov = "hev_ring_buffer_writing (as_ring b)"
  obtain res1 b1 evs' where one: "(if ?iov = [] then (1, b, evs)
      else case sys_readv (iov_room ?iov) evs of (s, again, bs, evs') \<Rightarrow>
        if s \<le> 0 then (io_failed s again, b, evs')
        else (1, hev_circular_buffer_write_finish (b\<lparr>cb_data := iov_scatter (cb_data b) ?iov bs\<rparr>) (of_int s), evs')) =
      (res1, b1, evs')"
    by (rule prod_cases3)
  have b1: "cb_inv b1" "cb_ptr b1 = cb_ptr b" "cb_ref b1 = cb_ref b" "cb_stored b1 @ all_of evs' = cb_stored b @ all_of evs"
    "rx_size evs' \<le> rx_size evs" "0 \<le> res1 \<Longrightarrow> cb_stored b1 = [] \<Longrightarrow> rx_size evs' < rx_size evs"
    "res1 < 0 \<Longrightarrow> all_of evs' = []"
    using buf_reads [OF assms one] by simp_all
  have ring1: "ring_inv (as_ring b1)" using b1(1) by (simp add: cb_inv_ring)
  have reading: "hev_circular_buffer_reading b1 = [] \<longleftrightarrow> cb_stored b1 = []"
    "iov_gather (cb_data b1) (hev_circular_buffer_reading b1) = cb_stored b1"
    using reading_segments(3) [OF ring1] reading_gathers_pending [OF ring1] by (simp_all add: cb_reading_ring cb_stored_def)
  have step: "task_io_splice_buf b evs w =
     (if cb_stored b1 \<noteq> [] then
       (case sys_writev (cb_stored b1) (s_out w) of (s, again, out) \<Rightarrow>
          if s \<le> 0 then Some (io_failed s again, b1, evs', w\<lparr>s_out := out\<rparr>)
          else Option.bind (hev_circular_buffer_read_finish b1 (of_int s)) (\<lambda>b'. Some (1, b', evs', w\<lparr>s_out := out\<rparr>)))
     else Some (res1, b1, evs', if res1 < 0 then w\<lparr>s_shut := True\<rparr> else w))"
    by (simp only: task_io_splice_buf_def cb_writing_ring [OF cb_max_pos [OF assms]] bind.bind_lunit one Let_def prod.case reading)
      (auto split: prod.split)
  show ?thesis
  proof (cases "cb_stored b1 = []")
    case True
    have "moved cb_stored b evs w res1 b1 evs' (if res1 < 0 then w\<lparr>s_shut := True\<rparr> else w)"
      by (rule moved_halves [of "cb_stored b1"]) (use b1(4-7) True in auto)
    then show ?thesis using step True b1(1-3) by simp
  next
    case False
    obtain s again out where wv: "sys_writev (cb_stored b1) (s_out w) = (s, again, out)" by (rule prod_cases3)
    show ?thesis
    proof (cases "0 < s")
      case True
      have "nat s \<le> length (cb_stored b1)" using sys_writev_laws(1) [OF wv True] by simp
      from cb_drain [OF b1(1) this] obtain b2 where b2: "hev_circular_buffer_read_finish b1 (of_int s) = Some b2" "cb_inv b2"
          "cb_stored b2 = drop (nat s) (cb_stored b1)" "cb_ptr b2 = cb_ptr b1" "cb_ref b2 = cb_ref b1"
        using True by (auto simp: of_nat_nat)
      have "moved cb_stored b evs w 1 b2 evs' (w\<lparr>s_out := out\<rparr>)"
        by (rule moved_halves [of "cb_stored b1" _ _ _ _ _ _ _ _ _ "cb_stored b1"]) (use b1(4-7) False wv b2(3) True in auto)
      then show ?thesis using step False wv True b2 b1(2,3) by simp
    next
      case s: False
      have "moved cb_stored b evs w (io_failed s again) b1 evs' (w\<lparr>s_out := out\<rparr>)"
        by (rule moved_halves [of "cb_stored b1" _ _ _ _ _ _ _ _ _ "cb_stored b1"]) (use b1(4-7) False wv s in auto)
      then show ?thesis using step False wv s b1(1-3) by simp
    qed
  qed
qed

definition pipe_inv :: "splice_pipe \<Rightarrow> bool" where
  "pipe_inv p \<longleftrightarrow> p_wlen p = of_nat (length (p_data p)) \<and> length (p_data p) \<le> unat (p_blen p) \<and> 0 < unat (p_blen p)"

lemma pipe_wlen: "pipe_inv p \<Longrightarrow> p_wlen p = 0 \<longleftrightarrow> p_data p = []"
proof -
  assume p: "pipe_inv p"
  have "unat (p_blen p) < 2 ^ LENGTH(64)" by (rule unsigned_less)
  then have "length (p_data p) < 2 ^ LENGTH(64)" using p by (auto simp: pipe_inv_def)
  then have "unat (p_wlen p) = length (p_data p)" using p by (simp add: pipe_inv_def unat_of_nat_lt)
  then show ?thesis by (metis length_0_conv unat_eq_zero)
qed

lemma pipe_reads:
  assumes "pipe_inv p" "splice_in p evs = (s, again, p1, evs')"
    and "(if s \<le> 0 then (io_failed s again, p1) else (1, p1\<lparr>p_wlen := p_wlen p1 + of_int s\<rparr>)) = (res1, p2)"
  shows "pipe_inv p2 \<and> p_fd0 p2 = p_fd0 p \<and> p_fd1 p2 = p_fd1 p \<and> p_data p2 @ all_of evs' = p_data p @ all_of evs \<and>
    rx_size evs' \<le> rx_size evs \<and> (0 \<le> res1 \<longrightarrow> p_data p2 = [] \<longrightarrow> rx_size evs' < rx_size evs) \<and>
    (res1 < 0 \<longrightarrow> all_of evs' = [])"
proof (cases "pipe_space p = 0")
  case True
  then have "p_data p \<noteq> []" using assms(1) by (auto simp: pipe_space_def pipe_inv_def Let_def split: list.splits)
  then show ?thesis using assms True by (auto simp: splice_in_def Let_def pipe_inv_def io_failed_def)
next
  case False
  let ?len = "min (unat (p_blen p)) (pipe_space p)"
  obtain s' again' bs evs1 where r: "sys_readv ?len evs = (s', again', bs, evs1)" by (rule prod_cases4)
  have "0 < ?len" using False assms(1) by (simp add: pipe_inv_def)
  note L = sys_readv_laws [OF r this]
  have e: "s = s'" "again = again'" "p1 = p\<lparr>p_room := tl (p_room p), p_data := p_data p @ bs\<rparr>" "evs' = evs1"
    using assms(2) False r by (auto simp: splice_in_def Let_def)
  have "pipe_space p \<le> unat (p_blen p) - length (p_data p)"
    by (simp add: pipe_space_def Let_def split: list.split)
  then have "length bs \<le> unat (p_blen p) - length (p_data p)" using L(2,3) by (cases "0 < s'") auto
  then show ?thesis
    using assms(1,3) L unfolding e by (cases "0 < s'") (auto simp: pipe_inv_def io_failed_def split: if_splits)
qed

lemma pipe_moves:
  assumes "pipe_inv p"
  shows "\<exists>res p' evs' w'. task_io_splice_pipe p evs w = Some (res, p', evs', w') \<and> pipe_inv p' \<and>
    (p_fd0 p', p_fd1 p') = (p_fd0 p, p_fd1 p) \<and> moved p_data p evs w res p' evs' w'"
proof -
  obtain s again p1 evs' where "in": "splice_in p evs = (s, again, p1, evs')" by (rule prod_cases4)
  obtain res1 p2 where one: "(if s \<le> 0 then (io_failed s again, p1) else (1, p1\<lparr>p_wlen := p_wlen p1 + of_int s\<rparr>)) = (res1, p2)"
    by (rule prod.exhaust)
  have p2: "pipe_inv p2" "p_fd0 p2 = p_fd0 p" "p_fd1 p2 = p_fd1 p" "p_data p2 @ all_of evs' = p_data p @ all_of evs"
    "rx_size evs' \<le> rx_size evs" "0 \<le> res1 \<Longrightarrow> p_data p2 = [] \<Longrightarrow> rx_size evs' < rx_size evs"
    "res1 < 0 \<Longrightarrow> all_of evs' = []"
    using pipe_reads [OF assms "in" one] by simp_all
  show ?thesis
  proof (cases "p_data p2 = []")
    case True
    have "moved p_data p evs w res1 p2 evs' (if res1 < 0 then w\<lparr>s_shut := True\<rparr> else w)"
      by (rule moved_halves [of "p_data p2"]) (use p2(4-7) True in auto)
    moreover have "task_io_splice_pipe p evs w = Some (res1, p2, evs', if res1 < 0 then w\<lparr>s_shut := True\<rparr> else w)"
      using "in" one True pipe_wlen [OF p2(1)] by (simp add: task_io_splice_pipe_def Let_def)
    ultimately show ?thesis using p2(1-3) by simp
  next
    case False
    let ?bs = "take (unat (p_blen p2)) (p_data p2)"
    obtain s' again' out where wv: "sys_writev ?bs (s_out w) = (s', again', out)" by (rule prod_cases3)
    let ?p3 = "p2\<lparr>p_data := drop (nat s') (p_data p2)\<rparr>"
    let ?res = "if s' \<le> 0 then io_failed s' again' else 1"
    let ?p4 = "if s' \<le> 0 then ?p3 else ?p3\<lparr>p_wlen := p_wlen p2 - of_int s'\<rparr>"
    have bs: "?bs = p_data p2" using p2(1) by (simp add: pipe_inv_def)
    have run: "task_io_splice_pipe p evs w = Some (?res, ?p4, evs', w\<lparr>s_out := out\<rparr>)"
      using "in" one False pipe_wlen [OF p2(1)] wv
      by (simp add: task_io_splice_pipe_def splice_out_def Let_def)
    have "pipe_inv ?p4"
      using p2(1) sys_writev_laws(1) [OF wv] bs by (auto simp: pipe_inv_def of_nat_diff)
    moreover have "moved p_data p evs w ?res ?p4 evs' (w\<lparr>s_out := out\<rparr>)"
      by (rule moved_halves [of "p_data p2" _ _ _ _ _ _ _ _ _ ?bs]) (use p2(4-7) False wv bs in auto)
    ultimately show ?thesis using run p2(2,3) by simp
  qed
qed


lemma copying_fini: "cb_inv b \<and> cb_ref b = 1 \<Longrightarrow> task_io_splicer_fini_buf b ([cb_ptr b] @ hs) = hs"
  by (simp add: task_io_splicer_fini_buf_def hev_circular_buffer_unref_def Let_def)

interpretation copying: relay_of task_io_splice_buf cb_stored "\<lambda>b. cb_inv b \<and> cb_ref b = 1" "\<lambda>b. [cb_ptr b]" task_io_splicer_fini_buf
proof
  show "\<exists>res b' evs' w'. task_io_splice_buf b evs w = Some (res, b', evs', w') \<and> (cb_inv b' \<and> cb_ref b' = 1) \<and>
      [cb_ptr b'] = [cb_ptr b] \<and> moved cb_stored b evs w res b' evs' w'" if "cb_inv b \<and> cb_ref b = 1" for b evs w
    using buf_moves [of b evs w] that by auto
qed (rule copying_fini)

interpretation piping: relay_of task_io_splice_pipe p_data pipe_inv "\<lambda>p. [p_fd0 p, p_fd1 p]" task_io_splicer_fini_pipe
proof
  show "\<exists>res p' evs' w'. task_io_splice_pipe p evs w = Some (res, p', evs', w') \<and> pipe_inv p' \<and>
      [p_fd0 p', p_fd1 p'] = [p_fd0 p, p_fd1 p] \<and> moved p_data p evs w res p' evs' w'" if "pipe_inv p" for p evs w
    using pipe_moves [OF that, of evs w] by auto
qed (simp add: task_io_splicer_fini_pipe_def)

section \<open>Relaying a session\<close>

lemma copying_gives:
  assumes "\<And>p bs. mem = Some (p, bs) \<Longrightarrow> length bs = unat n" "0 < unat n" "unat n < 2 ^ 63"
  shows "gives cb_stored (\<lambda>b. cb_inv b \<and> cb_ref b = 1) (\<lambda>b. [cb_ptr b]) (task_io_splicer_init_buf mem n) hs"
  using assms
  by (auto simp: gives_def task_io_splicer_init_buf_def hev_circular_buffer_new_def cb_inv_def cb_stored_def pending_def
      ring_at_def split: option.split)

lemma piping_gives:
  assumes "0 < unat (e_size env)"
  shows "gives p_data pipe_inv (\<lambda>p. [p_fd0 p, p_fd1 p]) (task_io_splicer_init_pipe env) hs"
  using assms by (auto simp: gives_def task_io_splicer_init_pipe_def pipe_inv_def Let_def split: option.split)

text \<open>What the allocator and the kernel guarantee of a splicer they give: memory of the size asked
  for, or a pipe that can hold something.\<close>

inductive splice_build ::
  "bool \<Rightarrow> (size_t \<Rightarrow> splice_yielder \<Rightarrow> (rx_event list \<times> sink) \<Rightarrow> (rx_event list \<times> sink) \<Rightarrow> int list \<Rightarrow>
     ((rx_event list \<times> sink) \<times> (rx_event list \<times> sink) \<times> int list) option) \<Rightarrow> bool" where
  build_copying: "\<lbrakk>\<And>p bs. mem_f = Some (p, bs) \<Longrightarrow> length bs = 8192; \<And>p bs. mem_b = Some (p, bs) \<Longrightarrow> length bs = 8192\<rbrakk> \<Longrightarrow>
    splice_build (mem_f \<noteq> None \<and> mem_b \<noteq> None) (splice_copying mem_f mem_b)"
| build_piping: "\<lbrakk>0 < unat (e_size env_f); 0 < unat (e_size env_b)\<rbrakk> \<Longrightarrow>
    splice_build (e_pipe2 env_f \<noteq> None \<and> e_add0 env_f \<and> e_add1 env_f \<and> e_pipe2 env_b \<noteq> None \<and> e_add0 env_b \<and> e_add1 env_b)
      (splice_piping env_f env_b)"

lemma build_relays:
  assumes "splice_build ready task_io_splice" "\<not> s_shut (snd a)" "\<not> s_shut (snd b)"
  obtains a' b' where "task_io_splice 8192 yielder a b hs = Some (a', b', hs)"
    "relayed (fst a) (snd b) (snd b')" "relayed (fst b) (snd a) (snd a')"
    "ready \<and> (\<forall>type n. splice_yield yielder type n) \<and> length (all_of (fst a)) \<le> space (s_out (snd b)) \<longrightarrow> s_shut (snd b')"
    "ready \<and> (\<forall>type n. splice_yield yielder type n) \<and> length (all_of (fst b)) \<le> space (s_out (snd a)) \<longrightarrow> s_shut (snd a')"
  using assms(1)
proof cases
  case (build_copying mem_f mem_b)
  have "ready \<longrightarrow> fst (task_io_splicer_init_buf mem_f 8192 hs) \<noteq> None \<and> fst (task_io_splicer_init_buf mem_b 8192 hs) \<noteq> None" for hs
    using build_copying(1) by (auto simp: task_io_splicer_init_buf_def hev_circular_buffer_new_def)
  note ready = this
  have g: "gives cb_stored (\<lambda>b. cb_inv b \<and> cb_ref b = 1) (\<lambda>b. [cb_ptr b]) (task_io_splicer_init_buf mem_f 8192) hs"
      "gives cb_stored (\<lambda>b. cb_inv b \<and> cb_ref b = 1) (\<lambda>b. [cb_ptr b]) (task_io_splicer_init_buf mem_b 8192) hs" for hs
    using build_copying(3,4) by (auto intro!: copying_gives)
  obtain a' b' where "hev_task_io_splice (task_io_splicer_init_buf mem_f 8192) (task_io_splicer_init_buf mem_b 8192) task_io_splicer_fini_buf task_io_splice_buf yielder a b hs = Some (a', b', hs)"
      "relayed (fst a) (snd b) (snd b')" "relayed (fst b) (snd a) (snd a')"
      "(\<forall>type n. splice_yield yielder type n) \<and> (\<forall>hs. fst (task_io_splicer_init_buf mem_f 8192 hs) \<noteq> None) \<and> (\<forall>hs. fst (task_io_splicer_init_buf mem_b 8192 hs) \<noteq> None) \<and>
       length (all_of (fst a)) \<le> space (s_out (snd b)) \<longrightarrow> s_shut (snd b')"
      "(\<forall>type n. splice_yield yielder type n) \<and> (\<forall>hs. fst (task_io_splicer_init_buf mem_f 8192 hs) \<noteq> None) \<and> (\<forall>hs. fst (task_io_splicer_init_buf mem_b 8192 hs) \<noteq> None) \<and>
       length (all_of (fst b)) \<le> space (s_out (snd a)) \<longrightarrow> s_shut (snd a')"
    using copying.splice_relays [OF g assms(2,3), of yielder hs] .
  then show ?thesis
    by (intro that [of a' b']) (use ready build_copying(2) in \<open>simp_all add: splice_copying_def\<close>)
next
  case (build_piping env_f env_b)
  have "ready \<longrightarrow> fst (task_io_splicer_init_pipe env_f hs) \<noteq> None \<and> fst (task_io_splicer_init_pipe env_b hs) \<noteq> None" for hs
    using build_piping(1) by (auto simp: task_io_splicer_init_pipe_def)
  note ready = this
  have g: "gives p_data pipe_inv (\<lambda>p. [p_fd0 p, p_fd1 p]) (task_io_splicer_init_pipe env_f) hs"
      "gives p_data pipe_inv (\<lambda>p. [p_fd0 p, p_fd1 p]) (task_io_splicer_init_pipe env_b) hs" for hs
    using build_piping(3,4) by (auto intro!: piping_gives)
  obtain a' b' where "hev_task_io_splice (task_io_splicer_init_pipe env_f) (task_io_splicer_init_pipe env_b) task_io_splicer_fini_pipe task_io_splice_pipe yielder a b hs = Some (a', b', hs)"
      "relayed (fst a) (snd b) (snd b')" "relayed (fst b) (snd a) (snd a')"
      "(\<forall>type n. splice_yield yielder type n) \<and> (\<forall>hs. fst (task_io_splicer_init_pipe env_f hs) \<noteq> None) \<and> (\<forall>hs. fst (task_io_splicer_init_pipe env_b hs) \<noteq> None) \<and>
       length (all_of (fst a)) \<le> space (s_out (snd b)) \<longrightarrow> s_shut (snd b')"
      "(\<forall>type n. splice_yield yielder type n) \<and> (\<forall>hs. fst (task_io_splicer_init_pipe env_f hs) \<noteq> None) \<and> (\<forall>hs. fst (task_io_splicer_init_pipe env_b hs) \<noteq> None) \<and>
       length (all_of (fst b)) \<le> space (s_out (snd a)) \<longrightarrow> s_shut (snd a')"
    using piping.splice_relays [OF g assms(2,3), of yielder hs] .
  then show ?thesis
    by (intro that [of a' b']) (use ready build_piping(2) in \<open>simp_all add: splice_piping_def\<close>)
qed

lemma tcp_splicer_build:
  assumes "splice_build ready task_io_splice" "0 \<le> s_fd self" "\<not> s_shut (snd target)"
  obtains client' target' where
    "hev_socks5_tcp_splicer task_io_splice left self target hs = Some (0, client', target', hs)"
    "relayed (rx (s_sock self)) (snd target) (snd target')"
    "relayed (fst target) \<lparr>s_out = s_sock self, s_shut = False\<rparr> (snd client')"
    "ready \<and> (\<forall>n. hev_socks5_task_io_yielder (s_timeout self) (left n) = 0) \<and>
      length (all_of (rx (s_sock self))) \<le> space (s_out (snd target)) \<longrightarrow> s_shut (snd target')"
    "ready \<and> (\<forall>n. hev_socks5_task_io_yielder (s_timeout self) (left n) = 0) \<and>
      length (all_of (fst target)) \<le> space (s_sock self) \<longrightarrow> s_shut (snd client')"
proof -
  let ?client = "(rx (s_sock self), \<lparr>s_out = s_sock self, s_shut = False\<rparr>)"
  let ?y = "Some (typed_yielder (s_timeout self) left)"
  have y: "\<forall>type n. splice_yield ?y type n" if "\<forall>n. hev_socks5_task_io_yielder (s_timeout self) (left n) = 0"
    using that by (simp add: splice_yield_def typed_yielder_def)
  have "\<not> s_shut (snd ?client)" by simp
  obtain a' b' where "task_io_splice 8192 ?y ?client target hs = Some (a', b', hs)"
      "relayed (fst ?client) (snd target) (snd b')" "relayed (fst target) (snd ?client) (snd a')"
      "ready \<and> (\<forall>type n. splice_yield ?y type n) \<and> length (all_of (fst ?client)) \<le> space (s_out (snd target)) \<longrightarrow> s_shut (snd b')"
      "ready \<and> (\<forall>type n. splice_yield ?y type n) \<and> length (all_of (fst target)) \<le> space (s_out (snd ?client)) \<longrightarrow> s_shut (snd a')"
    using build_relays [OF assms(1) \<open>\<not> s_shut (snd ?client)\<close> assms(3), of ?y hs] .
  then show ?thesis
    by (intro that [of a' b']) (use y assms(2) in \<open>simp_all add: hev_socks5_tcp_splicer_def Let_def\<close>)
qed

text \<open>C37: the relay of a server session always returns, whether it copies or uses pipes, for every
  fragmentation and every schedule, and also when it gets no buffers or gives up waiting; it has then
  freed its buffers and closed its pipes. Each side has been sent a part of the other side's stream
  from its start, without loss, duplication or reordering, and a side whose connection was shut down
  has been sent the whole stream.\<close>

theorem tcp_relay_intact:
  assumes "splice_build ready task_io_splice" and "0 \<le> s_fd self" and "\<not> s_shut (snd target)"
  shows "\<exists>client' target'. hev_socks5_tcp_splicer task_io_splice left self target hs = Some (0, client', target', hs) \<and>
    relayed (rx (s_sock self)) (snd target) (snd target') \<and>
    relayed (fst target) \<lparr>s_out = s_sock self, s_shut = False\<rparr> (snd client')"
  using tcp_splicer_build [OF assms, of left hs] by blast

text \<open>C10: with buffers or pipes, enough time and room in both sockets, the relay delivers both streams
  completely and then reports the end of each to the other side.\<close>

theorem tcp_relay_complete:
  assumes "splice_build True task_io_splice" and "0 \<le> s_fd self" and "\<not> s_shut (snd target)"
    and "\<And>n. hev_socks5_task_io_yielder (s_timeout self) (left n) = 0"
    and "length (stream (\<lambda>_. 0) (rx (s_sock self))) \<le> capacity (\<lambda>_. 0) (txs (s_out (snd target)))"
    and "length (stream (\<lambda>_. 0) (fst target)) \<le> capacity (\<lambda>_. 0) (txs (s_sock self))"
  shows "\<exists>client' target'. hev_socks5_tcp_splicer task_io_splice left self target hs = Some (0, client', target', hs) \<and>
    s_shut (snd target') \<and> tx (s_out (snd target')) = tx (s_out (snd target)) @ stream (\<lambda>_. 0) (rx (s_sock self)) \<and>
    s_shut (snd client') \<and> tx (s_out (snd client')) = tx (s_sock self) @ stream (\<lambda>_. 0) (fst target)"
proof -
  obtain client' target' where
    "hev_socks5_tcp_splicer task_io_splice left self target hs = Some (0, client', target', hs)"
    "relayed (rx (s_sock self)) (snd target) (snd target')"
    "relayed (fst target) \<lparr>s_out = s_sock self, s_shut = False\<rparr> (snd client')"
    "True \<and> (\<forall>n. hev_socks5_task_io_yielder (s_timeout self) (left n) = 0) \<and>
      length (all_of (rx (s_sock self))) \<le> space (s_out (snd target)) \<longrightarrow> s_shut (snd target')"
    "True \<and> (\<forall>n. hev_socks5_task_io_yielder (s_timeout self) (left n) = 0) \<and>
      length (all_of (fst target)) \<le> space (s_sock self) \<longrightarrow> s_shut (snd client')"
    using tcp_splicer_build [OF assms(1-3), of left hs] .
  then show ?thesis
    by (intro exI [of _ client'] exI [of _ target']) (use assms(4-6) in \<open>simp add: relayed_def\<close>)
qed

section \<open>Samples\<close>

text \<open>The client sends in two pieces and the pipe takes them apart; the target accepts one byte, then
  makes the relay wait, then takes the rest.\<close>

definition relay_self :: HevSocks5 where
  "relay_self = \<lparr>s_fd = 7, s_timeout = 100, s_type = TYPE_TCP, s_udp_associated = False, s_family = FAMILY_UNSPEC,
     s_sock = \<lparr>rx = [Chunk [1, 2], RxAgain 5, Chunk [3, 4, 5]], tx = [42], txs = [Accept 9]\<rparr>, s_open = [7, 8]\<rparr>"

definition relay_target :: "rx_event list \<times> sink" where
  "relay_target = ([RxAgain 3, Chunk [9]], \<lparr>s_out = \<lparr>rx = [], tx = [], txs = [Accept 1, TxAgain 2, Accept 20]\<rparr>, s_shut = False\<rparr>)"

definition relay_pipe :: "int \<Rightarrow> pipe_env" where
  "relay_pipe n = \<lparr>e_pipe2 = Some (n, n + 1), e_add0 = True, e_add1 = True, e_size = 65536, e_room = [1, 1, 0]\<rparr>"

lemma relay_pipe_build: "splice_build True (splice_piping (relay_pipe 20) (relay_pipe 30))"
  using build_piping [of "relay_pipe 20" "relay_pipe 30"] by (simp add: relay_pipe_def)

theorem tcp_relay_intact_witness:
  "\<exists>client' target'. hev_socks5_tcp_splicer (splice_copying None (Some (5, replicate 8192 0))) (\<lambda>_. 0) relay_self relay_target [7, 8] =
    Some (0, client', target', [7, 8]) \<and> relayed [Chunk [1, 2], RxAgain 5, Chunk [3, 4, 5]] (snd relay_target) (snd target')"
proof -
  have "splice_build False (splice_copying None (Some (5, replicate 8192 0)))"
    using build_copying [of None "Some (5, replicate 8192 0)"] by simp
  from tcp_relay_intact [OF this, of relay_self relay_target "\<lambda>_. 0" "[7, 8]"]
  show ?thesis by (auto simp: relay_self_def relay_target_def)
qed

theorem tcp_relay_complete_witness:
  "\<exists>client' target'. hev_socks5_tcp_splicer (splice_piping (relay_pipe 20) (relay_pipe 30)) (\<lambda>_. 50) relay_self relay_target [7, 8] =
    Some (0, client', target', [7, 8]) \<and> tx (s_out (snd target')) = [1, 2, 3, 4, 5] \<and> tx (s_out (snd client')) = [42, 9]"
proof -
  have "\<exists>client' target'. hev_socks5_tcp_splicer (splice_piping (relay_pipe 20) (relay_pipe 30)) (\<lambda>_. 50) relay_self relay_target [7, 8] =
      Some (0, client', target', [7, 8]) \<and>
      s_shut (snd target') \<and> tx (s_out (snd target')) = tx (s_out (snd relay_target)) @ stream (\<lambda>_. 0) (rx (s_sock relay_self)) \<and>
      s_shut (snd client') \<and> tx (s_out (snd client')) = tx (s_sock relay_self) @ stream (\<lambda>_. 0) (fst relay_target)"
    by (rule tcp_relay_complete [OF relay_pipe_build])
      (simp_all add: relay_self_def relay_target_def hev_socks5_task_io_yielder_def hev_task_sleep_def)
  then show ?thesis by (simp add: relay_self_def relay_target_def) blast
qed

end
