(* ===== verification/Pbuf.thy ===== *)
theory Pbuf
  imports Prelude
begin

text \<open>
  The packet buffers of lwIP, as far as the sessions use them: \<open>pbuf_cat\<close>,
  \<open>pbuf_remove_header\<close> and \<open>pbuf_free_header\<close> of \<open>core/pbuf.c\<close>. A chain is the list of its
  buffers; the payload is the memory from the payload pointer to the end of the buffer, and the
  lengths are 16-bit numbers, as in the source. The theory shows how the operations act on the
  bytes of a chain, and where the 16-bit arguments limit them.
\<close>

record pbuf =
  p_len :: u16
  p_tot_len :: u16
  p_payload :: "byte list"

definition pbuf_cat :: "pbuf list \<Rightarrow> pbuf list \<Rightarrow> pbuf list" where
  "pbuf_cat h t =
     (if h = [] \<or> t = [] then h
      else map (\<lambda>p. p\<lparr>p_tot_len := p_tot_len p + p_tot_len (hd t)\<rparr>) h @ t)"

definition pbuf_remove_header :: "pbuf \<Rightarrow> size_t \<Rightarrow> byte \<times> pbuf" where
  "pbuf_remove_header p n =
     (if 0xFFFF < n then (1, p)
      else if n = 0 then (0, p)
      else let increment_magnitude = (ucast n :: u16) in
        if p_len p < increment_magnitude then (1, p)
        else (0, p\<lparr>p_payload := drop (unat n) (p_payload p), p_len := p_len p - increment_magnitude,
               p_tot_len := p_tot_len p - increment_magnitude\<rparr>))"

text \<open>The second result are the buffers that are freed.\<close>

fun pbuf_free_header :: "pbuf list \<Rightarrow> u16 \<Rightarrow> pbuf list \<times> pbuf list" where
  "pbuf_free_header [] free_left = ([], [])"
| "pbuf_free_header (p # q) free_left =
     (if free_left = 0 then (p # q, [])
      else if p_len p \<le> free_left then
        (case pbuf_free_header q (free_left - p_len p) of (r, f) \<Rightarrow> (r, p # f))
      else (snd (pbuf_remove_header p (ucast free_left)) # q, []))"

section \<open>The bytes of a chain\<close>

definition pbuf_bytes :: "pbuf list \<Rightarrow> byte list" where
  "pbuf_bytes q = concat (map p_payload q)"

lemma pbuf_bytes_simps [simp]:
  "pbuf_bytes [] = []" "pbuf_bytes (p # q) = p_payload p @ pbuf_bytes q"
  "pbuf_bytes (q @ r) = pbuf_bytes q @ pbuf_bytes r"
  by (simp_all add: pbuf_bytes_def)

text \<open>The lengths of a chain are those of its payloads; the totals count modulo 65536.\<close>

fun chain_ok :: "pbuf list \<Rightarrow> bool" where
  "chain_ok [] = True"
| "chain_ok (p # q) \<longleftrightarrow>
     length (p_payload p) < 2 ^ 16 \<and> p_len p = of_nat (length (p_payload p)) \<and>
     p_tot_len p = of_nat (length (pbuf_bytes (p # q))) \<and> chain_ok q"

lemma chain_ok_len: "chain_ok (p # q) \<Longrightarrow> unat (p_len p) = length (p_payload p)"
  by (simp add: unat_of_nat_lt)

lemma pbuf_cat_bytes: "h \<noteq> [] \<Longrightarrow> t \<noteq> [] \<Longrightarrow> pbuf_bytes (pbuf_cat h t) = pbuf_bytes h @ pbuf_bytes t"
  by (simp add: pbuf_cat_def) (simp add: pbuf_bytes_def comp_def)

lemma chain_ok_totals:
  "chain_ok h \<Longrightarrow> chain_ok t \<Longrightarrow> n = of_nat (length (pbuf_bytes t)) \<Longrightarrow>
     chain_ok (map (\<lambda>p. p\<lparr>p_tot_len := p_tot_len p + n\<rparr>) h @ t)"
  by (induction h) (auto simp: pbuf_bytes_def comp_def)

lemma pbuf_cat_ok:
  assumes "chain_ok h" "chain_ok t"
  shows "chain_ok (pbuf_cat h t)"
proof (cases "h = [] \<or> t = []")
  case False
  then obtain p q where t: "t = p # q" by (cases t) auto
  have "p_tot_len (hd t) = of_nat (length (pbuf_bytes t))" using assms(2) by (simp add: t)
  then show ?thesis using False chain_ok_totals [OF assms] by (simp add: pbuf_cat_def)
qed (use assms in \<open>auto simp: pbuf_cat_def\<close>)

lemma remove_header_part:
  assumes "chain_ok (p # q)" "free_left \<noteq> 0" "free_left < p_len p"
  shows "p_payload (snd (pbuf_remove_header p (ucast free_left))) = drop (unat free_left) (p_payload p)"
    and "chain_ok (snd (pbuf_remove_header p (ucast free_left)) # q)"
proof -
  have n: "unat (ucast free_left :: size_t) = unat free_left" 
    using unsigned_less [of free_left, where 'a = nat] by (simp add: unsigned_ucast_eq take_bit_nat_eq_self)
  have le: "unat free_left \<le> length (p_payload p)"
    using assms(3) chain_ok_len [OF assms(1)] by (simp add: word_less_nat_alt)
  have c: "\<not> 0xFFFF < (ucast free_left :: size_t)" "(ucast free_left :: size_t) \<noteq> 0"
    using unsigned_less [of free_left, where 'a = nat] assms(2)
    unfolding word_less_nat_alt word_eq_0_unat n by simp_all
  have u: "(ucast (ucast free_left :: size_t) :: u16) = free_left"
    by (rule bit_word_eqI) (simp add: bit_simps)
  have p: "snd (pbuf_remove_header p (ucast free_left)) =
      p\<lparr>p_payload := drop (unat free_left) (p_payload p), p_len := p_len p - free_left, p_tot_len := p_tot_len p - free_left\<rparr>"
    using assms(3) c n by (simp add: pbuf_remove_header_def Let_def u)
  show "p_payload (snd (pbuf_remove_header p (ucast free_left))) = drop (unat free_left) (p_payload p)"
    by (simp add: p)
  show "chain_ok (snd (pbuf_remove_header p (ucast free_left)) # q)"
    using assms(1) le by (auto simp: p of_nat_diff)
qed

lemma free_header_chain:
  assumes "chain_ok q" "pbuf_free_header q n = (r, f)"
  shows "chain_ok r \<and> pbuf_bytes r = drop (unat n) (pbuf_bytes q)"
  using assms
proof (induction q n arbitrary: r f rule: pbuf_free_header.induct)
  case (2 p q n)
  have len: "unat (p_len p) = length (p_payload p)" by (rule chain_ok_len [OF "2.prems"(1)])
  consider "n = 0" | "n \<noteq> 0" "p_len p \<le> n" | "n \<noteq> 0" "n < p_len p" by fastforce
  then show ?case
  proof cases
    case 1
    then show ?thesis using "2.prems" by auto
  next
    case 2
    then obtain r' f' where r: "pbuf_free_header q (n - p_len p) = (r', f')" "r = r'"
      using "2.prems"(2) by (auto split: prod.splits)
    have "unat (n - p_len p) = unat n - length (p_payload p)" "length (p_payload p) \<le> unat n"
      using 2(2) len by (simp_all add: unat_sub_le word_le_nat_alt)
    then show ?thesis using "2.IH" [OF 2 _ r(1)] "2.prems"(1) r(2) by simp
  next
    case 3
    then have r: "r = snd (pbuf_remove_header p (ucast n)) # q" using "2.prems"(2) by (simp add: not_le [symmetric])
    have "unat n \<le> length (p_payload p)" using 3(2) len by (simp add: word_less_nat_alt)
    then show ?thesis using remove_header_part [OF "2.prems"(1) 3] r by simp
  qed
qed simp

end
