(* ===== verification/Config.thy ===== *)
theory Config
  imports Socks5Addr
begin

text \<open>
  The configuration: \<open>hev-config.c\<close>. The document that the YAML library delivers is a list of
  nodes that refer to each other by their numbers; the functions of the source walk over it and
  store what they find in the process-wide variables, here the record \<open>config\<close>. Numbers keep
  their C types, strings are the fixed buffers they are copied into.
\<close>

section \<open>Documents\<close>

text \<open>A scalar is its C string; a mapping is the list of its pairs of node numbers, which count
  from 1 and are 0 for no node.\<close>

datatype yaml_node = Scalar cstr | Sequence "int list" | Mapping "(int \<times> int) list"

type_synonym yaml_document = "yaml_node list"

definition yaml_document_get_node :: "yaml_document \<Rightarrow> int \<Rightarrow> yaml_node option" where
  "yaml_document_get_node doc i =
     (if 0 < i \<and> i \<le> int (length doc) then Some (doc ! nat (i - 1)) else None)"

definition yaml_document_get_root_node :: "yaml_document \<Rightarrow> yaml_node option" where
  "yaml_document_get_root_node doc = (if doc = [] then None else Some (doc ! 0))"

text \<open>The loops over the pairs of a mapping differ in what they require of the value: pairs
  without a key or a value are skipped, and the first pair whose nodes are not as required ends
  the loop.\<close>

fun loop_pairs :: "yaml_document \<Rightarrow> (yaml_node option \<Rightarrow> 'v option) \<Rightarrow> (int \<times> int) list \<Rightarrow> (cstr \<times> 'v) list" where
  "loop_pairs doc val [] = []"
| "loop_pairs doc val ((k, v) # ps) =
     (if k = 0 \<or> v = 0 then loop_pairs doc val ps
      else case yaml_document_get_node doc k of
        Some (Scalar key) \<Rightarrow>
          (case val (yaml_document_get_node doc v) of
             Some x \<Rightarrow> (key, x) # loop_pairs doc val ps
           | None \<Rightarrow> [])
      | _ \<Rightarrow> [])"

fun scalar_value :: "yaml_node option \<Rightarrow> cstr option" where
  "scalar_value (Some (Scalar s)) = Some s"
| "scalar_value _ = None"

definition scalar_pairs :: "yaml_document \<Rightarrow> (int \<times> int) list \<Rightarrow> (cstr \<times> cstr) list" where
  "scalar_pairs doc ps = loop_pairs doc scalar_value ps"

section \<open>Numbers and strings\<close>

definition str :: "string \<Rightarrow> cstr" where "str s = map of_char s"

definition isspace :: "byte \<Rightarrow> bool" where
  "isspace b \<longleftrightarrow> b = 32 \<or> 9 \<le> b \<and> b \<le> 13"

text \<open>\<open>strtoul\<close> skips white space, takes a sign and the digits that follow; the result saturates,
  and a minus sign negates it in the unsigned type. In base 0 the prefix decides.\<close>

definition digit :: "byte \<Rightarrow> nat option" where
  "digit b =
     (if 48 \<le> b \<and> b \<le> 57 then Some (unat b - 48)
      else if 97 \<le> b \<and> b \<le> 122 then Some (unat b - 87)
      else if 65 \<le> b \<and> b \<le> 90 then Some (unat b - 55)
      else None)"

fun digits :: "nat \<Rightarrow> nat \<Rightarrow> cstr \<Rightarrow> nat" where
  "digits base acc [] = acc"
| "digits base acc (b # bs) =
     (case digit b of Some d \<Rightarrow> if d < base then digits base (acc * base + d) bs else acc | None \<Rightarrow> acc)"

definition sign_split :: "cstr \<Rightarrow> bool \<times> cstr" where
  "sign_split s =
     (let s = dropWhile isspace s in
      case s of b # bs \<Rightarrow> if b = 45 then (True, bs) else if b = 43 then (False, bs) else (False, s) | [] \<Rightarrow> (False, s))"

definition base_split :: "nat \<Rightarrow> cstr \<Rightarrow> nat \<times> cstr" where
  "base_split base s =
     (if base \<noteq> 0 then (base, s)
      else case s of
        z # x # h # bs \<Rightarrow>
          if z = 48 \<and> (x = 120 \<or> x = 88) \<and> (case digit h of Some d \<Rightarrow> d < 16 | None \<Rightarrow> False) then (16, h # bs)
          else if z = 48 then (8, s) else (10, s)
      | z # bs \<Rightarrow> if z = 48 then (8, s) else (10, s)
      | [] \<Rightarrow> (10, s))"

definition strtoul :: "nat \<Rightarrow> cstr \<Rightarrow> size_t" where
  "strtoul base s =
     (case sign_split s of (neg, s) \<Rightarrow>
      case base_split base s of (base, s) \<Rightarrow>
        let n = digits base 0 s in
        if 2 ^ 64 \<le> n then - 1 else if neg then - of_nat n else of_nat n)"

definition strtol :: "nat \<Rightarrow> cstr \<Rightarrow> size_t" where
  "strtol base s =
     (case sign_split s of (neg, s) \<Rightarrow>
      case base_split base s of (base, s) \<Rightarrow>
        let n = digits base 0 s in
        if neg then (if 2 ^ 63 < n then - (2 ^ 63) else - of_nat n)
        else if 2 ^ 63 \<le> n then 2 ^ 63 - 1 else of_nat n)"

text \<open>Only whether the strings differ is used of \<open>strcasecmp\<close>.\<close>

definition tolower :: "byte \<Rightarrow> byte" where
  "tolower b = (if 65 \<le> b \<and> b \<le> 90 then b + 32 else b)"

definition strcasecmp :: "cstr \<Rightarrow> cstr \<Rightarrow> int" where
  "strcasecmp a b = strcmp (map tolower a) (map tolower b)"

definition ntohl :: "u32 \<Rightarrow> u32" where
  "ntohl v = push_bit 24 v OR push_bit 8 (v AND 0xff00) OR drop_bit 8 v AND 0xff00 OR drop_bit 24 v"

text \<open>\<open>inet_pton\<close> accepts four decimal numbers below 256 without superfluous zeros, separated by
  dots, and stores them in this order in memory; the result is what a little-endian host loads
  from there. The arguments of the loop are the numbers read so far, the last one first, and whether
  the last one has a digit.\<close>

fun inet_octets :: "nat list \<Rightarrow> bool \<Rightarrow> cstr \<Rightarrow> nat list option" where
  "inet_octets os saw [] = (if length os = 4 \<and> saw then Some (rev os) else None)"
| "inet_octets os saw (b # bs) =
     (if 48 \<le> b \<and> b \<le> 57 then
        let d = unat b - 48 in
        if saw then
          (if hd os = 0 \<or> 255 < hd os * 10 + d then None
           else inet_octets ((hd os * 10 + d) # tl os) True bs)
        else if length os = 4 then None
        else inet_octets (d # os) True bs
      else if b = 46 \<and> saw then (if length os = 4 then None else inet_octets os False bs)
      else None)"

definition inet_pton :: "cstr \<Rightarrow> u32 option" where
  "inet_pton s =
     (case inet_octets [] False s of
        Some [a, b, c, d] \<Rightarrow> Some (of_nat a OR push_bit 8 (of_nat b) OR push_bit 16 (of_nat c) OR push_bit 24 (of_nat d))
      | _ \<Rightarrow> None)"

text \<open>A string is copied into a buffer of \<open>n\<close> bytes, all but the last.\<close>

definition set_str :: "byte list \<Rightarrow> cstr \<Rightarrow> byte list" where
  "set_str buf s = overwrite buf 0 (strncpy s (length buf - 1))"

text \<open>The string in a buffer, or none if it is empty, as the accessors return it. A buffer that
  is not terminated is read past its end: the outer \<^term>\<open>None\<close>.\<close>

definition get_str :: "byte list \<Rightarrow> cstr option option" where
  "get_str buf = map_option (\<lambda>s. if s = [] then None else Some s) (c_str buf)"

section \<open>The variables\<close>

record HevConfigServer =
  srv_user :: bool
  srv_pass :: bool
  srv_mark :: u32
  srv_udp_in_udp :: u16
  srv_port :: u16
  srv_pipeline :: byte
  srv_fastopen :: byte
  srv_udp_addr :: "byte list"
  srv_addr :: "byte list"

text \<open>The pointers \<open>user\<close> and \<open>pass\<close> are null or point to the static buffers of
  \<open>hev_config_parse_socks5\<close>, which are the last two fields.\<close>

record config =
  tun_name :: "byte list"
  tun_mtu :: u32
  multi_queue :: int
  icmp :: int
  tun_ipv4_address :: "byte list"
  tun_ipv6_address :: "byte list"
  tun_post_up_script :: "byte list"
  tun_pre_down_script :: "byte list"
  srv :: HevConfigServer
  mapdns_address :: u32
  mapdns_port :: cint
  mapdns_network :: u32
  mapdns_netmask :: u32
  mapdns_cache_size :: cint
  log_file :: "byte list"
  pid_file :: "byte list"
  max_session_count :: cint
  cfg_task_stack_size :: cint
  tcp_buffer_size :: cint
  cfg_udp_recv_buffer_size :: cint
  cfg_udp_copy_buffer_nums :: cint
  cfg_connect_timeout :: cint
  tcp_read_write_timeout :: cint
  udp_read_write_timeout :: cint
  limit_nofile :: cint
  log_level :: int
  static_user :: "byte list"
  static_pass :: "byte list"

section \<open>Parsing\<close>

definition parse_ipv4_pair :: "cstr \<times> cstr \<Rightarrow> config \<Rightarrow> config" where
  "parse_ipv4_pair kv c =
     (case kv of (key, value) \<Rightarrow>
        if key = str ''address'' then c\<lparr>tun_ipv4_address := set_str (tun_ipv4_address c) value\<rparr> else c)"

definition hev_config_parse_tunnel_ipv4 :: "yaml_document \<Rightarrow> yaml_node option \<Rightarrow> config \<Rightarrow> int \<times> config" where
  "hev_config_parse_tunnel_ipv4 doc base c =
     (case base of
        Some (Mapping ps) \<Rightarrow> (0, fold parse_ipv4_pair (scalar_pairs doc ps) c)
      | _ \<Rightarrow> (- 1, c))"

definition parse_ipv6_pair :: "cstr \<times> cstr \<Rightarrow> config \<Rightarrow> config" where
  "parse_ipv6_pair kv c =
     (case kv of (key, value) \<Rightarrow>
        if key = str ''address'' then c\<lparr>tun_ipv6_address := set_str (tun_ipv6_address c) value\<rparr> else c)"

definition hev_config_parse_tunnel_ipv6 :: "yaml_document \<Rightarrow> yaml_node option \<Rightarrow> config \<Rightarrow> int \<times> config" where
  "hev_config_parse_tunnel_ipv6 doc base c =
     (case base of
        Some (Mapping ps) \<Rightarrow> (0, fold parse_ipv6_pair (scalar_pairs doc ps) c)
      | _ \<Rightarrow> (- 1, c))"

definition parse_tunnel_pair :: "yaml_document \<Rightarrow> cstr \<times> yaml_node \<Rightarrow> config \<Rightarrow> config" where
  "parse_tunnel_pair doc kv c =
     (case kv of
        (key, Scalar value) \<Rightarrow>
          if key = str ''name'' then c\<lparr>tun_name := set_str (tun_name c) value\<rparr>
          else if key = str ''mtu'' then c\<lparr>tun_mtu := ucast (strtoul 10 value)\<rparr>
          else if key = str ''multi-queue'' then c\<lparr>multi_queue := strcasecmp value (str ''false'')\<rparr>
          else if key = str ''ipv4'' then c\<lparr>tun_ipv4_address := set_str (tun_ipv4_address c) value\<rparr>
          else if key = str ''ipv6'' then c\<lparr>tun_ipv6_address := set_str (tun_ipv6_address c) value\<rparr>
          else if key = str ''icmp'' then c\<lparr>icmp := (if strcasecmp value (str ''reply'') = 0 then 1 else 0)\<rparr>
          else if key = str ''post-up-script'' then c\<lparr>tun_post_up_script := set_str (tun_post_up_script c) value\<rparr>
          else if key = str ''pre-down-script'' then c\<lparr>tun_pre_down_script := set_str (tun_pre_down_script c) value\<rparr>
          else c
      | (key, node) \<Rightarrow>
          if key = str ''ipv4'' then snd (hev_config_parse_tunnel_ipv4 doc (Some node) c)
          else if key = str ''ipv6'' then snd (hev_config_parse_tunnel_ipv6 doc (Some node) c)
          else c)"

definition hev_config_parse_tunnel :: "yaml_document \<Rightarrow> yaml_node option \<Rightarrow> config \<Rightarrow> int \<times> config" where
  "hev_config_parse_tunnel doc base c =
     (case base of
        Some (Mapping ps) \<Rightarrow> (0, fold (parse_tunnel_pair doc) (loop_pairs doc id ps) c)
      | _ \<Rightarrow> (- 1, c))"

text \<open>The local variables of \<open>hev_config_parse_socks5\<close>, pointers to the last values seen.\<close>

record socks5_vars =
  v_addr :: "cstr option"
  v_port :: "cstr option"
  v_udpm :: "cstr option"
  v_udpa :: "cstr option"
  v_user :: "cstr option"
  v_pass :: "cstr option"
  v_mark :: "cstr option"
  v_pipe :: "cstr option"
  v_tfso :: "cstr option"

definition parse_socks5_pair :: "cstr \<times> cstr \<Rightarrow> socks5_vars \<Rightarrow> socks5_vars" where
  "parse_socks5_pair kv v =
     (case kv of (key, value) \<Rightarrow>
        if key = str ''port'' then v\<lparr>v_port := Some value\<rparr>
        else if key = str ''address'' then v\<lparr>v_addr := Some value\<rparr>
        else if key = str ''udp'' then v\<lparr>v_udpm := Some value\<rparr>
        else if key = str ''udp-address'' then v\<lparr>v_udpa := Some value\<rparr>
        else if key = str ''pipeline'' then v\<lparr>v_pipe := Some value\<rparr>
        else if key = str ''username'' then v\<lparr>v_user := Some value\<rparr>
        else if key = str ''password'' then v\<lparr>v_pass := Some value\<rparr>
        else if key = str ''mark'' then v\<lparr>v_mark := Some value\<rparr>
        else if key = str ''tcp-fastopen'' then v\<lparr>v_tfso := Some value\<rparr>
        else v)"

definition vars0 :: socks5_vars where
  "vars0 = \<lparr>v_addr = None, v_port = None, v_udpm = None, v_udpa = None, v_user = None, v_pass = None,
     v_mark = None, v_pipe = None, v_tfso = None\<rparr>"

definition is_word :: "cstr option \<Rightarrow> string \<Rightarrow> bool" where
  "is_word v w = (case v of Some s \<Rightarrow> strcasecmp s (str w) = 0 | None \<Rightarrow> False)"

text \<open>Storing the settings, once the mandatory ones are there.\<close>

definition store_socks5 :: "cstr \<Rightarrow> cstr \<Rightarrow> socks5_vars \<Rightarrow> config \<Rightarrow> config" where
  "store_socks5 addr port v c =
     (let s = srv c;
          s = s\<lparr>srv_addr := set_str (srv_addr s) addr, srv_port := ucast (strtoul 10 port)\<rparr>;
          s = (if is_word (v_pipe v) ''true'' then s\<lparr>srv_pipeline := 1\<rparr> else s);
          s = (if is_word (v_udpm v) ''udp'' then s\<lparr>srv_udp_in_udp := 1\<rparr> else s);
          s = (case v_udpa v of Some a \<Rightarrow> s\<lparr>srv_udp_addr := set_str (srv_udp_addr s) a\<rparr> | None \<Rightarrow> s);
          c = (case (v_user v, v_pass v) of
                 (Some u, Some p) \<Rightarrow> c\<lparr>static_user := set_str (static_user c) u, static_pass := set_str (static_pass c) p\<rparr>
               | _ \<Rightarrow> c);
          s = (if v_user v \<noteq> None \<and> v_pass v \<noteq> None then s\<lparr>srv_user := True, srv_pass := True\<rparr> else s);
          s = (case v_mark v of Some m \<Rightarrow> s\<lparr>srv_mark := ucast (strtoul 0 m)\<rparr> | None \<Rightarrow> s);
          s = (case v_tfso v of
                 Some t \<Rightarrow> s\<lparr>srv_fastopen := (if strcasecmp t (str ''true'') = 0 then 1 else 0)\<rparr>
               | None \<Rightarrow> s)
      in c\<lparr>srv := s\<rparr>)"

definition hev_config_parse_socks5 :: "yaml_document \<Rightarrow> yaml_node option \<Rightarrow> config \<Rightarrow> int \<times> config" where
  "hev_config_parse_socks5 doc base c =
     (case base of
        Some (Mapping ps) \<Rightarrow>
          let v = fold parse_socks5_pair (scalar_pairs doc ps) vars0 in
          (case v_port v of
             None \<Rightarrow> (- 1, c)
           | Some port \<Rightarrow>
               (case v_addr v of
                  None \<Rightarrow> (- 1, c)
                | Some addr \<Rightarrow>
                    if (v_user v \<noteq> None \<and> v_pass v = None) \<or> (v_user v = None \<and> v_pass v \<noteq> None) then (- 1, c)
                    else (0, store_socks5 addr port v c)))
      | _ \<Rightarrow> (- 1, c))"

definition parse_mapdns_pair :: "cstr \<times> cstr \<Rightarrow> config \<Rightarrow> config" where
  "parse_mapdns_pair kv c =
     (case kv of (key, value) \<Rightarrow>
        if key = str ''address'' then (case inet_pton value of Some a \<Rightarrow> c\<lparr>mapdns_address := a\<rparr> | None \<Rightarrow> c)
        else if key = str ''port'' then c\<lparr>mapdns_port := ucast (strtoul 10 value)\<rparr>
        else if key = str ''network'' then (case inet_pton value of Some a \<Rightarrow> c\<lparr>mapdns_network := a\<rparr> | None \<Rightarrow> c)
        else if key = str ''netmask'' then (case inet_pton value of Some a \<Rightarrow> c\<lparr>mapdns_netmask := a\<rparr> | None \<Rightarrow> c)
        else if key = str ''cache-size'' then c\<lparr>mapdns_cache_size := ucast (strtoul 10 value)\<rparr>
        else c)"

definition hev_config_parse_mapdns ::
  "yaml_document \<Rightarrow> yaml_node option \<Rightarrow> config \<Rightarrow> int \<times> config" where
  "hev_config_parse_mapdns doc base c =
     (case base of
        Some (Mapping ps) \<Rightarrow>
          let c = fold parse_mapdns_pair (scalar_pairs doc ps) c in
          (0, c\<lparr>mapdns_network := ntohl (mapdns_network c), mapdns_netmask := ntohl (mapdns_netmask c)\<rparr>)
      | _ \<Rightarrow> (- 1, c))"

definition hev_config_parse_log_level :: "cstr \<Rightarrow> int" where
  "hev_config_parse_log_level value =
     (if value = str ''debug'' then 0 else if value = str ''info'' then 1
      else if value = str ''error'' then 3 else 2)"

text \<open>The three timeouts of \<open>hev_config_parse_misc\<close> that are local variables at first.\<close>

record misc_vars =
  tcp_rw_timeout :: cint
  udp_rw_timeout :: cint
  rw_timeout :: cint

definition parse_misc_pair :: "cstr \<times> cstr \<Rightarrow> misc_vars \<times> config \<Rightarrow> misc_vars \<times> config" where
  "parse_misc_pair kv vc =
     (case (kv, vc) of ((key, value), (v, c)) \<Rightarrow>
        let n = ucast (strtoul 10 value) in
        if key = str ''task-stack-size'' then (v, c\<lparr>cfg_task_stack_size := n\<rparr>)
        else if key = str ''tcp-buffer-size'' then (v, c\<lparr>tcp_buffer_size := n\<rparr>)
        else if key = str ''udp-recv-buffer-size'' then (v, c\<lparr>cfg_udp_recv_buffer_size := n\<rparr>)
        else if key = str ''udp-copy-buffer-nums'' then (v, c\<lparr>cfg_udp_copy_buffer_nums := n\<rparr>)
        else if key = str ''max-session-count'' then (v, c\<lparr>max_session_count := n\<rparr>)
        else if key = str ''connect-timeout'' then (v, c\<lparr>cfg_connect_timeout := n\<rparr>)
        else if key = str ''read-write-timeout'' then (v\<lparr>rw_timeout := n\<rparr>, c)
        else if key = str ''tcp-read-write-timeout'' then (v\<lparr>tcp_rw_timeout := n\<rparr>, c)
        else if key = str ''udp-read-write-timeout'' then (v\<lparr>udp_rw_timeout := n\<rparr>, c)
        else if key = str ''pid-file'' then (v, c\<lparr>pid_file := set_str (pid_file c) value\<rparr>)
        else if key = str ''log-file'' then (v, c\<lparr>log_file := set_str (log_file c) value\<rparr>)
        else if key = str ''log-level'' then (v, c\<lparr>log_level := hev_config_parse_log_level value\<rparr>)
        else if key = str ''limit-nofile'' then (v, c\<lparr>limit_nofile := ucast (strtol 10 value)\<rparr>)
        else (v, c))"

definition store_timeouts :: "misc_vars \<Rightarrow> config \<Rightarrow> config" where
  "store_timeouts v c =
     (let tcp = (if sint (tcp_rw_timeout v) \<le> 0 then rw_timeout v else tcp_rw_timeout v);
          udp = (if sint (udp_rw_timeout v) \<le> 0 then rw_timeout v else udp_rw_timeout v);
          c = (if 0 < sint tcp then c\<lparr>tcp_read_write_timeout := tcp\<rparr> else c)
      in if 0 < sint udp then c\<lparr>udp_read_write_timeout := udp\<rparr> else c)"

definition hev_config_parse_misc :: "yaml_document \<Rightarrow> yaml_node option \<Rightarrow> config \<Rightarrow> int \<times> config" where
  "hev_config_parse_misc doc base c =
     (case base of
        Some (Mapping ps) \<Rightarrow>
          (case fold parse_misc_pair (scalar_pairs doc ps)
                  (\<lparr>tcp_rw_timeout = - 1, udp_rw_timeout = - 1, rw_timeout = - 1\<rparr>, c) of
             (v, c) \<Rightarrow> (0, store_timeouts v c))
      | _ \<Rightarrow> (- 1, c))"

text \<open>The sections of the document in their order; the first error ends the loop.\<close>

definition parse_section ::
  "yaml_document \<Rightarrow> cstr \<Rightarrow> yaml_node option \<Rightarrow> config \<Rightarrow> int \<times> config" where
  "parse_section doc key node c =
     (if key = str ''tunnel'' then hev_config_parse_tunnel doc node c
      else if key = str ''socks5'' then hev_config_parse_socks5 doc node c
      else if key = str ''mapdns'' then hev_config_parse_mapdns doc node c
      else if key = str ''misc'' then hev_config_parse_misc doc node c
      else (0, c))"

fun parse_sections ::
  "yaml_document \<Rightarrow> (cstr \<times> yaml_node option) list \<Rightarrow> config \<Rightarrow> int \<times> config" where
  "parse_sections doc [] c = (0, c)"
| "parse_sections doc ((key, node) # ns) c =
     (case parse_section doc key node c of (res, c) \<Rightarrow>
        if res < 0 then (- 1, c) else parse_sections doc ns c)"

text \<open>\<open>TCP_SND_BUF\<close> is 8 segments of 8191 bytes; the stack must hold the buffers that the
  sessions allocate on it.\<close>

definition TCP_SND_BUF :: cint where "TCP_SND_BUF = 65528"
definition TASK_STACK_SIZE :: cint where "TASK_STACK_SIZE = 20480"
definition CONST_UDP_BUF_SIZE :: cint where "CONST_UDP_BUF_SIZE = 1500"

definition fit_stack :: "config \<Rightarrow> config" where
  "fit_stack c =
     (let c = (if sint TCP_SND_BUF < sint (tcp_buffer_size c) then c\<lparr>tcp_buffer_size := TCP_SND_BUF\<rparr> else c);
          udp_buffer_size = CONST_UDP_BUF_SIZE * cfg_udp_copy_buffer_nums c;
          min_task_stack_size =
            (if sint udp_buffer_size < sint (tcp_buffer_size c) then TASK_STACK_SIZE + tcp_buffer_size c
             else TASK_STACK_SIZE + udp_buffer_size)
      in if sint (cfg_task_stack_size c) < sint min_task_stack_size
         then c\<lparr>cfg_task_stack_size := min_task_stack_size\<rparr> else c)"

definition hev_config_parse_doc :: "yaml_document \<Rightarrow> config \<Rightarrow> int \<times> config" where
  "hev_config_parse_doc doc c =
     (case yaml_document_get_root_node doc of
        Some (Mapping ps) \<Rightarrow>
          (case parse_sections doc (loop_pairs doc Some ps) c of (res, c) \<Rightarrow>
             if res < 0 then (- 1, c) else (0, fit_stack c))
      | _ \<Rightarrow> (- 1, c))"

text \<open>The static buffers of the credentials are not reset.\<close>

definition hev_config_reset :: "config \<Rightarrow> config" where
  "hev_config_reset c =
     \<lparr>tun_name = replicate 64 0, tun_mtu = 8500, multi_queue = 0, icmp = 0, tun_ipv4_address = replicate 16 0,
      tun_ipv6_address = replicate 64 0, tun_post_up_script = replicate 1024 0, tun_pre_down_script = replicate 1024 0,
      srv = \<lparr>srv_user = False, srv_pass = False, srv_mark = 0, srv_udp_in_udp = 0, srv_port = 0, srv_pipeline = 0,
        srv_fastopen = 0, srv_udp_addr = replicate 256 0, srv_addr = replicate 256 0\<rparr>,
      mapdns_address = 0, mapdns_port = 0, mapdns_network = 0, mapdns_netmask = 0, mapdns_cache_size = 0,
      log_file = replicate 1024 0, pid_file = replicate 1024 0, max_session_count = 0, cfg_task_stack_size = 86016,
      tcp_buffer_size = 65536, cfg_udp_recv_buffer_size = 524288, cfg_udp_copy_buffer_nums = 10,
      cfg_connect_timeout = 10000, tcp_read_write_timeout = 300000, udp_read_write_timeout = 60000,
      limit_nofile = 65535, log_level = 2, static_user = static_user c, static_pass = static_pass c\<rparr>"

text \<open>The variables when the program starts.\<close>

definition config0 :: config where
  "config0 =
     \<lparr>tun_name = replicate 64 0, tun_mtu = 0, multi_queue = 0, icmp = 0, tun_ipv4_address = replicate 16 0,
      tun_ipv6_address = replicate 64 0, tun_post_up_script = replicate 1024 0, tun_pre_down_script = replicate 1024 0,
      srv = \<lparr>srv_user = False, srv_pass = False, srv_mark = 0, srv_udp_in_udp = 0, srv_port = 0, srv_pipeline = 0,
        srv_fastopen = 0, srv_udp_addr = replicate 256 0, srv_addr = replicate 256 0\<rparr>,
      mapdns_address = 0, mapdns_port = 0, mapdns_network = 0, mapdns_netmask = 0, mapdns_cache_size = 0,
      log_file = replicate 1024 0, pid_file = replicate 1024 0, max_session_count = 0, cfg_task_stack_size = 0,
      tcp_buffer_size = 0, cfg_udp_recv_buffer_size = 0, cfg_udp_copy_buffer_nums = 0,
      cfg_connect_timeout = 0, tcp_read_write_timeout = 0, udp_read_write_timeout = 0,
      limit_nofile = 0, log_level = 0, static_user = replicate 256 0, static_pass = replicate 256 0\<rparr>"

text \<open>What the library and the file system answer: whether the parser can be set up, whether the
  file opens, and the document, if it can be parsed.\<close>

definition hev_config_init_from_file ::
  "bool \<Rightarrow> bool \<Rightarrow> yaml_document option \<Rightarrow> config \<Rightarrow> int \<times> config" where
  "hev_config_init_from_file initialize fopen load c =
     (let c = hev_config_reset c in
      if \<not> initialize then (- 1, c)
      else if \<not> fopen then (- 1, c)
      else case load of None \<Rightarrow> (- 1, c) | Some doc \<Rightarrow> hev_config_parse_doc doc c)"

definition hev_config_init_from_str ::
  "bool \<Rightarrow> yaml_document option \<Rightarrow> config \<Rightarrow> int \<times> config" where
  "hev_config_init_from_str initialize load c =
     (let c = hev_config_reset c in
      if \<not> initialize then (- 1, c)
      else case load of None \<Rightarrow> (- 1, c) | Some doc \<Rightarrow> hev_config_parse_doc doc c)"

section \<open>Accessors\<close>

definition hev_config_get_tunnel_name :: "config \<Rightarrow> cstr option option" where
  "hev_config_get_tunnel_name c = get_str (tun_name c)"

definition hev_config_get_tunnel_ipv4_address :: "config \<Rightarrow> cstr option option" where
  "hev_config_get_tunnel_ipv4_address c = get_str (tun_ipv4_address c)"

definition hev_config_get_tunnel_ipv6_address :: "config \<Rightarrow> cstr option option" where
  "hev_config_get_tunnel_ipv6_address c = get_str (tun_ipv6_address c)"

definition hev_config_get_tunnel_post_up_script :: "config \<Rightarrow> cstr option option" where
  "hev_config_get_tunnel_post_up_script c = get_str (tun_post_up_script c)"

definition hev_config_get_tunnel_pre_down_script :: "config \<Rightarrow> cstr option option" where
  "hev_config_get_tunnel_pre_down_script c = get_str (tun_pre_down_script c)"

definition hev_config_get_misc_pid_file :: "config \<Rightarrow> cstr option option" where
  "hev_config_get_misc_pid_file c = get_str (pid_file c)"

definition hev_config_get_misc_log_file :: "config \<Rightarrow> cstr option option" where
  "hev_config_get_misc_log_file c =
     map_option (\<lambda>s. if s = Some (str ''null'') then None else s) (get_str (log_file c))"

text \<open>The credentials a session uses: the strings in the static buffers, if the pointers are set.\<close>

definition server_user :: "config \<Rightarrow> cstr option option" where
  "server_user c = (if srv_user (srv c) then map_option Some (c_str (static_user c)) else Some None)"

definition server_pass :: "config \<Rightarrow> cstr option option" where
  "server_pass c = (if srv_pass (srv c) then map_option Some (c_str (static_pass c)) else Some None)"

section \<open>Buffers\<close>

lemma of_char_byte_eq: "(of_char c :: byte) = of_char d \<longleftrightarrow> c = d"
proof -
  have "unat (of_char c :: byte) = (of_char c :: nat)" for c
    using nat_of_char_less_256 [of c] unat_of_nat_lt [where 'a = 8, of "of_char c"] by (simp add: of_nat_of_char)
  then show ?thesis by (metis of_char_eq_iff)
qed

lemma str_eq_iff [simp]: "str s = str t \<longleftrightarrow> s = t"
  unfolding str_def by (intro inj_map_eq_map injI) (simp add: of_char_byte_eq)

text \<open>A buffer of \<open>n\<close> bytes whose last byte is zero; \<open>set_str\<close> writes all but that byte, so what
  was in the buffer before does not matter.\<close>

definition cbuf_ok :: "nat \<Rightarrow> byte list \<Rightarrow> bool" where
  "cbuf_ok n b \<longleftrightarrow> length b = n \<and> b \<noteq> [] \<and> last b = 0"

lemma cbuf_ok_split: "cbuf_ok n b \<longleftrightarrow> (\<exists>xs. b = xs @ [0] \<and> n = Suc (length xs))"
  by (cases b rule: rev_cases) (auto simp: cbuf_ok_def)

lemma cbuf_ok_zeros [simp]: "0 < n \<Longrightarrow> cbuf_ok n (replicate n 0)"
  by (simp add: cbuf_ok_def)

lemma set_str_eq: "cbuf_ok n b \<Longrightarrow> set_str b s = strncpy s (n - 1) @ [0]"
  by (auto simp: cbuf_ok_split set_str_def overwrite_def strncpy_def)

lemma length_strncpy [simp]: "length (strncpy s n) = n"
  by (simp add: strncpy_def)

lemma cbuf_ok_set_str [simp]: "cbuf_ok n b \<Longrightarrow> cbuf_ok n (set_str b s)"
  by (simp add: set_str_eq) (auto simp: cbuf_ok_def)

lemma c_str_strncpy: "0 \<notin> set s \<Longrightarrow> c_str (strncpy s n @ [0]) = Some (take n s)"
proof -
  assume z: "0 \<notin> set s"
  have "strncpy s n @ [0] = take n s @ 0 # replicate (n - length s) 0"
    by (simp add: strncpy_def min_def replicate_append_same)
  moreover have "0 \<notin> set (take n s)" using z by (auto dest: in_set_takeD)
  ultimately show ?thesis by (simp add: c_str_append)
qed

lemma c_str_set_str: "cbuf_ok n b \<Longrightarrow> 0 \<notin> set s \<Longrightarrow> c_str (set_str b s) = Some (take (n - 1) s)"
  by (simp add: set_str_eq c_str_strncpy)

lemma c_str_cbuf_ok: "cbuf_ok n b \<Longrightarrow> \<exists>s. c_str b = Some s \<and> length s < n"
  using c_str_Some [of b] last_in_set [of b] by (auto simp: cbuf_ok_def)

lemma get_str_cbuf_ok:
  assumes "cbuf_ok n b"
  obtains "get_str b = Some None" | v where "get_str b = Some (Some v)" "v \<noteq> []" "length v < n"
  using c_str_cbuf_ok [OF assms] by (fastforce simp: get_str_def split: if_splits)

section \<open>Well-formed configurations\<close>

definition config_wf :: "config \<Rightarrow> bool" where
  "config_wf c \<longleftrightarrow>
     cbuf_ok 64 (tun_name c) \<and> cbuf_ok 16 (tun_ipv4_address c) \<and> cbuf_ok 64 (tun_ipv6_address c) \<and>
     cbuf_ok 1024 (tun_post_up_script c) \<and> cbuf_ok 1024 (tun_pre_down_script c) \<and>
     cbuf_ok 256 (srv_udp_addr (srv c)) \<and> cbuf_ok 256 (srv_addr (srv c)) \<and>
     cbuf_ok 1024 (log_file c) \<and> cbuf_ok 1024 (pid_file c) \<and>
     cbuf_ok 256 (static_user c) \<and> cbuf_ok 256 (static_pass c)"

lemma config_wf_numbers [simp]:
  "config_wf (c\<lparr>tun_mtu := x\<rparr>) = config_wf c"
  "config_wf (c\<lparr>multi_queue := y\<rparr>) = config_wf c"
  "config_wf (c\<lparr>icmp := y\<rparr>) = config_wf c"
  "config_wf (c\<lparr>mapdns_address := x\<rparr>) = config_wf c"
  "config_wf (c\<lparr>mapdns_port := x\<rparr>) = config_wf c"
  "config_wf (c\<lparr>mapdns_network := x\<rparr>) = config_wf c"
  "config_wf (c\<lparr>mapdns_netmask := x\<rparr>) = config_wf c"
  "config_wf (c\<lparr>mapdns_cache_size := x\<rparr>) = config_wf c"
  "config_wf (c\<lparr>max_session_count := x\<rparr>) = config_wf c"
  "config_wf (c\<lparr>cfg_task_stack_size := x\<rparr>) = config_wf c"
  "config_wf (c\<lparr>tcp_buffer_size := x\<rparr>) = config_wf c"
  "config_wf (c\<lparr>cfg_udp_recv_buffer_size := x\<rparr>) = config_wf c"
  "config_wf (c\<lparr>cfg_udp_copy_buffer_nums := x\<rparr>) = config_wf c"
  "config_wf (c\<lparr>cfg_connect_timeout := x\<rparr>) = config_wf c"
  "config_wf (c\<lparr>tcp_read_write_timeout := x\<rparr>) = config_wf c"
  "config_wf (c\<lparr>udp_read_write_timeout := x\<rparr>) = config_wf c"
  "config_wf (c\<lparr>limit_nofile := x\<rparr>) = config_wf c"
  "config_wf (c\<lparr>log_level := y\<rparr>) = config_wf c"
  by (simp_all add: config_wf_def)

lemma config_wf_strings [simp]:
  assumes "config_wf c"
  shows
  "config_wf (c\<lparr>tun_name := set_str (tun_name c) v\<rparr>)"
  "config_wf (c\<lparr>tun_ipv4_address := set_str (tun_ipv4_address c) v\<rparr>)"
  "config_wf (c\<lparr>tun_ipv6_address := set_str (tun_ipv6_address c) v\<rparr>)"
  "config_wf (c\<lparr>tun_post_up_script := set_str (tun_post_up_script c) v\<rparr>)"
  "config_wf (c\<lparr>tun_pre_down_script := set_str (tun_pre_down_script c) v\<rparr>)"
  "config_wf (c\<lparr>log_file := set_str (log_file c) v\<rparr>)"
  "config_wf (c\<lparr>pid_file := set_str (pid_file c) v\<rparr>)"
  using assms by (simp_all add: config_wf_def)

text \<open>Two configurations that differ at most in static buffers no pointer refers to.\<close>

definition with_static :: "config \<Rightarrow> byte list \<Rightarrow> byte list \<Rightarrow> config" where
  "with_static c u p = c\<lparr>static_user := u, static_pass := p\<rparr>"

definition unused :: "config \<Rightarrow> byte list \<Rightarrow> byte list \<Rightarrow> bool" where
  "unused c u p \<longleftrightarrow>
     cbuf_ok 256 u \<and> cbuf_ok 256 p \<and>
     (srv_user (srv c) \<or> srv_pass (srv c) \<longrightarrow> u = static_user c \<and> p = static_pass c)"

definition same_settings :: "config \<Rightarrow> config \<Rightarrow> bool" where
  "same_settings c c' \<longleftrightarrow> config_wf c \<and> (\<exists>u p. unused c u p \<and> c' = with_static c u p)"

lemma same_settings_refl: "same_settings c c \<longleftrightarrow> config_wf c"
proof -
  have "c = with_static c (static_user c) (static_pass c)" by (simp add: with_static_def)
  moreover have "config_wf c \<Longrightarrow> unused c (static_user c) (static_pass c)"
    by (simp add: config_wf_def unused_def)
  ultimately show ?thesis unfolding same_settings_def by blast
qed

text \<open>Under nested conditionals, the relation and its parts are pushed to the leaves.\<close>

lemmas config_if =
  if_distrib [of snd] if_distrib [of config_wf] if_distrib [of srv] if_distrib [of static_user]
  if_distrib [of static_pass] if_distrib [of "\<lambda>c. with_static c u p" for u p]

lemma with_static_upd:
  "with_static c u p\<lparr>mapdns_address := x\<rparr> = with_static (c\<lparr>mapdns_address := x\<rparr>) u p"
  "with_static c u p\<lparr>mapdns_port := x\<rparr> = with_static (c\<lparr>mapdns_port := x\<rparr>) u p"
  "with_static c u p\<lparr>mapdns_network := x\<rparr> = with_static (c\<lparr>mapdns_network := x\<rparr>) u p"
  "with_static c u p\<lparr>mapdns_netmask := x\<rparr> = with_static (c\<lparr>mapdns_netmask := x\<rparr>) u p"
  "with_static c u p\<lparr>mapdns_cache_size := x\<rparr> = with_static (c\<lparr>mapdns_cache_size := x\<rparr>) u p"
  "with_static c u p\<lparr>max_session_count := x\<rparr> = with_static (c\<lparr>max_session_count := x\<rparr>) u p"
  "with_static c u p\<lparr>cfg_task_stack_size := x\<rparr> = with_static (c\<lparr>cfg_task_stack_size := x\<rparr>) u p"
  "with_static c u p\<lparr>tcp_buffer_size := x\<rparr> = with_static (c\<lparr>tcp_buffer_size := x\<rparr>) u p"
  "with_static c u p\<lparr>cfg_udp_recv_buffer_size := x\<rparr> = with_static (c\<lparr>cfg_udp_recv_buffer_size := x\<rparr>) u p"
  "with_static c u p\<lparr>cfg_udp_copy_buffer_nums := x\<rparr> = with_static (c\<lparr>cfg_udp_copy_buffer_nums := x\<rparr>) u p"
  "with_static c u p\<lparr>cfg_connect_timeout := x\<rparr> = with_static (c\<lparr>cfg_connect_timeout := x\<rparr>) u p"
  "with_static c u p\<lparr>limit_nofile := x\<rparr> = with_static (c\<lparr>limit_nofile := x\<rparr>) u p"
  "with_static c u p\<lparr>log_level := y\<rparr> = with_static (c\<lparr>log_level := y\<rparr>) u p"
  "with_static c u p\<lparr>log_file := b\<rparr> = with_static (c\<lparr>log_file := b\<rparr>) u p"
  "with_static c u p\<lparr>pid_file := b\<rparr> = with_static (c\<lparr>pid_file := b\<rparr>) u p"
  "pid_file (with_static c u p) = pid_file c" "log_file (with_static c u p) = log_file c"
  by (simp_all add: with_static_def)

text \<open>An update that neither reads the static buffers nor writes the server's settings keeps the
  relation.\<close>

lemma same_settingsI:
  assumes "same_settings c c'"
    and "\<And>u p. f (with_static c u p) = with_static (f c) u p"
    and "config_wf c \<Longrightarrow> config_wf (f c)"
    and "srv (f c) = srv c \<and> static_user (f c) = static_user c \<and> static_pass (f c) = static_pass c"
  shows "same_settings (f c) (f c')"
proof -
  obtain u p where up: "unused c u p" "c' = with_static c u p" and wf: "config_wf c"
    using assms(1) by (auto simp: same_settings_def)
  have "unused (f c) u p" using up(1) assms(4) by (simp add: unused_def)
  then show ?thesis using up(2) wf assms(2,3) unfolding same_settings_def by blast
qed

lemma same_settings_fold:
  assumes "\<And>x c c'. same_settings c c' \<Longrightarrow> same_settings (f x c) (f x c')"
  shows "same_settings c c' \<Longrightarrow> same_settings (fold f xs c) (fold f xs c')"
  using assms by (induction xs arbitrary: c c') auto

lemma same_ipv4_pair: "same_settings c c' \<Longrightarrow> same_settings (parse_ipv4_pair kv c) (parse_ipv4_pair kv c')"
  by (erule same_settingsI; cases kv) (simp_all add: parse_ipv4_pair_def with_static_def)

lemma same_ipv6_pair: "same_settings c c' \<Longrightarrow> same_settings (parse_ipv6_pair kv c) (parse_ipv6_pair kv c')"
  by (erule same_settingsI; cases kv) (simp_all add: parse_ipv6_pair_def with_static_def)

lemma same_tunnel_pair:
  assumes "same_settings c c'"
  shows "same_settings (parse_tunnel_pair doc kv c) (parse_tunnel_pair doc kv c')"
proof (cases "snd kv")
  case (Scalar v)
  then show ?thesis using assms
    by (intro same_settingsI [OF assms]; cases kv) (simp_all add: parse_tunnel_pair_def with_static_def)
next
  case (Sequence xs)
  then show ?thesis using assms
    by (auto simp: parse_tunnel_pair_def hev_config_parse_tunnel_ipv4_def hev_config_parse_tunnel_ipv6_def
        split: prod.splits)
next
  case (Mapping ps)
  then show ?thesis using assms
    by (auto simp: parse_tunnel_pair_def hev_config_parse_tunnel_ipv4_def hev_config_parse_tunnel_ipv6_def
        intro!: same_settings_fold same_ipv4_pair same_ipv6_pair split: prod.splits)
qed

lemma same_mapdns_pair: "same_settings c c' \<Longrightarrow> same_settings (parse_mapdns_pair kv c) (parse_mapdns_pair kv c')"
  by (erule same_settingsI; cases kv)
    (simp_all add: parse_mapdns_pair_def config_if with_static_upd cong: if_cong split: option.split split del: if_split)

text \<open>The local variables of \<open>hev_config_parse_misc\<close> do not depend on the configuration.\<close>

lemma same_misc_pair:
  assumes "same_settings c c'"
  shows "fst (parse_misc_pair kv (v, c)) = fst (parse_misc_pair kv (v, c'))"
    and "same_settings (snd (parse_misc_pair kv (v, c))) (snd (parse_misc_pair kv (v, c')))"
proof -
  show "fst (parse_misc_pair kv (v, c)) = fst (parse_misc_pair kv (v, c'))"
    by (cases kv) (simp add: parse_misc_pair_def Let_def)
  show "same_settings (snd (parse_misc_pair kv (v, c))) (snd (parse_misc_pair kv (v, c')))"
    by (intro same_settingsI [OF assms, where f = "\<lambda>c. snd (parse_misc_pair kv (v, c))"]; cases kv)
      (simp_all add: parse_misc_pair_def Let_def config_if with_static_upd cong: if_cong split del: if_split)
qed

lemma same_misc_fold:
  "same_settings c c' \<Longrightarrow> fold parse_misc_pair kvs (v, c) = (w, d) \<Longrightarrow>
     \<exists>d'. fold parse_misc_pair kvs (v, c') = (w, d') \<and> same_settings d d'"
proof (induction kvs arbitrary: v c c')
  case (Cons kv kvs)
  obtain v1 c1 where 1: "parse_misc_pair kv (v, c) = (v1, c1)" by fastforce
  obtain v2 c2 where 2: "parse_misc_pair kv (v, c') = (v2, c2)" by fastforce
  have "v2 = v1" "same_settings c1 c2"
    using same_misc_pair [OF Cons.prems(1), of kv v] 1 2 by simp_all
  then show ?case using Cons.IH [of c1 c2 v1] Cons.prems(2) 1 2 by simp
qed simp

lemma same_timeouts: "same_settings c c' \<Longrightarrow> same_settings (store_timeouts v c) (store_timeouts v c')"
  by (erule same_settingsI) (simp_all add: store_timeouts_def with_static_def Let_def)

text \<open>The settings of the server. The result of the function depends on the document only.\<close>

lemma store_socks5_with_static:
  "store_socks5 addr port v (with_static c u p) =
     with_static (store_socks5 addr port v c)
       (if v_user v \<noteq> None \<and> v_pass v \<noteq> None then set_str u (the (v_user v)) else u)
       (if v_user v \<noteq> None \<and> v_pass v \<noteq> None then set_str p (the (v_pass v)) else p)"
  by (cases "v_user v"; cases "v_pass v") (simp_all add: store_socks5_def with_static_def Let_def)

lemma store_socks5_static:
  "static_user (store_socks5 addr port v c) =
     (if v_user v \<noteq> None \<and> v_pass v \<noteq> None then set_str (static_user c) (the (v_user v)) else static_user c)"
  "static_pass (store_socks5 addr port v c) =
     (if v_user v \<noteq> None \<and> v_pass v \<noteq> None then set_str (static_pass c) (the (v_pass v)) else static_pass c)"
  by (cases "v_user v"; cases "v_pass v"; simp add: store_socks5_def Let_def)+

lemma store_socks5_srv:
  "srv_addr (srv (store_socks5 addr port v c)) = set_str (srv_addr (srv c)) addr"
  "srv_port (srv (store_socks5 addr port v c)) = ucast (strtoul 10 port)"
  "srv_udp_addr (srv (store_socks5 addr port v c)) =
     (case v_udpa v of Some a \<Rightarrow> set_str (srv_udp_addr (srv c)) a | None \<Rightarrow> srv_udp_addr (srv c))"
  "srv_user (srv (store_socks5 addr port v c)) \<longleftrightarrow> srv_user (srv c) \<or> v_user v \<noteq> None \<and> v_pass v \<noteq> None"
  "srv_pass (srv (store_socks5 addr port v c)) \<longleftrightarrow> srv_pass (srv c) \<or> v_user v \<noteq> None \<and> v_pass v \<noteq> None"
  "srv_pipeline (srv (store_socks5 addr port v c)) =
     (if is_word (v_pipe v) ''true'' then 1 else srv_pipeline (srv c))"
  "srv_udp_in_udp (srv (store_socks5 addr port v c)) =
     (if is_word (v_udpm v) ''udp'' then 1 else srv_udp_in_udp (srv c))"
  "srv_mark (srv (store_socks5 addr port v c)) =
     (case v_mark v of Some m \<Rightarrow> ucast (strtoul 0 m) | None \<Rightarrow> srv_mark (srv c))"
  "srv_fastopen (srv (store_socks5 addr port v c)) =
     (case v_tfso v of Some t \<Rightarrow> if is_word (Some t) ''true'' then 1 else 0 | None \<Rightarrow> srv_fastopen (srv c))"
  by (simp_all add: store_socks5_def Let_def is_word_def split: option.split)

lemma config_wf_store_socks5: "config_wf c \<Longrightarrow> config_wf (store_socks5 addr port v c)"
proof -
  assume c: "config_wf c"
  have "srv_addr (srv (store_socks5 addr port v c)) = set_str (srv_addr (srv c)) addr"
    by (rule store_socks5_srv)
  moreover have "cbuf_ok 256 (srv_udp_addr (srv (store_socks5 addr port v c)))"
    using c by (auto simp: store_socks5_srv config_wf_def split: option.split)
  moreover have "cbuf_ok 256 (static_user (store_socks5 addr port v c))"
    "cbuf_ok 256 (static_pass (store_socks5 addr port v c))"
    using c by (auto simp: store_socks5_static config_wf_def)
  moreover have "tun_name (store_socks5 addr port v c) = tun_name c"
    "tun_ipv4_address (store_socks5 addr port v c) = tun_ipv4_address c"
    "tun_ipv6_address (store_socks5 addr port v c) = tun_ipv6_address c"
    "tun_post_up_script (store_socks5 addr port v c) = tun_post_up_script c"
    "tun_pre_down_script (store_socks5 addr port v c) = tun_pre_down_script c"
    "log_file (store_socks5 addr port v c) = log_file c" "pid_file (store_socks5 addr port v c) = pid_file c"
    by (simp_all add: store_socks5_def Let_def split: option.split)
  ultimately show ?thesis using c by (simp add: config_wf_def)
qed

lemma same_store_socks5:
  assumes "same_settings c c'"
  shows "same_settings (store_socks5 addr port v c) (store_socks5 addr port v c')"
proof -
  obtain u p where up: "unused c u p" "c' = with_static c u p" and wf: "config_wf c"
    using assms by (auto simp: same_settings_def)
  have set: "set_str u x = set_str (static_user c) x" "set_str p x = set_str (static_pass c) x" for x
    using up(1) wf by (auto simp: unused_def config_wf_def set_str_eq [where n = 256])
  have "unused (store_socks5 addr port v c)
      (if v_user v \<noteq> None \<and> v_pass v \<noteq> None then set_str u (the (v_user v)) else u)
      (if v_user v \<noteq> None \<and> v_pass v \<noteq> None then set_str p (the (v_pass v)) else p)"
    using up(1) by (simp add: unused_def store_socks5_static store_socks5_srv set) (use up(1) wf in
      \<open>simp add: unused_def config_wf_def\<close>)
  then show ?thesis unfolding same_settings_def up(2) store_socks5_with_static
    using config_wf_store_socks5 [OF wf] by blast
qed

lemma same_section:
  assumes "same_settings c c'"
  shows "fst (parse_section doc key node c) = fst (parse_section doc key node c')"
    and "same_settings (snd (parse_section doc key node c)) (snd (parse_section doc key node c'))"
proof -
  have tunnel: "same_settings (fold (parse_tunnel_pair doc) xs c) (fold (parse_tunnel_pair doc) xs c')" for xs
    using same_settings_fold [of "parse_tunnel_pair doc"] same_tunnel_pair assms by blast
  have mapdns: "same_settings (fold parse_mapdns_pair xs c) (fold parse_mapdns_pair xs c')" for xs
    using same_settings_fold [of parse_mapdns_pair] same_mapdns_pair assms by blast
  have order: "same_settings (d\<lparr>mapdns_network := ntohl (mapdns_network d), mapdns_netmask := ntohl (mapdns_netmask d)\<rparr>)
      (d'\<lparr>mapdns_network := ntohl (mapdns_network d'), mapdns_netmask := ntohl (mapdns_netmask d')\<rparr>)"
    if "same_settings d d'" for d d'
    using same_settingsI [OF that, where f = "\<lambda>d. d\<lparr>mapdns_network := ntohl (mapdns_network d), mapdns_netmask := ntohl (mapdns_netmask d)\<rparr>"]
    by (simp add: with_static_def config_wf_def)
  have misc: "\<exists>w d d'. fold parse_misc_pair xs (v, c) = (w, d) \<and> fold parse_misc_pair xs (v, c') = (w, d') \<and>
      same_settings (store_timeouts w d) (store_timeouts w d')" for xs v
    using same_misc_fold [OF assms, of xs v] same_timeouts
    by (cases "fold parse_misc_pair xs (v, c)") blast
  show "fst (parse_section doc key node c) = fst (parse_section doc key node c')"
    unfolding parse_section_def hev_config_parse_tunnel_def hev_config_parse_mapdns_def
      hev_config_parse_misc_def hev_config_parse_socks5_def Let_def
    by (auto split: option.split yaml_node.split prod.split)
  show "same_settings (snd (parse_section doc key node c)) (snd (parse_section doc key node c'))"
  proof (cases "\<exists>ps. node = Some (Mapping ps)")
    case True
    then obtain ps where "node = Some (Mapping ps)" by blast
    moreover obtain w d d' where
      "fold parse_misc_pair (scalar_pairs doc ps) (\<lparr>tcp_rw_timeout = - 1, udp_rw_timeout = - 1, rw_timeout = - 1\<rparr>, c) = (w, d)"
      "fold parse_misc_pair (scalar_pairs doc ps) (\<lparr>tcp_rw_timeout = - 1, udp_rw_timeout = - 1, rw_timeout = - 1\<rparr>, c') = (w, d')"
      "same_settings (store_timeouts w d) (store_timeouts w d')"
      using misc by blast
    ultimately show ?thesis
      using assms tunnel order [OF mapdns] same_store_socks5 [OF assms]
      unfolding parse_section_def hev_config_parse_tunnel_def hev_config_parse_mapdns_def
        hev_config_parse_misc_def hev_config_parse_socks5_def Let_def
      by (auto split: option.split)
  next
    case False
    then show ?thesis using assms
      unfolding parse_section_def hev_config_parse_tunnel_def hev_config_parse_mapdns_def
        hev_config_parse_misc_def hev_config_parse_socks5_def Let_def
      by (auto split: option.split yaml_node.split)
  qed
qed

lemma same_sections:
  "same_settings c c' \<Longrightarrow> fst (parse_sections doc ns c) = fst (parse_sections doc ns c') \<and>
     same_settings (snd (parse_sections doc ns c)) (snd (parse_sections doc ns c'))"
proof (induction ns arbitrary: c c')
  case (Cons n ns)
  obtain key node where n: "n = (key, node)" by fastforce
  obtain r c1 where 1: "parse_section doc key node c = (r, c1)" by fastforce
  obtain c2 where 2: "parse_section doc key node c' = (r, c2)"
    using same_section(1) [OF Cons.prems, of doc key node] 1 by (cases "parse_section doc key node c'") auto
  have "same_settings c1 c2" using same_section(2) [OF Cons.prems, of doc key node] 1 2 by simp
  then show ?case using Cons.IH [of c1 c2] n 1 2 by simp
qed simp

lemma same_fit_stack: "same_settings c c' \<Longrightarrow> same_settings (fit_stack c) (fit_stack c')"
  by (erule same_settingsI) (simp_all add: fit_stack_def with_static_def Let_def)

lemma same_doc:
  assumes "same_settings c c'"
  shows "fst (hev_config_parse_doc doc c) = fst (hev_config_parse_doc doc c')"
    and "same_settings (snd (hev_config_parse_doc doc c)) (snd (hev_config_parse_doc doc c'))"
  using assms same_sections [OF assms, of doc] same_fit_stack
  by (auto simp: hev_config_parse_doc_def case_prod_beta split: option.split yaml_node.split)

lemma same_reset:
  assumes "config_wf c" "config_wf c'"
  shows "same_settings (hev_config_reset c) (hev_config_reset c')"
proof -
  have "hev_config_reset c' = with_static (hev_config_reset c) (static_user c') (static_pass c')"
    by (simp add: hev_config_reset_def with_static_def)
  moreover have "config_wf (hev_config_reset c)" "unused (hev_config_reset c) (static_user c') (static_pass c')"
    using assms by (simp_all add: config_wf_def unused_def hev_config_reset_def)
  ultimately show ?thesis unfolding same_settings_def by blast
qed

lemma same_init:
  assumes "config_wf c" "config_wf c'"
  shows "fst (hev_config_init_from_str i l c) = fst (hev_config_init_from_str i l c')"
    and "same_settings (snd (hev_config_init_from_str i l c)) (snd (hev_config_init_from_str i l c'))"
    and "fst (hev_config_init_from_file i f l c) = fst (hev_config_init_from_file i f l c')"
    and "same_settings (snd (hev_config_init_from_file i f l c)) (snd (hev_config_init_from_file i f l c'))"
  using same_reset [OF assms] same_doc [OF same_reset [OF assms]]
  by (simp_all add: hev_config_init_from_str_def hev_config_init_from_file_def Let_def split: option.split)

lemma same_settings_server:
  "same_settings c c' \<Longrightarrow> server_user c' = server_user c \<and> server_pass c' = server_pass c"
  by (auto simp: same_settings_def unused_def with_static_def server_user_def server_pass_def)

lemma same_settings_with_static: "same_settings c c' \<Longrightarrow> with_static c' u p = with_static c u p"
  by (auto simp: same_settings_def with_static_def)

lemma config_wf_config0: "config_wf config0"
  by (simp add: config_wf_def config0_def)

text \<open>A document with the server's section only, for the examples.\<close>

definition sample_pairs :: "(int \<times> int) list" where
  "sample_pairs = [(4, 5), (6, 7), (8, 9), (10, 11)]"

definition sample_doc :: yaml_document where
  "sample_doc = [Mapping [(2, 3)], Scalar (str ''socks5''), Mapping sample_pairs,
     Scalar (str ''port''), Scalar (str ''1080''), Scalar (str ''address''), Scalar (str ''::1''),
     Scalar (str ''username''), Scalar (str ''me''), Scalar (str ''password''), Scalar (str ''pw'')]"

lemma sample_scalar_pairs:
  "scalar_pairs sample_doc sample_pairs =
     [(str ''port'', str ''1080''), (str ''address'', str ''::1''), (str ''username'', str ''me''), (str ''password'', str ''pw'')]"
  by (simp add: sample_doc_def sample_pairs_def scalar_pairs_def yaml_document_get_node_def)

lemma sample_socks5:
  "\<exists>d. hev_config_parse_socks5 sample_doc (Some (Mapping sample_pairs)) c = (0, d)"
  by (simp add: hev_config_parse_socks5_def sample_scalar_pairs parse_socks5_pair_def vars0_def)

section \<open>The stack of a task\<close>

lemma sint_word_of_int: "- (2 ^ 31) \<le> k \<Longrightarrow> k < 2 ^ 31 \<Longrightarrow> sint (word_of_int k :: cint) = k"
  by (simp add: sint_sbintrunc' signed_take_bit_int_eq_self)

lemma fit_stack_bounds:
  assumes "0 \<le> sint (cfg_udp_copy_buffer_nums c)" "sint (cfg_udp_copy_buffer_nums c) \<le> 1431642"
  shows "sint (tcp_buffer_size (fit_stack c)) \<le> 65528"
    and "20480 + sint (tcp_buffer_size (fit_stack c)) \<le> sint (cfg_task_stack_size (fit_stack c))"
    and "20480 + 1500 * sint (cfg_udp_copy_buffer_nums (fit_stack c)) \<le> sint (cfg_task_stack_size (fit_stack c))"
proof -
  define n where "n = sint (cfg_udp_copy_buffer_nums c)"
  define t where "t = (if sint TCP_SND_BUF < sint (tcp_buffer_size c) then TCP_SND_BUF else tcp_buffer_size c)"
  have n: "0 \<le> n" "n \<le> 1431642" using assms by (simp_all add: n_def)
  have T: "sint TCP_SND_BUF = 65528" by (simp add: TCP_SND_BUF_def)
  have t: "sint t \<le> 65528" "- (2 ^ 31) \<le> sint t"
    using T sint_ge [of t] by (simp_all add: t_def)
  have u: "CONST_UDP_BUF_SIZE * cfg_udp_copy_buffer_nums c = word_of_int (1500 * n)"
    by (simp add: CONST_UDP_BUF_SIZE_def n_def)
  have su: "sint (CONST_UDP_BUF_SIZE * cfg_udp_copy_buffer_nums c) = 1500 * n"
    unfolding u using n by (intro sint_word_of_int) simp_all
  have "TASK_STACK_SIZE + CONST_UDP_BUF_SIZE * cfg_udp_copy_buffer_nums c = word_of_int (20480 + 1500 * n)"
    unfolding u by (simp add: TASK_STACK_SIZE_def)
  then have s1: "sint (TASK_STACK_SIZE + CONST_UDP_BUF_SIZE * cfg_udp_copy_buffer_nums c) = 20480 + 1500 * n"
    using sint_word_of_int [of "20480 + 1500 * n"] n by simp
  have "TASK_STACK_SIZE + t = word_of_int (20480 + sint t)" by (simp add: TASK_STACK_SIZE_def)
  then have s2: "sint (TASK_STACK_SIZE + t) = 20480 + sint t"
    using sint_word_of_int [of "20480 + sint t"] t by simp
  have c: "tcp_buffer_size (fit_stack c) = t" "cfg_udp_copy_buffer_nums (fit_stack c) = cfg_udp_copy_buffer_nums c"
    by (simp_all add: fit_stack_def Let_def t_def)
  define m where "m = (if 1500 * n < sint t then TASK_STACK_SIZE + t
    else TASK_STACK_SIZE + CONST_UDP_BUF_SIZE * cfg_udp_copy_buffer_nums c)"
  have "cfg_task_stack_size (fit_stack c) =
      (if sint (cfg_task_stack_size c) < sint m then m else cfg_task_stack_size c)"
    using su by (simp add: fit_stack_def Let_def t_def m_def)
  then have k: "sint m \<le> sint (cfg_task_stack_size (fit_stack c))" by simp
  have "20480 + sint t \<le> sint m" "20480 + 1500 * n \<le> sint m" by (simp_all add: m_def s1 s2)
  then show "sint (tcp_buffer_size (fit_stack c)) \<le> 65528"
    "20480 + sint (tcp_buffer_size (fit_stack c)) \<le> sint (cfg_task_stack_size (fit_stack c))"
    "20480 + 1500 * sint (cfg_udp_copy_buffer_nums (fit_stack c)) \<le> sint (cfg_task_stack_size (fit_stack c))"
    using k t(1) by (simp_all add: c n_def)
qed

section \<open>The server's section\<close>

lemma socks5_vars_last:
  "v_port (fold parse_socks5_pair kvs v) = (case map_of (rev kvs) (str ''port'') of None \<Rightarrow> v_port v | x \<Rightarrow> x)"
  "v_addr (fold parse_socks5_pair kvs v) = (case map_of (rev kvs) (str ''address'') of None \<Rightarrow> v_addr v | x \<Rightarrow> x)"
  "v_udpm (fold parse_socks5_pair kvs v) = (case map_of (rev kvs) (str ''udp'') of None \<Rightarrow> v_udpm v | x \<Rightarrow> x)"
  "v_user (fold parse_socks5_pair kvs v) = (case map_of (rev kvs) (str ''username'') of None \<Rightarrow> v_user v | x \<Rightarrow> x)"
  "v_pass (fold parse_socks5_pair kvs v) = (case map_of (rev kvs) (str ''password'') of None \<Rightarrow> v_pass v | x \<Rightarrow> x)"
  "v_pipe (fold parse_socks5_pair kvs v) = (case map_of (rev kvs) (str ''pipeline'') of None \<Rightarrow> v_pipe v | x \<Rightarrow> x)"
  by (induction kvs arbitrary: v)
    (auto simp: parse_socks5_pair_def map_add_def split: option.split prod.split)

definition last_value :: "(cstr \<times> cstr) list \<Rightarrow> string \<Rightarrow> cstr option" where
  "last_value kvs key = map_of (rev kvs) (str key)"

definition cstr_pairs :: "(cstr \<times> cstr) list \<Rightarrow> bool" where
  "cstr_pairs kvs \<longleftrightarrow> list_all (\<lambda>(k, v). 0 \<notin> set v) kvs"

lemma last_value_cstr: "cstr_pairs kvs \<Longrightarrow> last_value kvs key = Some v \<Longrightarrow> 0 \<notin> set v"
  by (auto simp: cstr_pairs_def last_value_def list_all_iff dest!: map_of_SomeD)

lemma socks5_vars_last0:
  assumes "v = fold parse_socks5_pair kvs vars0"
  shows "v_port v = last_value kvs ''port''" "v_addr v = last_value kvs ''address''"
    "v_udpm v = last_value kvs ''udp''" "v_user v = last_value kvs ''username''"
    "v_pass v = last_value kvs ''password''" "v_pipe v = last_value kvs ''pipeline''"
  unfolding assms socks5_vars_last by (auto simp: last_value_def vars0_def split: option.split)

lemma parse_socks5_cases:
  assumes "hev_config_parse_socks5 doc (Some (Mapping ps)) c = (res, d)"
    and "v = fold parse_socks5_pair (scalar_pairs doc ps) vars0"
  shows "v_port v \<noteq> None \<and> v_addr v \<noteq> None \<and> (v_user v = None \<longleftrightarrow> v_pass v = None) \<and> res = 0 \<and>
      d = store_socks5 (the (v_addr v)) (the (v_port v)) v c \<or>
    \<not> (v_port v \<noteq> None \<and> v_addr v \<noteq> None \<and> (v_user v = None \<longleftrightarrow> v_pass v = None)) \<and> res = - 1 \<and> d = c"
  using assms by (auto simp: hev_config_parse_socks5_def Let_def split: option.splits if_splits)

text \<open>The server's section is accepted exactly if the last values of the keys read give a
  port, an address, and a user name and a password or neither; then these values are stored, cut
  to the 255 bytes of their buffers, and otherwise nothing is changed.\<close>

theorem config_socks5_section:
  assumes "config_wf c" and "cstr_pairs (scalar_pairs doc ps)"
    and "hev_config_parse_socks5 doc (Some (Mapping ps)) c = (res, d)"
    and "m = last_value (scalar_pairs doc ps)"
  shows "(res = 0 \<longleftrightarrow> m ''port'' \<noteq> None \<and> m ''address'' \<noteq> None \<and>
      (m ''username'' = None \<longleftrightarrow> m ''password'' = None)) \<and>
    (res \<noteq> 0 \<longrightarrow> res = - 1 \<and> d = c) \<and>
    (res = 0 \<longrightarrow> c_str (srv_addr (srv d)) = map_option (take 255) (m ''address'') \<and>
      srv_port (srv d) = ucast (strtoul 10 (the (m ''port''))) \<and>
      (m ''username'' \<noteq> None \<longrightarrow> server_user d = Some (map_option (take 255) (m ''username'')) \<and>
         server_pass d = Some (map_option (take 255) (m ''password''))) \<and>
      (m ''username'' = None \<longrightarrow> server_user d = server_user c \<and> server_pass d = server_pass c) \<and>
      srv_udp_in_udp (srv d) = (if is_word (m ''udp'') ''udp'' then 1 else srv_udp_in_udp (srv c)) \<and>
      srv_pipeline (srv d) = (if is_word (m ''pipeline'') ''true'' then 1 else srv_pipeline (srv c)))"
proof -
  define v where "v = fold parse_socks5_pair (scalar_pairs doc ps) vars0"
  note vs = socks5_vars_last0 [OF v_def, folded assms(4)]
  note cases = parse_socks5_cases [OF assms(3) v_def, unfolded vs]
  have str: "m key = Some x \<Longrightarrow> 0 \<notin> set x" for key x
    using last_value_cstr assms(2,4) by blast
  have bufs: "cbuf_ok 256 (srv_addr (srv c))" "cbuf_ok 256 (static_user c)" "cbuf_ok 256 (static_pass c)"
    using assms(1) by (simp_all add: config_wf_def)
  show ?thesis
  proof (cases "res = 0")
    case True
    then obtain port addr where pa: "m ''port'' = Some port" "m ''address'' = Some addr"
      and up: "m ''username'' = None \<longleftrightarrow> m ''password'' = None" and d: "d = store_socks5 addr port v c"
      using cases by auto
    have "server_user d = server_user c \<and> server_pass d = server_pass c" if "m ''username'' = None"
      using that up unfolding d server_user_def server_pass_def store_socks5_srv store_socks5_static vs by simp
    moreover have "server_user d = Some (map_option (take 255) (m ''username'')) \<and>
        server_pass d = Some (map_option (take 255) (m ''password''))" if u: "m ''username'' \<noteq> None"
    proof -
      obtain u p where up': "m ''username'' = Some u" "m ''password'' = Some p" using u up by auto
      then show ?thesis
        unfolding d server_user_def server_pass_def store_socks5_srv store_socks5_static vs
        using c_str_set_str [OF bufs(2) str [OF up'(1)]] c_str_set_str [OF bufs(3) str [OF up'(2)]] by simp
    qed
    moreover have "c_str (srv_addr (srv d)) = Some (take 255 addr)"
      using c_str_set_str [OF bufs(1) str [OF pa(2)]] unfolding d store_socks5_srv by simp
    ultimately show ?thesis using True pa up unfolding d store_socks5_srv vs by simp
  next
    case False
    then show ?thesis using cases by auto
  qed
qed

theorem config_socks5_section_witness:
  "srv_port (srv (snd (hev_config_parse_socks5 sample_doc (Some (Mapping sample_pairs)) config0))) = 1080 \<and>
   server_user (snd (hev_config_parse_socks5 sample_doc (Some (Mapping sample_pairs)) config0)) = Some (Some (str ''me''))"
proof -
  obtain d where d: "hev_config_parse_socks5 sample_doc (Some (Mapping sample_pairs)) config0 = (0, d)"
    using sample_socks5 by blast
  have "cstr_pairs (scalar_pairs sample_doc sample_pairs)"
    by (simp add: cstr_pairs_def sample_scalar_pairs str_def)
  from config_socks5_section [OF config_wf_config0 this d refl]
  show ?thesis unfolding d
    by (simp add: last_value_def sample_scalar_pairs)
      (simp add: str_def strtoul_def sign_split_def base_split_def isspace_def digit_def)
qed

section \<open>Loading\<close>

text \<open>C17: loading a configuration forgets the previous one: from whatever the variables held
  before, with every buffer terminated, the result code and every setting are the same, the
  credentials a session reads through the pointers included, although the static buffers behind
  these pointers are never reset.\<close>

theorem config_reload_forgets:
  assumes "config_wf c" and "config_wf c'"
    and "hev_config_init_from_str i l c = (res, d)" and "hev_config_init_from_str i l c' = (res', d')"
  shows "res' = res \<and> with_static d' u p = with_static d u p \<and>
    server_user d' = server_user d \<and> server_pass d' = server_pass d"
  using same_init(1,2) [OF assms(1,2), of i l] assms(3,4)
  by (simp add: same_settings_server same_settings_with_static)

theorem config_reload_forgets_witness:
  "server_user (snd (hev_config_init_from_str True (Some sample_doc) (config0\<lparr>static_user := replicate 255 7 @ [0]\<rparr>))) =
   server_user (snd (hev_config_init_from_str True (Some sample_doc) config0))"
proof -
  have "config_wf (config0\<lparr>static_user := replicate 255 7 @ [0]\<rparr>)"
    by (simp add: config_wf_def config0_def) (simp add: cbuf_ok_def)
  from config_reload_forgets [OF config_wf_config0 this surjective_pairing surjective_pairing]
  show ?thesis by simp
qed

text \<open>C34: whatever the document holds, and also when loading fails, every buffer keeps its size
  and stays terminated, so that no accessor reads past a buffer and no string is longer than its
  buffer allows.\<close>

theorem config_strings_terminated:
  assumes "config_wf c" and "hev_config_init_from_file i f l c = (res, d)"
  shows "config_wf d \<and> hev_config_get_tunnel_name d \<noteq> None \<and> hev_config_get_tunnel_ipv4_address d \<noteq> None \<and>
    hev_config_get_tunnel_ipv6_address d \<noteq> None \<and> hev_config_get_tunnel_post_up_script d \<noteq> None \<and>
    hev_config_get_tunnel_pre_down_script d \<noteq> None \<and> hev_config_get_misc_pid_file d \<noteq> None \<and>
    hev_config_get_misc_log_file d \<noteq> None \<and> server_user d \<noteq> None \<and> server_pass d \<noteq> None \<and>
    (\<forall>v. server_user d = Some (Some v) \<or> server_pass d = Some (Some v) \<longrightarrow> length v < 256)"
proof -
  have d: "config_wf d"
    using same_init(4) [OF assms(1,1), of i f l] assms(2) by (simp add: same_settings_refl)
  have get: "cbuf_ok n b \<Longrightarrow> get_str b \<noteq> None" for n b by (erule get_str_cbuf_ok) simp_all
  obtain u p where up: "c_str (static_user d) = Some u" "length u < 256" "c_str (static_pass d) = Some p" "length p < 256"
    using d c_str_cbuf_ok [of 256 "static_user d"] c_str_cbuf_ok [of 256 "static_pass d"] by (auto simp: config_wf_def)
  have user: "server_user d = Some (if srv_user (srv d) then Some u else None)"
    "server_pass d = Some (if srv_pass (srv d) then Some p else None)"
    using up by (simp_all add: server_user_def server_pass_def)
  have "get_str b \<noteq> None"
    if "b \<in> {tun_name d, tun_ipv4_address d, tun_ipv6_address d, tun_post_up_script d, tun_pre_down_script d, log_file d, pid_file d}" for b
    using that d by (auto simp: config_wf_def dest: get)
  moreover have "\<forall>v. server_user d = Some (Some v) \<or> server_pass d = Some (Some v) \<longrightarrow> length v < 256"
    using up(2,4) by (auto simp: user)
  ultimately show ?thesis
    using d user
    by (simp add: hev_config_get_tunnel_name_def hev_config_get_tunnel_ipv4_address_def
        hev_config_get_tunnel_ipv6_address_def hev_config_get_tunnel_post_up_script_def
        hev_config_get_tunnel_pre_down_script_def hev_config_get_misc_pid_file_def
        hev_config_get_misc_log_file_def)
qed

theorem config_strings_terminated_witness:
  "config_wf (snd (hev_config_init_from_file True True (Some sample_doc) config0))"
  using config_strings_terminated [OF config_wf_config0 surjective_pairing] by simp

text \<open>A document that is accepted leaves a stack size at which the buffers that the sessions
  allocate on their stacks, the one of the TCP relay and those of the UDP relay, fit beside the
  space of the code, and a TCP buffer not above the send buffer of the stack, as long as the
  number of datagram buffers is not so large that the products overflow.\<close>

theorem config_stack_holds_buffers:
  assumes "hev_config_parse_doc doc c = (0, d)"
    and "0 \<le> sint (cfg_udp_copy_buffer_nums d)" and "sint (cfg_udp_copy_buffer_nums d) \<le> 1431642"
  shows "sint (tcp_buffer_size d) \<le> 65528 \<and>
    20480 + sint (tcp_buffer_size d) \<le> sint (cfg_task_stack_size d) \<and>
    20480 + 1500 * sint (cfg_udp_copy_buffer_nums d) \<le> sint (cfg_task_stack_size d)"
proof -
  obtain e where e: "d = fit_stack e"
    using assms(1) by (auto simp: hev_config_parse_doc_def split: option.splits yaml_node.splits prod.splits if_splits)
  have "cfg_udp_copy_buffer_nums d = cfg_udp_copy_buffer_nums e" by (simp add: e fit_stack_def Let_def)
  then show ?thesis using fit_stack_bounds [of e] assms(2,3) unfolding e by simp
qed

theorem config_stack_holds_buffers_witness:
  "20480 + sint (tcp_buffer_size (snd (hev_config_parse_doc [Mapping []] (hev_config_reset config0)))) \<le>
   sint (cfg_task_stack_size (snd (hev_config_parse_doc [Mapping []] (hev_config_reset config0))))"
proof -
  define d where "d = fit_stack (hev_config_reset config0)"
  have doc: "hev_config_parse_doc [Mapping []] (hev_config_reset config0) = (0, d)"
    by (simp add: hev_config_parse_doc_def yaml_document_get_root_node_def d_def)
  have "cfg_udp_copy_buffer_nums d = 10" by (simp add: d_def fit_stack_def hev_config_reset_def Let_def)
  then have "20480 + sint (tcp_buffer_size d) \<le> sint (cfg_task_stack_size d)"
    using config_stack_holds_buffers [OF doc] by simp
  then show ?thesis unfolding doc by simp
qed

end
