(* ===== verification/Socks5Client.thy ===== *)
theory Socks5Client
  imports Socks5
begin

text \<open>
  The SOCKS5 client: \<open>core/src/hev-socks5-client.c\<close> with its two classes
  \<open>hev-socks5-client-tcp.c\<close> and \<open>hev-socks5-client-udp.c\<close>. Every operation takes the
  session and returns it with the C result; \<^term>\<open>None\<close> is an access through a null pointer or
  outside a buffer. The virtual functions \<open>get_upstream_addr\<close> and \<open>set_upstream_addr\<close> are a
  case distinction on the class of the session.
\<close>

section \<open>Sessions\<close>

text \<open>A TCP client owns the address it was created for until it is requested; a UDP client has
  the descriptor of its datagram socket. \<open>c_blocks\<close> counts the address blocks that are allocated.\<close>

datatype client_class = ClientTCP "HevSocks5Addr option" | ClientUDP int

record HevSocks5Client = HevSocks5 +
  c_user :: "cstr option"
  c_pass :: "cstr option"
  c_class :: client_class
  c_blocks :: nat

definition hev_socks5_client_set_auth ::
  "HevSocks5Client \<Rightarrow> cstr option \<Rightarrow> cstr option \<Rightarrow> HevSocks5Client" where
  "hev_socks5_client_set_auth self user pass = self\<lparr>c_user := user, c_pass := pass\<rparr>"

definition hev_socks5_client_construct :: "HevSocks5Client \<Rightarrow> HevSocks5Type \<Rightarrow> HevSocks5Client" where
  "hev_socks5_client_construct self type = hev_socks5_construct self type"

text \<open>The memory of a new session, as \<open>hev_malloc0\<close> returns it; its connection does not exist yet.\<close>

definition client_zero :: "client_class \<Rightarrow> HevSocks5Client" where
  "client_zero cls = \<lparr>s_fd = 0, s_timeout = 0, s_type = TYPE_NONE, s_udp_associated = False,
     s_family = FAMILY_UNSPEC, s_sock = \<lparr>rx = [], tx = [], txs = []\<rparr>, s_open = [],
     c_user = None, c_pass = None, c_class = cls, c_blocks = 0\<rparr>"

subsection \<open>TCP\<close>

definition hev_socks5_client_tcp_construct ::
  "bool \<Rightarrow> HevSocks5Client \<Rightarrow> HevSocks5Addr \<Rightarrow> (int \<times> HevSocks5Client) option" where
  "hev_socks5_client_tcp_construct mem self addr = do {
     let self = hev_socks5_client_construct self TYPE_TCP;
     res \<leftarrow> hev_socks5_addr_len addr;
     if \<not> mem then Some (- 1, self)
     else do {
       a \<leftarrow> (if res < 0 then None else mget addr 0 (nat res));
       Some (0, self\<lparr>c_class := ClientTCP (Some a), c_blocks := c_blocks self + 1\<rparr>) } }"

text \<open>The address is built in a local variable, whose contents before are arbitrary.\<close>

definition hev_socks5_client_tcp_new_name ::
  "bool \<Rightarrow> bool \<Rightarrow> HevSocks5Addr \<Rightarrow> cstr \<Rightarrow> int \<Rightarrow> HevSocks5Client option option" where
  "hev_socks5_client_tcp_new_name mem amem addr name port =
     (if \<not> mem then Some None
      else do {
        (addr, _) \<leftarrow> hev_socks5_addr_from_name addr name port;
        (res, self) \<leftarrow> hev_socks5_client_tcp_construct amem (client_zero (ClientTCP None)) addr;
        if res < 0 then Some None else Some (Some self) })"

definition hev_socks5_client_tcp_new_ipv4 ::
  "bool \<Rightarrow> bool \<Rightarrow> HevSocks5Addr \<Rightarrow> byte list \<Rightarrow> int \<Rightarrow> HevSocks5Client option option" where
  "hev_socks5_client_tcp_new_ipv4 mem amem addr ipv4 port =
     (if \<not> mem then Some None
      else do {
        (addr, _) \<leftarrow> hev_socks5_addr_from_ipv4 addr ipv4 port;
        (res, self) \<leftarrow> hev_socks5_client_tcp_construct amem (client_zero (ClientTCP None)) addr;
        if res < 0 then Some None else Some (Some self) })"

definition hev_socks5_client_tcp_new_ipv6 ::
  "bool \<Rightarrow> bool \<Rightarrow> HevSocks5Addr \<Rightarrow> byte list \<Rightarrow> int \<Rightarrow> HevSocks5Client option option" where
  "hev_socks5_client_tcp_new_ipv6 mem amem addr ipv6 port =
     (if \<not> mem then Some None
      else do {
        (addr, _) \<leftarrow> hev_socks5_addr_from_ipv6 addr ipv6 port;
        (res, self) \<leftarrow> hev_socks5_client_tcp_construct amem (client_zero (ClientTCP None)) addr;
        if res < 0 then Some None else Some (Some self) })"

definition hev_socks5_client_tcp_get_upstream_addr ::
  "HevSocks5Client \<Rightarrow> HevSocks5Addr option \<Rightarrow> HevSocks5Addr option \<times> HevSocks5Client" where
  "hev_socks5_client_tcp_get_upstream_addr self addr = (addr, self\<lparr>c_class := ClientTCP None\<rparr>)"

definition hev_socks5_client_tcp_destruct :: "HevSocks5Client \<Rightarrow> HevSocks5Client" where
  "hev_socks5_client_tcp_destruct self =
     hev_socks5_destruct (case c_class self of
       ClientTCP (Some a) \<Rightarrow> self\<lparr>c_class := ClientTCP None, c_blocks := c_blocks self - 1\<rparr>
     | _ \<Rightarrow> self)"

subsection \<open>UDP\<close>

definition hev_socks5_client_udp_construct :: "HevSocks5Client \<Rightarrow> HevSocks5Type \<Rightarrow> HevSocks5Client" where
  "hev_socks5_client_udp_construct self type =
     (hev_socks5_client_construct self type)\<lparr>c_class := ClientUDP (- 1)\<rparr>"

definition hev_socks5_client_udp_new :: "bool \<Rightarrow> HevSocks5Type \<Rightarrow> HevSocks5Client option" where
  "hev_socks5_client_udp_new mem type =
     (if \<not> mem then None else Some (hev_socks5_client_udp_construct (client_zero (ClientUDP 0)) type))"

definition hev_socks5_client_udp_get_upstream_addr ::
  "bool \<Rightarrow> HevSocks5Client \<Rightarrow> HevSocks5Addr option \<times> HevSocks5Client" where
  "hev_socks5_client_udp_get_upstream_addr mem self =
     (case s_family self of
        FAMILY_IPV4 \<Rightarrow> if mem then (Some (HEV_SOCKS5_ADDR_TYPE_IPV4 # replicate 6 0), self\<lparr>c_blocks := c_blocks self + 1\<rparr>)
          else (None, self)
      | FAMILY_IPV6 \<Rightarrow> if mem then (Some (HEV_SOCKS5_ADDR_TYPE_IPV6 # replicate 18 0), self\<lparr>c_blocks := c_blocks self + 1\<rparr>)
          else (None, self)
      | FAMILY_UNSPEC \<Rightarrow> (None, self))"

definition hev_socks5_client_udp_set_upstream_addr ::
  "resolver \<Rightarrow> net \<Rightarrow> HevSocks5Client \<Rightarrow> HevSocks5Addr \<Rightarrow> (int \<times> HevSocks5Client) option" where
  "hev_socks5_client_udp_set_upstream_addr rs net self addr =
     (if s_type self \<noteq> TYPE_UDP_IN_UDP then Some (0, self)
      else do {
        (saddr, _, res) \<leftarrow> hev_socks5_addr_into_sockaddr6 rs addr
           \<lparr>sin6_port = 0, sin6_addr = replicate 16 0\<rparr> (s_family self);
        if res < 0 then Some (- 1, self)
        else (case hev_socks5_socket net self of (fd, self) \<Rightarrow>
          if fd < 0 then Some (- 1, self)
          else if n_binder net < 0 then Some (- 1, close_fd self fd)
          else if hev_task_io_socket_connect (session_yielder self) (n_connect net) < 0
            then Some (- 1, close_fd self fd)
          else Some (0, self\<lparr>s_udp_associated := True, c_class := ClientUDP fd\<rparr>)) })"

definition hev_socks5_client_udp_get_fd :: "HevSocks5Client \<Rightarrow> int" where
  "hev_socks5_client_udp_get_fd self =
     (case s_type self of
        TYPE_UDP_IN_TCP \<Rightarrow> s_fd self
      | TYPE_UDP_IN_UDP \<Rightarrow> (case c_class self of ClientUDP fd \<Rightarrow> fd | ClientTCP _ \<Rightarrow> - 1)
      | _ \<Rightarrow> - 1)"

definition hev_socks5_client_udp_destruct :: "HevSocks5Client \<Rightarrow> HevSocks5Client" where
  "hev_socks5_client_udp_destruct self =
     hev_socks5_destruct (case c_class self of
       ClientUDP fd \<Rightarrow> if 0 \<le> fd then close_fd self fd else self
     | _ \<Rightarrow> self)"

subsection \<open>Dispatch on the class\<close>

definition get_upstream_addr :: "bool \<Rightarrow> HevSocks5Client \<Rightarrow> HevSocks5Addr option \<times> HevSocks5Client" where
  "get_upstream_addr mem self =
     (case c_class self of
        ClientTCP a \<Rightarrow> hev_socks5_client_tcp_get_upstream_addr self a
      | ClientUDP _ \<Rightarrow> hev_socks5_client_udp_get_upstream_addr mem self)"

definition set_upstream_addr ::
  "resolver \<Rightarrow> net \<Rightarrow> HevSocks5Client \<Rightarrow> HevSocks5Addr \<Rightarrow> (int \<times> HevSocks5Client) option" where
  "set_upstream_addr rs net self addr =
     (case c_class self of
        ClientTCP _ \<Rightarrow> Some (0, self)
      | ClientUDP _ \<Rightarrow> hev_socks5_client_udp_set_upstream_addr rs net self addr)"

section \<open>Messages\<close>

definition hev_socks5_client_write_auth_methods :: "HevSocks5Client \<Rightarrow> int \<times> HevSocks5Client" where
  "hev_socks5_client_write_auth_methods self =
     (let method = (if c_user self = None \<or> c_pass self = None then 0 else 2)
      in case sock_send self [5, 1, method] of (res, self) \<Rightarrow>
        if res \<le> 0 then (- 1, self) else (0, self))"

text \<open>The lengths are stored in bytes; the vectors have these lengths.\<close>

definition hev_socks5_client_write_auth_creds :: "HevSocks5Client \<Rightarrow> int \<times> HevSocks5Client" where
  "hev_socks5_client_write_auth_creds self =
     (case (c_user self, c_pass self) of
        (Some user, Some pass) \<Rightarrow>
          (let ub1 = (of_nat (length user) :: byte); ub2 = (of_nat (length pass) :: byte)
           in case sock_sendmsg self [[1, ub1], take (unat ub1) user, [ub2], take (unat ub2) pass] of
             (res, self) \<Rightarrow> if res \<le> 0 then (- 1, self) else (0, self))
      | _ \<Rightarrow> (0, self))"

text \<open>The length of the address in a request; 0 stands for an unknown type.\<close>

definition request_addrlen :: "HevSocks5Addr \<Rightarrow> nat option" where
  "request_addrlen addr = do {
     atype \<leftarrow> bget addr 0;
     if atype = HEV_SOCKS5_ADDR_TYPE_IPV4 then Some 7
     else if atype = HEV_SOCKS5_ADDR_TYPE_IPV6 then Some 19
     else if atype = HEV_SOCKS5_ADDR_TYPE_NAME then do { len \<leftarrow> bget addr 1; Some (4 + unat len) }
     else Some 0 }"

definition hev_socks5_client_write_request ::
  "bool \<Rightarrow> HevSocks5Client \<Rightarrow> (int \<times> HevSocks5Client) option" where
  "hev_socks5_client_write_request mem self =
     (case s_type self of
        TYPE_NONE \<Rightarrow> Some (- 1, self)
      | type \<Rightarrow>
         (let cmd = (case type of TYPE_TCP \<Rightarrow> 1 | TYPE_UDP_IN_TCP \<Rightarrow> 5 | _ \<Rightarrow> 3)
          in case get_upstream_addr mem self of
             (None, self) \<Rightarrow> None
           | (Some addr, self) \<Rightarrow> do {
               addrlen \<leftarrow> request_addrlen addr;
               if addrlen = 0 then Some (- 1, self)
               else do {
                 a \<leftarrow> mget addr 0 addrlen;
                 case sock_sendmsg self [[5, cmd, 0], a] of (ret, self) \<Rightarrow>
                   if ret \<le> 0 then Some (- 1, self)
                   else Some (0, self\<lparr>c_blocks := c_blocks self - 1\<rparr>) } }))"

definition hev_socks5_client_read_auth_method :: "HevSocks5Client \<Rightarrow> int \<times> HevSocks5Client" where
  "hev_socks5_client_read_auth_method self =
     (case sock_recv self 2 of (res, auth, self) \<Rightarrow>
        if res \<noteq> 2 then (- 1, self)
        else if auth ! 0 \<noteq> 5 then (- 1, self)
        else (uint (auth ! 1), self))"

definition hev_socks5_client_read_auth_creds :: "HevSocks5Client \<Rightarrow> int \<times> HevSocks5Client" where
  "hev_socks5_client_read_auth_creds self =
     (case sock_recv self 2 of (ret, res, self) \<Rightarrow>
        if ret \<noteq> 2 then (- 1, self)
        else if res ! 0 \<noteq> 1 then (- 1, self)
        else if res ! 1 \<noteq> 0 then (- 1, self)
        else (0, self))"

definition hev_socks5_client_read_response ::
  "resolver \<Rightarrow> net \<Rightarrow> HevSocks5Client \<Rightarrow> (int \<times> HevSocks5Client) option" where
  "hev_socks5_client_read_response rs net self =
     (case sock_recv self 4 of (ret, res, self) \<Rightarrow>
        if ret \<noteq> 4 then Some (- 1, self)
        else if res ! 0 \<noteq> 5 then Some (- 1, self)
        else if res ! 1 \<noteq> 0 then Some (- 1, self)
        else if res ! 3 \<noteq> HEV_SOCKS5_ADDR_TYPE_IPV4 \<and> res ! 3 \<noteq> HEV_SOCKS5_ADDR_TYPE_IPV6 then Some (- 1, self)
        else let addrlen = (if res ! 3 = HEV_SOCKS5_ADDR_TYPE_IPV4 then 6 else 18)
          in case sock_recv self addrlen of (ret, addr, self) \<Rightarrow>
            if ret \<noteq> int addrlen then Some (- 1, self)
            else do {
              (ret, self) \<leftarrow> set_upstream_addr rs net self (res ! 3 # addr);
              if ret < 0 then Some (- 1, self) else Some (0, self) })"

section \<open>Connecting\<close>

definition hev_socks5_client_connect ::
  "socks5_misc \<Rightarrow> resolver \<Rightarrow> net \<Rightarrow> HevSocks5Client \<Rightarrow> cstr \<Rightarrow> int \<Rightarrow> (int \<times> HevSocks5Client) option" where
  "hev_socks5_client_connect m rs net self addr port = do {
     let self = hev_socks5_set_timeout self (connect_timeout m);
     (saddr, addr_family, res) \<leftarrow> hev_socks5_name_into_sockaddr6 rs addr port
        \<lparr>sin6_port = 0, sin6_addr = replicate 16 0\<rparr> (s_family self);
     if res < 0 then Some (- 1, self)
     else (case hev_socks5_socket net self of (fd, self) \<Rightarrow>
       if fd < 0 then Some (- 1, self)
       else if n_binder net < 0 then Some (- 1, close_fd self fd)
       else if hev_task_io_socket_connect (session_yielder self) (n_connect net) < 0
         then Some (- 1, close_fd self fd)
       else Some (0, hev_socks5_set_addr_family (self\<lparr>s_fd := fd, s_sock := n_stream net\<rparr>) addr_family)) }"

section \<open>Handshakes\<close>

definition hev_socks5_client_handshake_standard ::
  "bool \<Rightarrow> resolver \<Rightarrow> net \<Rightarrow> HevSocks5Client \<Rightarrow> (int \<times> HevSocks5Client) option" where
  "hev_socks5_client_handshake_standard mem rs net self =
     (case hev_socks5_client_write_auth_methods self of (res, self) \<Rightarrow>
      if res < 0 then Some (- 1, self)
      else case hev_socks5_client_read_auth_method self of (res, self) \<Rightarrow>
      if res < 0 then Some (- 1, self)
      else case (if res = 2
           then (case hev_socks5_client_write_auth_creds self of (res, self) \<Rightarrow>
             if res < 0 then (- 1, self) else hev_socks5_client_read_auth_creds self)
           else if res \<noteq> 0 then (- 1, self) else (0, self)) of (res, self) \<Rightarrow>
      if res < 0 then Some (- 1, self)
      else do {
        (res, self) \<leftarrow> hev_socks5_client_write_request mem self;
        if res < 0 then Some (- 1, self)
        else do {
          (res, self) \<leftarrow> hev_socks5_client_read_response rs net self;
          if res < 0 then Some (- 1, self) else Some (0, self) } })"

definition hev_socks5_client_handshake_pipeline ::
  "bool \<Rightarrow> resolver \<Rightarrow> net \<Rightarrow> HevSocks5Client \<Rightarrow> (int \<times> HevSocks5Client) option" where
  "hev_socks5_client_handshake_pipeline mem rs net self =
     (case hev_socks5_client_write_auth_methods self of (res, self) \<Rightarrow>
      if res < 0 then Some (- 1, self)
      else case hev_socks5_client_write_auth_creds self of (res, self) \<Rightarrow>
      if res < 0 then Some (- 1, self)
      else do {
        (res, self) \<leftarrow> hev_socks5_client_write_request mem self;
        if res < 0 then Some (- 1, self)
        else case hev_socks5_client_read_auth_method self of (res, self) \<Rightarrow>
          if res < 0 then Some (- 1, self)
          else case (if res = 2 then hev_socks5_client_read_auth_creds self
               else if res \<noteq> 0 then (- 1, self) else (0, self)) of (res, self) \<Rightarrow>
            if res < 0 then Some (- 1, self)
            else do {
              (res, self) \<leftarrow> hev_socks5_client_read_response rs net self;
              if res < 0 then Some (- 1, self) else Some (0, self) } })"

definition hev_socks5_client_handshake ::
  "socks5_misc \<Rightarrow> bool \<Rightarrow> resolver \<Rightarrow> net \<Rightarrow> HevSocks5Client \<Rightarrow> bool \<Rightarrow> (int \<times> HevSocks5Client) option" where
  "hev_socks5_client_handshake m mem rs net self pipeline = do {
     let self = hev_socks5_set_timeout self (tcp_timeout m);
     (res, self) \<leftarrow> (if pipeline then hev_socks5_client_handshake_pipeline mem rs net self
        else hev_socks5_client_handshake_standard mem rs net self);
     let self = (case s_type self of
          TYPE_UDP_IN_TCP \<Rightarrow> hev_socks5_set_timeout self (udp_timeout m)
        | TYPE_UDP_IN_UDP \<Rightarrow> hev_socks5_set_timeout self (udp_timeout m)
        | _ \<Rightarrow> self);
     Some (res, self) }"

section \<open>The bytes of the protocol\<close>

definition has_creds :: "HevSocks5Client \<Rightarrow> bool" where
  "has_creds self \<longleftrightarrow> c_user self \<noteq> None \<and> c_pass self \<noteq> None"

definition methods_bytes :: "bool \<Rightarrow> byte list" where
  "methods_bytes creds = [5, 1, if creds then 2 else 0]"

fun creds_bytes :: "cstr option \<Rightarrow> cstr option \<Rightarrow> byte list" where
  "creds_bytes (Some user) (Some pass) =
     [1, of_nat (length user)] @ user @ [of_nat (length pass)] @ pass"
| "creds_bytes _ _ = []"

fun cmd_of :: "HevSocks5Type \<Rightarrow> byte" where
  "cmd_of TYPE_TCP = 1"
| "cmd_of TYPE_UDP_IN_TCP = 5"
| "cmd_of TYPE_UDP_IN_UDP = 3"
| "cmd_of TYPE_NONE = 0"

definition request_bytes :: "HevSocks5Type \<Rightarrow> HevSocks5Addr \<Rightarrow> byte list" where
  "request_bytes type addr = [5, cmd_of type, 0] @ addr"

fun short_creds :: "cstr option \<Rightarrow> cstr option \<Rightarrow> bool" where
  "short_creds (Some user) (Some pass) \<longleftrightarrow> length user < 256 \<and> length pass < 256"
| "short_creds _ _ = True"

section \<open>Single messages\<close>

lemma write_auth_methods_ok:
  assumes "3 \<le> tx_room self"
  shows "\<exists>sk. hev_socks5_client_write_auth_methods self = (0, self\<lparr>s_sock := sk\<rparr>) \<and>
    tx sk = sent self @ methods_bytes (has_creds self) \<and> rx sk = rx (s_sock self) \<and>
    tx_room (self\<lparr>s_sock := sk\<rparr>) = tx_room self - 3"
  using send_ok [of "methods_bytes (has_creds self)" self] assms
  by (auto simp: hev_socks5_client_write_auth_methods_def methods_bytes_def has_creds_def)

lemma write_auth_creds_ok:
  assumes "short_creds (c_user self) (c_pass self)" "length (creds_bytes (c_user self) (c_pass self)) \<le> tx_room self"
  shows "\<exists>sk. hev_socks5_client_write_auth_creds self = (0, self\<lparr>s_sock := sk\<rparr>) \<and>
    tx sk = sent self @ creds_bytes (c_user self) (c_pass self) \<and> rx sk = rx (s_sock self) \<and>
    tx_room (self\<lparr>s_sock := sk\<rparr>) = tx_room self - length (creds_bytes (c_user self) (c_pass self))"
proof (cases "c_user self = None \<or> c_pass self = None")
  case True
  then have "hev_socks5_client_write_auth_creds self = (0, self)" "creds_bytes (c_user self) (c_pass self) = []"
    by (auto simp: hev_socks5_client_write_auth_creds_def split: option.splits)
  then show ?thesis by (intro exI [of _ "s_sock self"]) simp
next
  case False
  then obtain u p where up: "c_user self = Some u" "c_pass self = Some p" by auto
  then have "length u < 256" "length p < 256" using assms(1) by auto
  then have "concat [[1, of_nat (length u)], take (unat (of_nat (length u) :: byte)) u, [of_nat (length p)],
      take (unat (of_nat (length p) :: byte)) p] = creds_bytes (Some u) (Some p)"
    by (simp add: unat_of_nat_byte)
  then show ?thesis using send_ok [of "creds_bytes (Some u) (Some p)" self] assms(2) up
    by (auto simp: hev_socks5_client_write_auth_creds_def sock_sendmsg_send)
qed

lemma wire_addr_len: "wire_addr a \<Longrightarrow> request_addrlen a = Some (length a)"
  by (auto simp: wire_addr_def wire_ipv4_def wire_ipv6_def wire_domain_def bget_def unat_of_nat_byte request_addrlen_def)

lemma write_request_ok:
  assumes "s_type self \<noteq> TYPE_NONE" "get_upstream_addr mem self = (Some addr, self1)" "wire_addr addr"
    "s_sock self1 = s_sock self" "s_timeout self1 = s_timeout self"
    "3 + length addr \<le> tx_room self"
  shows "\<exists>sk. hev_socks5_client_write_request mem self =
      Some (0, self1\<lparr>s_sock := sk, c_blocks := c_blocks self1 - 1\<rparr>) \<and>
    tx sk = sent self @ request_bytes (s_type self) addr \<and> rx sk = rx (s_sock self)"
proof -
  have t: "request_addrlen addr = Some (length addr)" by (rule wire_addr_len [OF assms(3)])
  then have ne: "length addr \<noteq> 0" by (auto simp: request_addrlen_def bget_def)
  let ?b = "request_bytes (s_type self) addr"
  have "length ?b \<le> tx_room self1" "?b \<noteq> []" using assms(4-6) by (auto simp: request_bytes_def tx_room_def)
  then obtain sk where sk: "sock_send self1 ?b = (int (length ?b), self1\<lparr>s_sock := sk\<rparr>)" "tx sk = sent self @ ?b"
      "rx sk = rx (s_sock self)" using send_ok [of ?b self1] assms(4) by auto
  have b: "sock_sendmsg self1 [[5, cmd_of (s_type self), 0], addr] = (int (length ?b), self1\<lparr>s_sock := sk\<rparr>)"
    using sk(1) by (simp add: sock_sendmsg_send request_bytes_def)
  have "hev_socks5_client_write_request mem self = Some (0, self1\<lparr>s_sock := sk, c_blocks := c_blocks self1 - 1\<rparr>)"
    using assms(1) t ne b
    by (cases "s_type self") (simp_all add: hev_socks5_client_write_request_def assms(2) mget_def request_bytes_def)
  then show ?thesis using sk by blast
qed

lemma read_auth_method_spec:
  "\<exists>r sk. hev_socks5_client_read_auth_method self = (r, self\<lparr>s_sock := sk\<rparr>) \<and> tx sk = sent self \<and>
    txs sk = txs (s_sock self) \<and>
    (if \<exists>m ys. inp self = 5 # m # ys then \<exists>m. r = uint m \<and> inp self = 5 # m # inp (self\<lparr>s_sock := sk\<rparr>) else r = - 1)"
  using recv2 [of self]
  by (fastforce simp: hev_socks5_client_read_auth_method_def split: list.splits)

lemma read_auth_creds_spec:
  "\<exists>r sk. hev_socks5_client_read_auth_creds self = (r, self\<lparr>s_sock := sk\<rparr>) \<and> tx sk = sent self \<and>
    txs sk = txs (s_sock self) \<and>
    (if \<exists>ys. inp self = 1 # 0 # ys then r = 0 \<and> inp self = 1 # 0 # inp (self\<lparr>s_sock := sk\<rparr>) else r = - 1)"
  using recv2 [of self]
  by (fastforce simp: hev_socks5_client_read_auth_creds_def split: list.splits)

definition reply_addr :: "byte list \<Rightarrow> bool" where
  "reply_addr a \<longleftrightarrow> length a = 7 \<and> a ! 0 = 1 \<or> length a = 19 \<and> a ! 0 = 4"

lemma reply_addr_Cons: "reply_addr (t # bs) \<longleftrightarrow> t = 1 \<and> length bs = 6 \<or> t = 4 \<and> length bs = 18"
  by (auto simp: reply_addr_def)

lemma wire_sockaddr_reply: "length (sin6_addr sa) = 16 \<Longrightarrow> reply_addr (wire_sockaddr sa)"
  by (auto simp: reply_addr_def wire_sockaddr_def wire_ipv4_def wire_ipv6_def)

lemma read_response_ok:
  assumes "inp self = [5, 0, rsv] @ a @ rest" "reply_addr a"
  shows "\<exists>sk. hev_socks5_client_read_response rs net self =
      do { (ret, self) \<leftarrow> set_upstream_addr rs net (self\<lparr>s_sock := sk\<rparr>) a;
           if ret < 0 then Some (- 1, self) else Some (0, self) } \<and>
    inp (self\<lparr>s_sock := sk\<rparr>) = rest \<and> tx sk = sent self"
proof -
  obtain t bs where a: "a = t # bs" "t = 1 \<and> length bs = 6 \<or> t = 4 \<and> length bs = 18"
    using assms(2) by (cases a) (auto simp: reply_addr_Cons reply_addr_def)
  obtain sk1 where 1: "sock_recv self 4 = (4, [5, 0, rsv, t], self\<lparr>s_sock := sk1\<rparr>)"
      "inp (self\<lparr>s_sock := sk1\<rparr>) = bs @ rest" "tx sk1 = sent self"
    using recv_append [of self "[5, 0, rsv, t]" "bs @ rest" 4] assms(1) a(1) by auto
  let ?n = "if t = 1 then 6 else 18 :: nat"
  have n: "length bs = ?n" "bs \<noteq> []" using a(2) by auto
  obtain sk2 where 2: "sock_recv (self\<lparr>s_sock := sk1\<rparr>) ?n = (int ?n, bs, self\<lparr>s_sock := sk2\<rparr>)"
      "inp (self\<lparr>s_sock := sk2\<rparr>) = rest" "tx sk2 = tx sk1"
    using recv_append [OF 1(2) n(2) n(1) [symmetric]] by auto
  show ?thesis using 1 2 a
    by (intro exI [of _ sk2]) (auto simp: hev_socks5_client_read_response_def)
qed

lemma read_response_only:
  assumes "hev_socks5_client_read_response rs net self = Some (0, self')"
  shows "\<exists>rsv a sk ret. inp self = [5, 0, rsv] @ a @ inp (self\<lparr>s_sock := sk\<rparr>) \<and> reply_addr a \<and>
    set_upstream_addr rs net (self\<lparr>s_sock := sk\<rparr>) a = Some (ret, self') \<and> 0 \<le> ret"
proof -
  obtain res buf sk where r: "sock_recv self 4 = (res, buf, self\<lparr>s_sock := sk\<rparr>)"
      "res = 4 \<longrightarrow> inp self = buf @ inp (self\<lparr>s_sock := sk\<rparr>) \<and> length buf = 4"
    using recv_cases [of 4 self] by auto
  have c: "res = 4" "buf ! 0 = 5" "buf ! 1 = 0" "buf ! 3 = 1 \<or> buf ! 3 = 4"
    using assms r(1) by (auto simp: hev_socks5_client_read_response_def split: if_splits)
  then have "length buf = 4" using r(2) by simp
  then obtain b2 b3 where b: "buf = [5, 0, b2, b3]" using c(2,3) by (auto simp: length_Suc_conv numeral_eq_Suc)
  define n :: nat where "n = (if b3 = 1 then 6 else 18)"
  then have "0 < n" by simp
  then obtain res2 buf2 sk2 where r2: "sock_recv (self\<lparr>s_sock := sk\<rparr>) n = (res2, buf2, self\<lparr>s_sock := sk2\<rparr>)"
      "res2 = int n \<longrightarrow> inp (self\<lparr>s_sock := sk\<rparr>) = buf2 @ inp (self\<lparr>s_sock := sk2\<rparr>) \<and> length buf2 = n"
    using recv_cases [of n "self\<lparr>s_sock := sk\<rparr>"] by auto
  have b3: "b3 = 1 \<or> b3 = 4" using c(4) b by simp
  then obtain ret where ret: "res2 = int n" "set_upstream_addr rs net (self\<lparr>s_sock := sk2\<rparr>) (b3 # buf2) = Some (ret, self')" "0 \<le> ret"
    using assms r(1) r2(1) [unfolded n_def] c(1) b
    by (auto simp: n_def hev_socks5_client_read_response_def Option.bind_eq_Some_conv split: if_splits)
  have "inp self = [5, 0, b2] @ (b3 # buf2) @ inp (self\<lparr>s_sock := sk2\<rparr>)" using r(2) r2(2) ret(1) c(1) b by simp
  moreover have "reply_addr (b3 # buf2)" using r2(2) ret(1) b3 n_def by (auto simp: reply_addr_Cons)
  ultimately show ?thesis using ret(2,3) by blast
qed

text \<open>The address of a reply never needs the resolver, so what remains is the kernel.\<close>

definition net_ok :: "net \<Rightarrow> HevSocks5Client \<Rightarrow> bool" where
  "net_ok net self \<longleftrightarrow> 0 \<le> n_socket net \<and> 0 \<le> n_v6only net \<and> 0 \<le> n_binder net \<and>
     0 \<le> hev_task_io_socket_connect (session_yielder self) (n_connect net)"

lemma bytes16_surj: "length xs = 2 \<Longrightarrow> \<exists>p. xs = bytes16 p"
proof -
  assume "length xs = 2"
  then obtain x y where xs: "xs = [x, y]" by (auto simp: length_Suc_conv numeral_2_eq_2)
  have "ucast (ucast x OR push_bit 8 (ucast y) :: u16) = x" "ucast (drop_bit 8 (ucast x OR push_bit 8 (ucast y) :: u16)) = y"
    by (rule bit_eqI; auto simp: bit_simps dest: bit_imp_le_length)+
  then show ?thesis using xs by (auto simp: bytes16_def intro!: exI [of _ "ucast x OR push_bit 8 (ucast y)"])
qed

lemma reply_addr_wire:
  assumes "reply_addr a"
  shows "(\<exists>ip port. length ip = 4 \<and> a = wire_ipv4 ip port) \<or> (\<exists>ip port. length ip = 16 \<and> a = wire_ipv6 ip port)"
proof -
  obtain t bs where a: "a = t # bs" "t = 1 \<and> length bs = 6 \<or> t = 4 \<and> length bs = 18"
    using assms by (cases a) (auto simp: reply_addr_Cons reply_addr_def)
  let ?n = "length bs - 2"
  obtain p where "drop ?n bs = bytes16 p" using bytes16_surj [of "drop ?n bs"] a(2) by auto
  then have "bs = take ?n bs @ bytes16 p" by (metis append_take_drop_id)
  then have bs: "t = 1 \<and> length (take ?n bs) = 4 \<and> a = wire_ipv4 (take ?n bs) p \<or>
      t = 4 \<and> length (take ?n bs) = 16 \<and> a = wire_ipv6 (take ?n bs) p"
    using a by (auto simp: wire_ipv4_def wire_ipv6_def)
  then show ?thesis by blast
qed

lemma set_upstream_addr_ok:
  assumes "reply_addr a" "s_type self = TYPE_UDP_IN_UDP \<Longrightarrow> net_ok net self"
  shows "\<exists>self'. set_upstream_addr rs net self a = Some (0, self') \<and> s_sock self' = s_sock self \<and>
    s_timeout self' = s_timeout self"
proof -
  have into: "\<exists>sa fam'. hev_socks5_addr_into_sockaddr6 rs a \<lparr>sin6_port = 0, sin6_addr = replicate 16 0\<rparr> fam = Some (sa, fam', 0)" for fam
    using reply_addr_wire [OF assms(1)]
    by (auto simp: into_sockaddr6_ipv4 [of _ _ _ _ "[]", simplified] into_sockaddr6_ipv6 [of _ _ _ _ "[]", simplified])
  show ?thesis
  proof (cases "s_type self = TYPE_UDP_IN_UDP")
    case True
    then show ?thesis using assms(2) into [of "s_family self"]
      by (auto simp: set_upstream_addr_def hev_socks5_client_udp_set_upstream_addr_def hev_socks5_socket_def
          net_ok_def close_fd_def Let_def split: client_class.splits)
  next
    case False
    then show ?thesis by (auto simp: set_upstream_addr_def hev_socks5_client_udp_set_upstream_addr_def split: client_class.splits)
  qed
qed

lemma get_upstream_addr_sock:
  "get_upstream_addr mem (self\<lparr>s_sock := sk\<rparr>) = (case get_upstream_addr mem self of (a, self1) \<Rightarrow> (a, self1\<lparr>s_sock := sk\<rparr>))"
  by (auto simp: get_upstream_addr_def hev_socks5_client_tcp_get_upstream_addr_def
      hev_socks5_client_udp_get_upstream_addr_def split: client_class.splits HevSocks5AddrFamily.splits)

lemma get_upstream_addr_frame:
  "get_upstream_addr mem self = (a, self1) \<Longrightarrow> s_sock self1 = s_sock self \<and> s_timeout self1 = s_timeout self \<and>
    s_type self1 = s_type self \<and> s_family self1 = s_family self \<and> s_fd self1 = s_fd self \<and> s_open self1 = s_open self"
  by (auto simp: get_upstream_addr_def hev_socks5_client_tcp_get_upstream_addr_def
      hev_socks5_client_udp_get_upstream_addr_def split: client_class.splits HevSocks5AddrFamily.splits if_splits)

section \<open>Whole handshakes\<close>

definition server_replies :: "bool \<Rightarrow> byte \<Rightarrow> byte list \<Rightarrow> byte list" where
  "server_replies creds rsv a = [5, if creds then 2 else 0] @ (if creds then [1, 0] else []) @ [5, 0, rsv] @ a"

definition client_bytes :: "HevSocks5Client \<Rightarrow> HevSocks5Addr \<Rightarrow> byte list" where
  "client_bytes self addr = methods_bytes (has_creds self) @ creds_bytes (c_user self) (c_pass self) @
     request_bytes (s_type self) addr"

text \<open>A session that is ready for its handshake: the class has the address to request, the
  lengths of the credentials fit into a byte, and the socket takes everything that is sent.\<close>

definition client_ready :: "bool \<Rightarrow> net \<Rightarrow> HevSocks5Client \<Rightarrow> HevSocks5Addr \<Rightarrow> bool" where
  "client_ready mem net self addr \<longleftrightarrow> s_type self \<noteq> TYPE_NONE \<and> fst (get_upstream_addr mem self) = Some addr \<and>
     wire_addr addr \<and> short_creds (c_user self) (c_pass self) \<and> length (client_bytes self addr) \<le> tx_room self \<and>
     (s_type self = TYPE_UDP_IN_UDP \<longrightarrow> net_ok net self)"

lemma has_creds_sock [simp]: "has_creds (self\<lparr>s_sock := sk\<rparr>) = has_creds self"
  by (simp add: has_creds_def)

lemma creds_bytes_none: "\<not> has_creds self \<Longrightarrow> creds_bytes (c_user self) (c_pass self) = []"
  by (auto simp: has_creds_def)

text \<open>The last two messages, which both variants end with in this or the other order.\<close>

lemma write_request_sock:
  assumes "client_ready mem net self addr" "length (request_bytes (s_type self) addr) \<le> tx_room (self\<lparr>s_sock := sk\<rparr>)"
  shows "\<exists>self2. hev_socks5_client_write_request mem (self\<lparr>s_sock := sk\<rparr>) = Some (0, self2) \<and>
    sent self2 = tx sk @ request_bytes (s_type self) addr \<and> rx (s_sock self2) = rx sk \<and>
    s_timeout self2 = s_timeout self \<and> s_type self2 = s_type self"
proof -
  obtain self1 where g: "get_upstream_addr mem self = (Some addr, self1)"
    using assms(1) by (metis client_ready_def prod.collapse)
  have g': "get_upstream_addr mem (self\<lparr>s_sock := sk\<rparr>) = (Some addr, self1\<lparr>s_sock := sk\<rparr>)"
    by (simp add: get_upstream_addr_sock g)
  note F = get_upstream_addr_frame [OF g]
  obtain sk2 where "hev_socks5_client_write_request mem (self\<lparr>s_sock := sk\<rparr>) =
        Some (0, self1\<lparr>s_sock := sk\<rparr>\<lparr>s_sock := sk2, c_blocks := c_blocks self1 - 1\<rparr>)"
      "tx sk2 = tx sk @ request_bytes (s_type self) addr" "rx sk2 = rx sk"
    using write_request_ok [OF _ g'] assms F by (auto simp: client_ready_def request_bytes_def)
  then show ?thesis using F by auto
qed

lemma read_response_net:
  assumes "inp self = [5, 0, rsv] @ a @ rest" "reply_addr a" "s_type self = TYPE_UDP_IN_UDP \<longrightarrow> net_ok net self"
  shows "\<exists>self'. hev_socks5_client_read_response rs net self = Some (0, self') \<and> sent self' = sent self \<and> inp self' = rest"
proof -
  obtain sk where sk: "hev_socks5_client_read_response rs net self =
      do { (ret, self) \<leftarrow> set_upstream_addr rs net (self\<lparr>s_sock := sk\<rparr>) a;
           if ret < 0 then Some (- 1, self) else Some (0, self) }"
      "inp (self\<lparr>s_sock := sk\<rparr>) = rest" "tx sk = sent self"
    using read_response_ok [OF assms(1,2)] by blast
  obtain self' where "set_upstream_addr rs net (self\<lparr>s_sock := sk\<rparr>) a = Some (0, self')" "s_sock self' = sk"
      "s_timeout self' = s_timeout self"
    using set_upstream_addr_ok [OF assms(2), of "self\<lparr>s_sock := sk\<rparr>" net rs] assms(3) by (auto simp: net_ok_def)
  then show ?thesis using sk by (auto simp: inp_def)
qed

text \<open>The middle of the standard variant: the credentials, if the server asked for them.\<close>

lemma standard_creds_ok:
  assumes "short_creds (c_user self) (c_pass self)" "length (creds_bytes (c_user self) (c_pass self)) \<le> tx_room self"
    "inp self = (if has_creds self then [1, 0] else []) @ ys" "r = (if has_creds self then 2 else 0 :: int)"
  shows "\<exists>sk. (if r = 2
           then (case hev_socks5_client_write_auth_creds self of (res, self) \<Rightarrow>
             if res < 0 then (- 1, self) else hev_socks5_client_read_auth_creds self)
           else if r \<noteq> 0 then (- 1, self) else (0, self)) = (0, self\<lparr>s_sock := sk\<rparr>) \<and>
    tx sk = sent self @ creds_bytes (c_user self) (c_pass self) \<and> inp (self\<lparr>s_sock := sk\<rparr>) = ys \<and>
    tx_room (self\<lparr>s_sock := sk\<rparr>) = tx_room self - length (creds_bytes (c_user self) (c_pass self))"
proof (cases "has_creds self")
  case True
  let ?C = "creds_bytes (c_user self) (c_pass self)"
  obtain sk where w: "hev_socks5_client_write_auth_creds self = (0, self\<lparr>s_sock := sk\<rparr>)"
      "tx sk = sent self @ ?C" "rx sk = rx (s_sock self)" "tx_room (self\<lparr>s_sock := sk\<rparr>) = tx_room self - length ?C"
    using write_auth_creds_ok [OF assms(1,2)] by blast
  have i: "inp (self\<lparr>s_sock := sk\<rparr>) = 1 # 0 # ys" using assms(3) w(3) True by (simp add: inp_def)
  obtain sk' where "hev_socks5_client_read_auth_creds (self\<lparr>s_sock := sk\<rparr>) = (0, self\<lparr>s_sock := sk'\<rparr>)"
      "tx sk' = tx sk" "txs sk' = txs sk" "inp (self\<lparr>s_sock := sk'\<rparr>) = ys"
    using read_auth_creds_spec [of "self\<lparr>s_sock := sk\<rparr>"] i by auto
  then show ?thesis using w assms(4) True by (intro exI [of _ sk']) (simp add: tx_room_def)
next
  case False
  then show ?thesis using assms(3,4) creds_bytes_none [OF False] by (intro exI [of _ "s_sock self"]) simp
qed

lemma standard_creds_sock:
  assumes "short_creds (c_user self) (c_pass self)"
    "length (creds_bytes (c_user self) (c_pass self)) \<le> tx_room (self\<lparr>s_sock := sk0\<rparr>)"
    "inp (self\<lparr>s_sock := sk0\<rparr>) = (if has_creds self then [1, 0] else []) @ ys" "r = (if has_creds self then 2 else 0 :: int)"
  shows "\<exists>sk. (if r = 2
           then (case hev_socks5_client_write_auth_creds (self\<lparr>s_sock := sk0\<rparr>) of (res, self) \<Rightarrow>
             if res < 0 then (- 1, self) else hev_socks5_client_read_auth_creds self)
           else if r \<noteq> 0 then (- 1, self\<lparr>s_sock := sk0\<rparr>) else (0, self\<lparr>s_sock := sk0\<rparr>)) = (0, self\<lparr>s_sock := sk\<rparr>) \<and>
    tx sk = tx sk0 @ creds_bytes (c_user self) (c_pass self) \<and> inp (self\<lparr>s_sock := sk\<rparr>) = ys \<and>
    tx_room (self\<lparr>s_sock := sk\<rparr>) = tx_room (self\<lparr>s_sock := sk0\<rparr>) - length (creds_bytes (c_user self) (c_pass self))"
proof -
  have "r = (if has_creds (self\<lparr>s_sock := sk0\<rparr>) then 2 else 0)" using assms(4) by simp
  from standard_creds_ok [OF _ _ _ this, of ys] show ?thesis using assms(1,2,3) by simp
qed

lemma handshake_standard_ok:
  assumes "client_ready mem net self addr" "inp self = server_replies (has_creds self) rsv a @ rest" "reply_addr a"
  shows "\<exists>self'. hev_socks5_client_handshake_standard mem rs net self = Some (0, self') \<and>
    sent self' = sent self @ client_bytes self addr \<and> inp self' = rest"
proof -
  let ?C = "creds_bytes (c_user self) (c_pass self)"
  have rm: "3 \<le> tx_room self" "3 + length ?C + length (request_bytes (s_type self) addr) \<le> tx_room self"
      "length ?C \<le> tx_room self - 3"
    and sc: "short_creds (c_user self) (c_pass self)"
    using assms(1) by (auto simp: client_ready_def client_bytes_def methods_bytes_def)
  obtain sk1 where 1: "hev_socks5_client_write_auth_methods self = (0, self\<lparr>s_sock := sk1\<rparr>)"
      "tx sk1 = sent self @ methods_bytes (has_creds self)" "rx sk1 = rx (s_sock self)" "tx_room (self\<lparr>s_sock := sk1\<rparr>) = tx_room self - 3"
    using write_auth_methods_ok [OF rm(1)] by blast
  obtain r sk2 where 2: "hev_socks5_client_read_auth_method (self\<lparr>s_sock := sk1\<rparr>) = (r, self\<lparr>s_sock := sk2\<rparr>)"
      "tx sk2 = tx sk1" "txs sk2 = txs sk1" "r = (if has_creds self then 2 else 0)"
      "inp (self\<lparr>s_sock := sk2\<rparr>) = (if has_creds self then [1, 0] else []) @ [5, 0, rsv] @ a @ rest"
    using read_auth_method_spec [of "self\<lparr>s_sock := sk1\<rparr>"] assms(2) 1(3)
    by (auto simp: inp_sock_cong server_replies_def split: if_splits)
  have room2: "tx_room (self\<lparr>s_sock := sk2\<rparr>) = tx_room self - 3" using 1(4) 2(3) by (simp add: tx_room_def)
  have len2: "length ?C \<le> tx_room (self\<lparr>s_sock := sk2\<rparr>)" unfolding room2 by (rule rm(3))
  obtain sk3 where 3: "(if r = 2
           then (case hev_socks5_client_write_auth_creds (self\<lparr>s_sock := sk2\<rparr>) of (res, self) \<Rightarrow>
             if res < 0 then (- 1, self) else hev_socks5_client_read_auth_creds self)
           else if r \<noteq> 0 then (- 1, self\<lparr>s_sock := sk2\<rparr>) else (0, self\<lparr>s_sock := sk2\<rparr>)) = (0, self\<lparr>s_sock := sk3\<rparr>)"
      "tx sk3 = tx sk2 @ ?C" "inp (self\<lparr>s_sock := sk3\<rparr>) = [5, 0, rsv] @ a @ rest"
      "tx_room (self\<lparr>s_sock := sk3\<rparr>) = tx_room (self\<lparr>s_sock := sk2\<rparr>) - length ?C"
    using standard_creds_sock [OF sc len2 2(5) 2(4)] by (elim exE conjE) (rule that)
  then have rq: "length (request_bytes (s_type self) addr) \<le> tx_room (self\<lparr>s_sock := sk3\<rparr>)"
    unfolding 3(4) room2 using rm(2) by simp
  obtain self4 where 4: "hev_socks5_client_write_request mem (self\<lparr>s_sock := sk3\<rparr>) = Some (0, self4)"
      "sent self4 = tx sk3 @ request_bytes (s_type self) addr" "rx (s_sock self4) = rx sk3" "s_timeout self4 = s_timeout self"
      "s_type self4 = s_type self"
    using write_request_sock [OF assms(1) rq] by blast
  have i4: "inp self4 = [5, 0, rsv] @ a @ rest" using 3(3) 4(3,4) by (simp add: inp_def)
  have "s_type self4 = TYPE_UDP_IN_UDP \<longrightarrow> net_ok net self4"
    using assms(1) 4(4,5) by (auto simp: client_ready_def net_ok_def)
  then obtain self' where 5: "hev_socks5_client_read_response rs net self4 = Some (0, self')" "sent self' = sent self4" "inp self' = rest"
    using read_response_net [OF i4 assms(3)] by blast
  have r0: "\<not> r < 0" using 2(4) by simp
  have "hev_socks5_client_handshake_standard mem rs net self = Some (0, self')"
    using 1(1) 2(1) r0 3(1) 4(1) 5(1) by (simp add: hev_socks5_client_handshake_standard_def)
  then show ?thesis using 5 4(2) 3(2) 2(2) 1(2) by (simp add: client_bytes_def)
qed

lemma handshake_pipeline_ok:
  assumes "client_ready mem net self addr" "inp self = server_replies (has_creds self) rsv a @ rest" "reply_addr a"
  shows "\<exists>self'. hev_socks5_client_handshake_pipeline mem rs net self = Some (0, self') \<and>
    sent self' = sent self @ client_bytes self addr \<and> inp self' = rest"
proof -
  let ?C = "creds_bytes (c_user self) (c_pass self)"
  have rm: "3 \<le> tx_room self" "3 + length ?C + length (request_bytes (s_type self) addr) \<le> tx_room self"
      "length ?C \<le> tx_room self - 3"
    and sc: "short_creds (c_user self) (c_pass self)"
    using assms(1) by (auto simp: client_ready_def client_bytes_def methods_bytes_def)
  obtain sk1 where 1: "hev_socks5_client_write_auth_methods self = (0, self\<lparr>s_sock := sk1\<rparr>)"
      "tx sk1 = sent self @ methods_bytes (has_creds self)" "rx sk1 = rx (s_sock self)" "tx_room (self\<lparr>s_sock := sk1\<rparr>) = tx_room self - 3"
    using write_auth_methods_ok [OF rm(1)] by blast
  obtain sk2 where 2: "hev_socks5_client_write_auth_creds (self\<lparr>s_sock := sk1\<rparr>) = (0, self\<lparr>s_sock := sk2\<rparr>)"
      "tx sk2 = tx sk1 @ ?C" "rx sk2 = rx sk1" "tx_room (self\<lparr>s_sock := sk2\<rparr>) = tx_room self - 3 - length ?C"
    using write_auth_creds_ok [of "self\<lparr>s_sock := sk1\<rparr>"] sc rm(3) 1(4) by auto
  have rq: "length (request_bytes (s_type self) addr) \<le> tx_room (self\<lparr>s_sock := sk2\<rparr>)" using 2(4) rm(2) by simp
  obtain self3 where 3: "hev_socks5_client_write_request mem (self\<lparr>s_sock := sk2\<rparr>) = Some (0, self3)"
      "sent self3 = tx sk2 @ request_bytes (s_type self) addr" "rx (s_sock self3) = rx sk2" "s_timeout self3 = s_timeout self"
      "s_type self3 = s_type self"
    using write_request_sock [OF assms(1) rq] by blast
  have i3: "inp self3 = server_replies (has_creds self) rsv a @ rest" using assms(2) 1(3) 2(3) 3(3,4) by (simp add: inp_def)
  obtain r sk4 where 4: "hev_socks5_client_read_auth_method self3 = (r, self3\<lparr>s_sock := sk4\<rparr>)"
      "tx sk4 = sent self3" "r = (if has_creds self then 2 else 0)"
      "inp (self3\<lparr>s_sock := sk4\<rparr>) = (if has_creds self then [1, 0] else []) @ [5, 0, rsv] @ a @ rest"
    using read_auth_method_spec [of self3] i3 by (auto simp: server_replies_def split: if_splits)
  obtain sk5 where 5: "(if r = 2 then hev_socks5_client_read_auth_creds (self3\<lparr>s_sock := sk4\<rparr>)
           else if r \<noteq> 0 then (- 1, self3\<lparr>s_sock := sk4\<rparr>) else (0, self3\<lparr>s_sock := sk4\<rparr>)) = (0, self3\<lparr>s_sock := sk5\<rparr>)"
      "tx sk5 = tx sk4" "inp (self3\<lparr>s_sock := sk5\<rparr>) = [5, 0, rsv] @ a @ rest"
    using read_auth_creds_spec [of "self3\<lparr>s_sock := sk4\<rparr>"] 4(3,4) that by (cases "has_creds self") auto
  have "s_type self3 = TYPE_UDP_IN_UDP \<longrightarrow> net_ok net (self3\<lparr>s_sock := sk5\<rparr>)"
    using assms(1) 3(4,5) by (auto simp: client_ready_def net_ok_def)
  then obtain self' where 6: "hev_socks5_client_read_response rs net (self3\<lparr>s_sock := sk5\<rparr>) = Some (0, self')"
      "sent self' = tx sk5" "inp self' = rest"
    using read_response_net [OF 5(3) assms(3)] by auto
  have r0: "\<not> r < 0" using 4(3) by simp
  have "hev_socks5_client_handshake_pipeline mem rs net self = Some (0, self')"
    using 1(1) 2(1) 3(1) 4(1) r0 5(1) 6(1) by (simp add: hev_socks5_client_handshake_pipeline_def)
  then show ?thesis using 6 5(2) 4(2) 3(2) 2(2) 1(2) by (simp add: client_bytes_def)
qed

section \<open>Success only with the consent of the server\<close>

text \<open>The bytes with which a server grants a request.\<close>

definition granted :: "byte list \<Rightarrow> bool" where
  "granted bs \<longleftrightarrow> (\<exists>rsv a rest. reply_addr a \<and>
     (bs = [5, 0] @ [5, 0, rsv] @ a @ rest \<or> bs = [5, 2] @ [1, 0] @ [5, 0, rsv] @ a @ rest))"

lemma read_response_res:
  "hev_socks5_client_read_response rs net self = Some (r, self') \<Longrightarrow> r = 0 \<or> r = - 1"
  by (auto simp: hev_socks5_client_read_response_def case_prod_beta Let_def Option.bind_eq_Some_conv split: if_split_asm)

lemma read_response_granted:
  "hev_socks5_client_read_response rs net self = Some (r, self') \<Longrightarrow> \<not> r < 0 \<Longrightarrow>
   \<exists>rsv a rest. inp self = [5, 0, rsv] @ a @ rest \<and> reply_addr a"
  using read_response_res [of rs net self r self'] read_response_only [of rs net self self'] by auto

lemma read_auth_method_granted:
  assumes "hev_socks5_client_read_auth_method self = (r, self')" "\<not> r < 0"
  shows "\<exists>m sk. self' = self\<lparr>s_sock := sk\<rparr> \<and> tx sk = sent self \<and> r = uint m \<and> inp self = 5 # m # inp self'"
  using read_auth_method_spec [of self] assms by (auto split: if_splits)

lemma read_auth_creds_granted:
  assumes "hev_socks5_client_read_auth_creds self = (r, self')" "\<not> r < 0"
  shows "\<exists>sk. self' = self\<lparr>s_sock := sk\<rparr> \<and> inp self = 1 # 0 # inp self'"
  using read_auth_creds_spec [of self] assms by (auto split: if_splits)

lemma write_inp:
  "inp (snd (hev_socks5_client_write_auth_methods self)) = inp self"
  "inp (snd (hev_socks5_client_write_auth_creds self)) = inp self"
  by (auto simp: hev_socks5_client_write_auth_methods_def hev_socks5_client_write_auth_creds_def sock_sendmsg_send
      Let_def case_prod_beta send_inp split: option.split)

lemma write_request_inp:
  assumes "hev_socks5_client_write_request mem self = Some (r, self')" shows "inp self' = inp self"
proof -
  obtain a self1 where g: "get_upstream_addr mem self = (a, self1)" by fastforce
  have i: "inp self1 = inp self" "inp (x\<lparr>c_blocks := n\<rparr>) = inp x" for x :: HevSocks5Client and n
    using get_upstream_addr_frame [OF g] by (simp_all add: inp_def)
  show ?thesis
  proof (cases "s_type self = TYPE_NONE \<or> a = None")
    case True
    then show ?thesis using assms g by (cases "s_type self") (auto simp: hev_socks5_client_write_request_def)
  next
    case False
    then obtain addr where a: "a = Some addr" by blast
    then obtain n where n: "request_addrlen addr = Some n"
      using assms g False by (cases "request_addrlen addr"; cases "s_type self") (auto simp: hev_socks5_client_write_request_def)
    have "self' = self1 \<or> (\<exists>b k. self' = snd (sock_send self1 b) \<or> self' = (snd (sock_send self1 b))\<lparr>c_blocks := k\<rparr>)"
      using assms g a n False
      by (cases "mget addr 0 n"; cases "s_type self")
        (auto simp: hev_socks5_client_write_request_def sock_sendmsg_send case_prod_beta split: if_split_asm)
    then show ?thesis using i send_inp [of self1] by auto
  qed
qed

lemma granted_standard:
  assumes "hev_socks5_client_handshake_standard mem rs net self = Some (0, self')"
  shows "granted (inp self)"
proof -
  obtain r1 s1 where 1: "hev_socks5_client_write_auth_methods self = (r1, s1)" by fastforce
  obtain r2 s2 where 2: "hev_socks5_client_read_auth_method s1 = (r2, s2)" by fastforce
  obtain r3 s3 where 3: "(if r2 = 2
           then (case hev_socks5_client_write_auth_creds s2 of (res, self) \<Rightarrow>
             if res < 0 then (- 1, self) else hev_socks5_client_read_auth_creds self)
           else if r2 \<noteq> 0 then (- 1, s2) else (0, s2)) = (r3, s3)" by fastforce
  have c: "\<not> r1 < 0" "\<not> r2 < 0" "\<not> r3 < 0"
    using assms 1 2 3 by (auto simp: hev_socks5_client_handshake_standard_def split: if_splits)
  obtain r4 s4 r5 where 4: "hev_socks5_client_write_request mem s3 = Some (r4, s4)"
      "hev_socks5_client_read_response rs net s4 = Some (r5, self')" "\<not> r5 < 0"
    using assms 1 2 3 c
    by (auto simp: hev_socks5_client_handshake_standard_def Option.bind_eq_Some_conv split: if_splits)
  have i1: "inp s1 = inp self" using write_inp(1) [of self] 1 by simp
  obtain m where m: "r2 = uint m" "inp s1 = 5 # m # inp s2" using read_auth_method_granted [OF 2 c(2)] by blast
  obtain rsv a rest where a: "inp s3 = [5, 0, rsv] @ a @ rest" "reply_addr a"
    using read_response_granted [OF 4(2,3)] write_request_inp [OF 4(1)] by auto
  consider "r2 = 2" "inp s2 = 1 # 0 # inp s3" | "r2 = 0" "inp s2 = inp s3"
  proof (cases "r2 = 2")
    case True
    obtain r s where w: "hev_socks5_client_write_auth_creds s2 = (r, s)" by fastforce
    then have "hev_socks5_client_read_auth_creds s = (r3, s3)" using 3 c(3) True by (auto split: if_splits)
    then show ?thesis using that(1) True read_auth_creds_granted [OF _ c(3)] write_inp(2) [of s2] w by fastforce
  next
    case False
    then show ?thesis using that(2) 3 c(3) by (auto split: if_splits)
  qed
  then show ?thesis
  proof cases
    case 1
    then have "m = 2" using m(1) by (metis word_of_int_uint word_of_int_numeral)
    then show ?thesis using i1 m(2) 1(2) a unfolding granted_def by (intro exI [of _ rsv] exI [of _ a] exI [of _ rest]) simp
  next
    case 2
    then have "m = 0" using m(1) by (simp add: uint_0_iff)
    then show ?thesis using i1 m(2) 2(2) a unfolding granted_def by (intro exI [of _ rsv] exI [of _ a] exI [of _ rest]) simp
  qed
qed

lemma granted_pipeline:
  assumes "hev_socks5_client_handshake_pipeline mem rs net self = Some (0, self')"
  shows "granted (inp self)"
proof -
  obtain r1 s1 where 1: "hev_socks5_client_write_auth_methods self = (r1, s1)" by fastforce
  obtain r2 s2 where 2: "hev_socks5_client_write_auth_creds s1 = (r2, s2)" by fastforce
  have c: "\<not> r1 < 0" "\<not> r2 < 0"
    using assms 1 2 by (auto simp: hev_socks5_client_handshake_pipeline_def split: if_splits)
  obtain r3 s3 where 3: "hev_socks5_client_write_request mem s2 = Some (r3, s3)" "\<not> r3 < 0"
    using assms 1 2 c by (auto simp: hev_socks5_client_handshake_pipeline_def Option.bind_eq_Some_conv split: if_splits)
  obtain r4 s4 where 4: "hev_socks5_client_read_auth_method s3 = (r4, s4)" by fastforce
  obtain r5 s5 where 5: "(if r4 = 2 then hev_socks5_client_read_auth_creds s4
               else if r4 \<noteq> 0 then (- 1, s4) else (0, s4)) = (r5, s5)" by fastforce
  obtain r6 where c2: "\<not> r4 < 0" "\<not> r5 < 0" "hev_socks5_client_read_response rs net s5 = Some (r6, self')" "\<not> r6 < 0"
    using assms 1 2 3 4 5 c
    by (auto simp: hev_socks5_client_handshake_pipeline_def Option.bind_eq_Some_conv split: if_splits)
  have i3: "inp s3 = inp self"
    using write_inp(1) [of self] write_inp(2) [of s1] write_request_inp [OF 3(1)] 1 2 by simp
  obtain m where m: "r4 = uint m" "inp s3 = 5 # m # inp s4" using read_auth_method_granted [OF 4 c2(1)] by blast
  obtain rsv a rest where a: "inp s5 = [5, 0, rsv] @ a @ rest" "reply_addr a"
    using read_response_granted [OF c2(3,4)] by blast
  show ?thesis
  proof (cases "r4 = 2")
    case True
    then have "inp s4 = 1 # 0 # inp s5" using 5 read_auth_creds_granted [OF _ c2(2), of s4] by auto
    moreover have "m = 2" using m(1) True by (metis word_of_int_uint word_of_int_numeral)
    ultimately show ?thesis using i3 m(2) a unfolding granted_def by (intro exI [of _ rsv] exI [of _ a] exI [of _ rest]) simp
  next
    case False
    then have "r4 = 0" "inp s4 = inp s5" using 5 c2(2) by (auto split: if_splits)
    moreover have "m = 0" using m(1) calculation(1) by (simp add: uint_0_iff)
    ultimately show ?thesis using i3 m(2) a unfolding granted_def by (intro exI [of _ rsv] exI [of _ a] exI [of _ rest]) simp
  qed
qed

lemma client_handshake_ok:
  assumes "self0 = hev_socks5_set_timeout self (tcp_timeout m)" and "client_ready mem net self0 addr"
    and "inp self0 = server_replies (has_creds self0) rsv a @ rest" and "reply_addr a"
  shows "\<exists>self1. (if pipeline then hev_socks5_client_handshake_pipeline mem rs net self0
      else hev_socks5_client_handshake_standard mem rs net self0) = Some (0, self1) \<and>
    sent self1 = sent self @ client_bytes self0 addr \<and> inp self1 = rest \<and>
    (\<exists>self2. hev_socks5_client_handshake m mem rs net self pipeline = Some (0, self2) \<and> s_sock self2 = s_sock self1)"
proof -
  have sent0: "sent self0 = sent self" by (simp add: assms(1) hev_socks5_set_timeout_def)
  obtain self1 where 1: "(if pipeline then hev_socks5_client_handshake_pipeline mem rs net self0
      else hev_socks5_client_handshake_standard mem rs net self0) = Some (0, self1)"
      "sent self1 = sent self @ client_bytes self0 addr" "inp self1 = rest"
    using handshake_standard_ok [OF assms(2-4), of rs] handshake_pipeline_ok [OF assms(2-4), of rs] sent0
    by (cases pipeline) auto
  have "\<exists>self2. hev_socks5_client_handshake m mem rs net self pipeline = Some (0, self2) \<and> s_sock self2 = s_sock self1"
    using 1(1) unfolding hev_socks5_client_handshake_def Let_def assms(1) [symmetric]
    by (auto simp: hev_socks5_set_timeout_def split: HevSocks5Type.split)
  then show ?thesis using 1 by blast
qed

section \<open>Properties\<close>

text \<open>C22: Against a server that grants the request, both variants of the handshake succeed, for
  every fragmentation of the replies and every way the kernel takes the bytes: the client sends
  exactly the method offer, the credentials if it has them, and the request for its address, in
  this order, and consumes exactly the replies, so that the payload that follows is left to the
  session.\<close>

theorem client_handshake_complete:
  assumes "self0 = hev_socks5_set_timeout self (tcp_timeout m)" and "client_ready mem net self0 addr"
    and "inp self0 = server_replies (has_creds self0) rsv a @ rest" and "reply_addr a"
  shows "\<exists>self1. (if pipeline then hev_socks5_client_handshake_pipeline mem rs net self0
      else hev_socks5_client_handshake_standard mem rs net self0) = Some (0, self1) \<and>
    sent self1 = sent self @ client_bytes self0 addr \<and> inp self1 = rest \<and>
    (\<exists>self2. hev_socks5_client_handshake m mem rs net self pipeline = Some (0, self2) \<and> s_sock self2 = s_sock self1)"
  using client_handshake_ok [OF assms] .

text \<open>The witness: a client with credentials requests \<open>1.2.3.4\<close>, port 80 (in network order); the
  server's replies arrive in three pieces with waits in between, and one byte of payload follows.\<close>

definition client0 :: HevSocks5Client where
  "client0 = \<lparr>s_fd = 7, s_timeout = - 1, s_type = TYPE_TCP, s_udp_associated = False,
     s_family = FAMILY_IPV4,
     s_sock = \<lparr>rx = [Chunk [5, 2, 1], RxAgain 3, Chunk [0, 5, 0, 0, 1, 0], RxAgain 3, Chunk [0, 0, 0, 0, 0, 42]],
       tx = [], txs = [Accept 4, TxAgain 1, Accept 100]\<rparr>, s_open = [7],
     c_user = Some [117], c_pass = Some [112, 119], c_class = ClientTCP (Some (wire_ipv4 [1, 2, 3, 4] 0x5000)), c_blocks = 1\<rparr>"

definition net0 :: net where
  "net0 = \<lparr>n_socket = 9, n_v6only = 0, n_reuse = 0, n_binder = 0, n_connect = [InProgress 5, Connected],
     n_stream = \<lparr>rx = [], tx = [], txs = []\<rparr>\<rparr>"

lemma client0_ready:
  "client_ready True net0 (hev_socks5_set_timeout client0 300000) (wire_ipv4 [1, 2, 3, 4] 0x5000)"
proof -
  have w: "wire_addr (wire_ipv4 [1, 2, 3, 4] 0x5000)"
    unfolding wire_addr_def by (intro disjI1 exI [of _ "[1, 2, 3, 4]"] exI [of _ "0x5000"]) simp
  have r: "tx_room (hev_socks5_set_timeout client0 300000) = 104"
    by (simp add: tx_room_def hev_socks5_set_timeout_def client0_def hev_socks5_task_io_yielder_def hev_task_sleep_def)
  then have "length (client_bytes (hev_socks5_set_timeout client0 300000) (wire_ipv4 [1, 2, 3, 4] 0x5000)) \<le>
      tx_room (hev_socks5_set_timeout client0 300000)"
    by (simp add: client_bytes_def methods_bytes_def request_bytes_def hev_socks5_set_timeout_def client0_def)
  then show ?thesis using w
    by (simp add: client_ready_def hev_socks5_set_timeout_def client0_def get_upstream_addr_def
        hev_socks5_client_tcp_get_upstream_addr_def)
qed

lemma client0_inp:
  "inp (hev_socks5_set_timeout client0 300000) = server_replies True 0 [1, 0, 0, 0, 0, 0, 0] @ [42]"
  by (simp add: inp_def hev_socks5_set_timeout_def client0_def server_replies_def hev_socks5_task_io_yielder_def hev_task_sleep_def)

lemma client0_creds: "has_creds (hev_socks5_set_timeout client0 t)"
  by (simp add: has_creds_def hev_socks5_set_timeout_def client0_def)

theorem client_handshake_complete_witness:
  "\<exists>self1. hev_socks5_client_handshake_standard True rs_none net0 (hev_socks5_set_timeout client0 300000) = Some (0, self1) \<and>
     sent self1 = [5, 1, 2, 1, 1, 117, 2, 112, 119, 5, 1, 0, 1, 1, 2, 3, 4, 0, 0x50] \<and> inp self1 = [42]"
proof -
  have "reply_addr [1, 0, 0, 0, 0, 0, 0]" by (simp add: reply_addr_def)
  moreover have "client_bytes (hev_socks5_set_timeout client0 300000) (wire_ipv4 [1, 2, 3, 4] 0x5000) =
      [5, 1, 2, 1, 1, 117, 2, 112, 119, 5, 1, 0, 1, 1, 2, 3, 4, 0, 0x50]"
    by (simp add: client_bytes_def methods_bytes_def request_bytes_def hev_socks5_set_timeout_def client0_def
        has_creds_def wire_ipv4_def bytes16_def)
  moreover have "sent client0 = []" by (simp add: client0_def)
  ultimately show ?thesis
    using client_handshake_complete [of _ client0 misc_default, OF refl, of True net0 "wire_ipv4 [1, 2, 3, 4] 0x5000"
        0 "[1, 0, 0, 0, 0, 0, 0]" "[42]" False rs_none] client0_ready client0_inp client0_creds
    by (auto simp: misc_default_def)
qed

lemma client_granted:
  assumes "hev_socks5_client_handshake m mem rs net self pipeline = Some (0, self')"
  shows "granted (inp (hev_socks5_set_timeout self (tcp_timeout m)))"
proof -
  obtain self1 where "(if pipeline then hev_socks5_client_handshake_pipeline mem rs net (hev_socks5_set_timeout self (tcp_timeout m))
      else hev_socks5_client_handshake_standard mem rs net (hev_socks5_set_timeout self (tcp_timeout m))) = Some (0, self1)"
    using assms by (auto simp: hev_socks5_client_handshake_def Option.bind_eq_Some_conv Let_def)
  then show ?thesis using granted_standard granted_pipeline by (cases pipeline) auto
qed

text \<open>C21: Conversely, the handshake never reports success on its own: it returns 0 only if the
  server's bytes choose a method the client knows, accept the credentials when they were asked
  for, and grant the request with an IPv4 or IPv6 address.\<close>

theorem client_handshake_only_if_granted:
  assumes "hev_socks5_client_handshake m mem rs net self pipeline = Some (0, self')"
  shows "granted (inp (hev_socks5_set_timeout self (tcp_timeout m)))"
  using client_granted [OF assms] .

theorem client_handshake_only_if_granted_witness:
  "granted (inp (hev_socks5_set_timeout client0 300000))"
proof -
  have "reply_addr [1, 0, 0, 0, 0, 0, 0]" by (simp add: reply_addr_def)
  then obtain self2 where "hev_socks5_client_handshake misc_default True rs_none net0 client0 True = Some (0, self2)"
    using handshake_pipeline_ok [OF client0_ready, of 0 "[1, 0, 0, 0, 0, 0, 0]" "[42]" rs_none] client0_inp client0_creds
    by (auto simp: hev_socks5_client_handshake_def misc_default_def Let_def split: HevSocks5Type.split)
  from client_handshake_only_if_granted [OF this] show ?thesis by (simp add: misc_default_def)
qed

text \<open>Connecting neither leaks nor closes a foreign descriptor: on success the new socket is
  open and owned by the session, and the address family is known; on every failure, of the
  resolver, the kernel or the binder, exactly the descriptors that were open before are open.\<close>

theorem client_connect_descriptors:
  assumes "hev_socks5_client_connect m rs net self addr port = Some (r, self')"
  shows "r = 0 \<and> s_fd self' = n_socket net \<and> s_open self' = n_socket net # s_open self \<and> s_sock self' = n_stream net \<or>
    r = - 1 \<and> s_fd self' = s_fd self \<and> s_open self' = s_open self \<and> s_sock self' = s_sock self"
  using assms
  by (auto simp: hev_socks5_client_connect_def hev_socks5_socket_def close_fd_def hev_socks5_set_timeout_def
      hev_socks5_set_addr_family_def Let_def Option.bind_eq_Some_conv split: if_split_asm)

definition rs_loop :: resolver where
  "rs_loop = \<lparr>inet_pton4 = \<lambda>_. Some [127, 0, 0, 1], inet_pton6 = \<lambda>_. None, getaddrinfo = \<lambda>_ _. None\<rparr>"

theorem client_connect_descriptors_witness:
  "\<exists>self'. hev_socks5_client_connect misc_default rs_loop net0 (client0\<lparr>s_fd := - 1, s_open := []\<rparr>) [104] 80 = Some (0, self') \<and>
     s_fd self' = 9 \<and> s_open self' = [9] \<and> s_sock self' = n_stream net0"
proof -
  obtain self' where "hev_socks5_client_connect misc_default rs_loop net0 (client0\<lparr>s_fd := - 1, s_open := []\<rparr>) [104] 80 = Some (0, self')"
    by (simp add: hev_socks5_client_connect_def hev_socks5_set_timeout_def client0_def rs_loop_def net0_def misc_default_def
        hev_socks5_name_into_sockaddr6_def hev_socks5_name_resolve_ipv4_def mput_def overwrite_def hev_socks5_socket_def
        hev_socks5_task_io_yielder_def hev_task_sleep_def)
  then show ?thesis using client_connect_descriptors [of misc_default rs_loop net0 "client0\<lparr>s_fd := - 1, s_open := []\<rparr>" "[104]" 80 0 self']
    by (auto simp: net0_def)
qed

text \<open>The request of a UDP client when something goes wrong. If the allocation of the address
  fails, or the family is unknown, the code follows a null pointer; if the socket fails at once,
  the request is reported as failed and the address block is lost: nothing refers to it any
  more. If the socket takes the request, the block is freed.\<close>

theorem client_udp_request_outcomes:
  assumes "c_class self = ClientUDP fd" "s_type self = TYPE_UDP_IN_TCP \<or> s_type self = TYPE_UDP_IN_UDP"
  shows "(\<not> mem \<or> s_family self = FAMILY_UNSPEC \<longrightarrow> hev_socks5_client_write_request mem self = None) \<and>
    (s_family self \<noteq> FAMILY_UNSPEC \<longrightarrow> txs (s_sock self) = TxError # evs \<longrightarrow>
       (\<exists>self'. hev_socks5_client_write_request True self = Some (- 1, self') \<and>
          c_blocks self' = c_blocks self + 1 \<and> c_class self' = c_class self \<and> sent self' = sent self)) \<and>
    (s_family self \<noteq> FAMILY_UNSPEC \<longrightarrow> 22 \<le> tx_room self \<longrightarrow>
       (\<exists>self'. hev_socks5_client_write_request True self = Some (0, self') \<and>
          c_blocks self' = c_blocks self \<and> c_class self' = c_class self))"
proof (intro conjI impI)
  assume "\<not> mem \<or> s_family self = FAMILY_UNSPEC"
  then show "hev_socks5_client_write_request mem self = None"
    using assms by (auto simp: hev_socks5_client_write_request_def get_upstream_addr_def
        hev_socks5_client_udp_get_upstream_addr_def split: HevSocks5AddrFamily.split)
next
  assume "s_family self \<noteq> FAMILY_UNSPEC" "txs (s_sock self) = TxError # evs"
  then show "\<exists>self'. hev_socks5_client_write_request True self = Some (- 1, self') \<and>
          c_blocks self' = c_blocks self + 1 \<and> c_class self' = c_class self \<and> sent self' = sent self"
    using assms by (auto simp: hev_socks5_client_write_request_def get_upstream_addr_def request_addrlen_def bget_def mget_def
        hev_socks5_client_udp_get_upstream_addr_def sock_sendmsg_send sock_send_def size_or_def split: HevSocks5AddrFamily.split)
next
  assume f: "s_family self \<noteq> FAMILY_UNSPEC" and r: "22 \<le> tx_room self"
  have z: "HEV_SOCKS5_ADDR_TYPE_IPV4 # replicate 6 0 = wire_ipv4 (replicate 4 0) 0"
      "HEV_SOCKS5_ADDR_TYPE_IPV6 # replicate 18 0 = wire_ipv6 (replicate 16 0) 0"
    by (simp_all add: wire_ipv4_def wire_ipv6_def bytes16_def numeral_eq_Suc)
  have w: "wire_addr (wire_ipv4 (replicate 4 0) 0)" "wire_addr (wire_ipv6 (replicate 16 0) 0)"
    unfolding wire_addr_def by (metis length_replicate)+
  have "\<exists>addr. get_upstream_addr True self = (Some addr, self\<lparr>c_blocks := c_blocks self + 1\<rparr>) \<and> wire_addr addr \<and> length addr \<le> 19"
    using assms(1) f w
    by (cases "s_family self") (auto simp: get_upstream_addr_def hev_socks5_client_udp_get_upstream_addr_def z)
  then obtain addr where "get_upstream_addr True self = (Some addr, self\<lparr>c_blocks := c_blocks self + 1\<rparr>)" "wire_addr addr" "length addr \<le> 19"
    by blast
  then show "\<exists>self'. hev_socks5_client_write_request True self = Some (0, self') \<and>
          c_blocks self' = c_blocks self \<and> c_class self' = c_class self"
    using write_request_ok [of self True addr "self\<lparr>c_blocks := c_blocks self + 1\<rparr>"] assms(2) r by auto
qed

theorem client_udp_request_outcomes_witness:
  "hev_socks5_client_write_request False (client0\<lparr>s_type := TYPE_UDP_IN_UDP, c_class := ClientUDP (- 1)\<rparr>) = None \<and>
   (\<exists>self'. hev_socks5_client_write_request True (client0\<lparr>s_type := TYPE_UDP_IN_UDP, c_class := ClientUDP (- 1),
        s_sock := \<lparr>rx = [], tx = [], txs = [TxError]\<rparr>\<rparr>) = Some (- 1, self') \<and> c_blocks self' = 2)"
  using client_udp_request_outcomes [of "client0\<lparr>s_type := TYPE_UDP_IN_UDP, c_class := ClientUDP (- 1)\<rparr>" "- 1" False "[]"]
    client_udp_request_outcomes [of "client0\<lparr>s_type := TYPE_UDP_IN_UDP, c_class := ClientUDP (- 1),
        s_sock := \<lparr>rx = [], tx = [], txs = [TxError]\<rparr>\<rparr>" "- 1" True "[]"]
  by (auto simp: client0_def)

end
