(* ===== verification/IntrusiveList.thy ===== *)
theory IntrusiveList
  imports Prelude
begin

text \<open>
  The intrusive doubly linked list of \<open>misc/hev-list.c\<close> and \<open>misc/hev-list.h\<close>:
  nodes live inside the structs of the client, so an operation is given the address of a node
  and the memory that holds the nodes. The theory shows that the pointer operations implement
  appending to and removing from a list of distinct addresses, without any access to a null or
  unallocated node, and states what its clients (the mapped DNS cache, the session set, the
  UDP frame queue) rely on as the locale \<^verbatim>\<open>intrusive_list\<close>.
\<close>

section \<open>Nodes and lists\<close>

record HevListNode =
  l_next :: ptr
  l_prev :: ptr

record HevList =
  l_head :: ptr
  l_tail :: ptr

type_synonym list_heap = "HevListNode heap"

definition hev_list_node_prev :: "list_heap \<Rightarrow> ptr \<Rightarrow> ptr option" where
  "hev_list_node_prev h node = map_option l_prev (rd h node)"

definition hev_list_node_next :: "list_heap \<Rightarrow> ptr \<Rightarrow> ptr option" where
  "hev_list_node_next h node = map_option l_next (rd h node)"

definition hev_list_first :: "HevList \<Rightarrow> ptr" where
  "hev_list_first self = l_head self"

definition hev_list_last :: "HevList \<Rightarrow> ptr" where
  "hev_list_last self = l_tail self"

definition hev_list_add_tail ::
  "HevList \<Rightarrow> list_heap \<Rightarrow> ptr \<Rightarrow> (HevList \<times> list_heap) option" where
  "hev_list_add_tail self h new = do {
     h \<leftarrow> wr h new (\<lambda>n. n\<lparr>l_prev := l_tail self\<rparr>);
     h \<leftarrow> wr h new (\<lambda>n. n\<lparr>l_next := NULL\<rparr>);
     (self, h) \<leftarrow>
       (if l_tail self \<noteq> NULL then do {
          h \<leftarrow> wr h (l_tail self) (\<lambda>n. n\<lparr>l_next := new\<rparr>);
          Some (self, h) }
        else Some (self\<lparr>l_head := new\<rparr>, h));
     Some (self\<lparr>l_tail := new\<rparr>, h) }"

definition hev_list_del ::
  "HevList \<Rightarrow> list_heap \<Rightarrow> ptr \<Rightarrow> (HevList \<times> list_heap) option" where
  "hev_list_del self h node = do {
     n \<leftarrow> rd h node;
     (self, h) \<leftarrow>
       (if l_prev n \<noteq> NULL then do {
          h \<leftarrow> wr h (l_prev n) (\<lambda>p. p\<lparr>l_next := l_next n\<rparr>);
          Some (self, h) }
        else Some (self\<lparr>l_head := l_next n\<rparr>, h));
     n \<leftarrow> rd h node;
     (if l_next n \<noteq> NULL then do {
        h \<leftarrow> wr h (l_next n) (\<lambda>p. p\<lparr>l_prev := l_prev n\<rparr>);
        Some (self, h) }
      else Some (self\<lparr>l_tail := l_prev n\<rparr>, h)) }"

section \<open>Linked segments\<close>

fun dseg :: "list_heap \<Rightarrow> ptr \<Rightarrow> ptr list \<Rightarrow> ptr \<Rightarrow> bool" where
  "dseg h p [] q = True"
| "dseg h p (x # xs) q =
     (x \<noteq> NULL \<and> h x = Some \<lparr>l_next = hd (xs @ [q]), l_prev = p\<rparr> \<and> dseg h x xs q)"

definition hev_list_rep :: "HevList \<Rightarrow> list_heap \<Rightarrow> ptr list \<Rightarrow> bool" where
  "hev_list_rep self h xs \<longleftrightarrow>
     distinct xs \<and> dseg h NULL xs NULL \<and>
     l_head self = hd (xs @ [NULL]) \<and> l_tail self = last (NULL # xs)"

lemma dseg_append:
  "dseg h p (xs @ ys) q \<longleftrightarrow> dseg h p xs (hd (ys @ [q])) \<and> dseg h (last (p # xs)) ys q"
  by (induction xs arbitrary: p) (auto simp: hd_append split: list.splits)

lemma dseg_frame:
  "(\<And>x. x \<in> set xs \<Longrightarrow> h' x = h x) \<Longrightarrow> dseg h' p xs q = dseg h p xs q"
  by (induction xs arbitrary: p) auto

lemma dseg_fun_upd [simp]: "y \<notin> set xs \<Longrightarrow> dseg (h(y := v)) p xs q = dseg h p xs q"
  by (rule dseg_frame) auto

lemma dseg_mem: "dseg h p xs q \<Longrightarrow> x \<in> set xs \<Longrightarrow> x \<noteq> NULL \<and> (\<exists>n. h x = Some n)"
  by (induction xs arbitrary: p) auto

lemma dseg_set_last:
  assumes "dseg h p (xs @ [x]) q" "x \<notin> set xs"
  shows "\<exists>n. h x = Some n \<and> x \<noteq> NULL \<and> dseg (h(x \<mapsto> n\<lparr>l_next := q'\<rparr>)) p (xs @ [x]) q'"
  using assms by (auto simp: dseg_append)

lemma dseg_set_first:
  assumes "dseg h p (x # xs) q" "x \<notin> set xs"
  shows "\<exists>n. h x = Some n \<and> x \<noteq> NULL \<and> dseg (h(x \<mapsto> n\<lparr>l_prev := p'\<rparr>)) p' (x # xs) q"
  using assms by auto

lemma hev_list_repD:
  assumes "hev_list_rep l h xs"
  shows "distinct xs" "dseg h NULL xs NULL" "l_head l = hd (xs @ [NULL])"
    "l_tail l = last (NULL # xs)" "NULL \<notin> set xs"
  using assms dseg_mem [of h NULL xs NULL] by (auto simp: hev_list_rep_def)

lemma hev_list_rep_upd [simp]: "x \<notin> set xs \<Longrightarrow> hev_list_rep l (h(x := v)) xs = hev_list_rep l h xs"
  by (simp add: hev_list_rep_def)

lemma rep_add_tail:
  assumes rep: "hev_list_rep l h xs" and x: "x \<notin> set xs" "x \<noteq> NULL" "h x = Some n"
  shows "\<exists>l' h'. hev_list_add_tail l h x = Some (l', h') \<and> hev_list_rep l' h' (xs @ [x]) \<and>
    dom h' = dom h \<and> (\<forall>y. y \<notin> set xs \<and> y \<noteq> x \<longrightarrow> h' y = h y)"
proof (cases xs rule: rev_cases)
  case Nil
  then show ?thesis
    using x hev_list_repD [OF rep]
    by (auto simp: hev_list_add_tail_def heap_simps hev_list_rep_def)
next
  case (snoc ys t)
  note D = hev_list_repD [OF rep, unfolded snoc]
  let ?h1 = "h(x \<mapsto> n\<lparr>l_prev := t, l_next := NULL\<rparr>)"
  have "dseg ?h1 NULL (ys @ [t]) NULL" using D(2) x snoc by simp
  then obtain m where m: "?h1 t = Some m" "dseg (?h1(t \<mapsto> m\<lparr>l_next := x\<rparr>)) NULL (ys @ [t]) x"
    using dseg_set_last [of ?h1 NULL ys t NULL x] D(1) by auto
  have ht: "h t = Some m" "t \<noteq> x" "t \<noteq> NULL" using m x snoc D(5) by auto
  show ?thesis
    using m(2) ht x D snoc
    by (auto simp: hev_list_add_tail_def heap_simps hev_list_rep_def dseg_append hd_append
        split: if_splits)
qed

lemma rep_del:
  assumes rep: "hev_list_rep l h (xs @ x # ys)"
  shows "\<exists>l' h'. hev_list_del l h x = Some (l', h') \<and> hev_list_rep l' h' (xs @ ys) \<and>
    dom h' = dom h \<and> h' x = h x \<and> (\<forall>y. y \<notin> set (xs @ ys) \<longrightarrow> h' y = h y)"
proof -
  note D = hev_list_repD [OF rep]
  let ?p = "last (NULL # xs)" and ?q = "hd (ys @ [NULL])"
  have x: "x \<noteq> NULL" "h x = Some \<lparr>l_next = ?q, l_prev = ?p\<rparr>"
    and xs: "dseg h NULL xs x" and ys: "dseg h x ys NULL"
    using D(2) by (auto simp: dseg_append)
  have left: "\<exists>h1. (if ?p \<noteq> NULL then wr h ?p (\<lambda>p. p\<lparr>l_next := ?q\<rparr>) else Some h) = Some h1 \<and>
      dseg h1 NULL xs ?q \<and> dom h1 = dom h \<and> (\<forall>y. y \<notin> set xs \<longrightarrow> h1 y = h y)"
  proof (cases xs rule: rev_cases)
    case Nil
    then show ?thesis by simp
  next
    case (snoc zs t)
    then obtain m where "h t = Some m" "t \<noteq> NULL"
        "dseg (h(t \<mapsto> m\<lparr>l_next := ?q\<rparr>)) NULL (zs @ [t]) ?q"
      using dseg_set_last [of h NULL zs t x ?q] xs D(1) by auto
    then show ?thesis using snoc by (auto simp: heap_simps)
  qed
  then obtain h1 where h1: "(if ?p \<noteq> NULL then wr h ?p (\<lambda>p. p\<lparr>l_next := ?q\<rparr>) else Some h) = Some h1"
      "dseg h1 NULL xs ?q" "dom h1 = dom h" "\<forall>y. y \<notin> set xs \<longrightarrow> h1 y = h y" by blast
  have x1: "h1 x = h x" and ys1: "dseg h1 x ys NULL"
    using h1(4) D(1) ys dseg_frame [of ys h1 h x NULL] by auto
  have right: "\<exists>h2. (if ?q \<noteq> NULL then wr h1 ?q (\<lambda>p. p\<lparr>l_prev := ?p\<rparr>) else Some h1) = Some h2 \<and>
      dseg h2 ?p ys NULL \<and> dom h2 = dom h1 \<and> (\<forall>y. y \<notin> set ys \<longrightarrow> h2 y = h1 y)"
  proof (cases ys)
    case Nil
    then show ?thesis by simp
  next
    case (Cons t zs)
    then obtain m where "h1 t = Some m" "t \<noteq> NULL"
        "dseg (h1(t \<mapsto> m\<lparr>l_prev := ?p\<rparr>)) ?p (t # zs) NULL"
      using dseg_set_first [of h1 x t zs NULL ?p] ys1 D(1) by auto
    then show ?thesis using Cons by (auto simp: heap_simps)
  qed
  then obtain h2 where h2: "(if ?q \<noteq> NULL then wr h1 ?q (\<lambda>p. p\<lparr>l_prev := ?p\<rparr>) else Some h1) = Some h2"
      "dseg h2 ?p ys NULL" "dom h2 = dom h1" "\<forall>y. y \<notin> set ys \<longrightarrow> h2 y = h1 y" by blast
  have "dseg h2 NULL xs ?q"
    using h1(2) h2(4) D(1) dseg_frame [of xs h2 h1 NULL ?q] by auto
  then have seg: "dseg h2 NULL (xs @ ys) NULL" using h2(2) by (simp add: dseg_append)
  let ?l = "\<lparr>l_head = hd ((xs @ ys) @ [NULL]), l_tail = last (NULL # xs @ ys)\<rparr>"
  have pz: "?p = NULL \<longleftrightarrow> xs = []" and qz: "?q = NULL \<longleftrightarrow> ys = []"
    using D(5) by (auto simp: hd_append dest: last_in_set hd_in_set)
  have "hev_list_del l h x = Some (?l, h2)"
    using x x1 h1(1) h2(1) pz qz D(3,4)
    by (auto simp: hev_list_del_def heap_simps hd_append split: if_splits)
  then show ?thesis
    using seg D(1) h1(3,4) h2(3,4) x1 by (auto simp: hev_list_rep_def)
qed

lemma rep_node_next:
  "hev_list_rep l h (xs @ x # ys) \<Longrightarrow> hev_list_node_next h x = Some (hd (ys @ [NULL]))"
  by (auto simp: hev_list_rep_def dseg_append hev_list_node_next_def rd_def)

lemma rep_node_prev:
  "hev_list_rep l h (xs @ x # ys) \<Longrightarrow> hev_list_node_prev h x = Some (last (NULL # xs))"
  by (auto simp: hev_list_rep_def dseg_append hev_list_node_prev_def rd_def)

section \<open>The contract of the list\<close>

text \<open>What a client of the list relies on. \<open>rep l h xs\<close> says that the list head
  \<open>l\<close> and the nodes in \<open>h\<close> represent the sequence \<open>xs\<close> of node addresses.\<close>

locale intrusive_list =
  fixes first :: "'l \<Rightarrow> ptr"
    and node_next :: "'n heap \<Rightarrow> ptr \<Rightarrow> ptr option"
    and add_tail :: "'l \<Rightarrow> 'n heap \<Rightarrow> ptr \<Rightarrow> ('l \<times> 'n heap) option"
    and del :: "'l \<Rightarrow> 'n heap \<Rightarrow> ptr \<Rightarrow> ('l \<times> 'n heap) option"
    and rep :: "'l \<Rightarrow> 'n heap \<Rightarrow> ptr list \<Rightarrow> bool"
  assumes rep_distinct: "rep l h xs \<Longrightarrow> distinct xs"
    and rep_mem: "rep l h xs \<Longrightarrow> x \<in> set xs \<Longrightarrow> x \<noteq> NULL \<and> (\<exists>n. h x = Some n)"
    and rep_frame: "(\<And>x. x \<in> set xs \<Longrightarrow> h' x = h x) \<Longrightarrow> rep l h' xs = rep l h xs"
    and first_rep: "rep l h xs \<Longrightarrow> first l = hd (xs @ [NULL])"
    and next_rep: "rep l h (xs @ x # ys) \<Longrightarrow> node_next h x = Some (hd (ys @ [NULL]))"
    and add_tail_rep: "rep l h xs \<Longrightarrow> x \<notin> set xs \<Longrightarrow> x \<noteq> NULL \<Longrightarrow> h x = Some n \<Longrightarrow>
      \<exists>l' h'. add_tail l h x = Some (l', h') \<and> rep l' h' (xs @ [x]) \<and> dom h' = dom h \<and>
        (\<forall>y. y \<notin> set xs \<and> y \<noteq> x \<longrightarrow> h' y = h y)"
    and del_rep: "rep l h (xs @ x # ys) \<Longrightarrow>
      \<exists>l' h'. del l h x = Some (l', h') \<and> rep l' h' (xs @ ys) \<and> dom h' = dom h \<and>
        h' x = h x \<and> (\<forall>y. y \<notin> set (xs @ ys) \<longrightarrow> h' y = h y)"
begin

lemma del_remove1:
  assumes "rep l h xs" "x \<in> set xs"
  shows "\<exists>l' h'. del l h x = Some (l', h') \<and> rep l' h' (remove1 x xs) \<and> dom h' = dom h \<and>
    h' x = h x \<and> (\<forall>y. y \<notin> set xs \<longrightarrow> h' y = h y)"
proof -
  obtain ys zs where xs: "xs = ys @ x # zs" "x \<notin> set ys"
    using assms(2) by (auto dest: split_list_first)
  then show ?thesis
    using del_rep [of l h ys x zs] assms(1) by (auto simp: remove1_append)
qed

text \<open>Removing a node and appending it again, as every use of a least-recently-used list
  does, moves it to the end.\<close>

lemma touch_rep:
  assumes "rep l h xs" "x \<in> set xs"
  shows "\<exists>l1 h1 l' h'. del l h x = Some (l1, h1) \<and> add_tail l1 h1 x = Some (l', h') \<and>
    rep l' h' (remove1 x xs @ [x]) \<and> dom h' = dom h \<and> (\<forall>y. y \<notin> set xs \<longrightarrow> h' y = h y)"
proof -
  obtain l1 h1 where d: "del l h x = Some (l1, h1)" "rep l1 h1 (remove1 x xs)" "dom h1 = dom h"
      "h1 x = h x" "\<forall>y. y \<notin> set xs \<longrightarrow> h1 y = h y"
    using del_remove1 [OF assms] by blast
  have x: "x \<notin> set (remove1 x xs)" using rep_distinct [OF assms(1)] by simp
  obtain n where n: "x \<noteq> NULL" "h1 x = Some n" using rep_mem [OF assms] d(4) by auto
  obtain l' h' where a: "add_tail l1 h1 x = Some (l', h')" "rep l' h' (remove1 x xs @ [x])"
      "dom h' = dom h1" "\<forall>y. y \<notin> set (remove1 x xs) \<and> y \<noteq> x \<longrightarrow> h' y = h1 y"
    using add_tail_rep [OF d(2) x n] by blast
  have "h' y = h y" if "y \<notin> set xs" for y
    using that a(4) d(5) assms(2) notin_set_remove1 [of y xs x] by (metis)
  then show ?thesis using d a by auto
qed

lemma first_Cons: "rep l h (x # xs) \<Longrightarrow> first l = x"
  by (simp add: first_rep)

lemma first_Nil_iff: "rep l h xs \<Longrightarrow> first l = NULL \<longleftrightarrow> xs = []"
  using first_rep [of l h xs] rep_mem [of l h xs "hd xs"] by (cases xs) auto

end

interpretation hl: intrusive_list hev_list_first hev_list_node_next hev_list_add_tail
  hev_list_del hev_list_rep
proof
  show "distinct xs" if "hev_list_rep l h xs" for l h xs
    using hev_list_repD [OF that] by simp
  show "x \<noteq> NULL \<and> (\<exists>n. h x = Some n)" if "hev_list_rep l h xs" "x \<in> set xs" for l h xs x
    using dseg_mem hev_list_repD(2) [OF that(1)] that(2) by blast
  show "hev_list_rep l h' xs = hev_list_rep l h xs" if "\<And>x. x \<in> set xs \<Longrightarrow> h' x = h x" for l h h' xs
    using dseg_frame [of xs h' h NULL NULL] that by (simp add: hev_list_rep_def)
  show "hev_list_first l = hd (xs @ [NULL])" if "hev_list_rep l h xs" for l h xs
    using that by (simp add: hev_list_first_def hev_list_rep_def)
qed (erule rep_node_next, erule (3) rep_add_tail, erule rep_del)

section \<open>Properties\<close>

text \<open>Appending a node that is not in a list, and removing a node that is in it, never
  touch a null or unallocated node; the list then holds the old sequence with the node at its
  end, and the old sequence without the node, forwards and backwards, and no node outside the
  list is written.\<close>

theorem hev_list_ops_correct:
  assumes "hev_list_rep l h xs" and "x \<notin> set xs" and "x \<noteq> NULL" and "h x = Some n" and "y \<in> set xs"
  shows "(\<exists>l' h'. hev_list_add_tail l h x = Some (l', h') \<and> hev_list_rep l' h' (xs @ [x]) \<and>
      (\<forall>z. z \<notin> set xs \<and> z \<noteq> x \<longrightarrow> h' z = h z)) \<and>
    (\<exists>l' h'. hev_list_del l h y = Some (l', h') \<and> hev_list_rep l' h' (remove1 y xs) \<and> h' y = h y \<and>
      (\<forall>z. z \<notin> set xs \<longrightarrow> h' z = h z))"
  using hl.add_tail_rep [OF assms(1-4)] hl.del_remove1 [OF assms(1,5)] by blast

definition list3 :: list_heap where
  "list3 = [8 \<mapsto> \<lparr>l_next = 16, l_prev = 0\<rparr>, 16 \<mapsto> \<lparr>l_next = 0, l_prev = 8\<rparr>, 24 \<mapsto> \<lparr>l_next = 5, l_prev = 5\<rparr>]"

theorem hev_list_ops_correct_witness:
  "(\<exists>l' h'. hev_list_add_tail \<lparr>l_head = 8, l_tail = 16\<rparr> list3 24 = Some (l', h') \<and> hev_list_rep l' h' [8, 16, 24]) \<and>
   (\<exists>l' h'. hev_list_del \<lparr>l_head = 8, l_tail = 16\<rparr> list3 8 = Some (l', h') \<and> hev_list_rep l' h' [16])"
proof -
  have "hev_list_rep \<lparr>l_head = 8, l_tail = 16\<rparr> list3 [8, 16]" by (simp add: hev_list_rep_def list3_def)
  moreover have "list3 24 = Some \<lparr>l_next = 5, l_prev = 5\<rparr>" by (simp add: list3_def)
  ultimately show ?thesis
    using hev_list_ops_correct [of "\<lparr>l_head = 8, l_tail = 16\<rparr>" list3 "[8, 16]" 24 _ 8] by auto
qed

end
