(* ===== verification/MappedDNS.thy ===== *)
theory MappedDNS
  imports TreeSearch IntrusiveList CString
begin

text \<open>
  The mapped DNS cache of \<open>hev-mapped-dns.c\<close>: names are kept in a red-black tree, in a
  least-recently-used list and in an array of records whose index is the host part of the
  address that stands for the name. A node struct holds its tree node, its list node, its name
  and its index; \<open>container_of\<close> moves between the address of the struct and the addresses of
  its fields, so here the four kinds of fields have a heap each and the address of the struct
  is the key in all of them.
\<close>

section \<open>Data\<close>

record HevMappedDNSNode =
  m_name :: cstr
  m_idx :: cint

record HevMappedDNS =
  m_use :: cint
  m_max :: cint
  m_net :: cint
  m_mask :: cint
  m_list :: HevList
  m_lmem :: list_heap
  m_tree :: HevRBTree
  m_nodes :: "HevMappedDNSNode heap"
  m_records :: "ptr list"

section \<open>Construction\<close>

text \<open>\<open>mem\<close> is what the allocator returns; the struct it returns is zeroed, with room for
  \<open>max\<close> records.\<close>

definition hev_mapped_dns_construct ::
  "HevMappedDNS \<Rightarrow> cint \<Rightarrow> cint \<Rightarrow> cint \<Rightarrow> HevMappedDNS option" where
  "hev_mapped_dns_construct self net msk mx =
     (if sint (NOT msk) < sint mx then None
      else Some (self\<lparr>m_max := mx, m_net := net, m_mask := msk\<rparr>))"

definition hev_mapped_dns_new :: "bool \<Rightarrow> cint \<Rightarrow> cint \<Rightarrow> cint \<Rightarrow> HevMappedDNS option" where
  "hev_mapped_dns_new mem net msk mx =
     (if \<not> mem then None
      else hev_mapped_dns_construct
        \<lparr>m_use = 0, m_max = 0, m_net = 0, m_mask = 0,
         m_list = \<lparr>l_head = NULL, l_tail = NULL\<rparr>, m_lmem = Map.empty,
         m_tree = \<lparr>rb_root = NULL, rb_mem = Map.empty\<rparr>, m_nodes = Map.empty,
         m_records = replicate (nat (sint mx)) NULL\<rparr> net msk mx)"

section \<open>Nodes\<close>

text \<open>The allocator is a parameter: what \<open>hev_malloc0\<close> and \<open>strdup\<close> return in a state.
  A node that is returned to the caller is zeroed.\<close>

type_synonym alloc = "HevMappedDNS \<Rightarrow> ptr \<times> ptr"

definition hev_mapped_dns_node_alloc ::
  "alloc \<Rightarrow> HevMappedDNS \<Rightarrow> cstr \<Rightarrow> HevMappedDNS \<times> ptr" where
  "hev_mapped_dns_node_alloc alloc self name =
     (let (node, str) = alloc self in
      if node = NULL \<or> str = NULL then (self, NULL)
      else (self\<lparr>m_lmem := (m_lmem self)(node \<mapsto> \<lparr>l_next = NULL, l_prev = NULL\<rparr>),
                 m_tree := (m_tree self)\<lparr>rb_mem := (rb_mem (m_tree self))(node \<mapsto>
                   \<lparr>parent_color = 0, r_right = NULL, r_left = NULL\<rparr>)\<rparr>,
                 m_nodes := (m_nodes self)(node \<mapsto> \<lparr>m_name = name, m_idx = 0\<rparr>)\<rparr>, node))"

definition hev_mapped_dns_node_free :: "HevMappedDNS \<Rightarrow> ptr \<Rightarrow> HevMappedDNS option" where
  "hev_mapped_dns_node_free self node = do {
     n \<leftarrow> rd (m_nodes self) node;
     Some (self\<lparr>m_lmem := (m_lmem self)(node := None),
                m_tree := (m_tree self)\<lparr>rb_mem := (rb_mem (m_tree self))(node := None)\<rparr>,
                m_nodes := (m_nodes self)(node := None)\<rparr>) }"

section \<open>Finding a name\<close>

definition compare_name :: "HevMappedDNS \<Rightarrow> cstr \<Rightarrow> ptr \<Rightarrow> int option" where
  "compare_name self name p = do { n \<leftarrow> rd (m_nodes self) p; Some (strcmp (m_name n) name) }"

partial_function (option) find_loop ::
  "HevMappedDNS \<Rightarrow> cstr \<Rightarrow> link \<Rightarrow> ptr \<Rightarrow> found option" where
  "find_loop self name new parent = do {
     cur \<leftarrow> load_link (m_tree self) new;
     if cur = NULL then Some (Missing new parent)
     else do {
       res \<leftarrow> compare_name self name cur;
       if res < 0 then find_loop self name (LinkLeft cur) cur
       else if res > 0 then find_loop self name (LinkRight cur) cur
       else Some (Found cur) } }"

definition list_touch :: "HevMappedDNS \<Rightarrow> ptr \<Rightarrow> HevMappedDNS option" where
  "list_touch self node = do {
     (l, h) \<leftarrow> hev_list_del (m_list self) (m_lmem self) node;
     (l, h) \<leftarrow> hev_list_add_tail l h node;
     Some (self\<lparr>m_list := l, m_lmem := h\<rparr>) }"

definition set_record :: "HevMappedDNS \<Rightarrow> cint \<Rightarrow> ptr \<Rightarrow> HevMappedDNS option" where
  "set_record self idx node =
     (if 0 \<le> sint idx \<and> nat (sint idx) < length (m_records self)
      then Some (self\<lparr>m_records := (m_records self)[nat (sint idx) := node]\<rparr>) else None)"

text \<open>The eviction of the least recently used node, whose index is reused.\<close>

definition evict_first :: "HevMappedDNS \<Rightarrow> (HevMappedDNS \<times> cint) option" where
  "evict_first self = do {
     let nl = hev_list_first (m_list self);
     nf \<leftarrow> rd (m_nodes self) nl;
     t \<leftarrow> hev_rbtree_erase (m_tree self) nl;
     (l, h) \<leftarrow> hev_list_del (m_list self) (m_lmem self) nl;
     self \<leftarrow> hev_mapped_dns_node_free (self\<lparr>m_tree := t, m_list := l, m_lmem := h\<rparr>) nl;
     Some (self, m_idx nf) }"

text \<open>The number of a node that has been linked: the next one, or the one of the node it evicts.\<close>

definition number_node :: "HevMappedDNS \<Rightarrow> ptr \<Rightarrow> (HevMappedDNS \<times> cint) option" where
  "number_node self node = do {
     (self, idx) \<leftarrow>
       (if sint (m_use self) < sint (m_max self)
        then Some (self\<lparr>m_use := m_use self + 1\<rparr>, m_use self)
        else evict_first self);
     self \<leftarrow> set_record self idx node;
     nodes \<leftarrow> wr (m_nodes self) node (\<lambda>n. n\<lparr>m_idx := idx\<rparr>);
     Some (self\<lparr>m_nodes := nodes\<rparr>, idx) }"

definition hev_mapped_dns_find ::
  "alloc \<Rightarrow> HevMappedDNS \<Rightarrow> cstr \<Rightarrow> (HevMappedDNS \<times> cint) option" where
  "hev_mapped_dns_find alloc self name = do {
     f \<leftarrow> find_loop self name LinkRoot NULL;
     case f of
       Found node \<Rightarrow> do {
         self \<leftarrow> list_touch self node;
         n \<leftarrow> rd (m_nodes self) node;
         Some (self, m_idx n) }
     | Missing new parent \<Rightarrow>
         (case hev_mapped_dns_node_alloc alloc self name of (self, node) \<Rightarrow>
          if node = NULL then Some (self, - 1)
          else do {
            t \<leftarrow> hev_rbtree_node_link (m_tree self) node parent new;
            t \<leftarrow> hev_rbtree_insert_color t node;
            (l, h) \<leftarrow> hev_list_add_tail (m_list self) (m_lmem self) node;
            number_node (self\<lparr>m_tree := t, m_list := l, m_lmem := h\<rparr>) node }) }"

section \<open>Looking up an address\<close>

definition hev_mapped_dns_lookup :: "HevMappedDNS \<Rightarrow> cint \<Rightarrow> (HevMappedDNS \<times> cstr option) option" where
  "hev_mapped_dns_lookup self ip = do {
     let idx = ip AND NOT (m_mask self);
     if sint (m_max self) \<le> sint idx then Some (self, None)
     else if \<not> (0 \<le> sint idx \<and> nat (sint idx) < length (m_records self)) then None
     else do {
       let node = m_records self ! nat (sint idx);
       if node = NULL then Some (self, None)
       else do {
         self \<leftarrow> list_touch self node;
         n \<leftarrow> rd (m_nodes self) node;
         Some (self, Some (m_name n)) } } }"

section \<open>Destruction\<close>

partial_function (option) destruct_loop :: "HevMappedDNS \<Rightarrow> ptr \<Rightarrow> HevMappedDNS option" where
  "destruct_loop self n =
     (if n = NULL then Some self
      else do {
        nx \<leftarrow> hev_list_node_next (m_lmem self) n;
        self \<leftarrow> hev_mapped_dns_node_free self n;
        destruct_loop self nx })"

definition hev_mapped_dns_destruct :: "HevMappedDNS \<Rightarrow> HevMappedDNS option" where
  "hev_mapped_dns_destruct self = destruct_loop self (hev_list_first (m_list self))"

section \<open>What the memory holds\<close>

definition name_of :: "HevMappedDNS \<Rightarrow> ptr \<Rightarrow> cstr" where
  "name_of self p = m_name (the (m_nodes self p))"

definition idx_of :: "HevMappedDNS \<Rightarrow> ptr \<Rightarrow> nat" where
  "idx_of self p = nat (sint (m_idx (the (m_nodes self p))))"

text \<open>The list, in order of use, and the tree, in descending order of the names, hold the same
  nodes, and no other node is allocated.\<close>

definition dns_core :: "HevMappedDNS \<Rightarrow> ptr list \<Rightarrow> rbt \<Rightarrow> bool" where
  "dns_core self xs t \<longleftrightarrow>
     hev_list_rep (m_list self) (m_lmem self) xs \<and> rb_rep (m_tree self) t \<and> rb_ok t \<and>
     set (io t) = set xs \<and> dom (m_nodes self) = set xs \<and>
     sorted_wrt (\<lambda>p q. name_of self q < name_of self p) (io t)"

text \<open>The records in use are exactly the nodes, each at its own index.\<close>

definition dns_records :: "HevMappedDNS \<Rightarrow> ptr list \<Rightarrow> bool" where
  "dns_records self xs \<longleftrightarrow>
     0 < sint (m_max self) \<and> length (m_records self) = nat (sint (m_max self)) \<and>
     sint (m_use self) = int (length xs) \<and> sint (m_use self) \<le> sint (m_max self) \<and>
     (\<forall>p\<in>set xs. 0 \<le> sint (m_idx (the (m_nodes self p))) \<and> idx_of self p < length xs \<and>
        m_records self ! idx_of self p = p) \<and>
     (\<forall>i<length (m_records self). length xs \<le> i \<longrightarrow> m_records self ! i = NULL) \<and>
     (\<forall>i<length xs. m_records self ! i \<in> set xs \<and> idx_of self (m_records self ! i) = i)"

definition dns_inv :: "HevMappedDNS \<Rightarrow> ptr list \<Rightarrow> bool" where
  "dns_inv self xs \<longleftrightarrow> (\<exists>t. dns_core self xs t) \<and> dns_records self xs"

section \<open>The abstract cache\<close>

text \<open>A least-recently-used cache as the list of its entries, the least recently used one first.\<close>

type_synonym lru = "(cstr \<times> nat) list"

definition lru_find :: "nat \<Rightarrow> lru \<Rightarrow> cstr \<Rightarrow> lru \<times> nat" where
  "lru_find mx es name =
     (case map_of es name of
        Some i \<Rightarrow> (remove1 (name, i) es @ [(name, i)], i)
      | None \<Rightarrow>
          if length es < mx then (es @ [(name, length es)], length es)
          else (tl es @ [(name, snd (hd es))], snd (hd es)))"

definition lru_lookup :: "lru \<Rightarrow> nat \<Rightarrow> lru \<times> cstr option" where
  "lru_lookup es i =
     (case map_of (map prod.swap es) i of
        Some name \<Rightarrow> (remove1 (name, i) es @ [(name, i)], Some name)
      | None \<Rightarrow> (es, None))"

definition entries :: "HevMappedDNS \<Rightarrow> ptr list \<Rightarrow> lru" where
  "entries self xs = map (\<lambda>p. (name_of self p, idx_of self p)) xs"

section \<open>The pointer operations\<close>

interpretation dns_search: tree_search "m_tree self" "compare_name self name" "find_loop self name" for self name
  by unfold_locales (rule find_loop.simps)

lemma dns_coreD:
  assumes "dns_core self xs t"
  shows "hev_list_rep (m_list self) (m_lmem self) xs" "rb_rep (m_tree self) t" "rb_ok t"
    "set (io t) = set xs" "dom (m_nodes self) = set xs" "distinct xs" "distinct (io t)"
    "sorted_wrt (\<lambda>p q. name_of self q < name_of self p) (io t)"
  using assms hl.rep_distinct by (auto simp: dns_core_def rb_rep_def)

lemma dns_node:
  assumes "dns_core self xs t" "p \<in> set xs"
  shows "p \<noteq> NULL" "\<exists>n. m_nodes self p = Some n" "rd (m_nodes self) p = Some (the (m_nodes self p))"
proof -
  show 1: "p \<noteq> NULL" using hl.rep_mem [OF dns_coreD(1) [OF assms(1)] assms(2)] by simp
  show 2: "\<exists>n. m_nodes self p = Some n" using dns_coreD(5) [OF assms(1)] assms(2) by auto
  show "rd (m_nodes self) p = Some (the (m_nodes self p))" using 1 2 by (auto simp: rd_def)
qed

lemma find_loop_core:
  assumes "dns_core self xs t"
  shows "\<exists>r. find_loop self name LinkRoot NULL = Some r \<and>
    search_post (\<lambda>p. strcmp (name_of self p) name) t r"
proof (rule dns_search.search_root)
  note D = dns_coreD [OF assms]
  show "rb_rep (m_tree self) t" by (rule D)
  show "\<forall>p\<in>set (io t). compare_name self name p = Some (strcmp (name_of self p) name)"
    using dns_node(3) [OF assms] D(4) by (auto simp: compare_name_def name_of_def)
  show "cmp_sorted (\<lambda>p. strcmp (name_of self p) name) (io t)"
    unfolding cmp_sorted_def
    by (rule sorted_wrt_mono_rel [OF _ D(8)]) (use strcmp_order in \<open>auto simp: not_less [symmetric]\<close>)
qed

lemma list_touch_core:
  assumes "dns_core self xs t" "p \<in> set xs"
  shows "\<exists>l h. list_touch self p = Some (self\<lparr>m_list := l, m_lmem := h\<rparr>) \<and>
    dns_core (self\<lparr>m_list := l, m_lmem := h\<rparr>) (remove1 p xs @ [p]) t"
proof -
  note D = dns_coreD [OF assms(1)]
  obtain l1 h1 l h where "hev_list_del (m_list self) (m_lmem self) p = Some (l1, h1)"
      "hev_list_add_tail l1 h1 p = Some (l, h)" "hev_list_rep l h (remove1 p xs @ [p])"
    using hl.touch_rep [OF D(1) assms(2)] by blast
  then show ?thesis using assms D(6) by (auto simp: list_touch_def dns_core_def name_of_def)
qed

text \<open>What the allocator promises: a node that it returns is not in use, not null and aligned.\<close>

definition malloc_ok :: "alloc \<Rightarrow> bool" where
  "malloc_ok alloc \<longleftrightarrow> (\<forall>self. fst (alloc self) \<noteq> NULL \<longrightarrow>
     m_nodes self (fst (alloc self)) = None \<and> aligned (fst (alloc self)))"

text \<open>A fresh node enters the tree at the empty link that the search ended at, and the list at its end.\<close>

lemma dns_insert:
  assumes core: "dns_core self xs t"
    and miss: "search_post (\<lambda>p. strcmp (name_of self p) name) t (Missing lnk par)"
    and node: "node \<notin> set xs" "node \<noteq> NULL" "aligned node"
    and self1: "self1 = self\<lparr>m_lmem := (m_lmem self)(node \<mapsto> n1), m_tree := (m_tree self)\<lparr>rb_mem := (rb_mem (m_tree self))(node \<mapsto> n2)\<rparr>,
      m_nodes := (m_nodes self)(node \<mapsto> \<lparr>m_name = name, m_idx = i\<rparr>)\<rparr>"
  shows "\<exists>t1 t2 l h t'. hev_rbtree_node_link (m_tree self1) node par lnk = Some t1 \<and>
    hev_rbtree_insert_color t1 node = Some t2 \<and>
    hev_list_add_tail (m_list self1) (m_lmem self1) node = Some (l, h) \<and>
    dns_core (self1\<lparr>m_tree := t2, m_list := l, m_lmem := h\<rparr>) (xs @ [node]) t'"
proof -
  note D = dns_coreD [OF core]
  obtain k where k: "lnk = klink k" "par = cpar k" "t = plug k Lf"
      "\<forall>p\<in>set (iol k). 0 < strcmp (name_of self p) name" "\<forall>p\<in>set (ior k). strcmp (name_of self p) name < 0"
    using miss by (auto simp: search_post_def)
  have nt: "node \<notin> set (io t)" using node(1) D(4) by simp
  have rep1: "rb_rep (m_tree self1) (plug k Lf)"
    using D(2) nt k(3) by (simp add: self1)
  have fr: "fresh_node (m_tree self1) (plug k Lf) node" using node nt k(3) by (simp add: fresh_node_def self1)
  obtain t1 t2 t' where t': "hev_rbtree_node_link (m_tree self1) node (cpar k) (klink k) = Some t1"
      "hev_rbtree_insert_color t1 node = Some t2" "rb_rep t2 t'" "rb_ok t'" "io t' = iol k @ node # ior k"
    using rbtree_insert [OF rep1 _ fr] D(3) k(3) by blast
  have "hev_list_rep (m_list self1) (m_lmem self1) xs"
    using D(1) node(1) by (simp add: self1)
  then obtain l h where l: "hev_list_add_tail (m_list self1) (m_lmem self1) node = Some (l, h)"
      "hev_list_rep l h (xs @ [node])"
    using hl.add_tail_rep [OF _ node(1,2), of "m_list self1" "m_lmem self1" n1] by (auto simp: self1)
  have ioset: "set (io t') = set (xs @ [node])" using t'(5) D(4) k(3) by (auto simp: io_plug)
  have names: "name_of (self1\<lparr>m_tree := t2, m_list := l, m_lmem := h\<rparr>) p = (if p = node then name else name_of self p)" for p
    by (simp add: name_of_def self1)
  have "sorted_wrt (\<lambda>p q. name_of self q < name_of self p) (iol k @ ior k)" using D(8) k(3) by (simp add: io_plug)
  then have "sorted_wrt (\<lambda>p q. (if q = node then name else name_of self q) < (if p = node then name else name_of self p))
      (iol k @ node # ior k)"
    using nt k(3,4,5) unfolding sorted_wrt_append sorted_wrt.simps
    by (auto simp: io_plug strcmp_order intro: sorted_wrt_mono_rel [rotated])
  then have "dns_core (self1\<lparr>m_tree := t2, m_list := l, m_lmem := h\<rparr>) (xs @ [node]) t'"
    using t' l(2) ioset D(5) unfolding dns_core_def names by (auto simp: self1)
  then show ?thesis using t'(1,2) l(1) k(1,2) by blast
qed

lemma dns_evict:
  assumes core: "dns_core self (x # xs) t"
  shows "\<exists>t1 l h t'. evict_first self = Some (self\<lparr>m_lmem := h, m_tree := t1, m_list := l,
      m_nodes := (m_nodes self)(x := None)\<rparr>, m_idx (the (m_nodes self x))) \<and>
    dns_core (self\<lparr>m_lmem := h, m_tree := t1, m_list := l, m_nodes := (m_nodes self)(x := None)\<rparr>) xs t'"
proof -
  note D = dns_coreD [OF core]
  have x: "x \<in> set (io t)" "x \<notin> set xs" "rd (m_nodes self) x = Some (the (m_nodes self x))"
    using D(4,6) dns_node(3) [OF core, of x] by auto
  obtain s' t' where t': "hev_rbtree_erase (m_tree self) x = Some s'" "rb_rep s' t'" "rb_ok t'"
      "io t' = remove1 x (io t)" using rbtree_erase [OF D(2,3) x(1)] by blast
  obtain l h where l: "hev_list_del (m_list self) (m_lmem self) x = Some (l, h)" "hev_list_rep l h xs"
    using hl.del_rep [of "m_list self" "m_lmem self" "[]" x xs] D(1) by auto
  let ?self = "self\<lparr>m_lmem := h(x := None), m_tree := s'\<lparr>rb_mem := (rb_mem s')(x := None)\<rparr>, m_list := l,
    m_nodes := (m_nodes self)(x := None)\<rparr>"
  have run: "evict_first self = Some (?self, m_idx (the (m_nodes self x)))"
    using x(3) t'(1) l(1) hl.first_Cons [OF D(1)]
    by (simp add: evict_first_def hev_mapped_dns_node_free_def)
  have xt: "x \<notin> set (io t')" "set (io t') = set xs" using t'(4) D(4,7) x(2) by auto
  have "rb_rep (s'\<lparr>rb_mem := (rb_mem s')(x := None)\<rparr>) t'" using t'(2) xt(1) by simp
  moreover have "hev_list_rep l (h(x := None)) xs" using l(2) x(2) by simp
  moreover have "sorted_wrt (\<lambda>p q. name_of ?self q < name_of ?self p) (io t')"
  proof -
    have "sorted_wrt (\<lambda>p q. name_of self q < name_of self p) (io t')"
      using D(8) sorted_wrt_remove1 t'(4) by metis
    then show ?thesis by (rule sorted_wrt_mono_rel [rotated]) (use xt(1) in \<open>auto simp: name_of_def\<close>)
  qed
  ultimately have "dns_core ?self xs t'"
    using t'(3) xt D(5) x(2) by (auto simp: dns_core_def)
  then show ?thesis using run by blast
qed

section \<open>The cache implements the abstract one\<close>

lemma name_inj:
  assumes "dns_core self xs t"
  shows "inj_on (name_of self) (set xs)"
  using sorted_wrt_less_inj [OF dns_coreD(8) [OF assms]] dns_coreD(4) [OF assms] by simp

lemma entries_inj:
  assumes "dns_core self xs t"
  shows "inj_on (\<lambda>p. (name_of self p, idx_of self p)) (set xs)"
  using name_inj [OF assms] unfolding inj_on_def prod.inject by blast

lemma entries_find:
  assumes "dns_core self xs t" "p \<in> set xs"
  shows "map_of (entries self xs) (name_of self p) = Some (idx_of self p)"
proof -
  have "distinct (map fst (entries self xs))"
    using name_inj [OF assms(1)] dns_coreD(6) [OF assms(1)] by (simp add: entries_def comp_def distinct_map)
  then show ?thesis using assms(2) by (intro map_of_is_SomeI) (auto simp: entries_def)
qed

lemma entries_missing: "\<forall>p\<in>set xs. name_of self p \<noteq> name \<Longrightarrow> map_of (entries self xs) name = None"
  by (auto simp: map_of_eq_None_iff entries_def)

lemma entries_touch:
  assumes "dns_core self xs t" "p \<in> set xs"
  shows "entries self (remove1 p xs @ [p]) =
    remove1 (name_of self p, idx_of self p) (entries self xs) @ [(name_of self p, idx_of self p)]"
  using map_remove1_inj [of "\<lambda>p. (name_of self p, idx_of self p)" p xs] entries_inj [OF assms(1)] assms(2)
  by (simp add: entries_def insert_absorb)

lemma records_perm:
  "dns_records self xs \<Longrightarrow> set ys = set xs \<Longrightarrow> length ys = length xs \<Longrightarrow>
     dns_records (self\<lparr>m_list := l, m_lmem := h\<rparr>) ys"
  by (simp add: dns_records_def idx_of_def)

text \<open>A name that the cache knows, and the record of an address in use: the node moves to the
  end of the list.\<close>

lemma dns_touch:
  assumes "dns_core self xs t" "dns_records self xs" "p \<in> set xs"
  shows "\<exists>self'. list_touch self p = Some self' \<and> dns_inv self' (remove1 p xs @ [p]) \<and>
    entries self' (remove1 p xs @ [p]) =
      remove1 (name_of self p, idx_of self p) (entries self xs) @ [(name_of self p, idx_of self p)] \<and>
    m_nodes self' = m_nodes self \<and> m_max self' = m_max self \<and> m_net self' = m_net self \<and> m_mask self' = m_mask self"
proof -
  obtain l h where l: "list_touch self p = Some (self\<lparr>m_list := l, m_lmem := h\<rparr>)"
      "dns_core (self\<lparr>m_list := l, m_lmem := h\<rparr>) (remove1 p xs @ [p]) t"
    using list_touch_core [OF assms(1,3)] by blast
  have "dns_records (self\<lparr>m_list := l, m_lmem := h\<rparr>) (remove1 p xs @ [p])"
    by (rule records_perm [OF assms(2)]) (use assms(3) dns_coreD(6) [OF assms(1)] length_pos_if_in_set [of p xs] in \<open>auto simp: length_remove1\<close>)
  moreover have "entries (self\<lparr>m_list := l, m_lmem := h\<rparr>) ys = entries self ys" for ys
    by (simp add: entries_def name_of_def idx_of_def)
  ultimately show ?thesis using l entries_touch [OF assms(1,3)] by (auto simp: dns_inv_def)
qed

text \<open>The last step of an insertion, for an index that no other node has.\<close>

definition put_record :: "HevMappedDNS \<Rightarrow> cint \<Rightarrow> ptr \<Rightarrow> HevMappedDNS" where
  "put_record self i node = self\<lparr>m_records := (m_records self)[nat (sint i) := node],
     m_nodes := (m_nodes self)(node \<mapsto> (the (m_nodes self node))\<lparr>m_idx := i\<rparr>)\<rparr>"

lemma put_record_run:
  assumes "0 \<le> sint i" "nat (sint i) < length (m_records self)" "node \<noteq> NULL" "m_nodes self node = Some n"
  shows "set_record self i node = Some (self\<lparr>m_records := (m_records self)[nat (sint i) := node]\<rparr>)"
    and "wr (m_nodes self) node (\<lambda>n. n\<lparr>m_idx := i\<rparr>) = Some ((m_nodes self)(node \<mapsto> (the (m_nodes self node))\<lparr>m_idx := i\<rparr>))"
  using assms by (simp_all add: set_record_def heap_simps)

lemma put_record_core:
  assumes "dns_core self xs t" "node \<in> set xs"
  shows "dns_core (put_record self i node) xs t"
proof -
  have "name_of (put_record self i node) = name_of self" by (auto simp: name_of_def put_record_def)
  then show ?thesis using assms by (auto simp: dns_core_def put_record_def)
qed

lemma put_record_idx:
  "idx_of (put_record self i node) p = (if p = node then nat (sint i) else idx_of self p)"
  "m_idx (the (m_nodes (put_record self i node) p)) = (if p = node then i else m_idx (the (m_nodes self p)))"
  by (simp_all add: idx_of_def put_record_def)

lemma put_records:
  assumes sz: "0 < sint (m_max self)" "length (m_records self) = nat (sint (m_max self))"
      "sint (m_use self) = int (Suc (length ys))" "sint (m_use self) \<le> sint (m_max self)"
    and i: "0 \<le> sint i" "nat (sint i) \<le> length ys"
    and node: "node \<notin> set ys"
    and ys: "\<forall>p\<in>set ys. 0 \<le> sint (m_idx (the (m_nodes self p))) \<and> idx_of self p \<le> length ys \<and>
        idx_of self p \<noteq> nat (sint i) \<and> m_records self ! idx_of self p = p"
    and free: "\<forall>j<length (m_records self). length ys < j \<longrightarrow> m_records self ! j = NULL"
    and used: "\<forall>j\<le>length ys. j \<noteq> nat (sint i) \<longrightarrow> m_records self ! j \<in> set ys \<and> idx_of self (m_records self ! j) = j"
  shows "dns_records (put_record self i node) (ys @ [node])"
proof -
  let ?s = "put_record self i node"
  have f: "m_max ?s = m_max self" "m_use ?s = m_use self"
      "m_records ?s = (m_records self)[nat (sint i) := node]" by (simp_all add: put_record_def)
  have len: "Suc (length ys) \<le> length (m_records self)" using sz by linarith
  have rec: "m_records ?s ! j = (if j = nat (sint i) then node else m_records self ! j)" if "j < length (m_records self)" for j
    using that by (simp add: f)
  have "\<forall>p\<in>set (ys @ [node]). 0 \<le> sint (m_idx (the (m_nodes ?s p))) \<and> idx_of ?s p < length (ys @ [node]) \<and>
      m_records ?s ! idx_of ?s p = p"
  proof
    fix p assume "p \<in> set (ys @ [node])"
    then consider "p = node" | "p \<in> set ys" "p \<noteq> node" using node by auto
    then show "0 \<le> sint (m_idx (the (m_nodes ?s p))) \<and> idx_of ?s p < length (ys @ [node]) \<and> m_records ?s ! idx_of ?s p = p"
    proof cases
      case 1
      then show ?thesis using i len rec [of "nat (sint i)"] by (simp add: put_record_idx)
    next
      case 2
      then have "idx_of self p < length (m_records self)" using ys len by fastforce
      then show ?thesis using 2 ys rec [of "idx_of self p"] by (simp add: put_record_idx le_imp_less_Suc)
    qed
  qed
  moreover have "\<forall>j<length (m_records ?s). length (ys @ [node]) \<le> j \<longrightarrow> m_records ?s ! j = NULL"
    using free i(2) rec by (auto simp: f)
  moreover have "\<forall>j<length (ys @ [node]). m_records ?s ! j \<in> set (ys @ [node]) \<and> idx_of ?s (m_records ?s ! j) = j"
  proof (intro allI impI)
    fix j assume j: "j < length (ys @ [node])"
    then have "m_records ?s ! j = (if j = nat (sint i) then node else m_records self ! j)" using rec len by simp
    moreover have "j \<noteq> nat (sint i) \<Longrightarrow> m_records self ! j \<in> set ys \<and> idx_of self (m_records self ! j) = j"
      using used j by simp
    ultimately show "m_records ?s ! j \<in> set (ys @ [node]) \<and> idx_of ?s (m_records ?s ! j) = j"
      using node by (auto simp: put_record_idx)
  qed
  ultimately show ?thesis unfolding dns_records_def using sz f by simp
qed

text \<open>Insertion while there are unused records, and insertion that evicts the oldest name.\<close>

lemma dns_grow:
  assumes rec: "dns_records self xs" "node \<notin> set xs" and room: "sint (m_use self) < sint (m_max self)"
    and self2: "m_max self2 = m_max self" "m_records self2 = m_records self" "m_use self2 = m_use self + 1"
      "m_nodes self2 = (m_nodes self)(node \<mapsto> n)"
  shows "dns_records (put_record self2 (m_use self) node) (xs @ [node])"
    "0 \<le> sint (m_use self)" "nat (sint (m_use self)) = length xs" "nat (sint (m_use self)) < length (m_records self2)"
proof -
  note R = rec(1) [unfolded dns_records_def]
  have u: "sint (m_use self) = int (length xs)" using R by simp
  then show "0 \<le> sint (m_use self)" "nat (sint (m_use self)) = length xs" by simp_all
  show "nat (sint (m_use self)) < length (m_records self2)" using R room self2(2) by simp
  have bound: "sint (m_max self) < 2 ^ 31" using sint_lt [of "m_max self"] by simp
  have u1: "sint (m_use self + 1) = sint (m_use self) + 1"
    using room bound u by (simp add: sint_word_ariths signed_take_bit_int_eq_self)
  have n: "m_nodes self2 p = m_nodes self p" "idx_of self2 p = idx_of self p" if "p \<in> set xs" for p
    using that rec(2) self2(4) by (auto simp: idx_of_def)
  show "dns_records (put_record self2 (m_use self) node) (xs @ [node])"
  proof (rule put_records)
    show "\<forall>p\<in>set xs. 0 \<le> sint (m_idx (the (m_nodes self2 p))) \<and> idx_of self2 p \<le> length xs \<and>
        idx_of self2 p \<noteq> nat (sint (m_use self)) \<and> m_records self2 ! idx_of self2 p = p"
      using R u n self2(2) by (auto simp: less_imp_le)
    show "\<forall>j\<le>length xs. j \<noteq> nat (sint (m_use self)) \<longrightarrow>
        m_records self2 ! j \<in> set xs \<and> idx_of self2 (m_records self2 ! j) = j"
      using R u n self2(2) by (auto simp: le_less)
  qed (use R u u1 rec(2) room self2 in auto)
qed

lemma dns_replace:
  assumes rec: "dns_records self (x # xs)" "node \<notin> set (x # xs)" "x \<notin> set xs"
    and self2: "m_max self2 = m_max self" "m_records self2 = m_records self" "m_use self2 = m_use self"
      "\<And>p. p \<in> set xs \<Longrightarrow> m_nodes self2 p = m_nodes self p"
    and i: "i = m_idx (the (m_nodes self x))"
  shows "dns_records (put_record self2 i node) (xs @ [node])"
    "0 \<le> sint i" "nat (sint i) = idx_of self x" "nat (sint i) < length (m_records self2)"
proof -
  note R = rec(1) [unfolded dns_records_def]
  have ix: "nat (sint i) = idx_of self x" by (simp add: i idx_of_def)
  then show "nat (sint i) = idx_of self x" .
  have x: "0 \<le> sint i" "idx_of self x \<le> length xs" "m_records self ! idx_of self x = x" using R i by auto
  then show "0 \<le> sint i" by simp
  have "int (Suc (length xs)) \<le> sint (m_max self)" "length (m_records self) = nat (sint (m_max self))" using R by auto
  then have len: "length xs < length (m_records self)" by linarith
  then show "nat (sint i) < length (m_records self2)" using x(2) ix self2(2) by simp
  have n: "idx_of self2 p = idx_of self p" if "p \<in> set xs" for p
    using that self2(4) by (auto simp: idx_of_def)
  have bk: "\<forall>p\<in>set xs. m_records self ! idx_of self p = p" using R by simp
  have ys: "idx_of self p \<noteq> idx_of self x" if "p \<in> set xs" for p
  proof
    assume e: "idx_of self p = idx_of self x"
    have "p = m_records self ! idx_of self p" using bk that by simp
    also have "\<dots> = m_records self ! idx_of self x" by (simp only: e)
    also note x(3)
    finally show False using that rec(3) by blast
  qed
  show "dns_records (put_record self2 i node) (xs @ [node])"
  proof (rule put_records)
    show "\<forall>p\<in>set xs. 0 \<le> sint (m_idx (the (m_nodes self2 p))) \<and> idx_of self2 p \<le> length xs \<and>
        idx_of self2 p \<noteq> nat (sint i) \<and> m_records self2 ! idx_of self2 p = p"
      using R n ys ix self2(2,4) by auto
    show "\<forall>j\<le>length xs. j \<noteq> nat (sint i) \<longrightarrow>
        m_records self2 ! j \<in> set xs \<and> idx_of self2 (m_records self2 ! j) = j"
    proof (intro allI impI)
      fix j assume j: "j \<le> length xs" "j \<noteq> nat (sint i)"
      then have "m_records self ! j \<in> set (x # xs)" "idx_of self (m_records self ! j) = j" using R by auto
      moreover have "m_records self ! j \<noteq> x" using calculation(2) j(2) ix by auto
      ultimately show "m_records self2 ! j \<in> set xs \<and> idx_of self2 (m_records self2 ! j) = j"
        using n self2(2) by auto
    qed
  qed (use R rec(2) self2 x ix in auto)
qed

lemma entries_eq:
  "(\<And>p. p \<in> set xs \<Longrightarrow> m_nodes self' p = m_nodes self p) \<Longrightarrow> entries self' xs = entries self xs"
  by (simp add: entries_def name_of_def idx_of_def)

lemma entries_put:
  assumes "node \<notin> set ys" "\<And>p. p \<in> set ys \<Longrightarrow> m_nodes self2 p = m_nodes self p" "m_nodes self2 node = Some \<lparr>m_name = name, m_idx = j\<rparr>"
  shows "entries (put_record self2 i node) (ys @ [node]) = entries self ys @ [(name, nat (sint i))]"
  using assms by (auto simp: entries_def name_of_def idx_of_def put_record_def)

text \<open>A name that the cache does not know. The new node is linked first and gets its number then.\<close>

definition node_linked :: "HevMappedDNS \<Rightarrow> cstr \<Rightarrow> ptr \<Rightarrow> HevMappedDNS \<Rightarrow> bool" where
  "node_linked self name node s2 \<longleftrightarrow>
     m_max s2 = m_max self \<and> m_use s2 = m_use self \<and> m_records s2 = m_records self \<and>
     m_net s2 = m_net self \<and> m_mask s2 = m_mask self \<and>
     m_nodes s2 = (m_nodes self)(node \<mapsto> \<lparr>m_name = name, m_idx = 0\<rparr>)"

lemma dns_find_link:
  assumes core: "dns_core self xs t" and nx: "node \<notin> set xs"
    and loop: "find_loop self name LinkRoot NULL = Some (Missing lnk par)"
    and post: "search_post (\<lambda>p. strcmp (name_of self p) name) t (Missing lnk par)"
    and al: "alloc self = (node, str)" "node \<noteq> NULL" "str \<noteq> NULL" "aligned node"
  shows "\<exists>s2 t'. hev_mapped_dns_find alloc self name = number_node s2 node \<and> dns_core s2 (xs @ [node]) t' \<and>
    node_linked self name node s2"
proof -
  let ?s1 = "self\<lparr>m_lmem := (m_lmem self)(node \<mapsto> \<lparr>l_next = NULL, l_prev = NULL\<rparr>),
      m_tree := (m_tree self)\<lparr>rb_mem := (rb_mem (m_tree self))(node \<mapsto> \<lparr>parent_color = 0, r_right = NULL, r_left = NULL\<rparr>)\<rparr>,
      m_nodes := (m_nodes self)(node \<mapsto> \<lparr>m_name = name, m_idx = 0\<rparr>)\<rparr>"
  have alloc: "hev_mapped_dns_node_alloc alloc self name = (?s1, node)"
    using al(1-3) by (simp add: hev_mapped_dns_node_alloc_def)
  obtain t1 t2 l h t' where ins: "hev_rbtree_node_link (m_tree ?s1) node par lnk = Some t1"
      "hev_rbtree_insert_color t1 node = Some t2"
      "hev_list_add_tail (m_list ?s1) (m_lmem ?s1) node = Some (l, h)"
      "dns_core (?s1\<lparr>m_tree := t2, m_list := l, m_lmem := h\<rparr>) (xs @ [node]) t'"
    using dns_insert [OF core post nx al(2,4) refl] by blast
  have "hev_mapped_dns_find alloc self name = number_node (?s1\<lparr>m_tree := t2, m_list := l, m_lmem := h\<rparr>) node"
    using loop alloc al(2) ins(1-3) by (simp add: hev_mapped_dns_find_def)
  moreover have "node_linked self name node (?s1\<lparr>m_tree := t2, m_list := l, m_lmem := h\<rparr>)" by (simp add: node_linked_def)
  ultimately show ?thesis using ins(4) by blast
qed

text \<open>While numbers are left, the node gets the next one.\<close>

lemma number_node_next:
  assumes rec: "dns_records self xs" and nx: "node \<notin> set xs" "node \<noteq> NULL"
    and lk: "node_linked self name node s2" and core: "dns_core s2 (xs @ [node]) t"
    and room: "sint (m_use self) < sint (m_max self)"
  shows "\<exists>self' i. number_node s2 node = Some (self', i) \<and> dns_inv self' (xs @ [node]) \<and> nat (sint i) = length xs \<and> 0 \<le> sint i \<and>
    entries self' (xs @ [node]) = entries self xs @ [(name, length xs)] \<and>
    m_max self' = m_max self \<and> m_net self' = m_net self \<and> m_mask self' = m_mask self"
proof -
  let ?s3 = "s2\<lparr>m_use := m_use self + 1\<rparr>"
  note L = lk [unfolded node_linked_def]
  have g: "dns_records (put_record ?s3 (m_use self) node) (xs @ [node])" "0 \<le> sint (m_use self)"
      "nat (sint (m_use self)) = length xs" "nat (sint (m_use self)) < length (m_records ?s3)"
    using dns_grow [OF rec nx(1) room, of ?s3] L by simp_all
  have n: "m_nodes ?s3 node = Some \<lparr>m_name = name, m_idx = 0\<rparr>" using L by simp
  have n3: "m_nodes ?s3 p = m_nodes self p" if "p \<in> set xs" for p using that nx(1) L by auto
  have "dns_core ?s3 (xs @ [node]) t" using core by (simp add: dns_core_def name_of_def)
  from put_record_core [OF this, of node "m_use self"] g(1)
  have "dns_inv (put_record ?s3 (m_use self) node) (xs @ [node])" by (auto simp: dns_inv_def)
  moreover have "number_node s2 node = Some (put_record ?s3 (m_use self) node, m_use self)"
    using room put_record_run [OF g(2,4) nx(2) n] L by (simp add: number_node_def put_record_def)
  moreover have "entries (put_record ?s3 (m_use self) node) (xs @ [node]) = entries self xs @ [(name, length xs)]"
    using entries_put [OF nx(1) n3 n, of "m_use self"] g(3) by simp
  ultimately show ?thesis using g(2,3) L by (auto simp: put_record_def)
qed

text \<open>When none is left, it gets the number of the name that was used least recently.\<close>

lemma number_node_reused:
  assumes rec: "dns_records self (x # ys)" and nx: "node \<notin> set (x # ys)" "node \<noteq> NULL" and x: "x \<notin> set ys"
    and lk: "node_linked self name node s2" and core: "dns_core s2 (x # (ys @ [node])) t"
    and full: "\<not> sint (m_use self) < sint (m_max self)"
  shows "\<exists>self' i. number_node s2 node = Some (self', i) \<and> dns_inv self' (ys @ [node]) \<and> nat (sint i) = idx_of self x \<and> 0 \<le> sint i \<and>
    entries self' (ys @ [node]) = entries self ys @ [(name, idx_of self x)] \<and>
    m_max self' = m_max self \<and> m_net self' = m_net self \<and> m_mask self' = m_mask self"
proof -
  note L = lk [unfolded node_linked_def]
  let ?i = "m_idx (the (m_nodes self x))"
  have ne: "x \<noteq> node" "node \<notin> set ys" using nx by auto
  have mi: "m_idx (the (m_nodes s2 x)) = ?i" using ne(1) L by simp
  obtain t3 l3 h3 t4 where ev: "evict_first s2 = Some (s2\<lparr>m_lmem := h3, m_tree := t3, m_list := l3,
        m_nodes := (m_nodes s2)(x := None)\<rparr>, m_idx (the (m_nodes s2 x)))"
      "dns_core (s2\<lparr>m_lmem := h3, m_tree := t3, m_list := l3, m_nodes := (m_nodes s2)(x := None)\<rparr>) (ys @ [node]) t4"
    using dns_evict [OF core] by blast
  let ?s3 = "s2\<lparr>m_lmem := h3, m_tree := t3, m_list := l3, m_nodes := (m_nodes s2)(x := None)\<rparr>"
  have n3: "m_nodes ?s3 p = m_nodes self p" if "p \<in> set ys" for p using that x ne L by auto
  have g: "dns_records (put_record ?s3 ?i node) (ys @ [node])" "0 \<le> sint ?i"
      "nat (sint ?i) = idx_of self x" "nat (sint ?i) < length (m_records ?s3)"
    using dns_replace [OF rec nx(1) x, of ?s3 ?i] L n3 by simp_all
  have nn: "m_nodes ?s3 node = Some \<lparr>m_name = name, m_idx = 0\<rparr>" using ne(1) L by simp
  have "dns_inv (put_record ?s3 ?i node) (ys @ [node])"
    using put_record_core [OF ev(2), of node ?i] g(1) by (auto simp: dns_inv_def)
  moreover have "number_node s2 node = Some (put_record ?s3 ?i node, ?i)"
    using ev(1) full put_record_run [OF g(2,4) nx(2) nn] L mi by (simp add: number_node_def put_record_def)
  moreover have "entries (put_record ?s3 ?i node) (ys @ [node]) = entries self ys @ [(name, idx_of self x)]"
    using entries_put [OF ne(2) n3 nn, of ?i] g(3) by simp
  ultimately show ?thesis using g(2,3) L by (auto simp: put_record_def)
qed

lemma dns_find_missing:
  assumes core: "dns_core self xs t" and rec: "dns_records self xs"
    and loop: "find_loop self name LinkRoot NULL = Some (Missing lnk par)"
    and post: "search_post (\<lambda>p. strcmp (name_of self p) name) t (Missing lnk par)"
    and al: "alloc self = (node, str)" "node \<noteq> NULL" "str \<noteq> NULL" "m_nodes self node = None" "aligned node"
  shows "\<exists>self' i ys. hev_mapped_dns_find alloc self name = Some (self', i) \<and> dns_inv self' ys \<and> 0 \<le> sint i \<and>
    lru_find (nat (sint (m_max self))) (entries self xs) name = (entries self' ys, nat (sint i)) \<and>
    m_max self' = m_max self \<and> m_net self' = m_net self \<and> m_mask self' = m_mask self"
proof -
  note D = dns_coreD [OF core] and R = rec [unfolded dns_records_def]
  have nx: "node \<notin> set xs" using al(4) D(5) by auto
  have none: "map_of (entries self xs) name = None"
    using search_post_Missing [OF post] D(4) by (intro entries_missing) (auto simp: strcmp_order)
  have lenx: "length (entries self xs) = length xs" by (simp add: entries_def)
  obtain s2 t' where s2: "hev_mapped_dns_find alloc self name = number_node s2 node"
      "dns_core s2 (xs @ [node]) t'" "node_linked self name node s2"
    using dns_find_link [where alloc = alloc, OF core nx loop post al(1-3,5)] by blast
  show ?thesis
  proof (cases "sint (m_use self) < sint (m_max self)")
    case True
    then have "length xs < nat (sint (m_max self))" using R by simp
    then show ?thesis
      using number_node_next [OF rec nx al(2) s2(3,2) True] none lenx by (auto simp: s2(1) lru_find_def intro!: exI [of _ "xs @ [node]"])
  next
    case False
    then have full: "length xs = nat (sint (m_max self))" "xs \<noteq> []" using R by auto
    then obtain x ys where xs: "xs = x # ys" by (cases xs) auto
    have x: "x \<notin> set ys" and core2: "dns_core s2 (x # (ys @ [node])) t'" using D(6) s2(2) xs by simp_all
    obtain self' i where N: "number_node s2 node = Some (self', i)" "dns_inv self' (ys @ [node])"
        "nat (sint i) = idx_of self x" "0 \<le> sint i" "entries self' (ys @ [node]) = entries self ys @ [(name, idx_of self x)]"
        "m_max self' = m_max self" "m_net self' = m_net self" "m_mask self' = m_mask self"
      using number_node_reused [OF rec [unfolded xs] nx [unfolded xs] al(2) x s2(3) core2 False] by blast
    have "lru_find (nat (sint (m_max self))) (entries self xs) name = (entries self' (ys @ [node]), nat (sint i))"
      using none lenx full N(3,5) xs by (simp add: lru_find_def entries_def)
    then show ?thesis using N s2(1) by auto
  qed
qed

lemma dns_find_found:
  assumes core: "dns_core self xs t" and rec: "dns_records self xs"
    and loop: "find_loop self name LinkRoot NULL = Some (Found p)" and p: "p \<in> set xs" "name_of self p = name"
  shows "\<exists>self' i ys. hev_mapped_dns_find alloc self name = Some (self', i) \<and> dns_inv self' ys \<and> 0 \<le> sint i \<and>
    lru_find (nat (sint (m_max self))) (entries self xs) name = (entries self' ys, nat (sint i)) \<and>
    m_max self' = m_max self \<and> m_net self' = m_net self \<and> m_mask self' = m_mask self"
proof -
  obtain self' where s': "list_touch self p = Some self'" "dns_inv self' (remove1 p xs @ [p])"
      "entries self' (remove1 p xs @ [p]) = remove1 (name_of self p, idx_of self p) (entries self xs) @ [(name_of self p, idx_of self p)]"
      "m_nodes self' = m_nodes self" "m_max self' = m_max self" "m_net self' = m_net self" "m_mask self' = m_mask self"
    using dns_touch [OF core rec p(1)] by blast
  let ?i = "m_idx (the (m_nodes self p))"
  have "hev_mapped_dns_find alloc self name = Some (self', ?i)"
    using loop s'(1,4) dns_node(3) [OF core p(1)] by (simp add: hev_mapped_dns_find_def)
  moreover have "0 \<le> sint ?i" using rec p(1) by (simp add: dns_records_def)
  moreover have "lru_find (nat (sint (m_max self))) (entries self xs) name = (entries self' (remove1 p xs @ [p]), nat (sint ?i))"
    using entries_find [OF core p(1)] p(2) s'(3) by (simp add: lru_find_def idx_of_def)
  ultimately show ?thesis using s' by blast
qed

text \<open>The host part of every address is an index the constructor accepted.\<close>

definition dns_net :: "HevMappedDNS \<Rightarrow> bool" where
  "dns_net self \<longleftrightarrow> sint (m_max self) \<le> sint (NOT (m_mask self))"

lemma sint_and_nonneg:
  fixes a b :: cint
  assumes "0 \<le> sint b"
  shows "0 \<le> sint (a AND b)" "sint (a AND b) \<le> sint b"
proof -
  have "sint (a AND b) = sint a AND sint b" by (simp add: signed_and_eq)
  then show "0 \<le> sint (a AND b)" "sint (a AND b) \<le> sint b" using assms
    by (simp_all add: AND_upper2)
qed

lemma lru_find_in: "lru_find mx es name = (es', i) \<Longrightarrow> (name, i) \<in> set es'"
  by (auto simp: lru_find_def split: option.splits if_splits)

lemma uint_nonneg:
  fixes i :: cint
  assumes "0 \<le> sint i"
  shows "uint i = sint i"
proof -
  have "sint i < 2 ^ 31" using sint_lt [of i] by simp
  then show ?thesis using assms by (simp add: uint_sint take_bit_int_eq_self)
qed

lemma index_host:
  fixes i :: cint
  assumes "0 \<le> sint i" "k < 32" "sint i < sint (mask k :: cint)"
  shows "i AND mask k = i"
proof -
  have "0 \<le> sint (mask k :: cint)" using assms by linarith
  then have "sint (mask k :: cint) = uint (mask k :: cint)" by (simp add: uint_nonneg)
  also have "\<dots> = mask k"
    using assms(2) by (intro bit_eqI) (auto simp: bit_uint_iff bit_mask_iff)
  also have "\<dots> = 2 ^ k - 1" by (simp add: mask_eq_exp_minus_1)
  finally have "uint i < 2 ^ k" using assms(3) uint_nonneg [OF assms(1)] by simp
  then have "take_bit k (uint i) = uint i" by (simp add: take_bit_int_eq_self)
  then have "uint (take_bit k i) = uint i" by (simp add: unsigned_take_bit_eq)
  then have "take_bit k i = i" by (simp only: word_uint_eq_iff)
  then show ?thesis by (simp add: take_bit_eq_mask)
qed

lemma dns_find:
  assumes inv: "dns_inv self xs" and malloc: "malloc_ok alloc"
  shows "(\<exists>self' i ys. hev_mapped_dns_find alloc self name = Some (self', i) \<and> dns_inv self' ys \<and> 0 \<le> sint i \<and>
      lru_find (nat (sint (m_max self))) (entries self xs) name = (entries self' ys, nat (sint i)) \<and>
      m_max self' = m_max self \<and> m_net self' = m_net self \<and> m_mask self' = m_mask self) \<or>
    hev_mapped_dns_find alloc self name = Some (self, - 1) \<and> map_of (entries self xs) name = None \<and>
      (fst (alloc self) = NULL \<or> snd (alloc self) = NULL)"
proof -
  obtain t where core: "dns_core self xs t" and rec: "dns_records self xs" using inv by (auto simp: dns_inv_def)
  obtain r where r: "find_loop self name LinkRoot NULL = Some r" "search_post (\<lambda>p. strcmp (name_of self p) name) t r"
    using find_loop_core [OF core] by blast
  obtain node str where al: "alloc self = (node, str)" by fastforce
  show ?thesis
  proof (cases r)
    case (Found p)
    then have "p \<in> set xs" "name_of self p = name" using r(2) dns_coreD(4) [OF core]
      by (auto simp: search_post_def strcmp_order)
    then show ?thesis using dns_find_found [OF core rec r(1) [unfolded Found]] by blast
  next
    case (Missing lnk par)
    show ?thesis
    proof (cases "node = NULL \<or> str = NULL")
      case True
      have "map_of (entries self xs) name = None"
        using search_post_Missing [OF r(2) [unfolded Missing]] dns_coreD(4) [OF core]
        by (intro entries_missing) (auto simp: strcmp_order)
      then show ?thesis using True r(1) Missing al by (auto simp: hev_mapped_dns_find_def hev_mapped_dns_node_alloc_def)
    next
      case False
      then have "m_nodes self node = None" "aligned node" using malloc al by (auto simp: malloc_ok_def dest: spec [of _ self])
      then show ?thesis using dns_find_missing [OF core rec r [unfolded Missing], of alloc node str] al False by blast
    qed
  qed
qed

lemma entries_idx_inj:
  assumes "dns_inv self xs" "p \<in> set xs"
  shows "map_of (map prod.swap (entries self xs)) (idx_of self p) = Some (name_of self p)"
proof -
  obtain t where core: "dns_core self xs t" and rec: "dns_records self xs" using assms(1) by (auto simp: dns_inv_def)
  have bk: "\<forall>p\<in>set xs. m_records self ! idx_of self p = p" using rec by (simp add: dns_records_def)
  have "inj_on (idx_of self) (set xs)" using bk by (intro inj_on_inverseI [where g = "\<lambda>i. m_records self ! i"]) simp
  then have "distinct (map fst (map prod.swap (entries self xs)))"
    using dns_coreD(6) [OF core] by (simp add: entries_def comp_def distinct_map)
  then show ?thesis using assms(2) by (intro map_of_is_SomeI) (auto simp: entries_def)
qed

lemma dns_lookup:
  assumes inv: "dns_inv self xs" and net: "dns_net self"
  shows "\<exists>self' name ys. hev_mapped_dns_lookup self ip = Some (self', name) \<and> dns_inv self' ys \<and>
    lru_lookup (entries self xs) (nat (sint (ip AND NOT (m_mask self)))) = (entries self' ys, name) \<and>
    m_max self' = m_max self \<and> m_net self' = m_net self \<and> m_mask self' = m_mask self"
proof -
  obtain t where core: "dns_core self xs t" and rec: "dns_records self xs" using inv by (auto simp: dns_inv_def)
  note R = rec [unfolded dns_records_def]
  let ?w = "ip AND NOT (m_mask self)" and ?i = "nat (sint (ip AND NOT (m_mask self)))"
  have i: "0 \<le> sint ?w" using sint_and_nonneg(1) [of "NOT (m_mask self)" ip] net R by (auto simp: dns_net_def)
  show ?thesis
  proof (cases "?i < length xs")
    case True
    define p where "p = m_records self ! ?i"
    have p: "p \<in> set xs" "idx_of self p = ?i" using R True by (auto simp: p_def)
    have ran: "sint ?w < sint (m_max self)" "?i < length (m_records self)" using True R i by linarith+
    obtain self' where s': "list_touch self p = Some self'" "dns_inv self' (remove1 p xs @ [p])"
        "entries self' (remove1 p xs @ [p]) = remove1 (name_of self p, idx_of self p) (entries self xs) @ [(name_of self p, idx_of self p)]"
        "m_nodes self' = m_nodes self" "m_max self' = m_max self" "m_net self' = m_net self" "m_mask self' = m_mask self"
      using dns_touch [OF core rec p(1)] by blast
    have "hev_mapped_dns_lookup self ip = Some (self', Some (name_of self p))"
      using ran i s'(1,4) dns_node(1,3) [OF core p(1)] p_def by (simp add: hev_mapped_dns_lookup_def name_of_def)
    moreover have "lru_lookup (entries self xs) ?i = (entries self' (remove1 p xs @ [p]), Some (name_of self p))"
      using entries_idx_inj [OF inv p(1)] p(2) s'(3) by (simp add: lru_lookup_def)
    ultimately show ?thesis using s' by blast
  next
    case False
    have "map_of (map prod.swap (entries self xs)) ?i = None"
      using R False by (auto simp: map_of_eq_None_iff entries_def)
    moreover have "hev_mapped_dns_lookup self ip = Some (self, None)"
      using R False i by (auto simp: hev_mapped_dns_lookup_def Let_def)
    ultimately show ?thesis using inv by (auto simp: lru_lookup_def)
  qed
qed

section \<open>Properties\<close>

text \<open>A concrete cache of two records in 198.18.0.0/16 and an allocator that returns one of two
  nodes.\<close>

definition dns0 :: HevMappedDNS where
  "dns0 = the (hev_mapped_dns_new True 0xc6120000 0xffff0000 2)"

definition alloc0 :: alloc where
  "alloc0 self = (if m_nodes self 64 = None then 64 else if m_nodes self 128 = None then 128 else NULL, 1)"

lemma new_inv:
  assumes "hev_mapped_dns_new mem net msk mx = Some self" "0 < sint mx"
  shows "dns_inv self []" "entries self [] = []" "dns_net self" "m_net self = net" "m_mask self = msk" "m_max self = mx"
proof -
  have s: "self = \<lparr>m_use = 0, m_max = mx, m_net = net, m_mask = msk,
         m_list = \<lparr>l_head = NULL, l_tail = NULL\<rparr>, m_lmem = Map.empty,
         m_tree = \<lparr>rb_root = NULL, rb_mem = Map.empty\<rparr>, m_nodes = Map.empty,
         m_records = replicate (nat (sint mx)) NULL\<rparr>" "sint mx \<le> sint (NOT msk)"
    using assms(1) by (auto simp: hev_mapped_dns_new_def hev_mapped_dns_construct_def split: if_splits)
  have "dns_core self [] Lf" by (simp add: s dns_core_def hev_list_rep_def rb_rep_def rb_ok_def)
  moreover have "dns_records self []" using assms(2) by (simp add: s dns_records_def)
  ultimately show "dns_inv self []" by (auto simp: dns_inv_def)
  show "entries self [] = []" "dns_net self" "m_net self = net" "m_mask self = msk" "m_max self = mx"
    using s by (simp_all add: entries_def dns_net_def)
qed

lemma dns0: "hev_mapped_dns_new True 0xc6120000 0xffff0000 2 = Some dns0"
  by (simp add: dns0_def hev_mapped_dns_new_def hev_mapped_dns_construct_def)

lemma dns0_nodes: "m_nodes dns0 = Map.empty"
  by (simp add: dns0_def hev_mapped_dns_new_def hev_mapped_dns_construct_def)

lemmas dns0_inv = new_inv [OF dns0, simplified]

lemma alloc0_ok: "malloc_ok alloc0"
  by (simp add: malloc_ok_def alloc0_def aligned_def)

text \<open>C4: the cache implements a least-recently-used cache. On any valid state, finding a name
  never touches a null or dangling pointer, keeps the list, the tree and the records
  consistent, and gives the result of the abstract cache: a known name keeps its index and
  becomes the most recent one, a new name gets the next unused index, and when all are used
  the index of the least recent name, which is forgotten. It answers -1, and changes nothing,
  only for a new name when the allocator fails.\<close>

theorem mapped_dns_find_refines:
  assumes "dns_inv self xs" and "malloc_ok alloc"
  shows "(\<exists>self' i ys. hev_mapped_dns_find alloc self name = Some (self', i) \<and> dns_inv self' ys \<and> 0 \<le> sint i \<and>
      lru_find (nat (sint (m_max self))) (entries self xs) name = (entries self' ys, nat (sint i)) \<and>
      m_max self' = m_max self \<and> m_net self' = m_net self \<and> m_mask self' = m_mask self) \<or>
    hev_mapped_dns_find alloc self name = Some (self, - 1) \<and> map_of (entries self xs) name = None \<and>
      (fst (alloc self) = NULL \<or> snd (alloc self) = NULL)"
  using dns_find [OF assms] .

theorem mapped_dns_find_refines_witness:
  "\<exists>self' i ys. hev_mapped_dns_find alloc0 dns0 [97] = Some (self', i) \<and> dns_inv self' ys \<and> 0 \<le> sint i \<and>
     entries self' ys = [([97], 0)] \<and> nat (sint i) = 0"
  using mapped_dns_find_refines [OF dns0_inv(1) alloc0_ok, of "[97]"] dns0_inv(2,6)
  by (auto simp: lru_find_def alloc0_def dns0_nodes split: if_splits)

text \<open>Looking up an address never reads outside the records and gives the result of the
  abstract cache for the host part of the address: the name mapped to it, which becomes the
  most recent one, or none.\<close>

theorem mapped_dns_lookup_refines:
  assumes "dns_inv self xs" and "dns_net self"
  shows "\<exists>self' name ys. hev_mapped_dns_lookup self ip = Some (self', name) \<and> dns_inv self' ys \<and>
    lru_lookup (entries self xs) (nat (sint (ip AND NOT (m_mask self)))) = (entries self' ys, name) \<and>
    m_max self' = m_max self \<and> m_net self' = m_net self \<and> m_mask self' = m_mask self"
  using dns_lookup [OF assms] .

theorem mapped_dns_lookup_refines_witness:
  "\<exists>self' ys. hev_mapped_dns_lookup dns0 0xc6120001 = Some (self', None) \<and> dns_inv self' ys"
  using mapped_dns_lookup_refines [OF dns0_inv(1,3), of "0xc6120001"] dns0_inv(2)
  by (auto simp: lru_lookup_def)

lemma dns_roundtrip:
  assumes inv: "dns_inv self xs" and malloc: "malloc_ok alloc" and net: "dns_net self"
    and k: "m_mask self = NOT (mask k)" "k < 32" "m_net self AND mask k = 0"
    and find: "hev_mapped_dns_find alloc self name = Some (self', i)" "i \<noteq> - 1"
  shows "\<exists>self''. hev_mapped_dns_lookup self' (m_net self' OR i) = Some (self'', Some name)"
proof -
  obtain ys where ys: "dns_inv self' ys" "0 \<le> sint i"
      "lru_find (nat (sint (m_max self))) (entries self xs) name = (entries self' ys, nat (sint i))"
      "m_max self' = m_max self" "m_net self' = m_net self" "m_mask self' = m_mask self"
    using dns_find [OF inv malloc, of name] find by auto
  have "(name, nat (sint i)) \<in> set (entries self' ys)"
    by (rule lru_find_in [OF ys(3)])
  then obtain p where p: "p \<in> set ys" "name_of self' p = name" "idx_of self' p = nat (sint i)"
    by (auto simp: entries_def)
  have "int (idx_of self' p) < sint (m_max self')" using ys(1) p(1) by (auto simp: dns_inv_def dns_records_def)
  then have "sint i < sint (mask k :: cint)"
    using net ys(2,4) p(3) k(1) by (simp add: dns_net_def)
  then have "i AND mask k = i" by (rule index_host [OF ys(2) k(2)])
  then have "(m_net self' OR i) AND NOT (m_mask self') = i"
    using k(1,3) ys(5,6) by (simp add: bit.conj_disj_distrib2)
  moreover have "dns_net self'" using net ys(4,6) by (simp add: dns_net_def)
  ultimately show ?thesis using dns_lookup [OF ys(1), of "m_net self' OR i"] entries_idx_inj [OF ys(1) p(1)] p(2,3)
    by (auto simp: lru_lookup_def)
qed

text \<open>The address handed out for a name leads back to it. With a network of \<open>32 - k\<close> prefix
  bits, the lookup of the address built from the network and the index that finding the name
  returned gives the name.\<close>

theorem mapped_dns_roundtrip:
  assumes inv: "dns_inv self xs" and malloc: "malloc_ok alloc" and net: "dns_net self"
    and k: "m_mask self = NOT (mask k)" "k < 32" "m_net self AND mask k = 0"
    and find: "hev_mapped_dns_find alloc self name = Some (self', i)" "i \<noteq> - 1"
  shows "\<exists>self''. hev_mapped_dns_lookup self' (m_net self' OR i) = Some (self'', Some name)"
  using dns_roundtrip [OF assms] .

theorem mapped_dns_roundtrip_witness:
  "\<exists>self' self''. hev_mapped_dns_find alloc0 dns0 [97] = Some (self', 0) \<and>
     hev_mapped_dns_lookup self' (m_net self' OR 0) = Some (self'', Some [97])"
proof -
  obtain self' i where f: "hev_mapped_dns_find alloc0 dns0 [97] = Some (self', i)" "0 \<le> sint i" "nat (sint i) = 0"
    using dns_find [OF dns0_inv(1) alloc0_ok, of "[97]"] dns0_inv(2,6)
    by (auto simp: lru_find_def alloc0_def dns0_nodes split: if_splits)
  then have "i = 0" using uint_nonneg [OF f(2)] by (simp add: uint_0_iff)
  moreover have "m_mask dns0 = NOT (mask 16)" "m_net dns0 AND mask 16 = 0"
    using dns0_inv(4,5) by (simp_all add: mask_eq_exp_minus_1)
  ultimately show ?thesis
    using mapped_dns_roundtrip [OF dns0_inv(1) alloc0_ok dns0_inv(3), of 16 "[97]" self' 0] f by simp
qed

text \<open>The lookup depends on the host part of the address only. An address outside the
  mapped network that has the host part of a mapped address is answered with its name.\<close>

theorem mapped_dns_lookup_ignores_network:
  assumes "ip AND NOT (m_mask self) = ip' AND NOT (m_mask self)"
  shows "hev_mapped_dns_lookup self ip = hev_mapped_dns_lookup self ip'"
  using assms by (simp add: hev_mapped_dns_lookup_def)

text \<open>The witness: 8.8.0.1 and 198.18.0.1.\<close>

theorem mapped_dns_lookup_ignores_network_witness:
  "hev_mapped_dns_lookup dns0 0x08080001 = hev_mapped_dns_lookup dns0 0xc6120001 \<and>
     (0x08080001 :: cint) AND m_mask dns0 \<noteq> m_net dns0"
  using mapped_dns_lookup_ignores_network [of "0x08080001" dns0 "0xc6120001"] dns0_inv(4,5) by simp

lemma destruct_loop_frees:
  "dseg (m_lmem self) p ys NULL \<Longrightarrow> distinct ys \<Longrightarrow> dom (m_nodes self) = set ys \<Longrightarrow>
     \<exists>self'. destruct_loop self (hd (ys @ [NULL])) = Some self' \<and> m_nodes self' = Map.empty"
proof (induction ys arbitrary: self p)
  case Nil
  then show ?case by (subst destruct_loop.simps) simp
next
  case (Cons y ys)
  let ?self = "self\<lparr>m_lmem := (m_lmem self)(y := None),
    m_tree := (m_tree self)\<lparr>rb_mem := (rb_mem (m_tree self))(y := None)\<rparr>, m_nodes := (m_nodes self)(y := None)\<rparr>"
  have y: "y \<noteq> NULL" "hev_list_node_next (m_lmem self) y = Some (hd (ys @ [NULL]))" "y \<in> dom (m_nodes self)"
    using Cons.prems by (auto simp: hev_list_node_next_def rd_def)
  then have "hev_mapped_dns_node_free self y = Some ?self"
    by (auto simp: hev_mapped_dns_node_free_def rd_def)
  then have "destruct_loop self y = destruct_loop ?self (hd (ys @ [NULL]))"
    using y by (subst destruct_loop.simps) simp
  moreover have "\<exists>self'. destruct_loop ?self (hd (ys @ [NULL])) = Some self' \<and> m_nodes self' = Map.empty"
  proof (rule Cons.IH [of _ y])
    show "dseg (m_lmem ?self) y ys NULL" using Cons.prems(1,2) by simp
    show "dom (m_nodes ?self) = set ys" using Cons.prems(2,3) by simp
  qed (use Cons.prems(2) in simp)
  ultimately show ?case by simp
qed

text \<open>Destruction visits every node once, reads no freed node and frees all of them.\<close>

theorem mapped_dns_destruct_frees:
  assumes "dns_inv self xs"
  shows "\<exists>self'. hev_mapped_dns_destruct self = Some self' \<and> m_nodes self' = Map.empty"
proof -
  obtain t where core: "dns_core self xs t" using assms by (auto simp: dns_inv_def)
  note D = dns_coreD [OF core]
  show ?thesis
    using destruct_loop_frees [OF hev_list_repD(2) [OF D(1)] D(6,5)] hl.first_rep [OF D(1)]
    by (simp add: hev_mapped_dns_destruct_def)
qed

theorem mapped_dns_destruct_frees_witness:
  "\<exists>self'. hev_mapped_dns_destruct dns0 = Some self' \<and> m_nodes self' = Map.empty"
  by (rule mapped_dns_destruct_frees [OF dns0_inv(1)])

end
