(* ===== verification/Session.thy ===== *)
theory Session
  imports Config Socks5Client MappedDNS
begin

text \<open>
  What the two kinds of session share: \<open>hev-socks5-session.c\<close> and the helpers of
  \<open>misc/hev-utils.c\<close>. A session takes the server and the credentials from the configuration,
  connects, and relays after a successful handshake; the destination of the connection it serves is
  the address of the packet, or the name that the mapped DNS gave this address to.
\<close>

section \<open>Addresses of the stack\<close>

text \<open>An address has 16 bytes of which IPv4 uses the first four, in network order, and a type.\<close>

record ip_addr =
  ip_bytes :: "byte list"
  ip_type :: byte

abbreviation (input) IPADDR_TYPE_V4 :: byte where "IPADDR_TYPE_V4 \<equiv> 0"
abbreviation (input) IPADDR_TYPE_V6 :: byte where "IPADDR_TYPE_V6 \<equiv> 6"

definition load32 :: "byte list \<Rightarrow> u32 option" where
  "load32 b = do {
     b0 \<leftarrow> bget b 0;
     b1 \<leftarrow> bget b 1;
     b2 \<leftarrow> bget b 2;
     b3 \<leftarrow> bget b 3;
     Some (ucast b0 OR push_bit 8 (ucast b1) OR push_bit 16 (ucast b2) OR push_bit 24 (ucast b3)) }"

text \<open>The name of an address, if there is a mapped DNS and the address is one of its own; looking
  it up makes it the most recently used one.\<close>

definition lookup_name :: "HevMappedDNS option \<Rightarrow> ip_addr \<Rightarrow> (HevMappedDNS option \<times> cstr option) option" where
  "lookup_name dns ip =
     (case dns of
        None \<Rightarrow> Some (None, None)
      | Some d \<Rightarrow> do {
          a \<leftarrow> load32 (ip_bytes ip);
          (d, name) \<leftarrow> hev_mapped_dns_lookup d (ntohl a);
          Some (Some d, name) })"

definition hev_socks5_addr_from_lwip ::
  "HevMappedDNS option \<Rightarrow> HevSocks5Addr \<Rightarrow> ip_addr \<Rightarrow> u16 \<Rightarrow> (int \<times> HevMappedDNS option \<times> HevSocks5Addr) option" where
  "hev_socks5_addr_from_lwip dns addr ip port =
     (if ip_type ip = IPADDR_TYPE_V4 then do {
        (dns, name) \<leftarrow> lookup_name dns ip;
        (addr, _) \<leftarrow> (case name of
             Some n \<Rightarrow> hev_socks5_addr_from_name addr n (uint (htons port))
           | None \<Rightarrow> hev_socks5_addr_from_ipv4 addr (ip_bytes ip) (uint (htons port)));
        Some (0, dns, addr) }
      else if ip_type ip = IPADDR_TYPE_V6 then do {
        (addr, _) \<leftarrow> hev_socks5_addr_from_ipv6 addr (ip_bytes ip) (uint (htons port));
        Some (0, dns, addr) }
      else Some (- 1, dns, addr))"

definition hev_socks5_addr_into_lwip :: "HevSocks5Addr \<Rightarrow> ip_addr \<Rightarrow> u16 \<Rightarrow> (int \<times> ip_addr \<times> u16) option" where
  "hev_socks5_addr_into_lwip addr ip port = do {
     atype \<leftarrow> bget addr 0;
     if atype = HEV_SOCKS5_ADDR_TYPE_IPV4 then do {
       a \<leftarrow> mget addr 1 4;
       bytes \<leftarrow> mput (ip_bytes ip) 0 a;
       p \<leftarrow> load16 addr 5;
       Some (0, \<lparr>ip_bytes = bytes, ip_type = IPADDR_TYPE_V4\<rparr>, ntohs p) }
     else if atype = HEV_SOCKS5_ADDR_TYPE_IPV6 then do {
       a \<leftarrow> mget addr 1 16;
       bytes \<leftarrow> mput (ip_bytes ip) 0 a;
       p \<leftarrow> load16 addr 17;
       Some (0, \<lparr>ip_bytes = bytes, ip_type = IPADDR_TYPE_V6\<rparr>, ntohs p) }
     else Some (- 1, ip, port) }"

section \<open>The session\<close>

datatype sockopt = SO_MARK u32 | TCP_FASTOPEN_CONNECT

text \<open>The options that are set on a new socket; the argument is what the kernel answers to the
  mark.\<close>

definition set_sock_mark :: "int \<Rightarrow> u32 \<Rightarrow> int \<times> sockopt list" where
  "set_sock_mark ans mark = (ans, if ans < 0 then [] else [SO_MARK mark])"

definition set_sock_tcp_fastopen :: "byte \<Rightarrow> sockopt list" where
  "set_sock_tcp_fastopen enable = (if enable = 0 then [] else [TCP_FASTOPEN_CONNECT])"

definition hev_socks5_session_bind :: "config \<Rightarrow> int \<Rightarrow> int \<times> sockopt list" where
  "hev_socks5_session_bind cfg ans =
     (case (if srv_mark (srv cfg) \<noteq> 0 then set_sock_mark ans (srv_mark (srv cfg)) else (0, [])) of
        (res, opts) \<Rightarrow>
          if res < 0 then (- 1, opts) else (0, opts @ set_sock_tcp_fastopen (srv_fastopen (srv cfg))))"

text \<open>Whether the splicer is called, and the session it is called with.\<close>

definition hev_socks5_session_run ::
  "config \<Rightarrow> socks5_misc \<Rightarrow> bool \<Rightarrow> resolver \<Rightarrow> net \<Rightarrow> net \<Rightarrow> HevSocks5Client \<Rightarrow> (bool \<times> HevSocks5Client) option" where
  "hev_socks5_session_run cfg m mem rs net net' self = do {
     addr \<leftarrow> c_str (srv_addr (srv cfg));
     (res, self) \<leftarrow> hev_socks5_client_connect m rs net self addr (uint (srv_port (srv cfg)));
     if res < 0 then Some (False, self)
     else do {
       user \<leftarrow> server_user cfg;
       pass \<leftarrow> server_pass cfg;
       let self = (if user \<noteq> None \<and> pass \<noteq> None then hev_socks5_client_set_auth self user pass else self);
       (res, self) \<leftarrow> hev_socks5_client_handshake m mem rs net' self (srv_pipeline (srv cfg) \<noteq> 0);
       Some (\<not> res < 0, self) } }"

definition hev_socks5_session_terminate :: "HevSocks5Client \<Rightarrow> HevSocks5Client" where
  "hev_socks5_session_terminate self = hev_socks5_set_timeout self 0"

text \<open>How both kinds of sessions decide whether a round of their relay waits, and for what;
  \<^term>\<open>None\<close> ends the loop.\<close>

definition pause_type :: "int \<Rightarrow> int \<Rightarrow> HevTaskYieldType option" where
  "pause_type res_f res_b =
     (if 0 < res_f \<or> 0 < res_b then Some HEV_TASK_YIELD
      else if res_f AND res_b = 0 then Some HEV_TASK_WAITIO
      else None)"

section \<open>Addresses\<close>

lemma from_ipv4_wire:
  assumes "length addr = 260" "4 \<le> length ip"
  shows "hev_socks5_addr_from_ipv4 addr ip port = Some (wire_ipv4 (take 4 ip) (word_of_int port) @ drop 7 addr, 7)"
  using assms put_addr_port(2) [of "take 4 ip" 4 addr 1 "word_of_int port" "\<lambda>addr. Some (addr, 7)"]
  by (simp add: hev_socks5_addr_from_ipv4_def mget_def wire_ipv4_def)

lemma from_ipv6_wire:
  assumes "length addr = 260" "16 \<le> length ip"
  shows "hev_socks5_addr_from_ipv6 addr ip port = Some (wire_ipv6 (take 16 ip) (word_of_int port) @ drop 19 addr, 19)"
  using assms put_addr_port(2) [of "take 16 ip" 16 addr 4 "word_of_int port" "\<lambda>addr. Some (addr, 19)"]
  by (simp add: hev_socks5_addr_from_ipv6_def mget_def wire_ipv6_def)

lemma into_lwip_wire:
  assumes "length (ip_bytes ip) = 16"
  shows "length a = 4 \<Longrightarrow> hev_socks5_addr_into_lwip (wire_ipv4 a p @ rest) ip port =
      Some (0, \<lparr>ip_bytes = a @ drop 4 (ip_bytes ip), ip_type = IPADDR_TYPE_V4\<rparr>, ntohs p)"
    and "length a = 16 \<Longrightarrow> hev_socks5_addr_into_lwip (wire_ipv6 a p @ rest) ip port =
      Some (0, \<lparr>ip_bytes = a, ip_type = IPADDR_TYPE_V6\<rparr>, ntohs p)"
  using assms load16_at [of 5 "1 # a" p rest] load16_at [of 17 "4 # a" p rest]
  by (simp_all add: hev_socks5_addr_into_lwip_def wire_ipv4_def wire_ipv6_def bget_def mget_def mput_def overwrite_def)

text \<open>The conversions of addresses between the stack and the protocol are inverse: with no
  mapped DNS, a local address of the stack, IPv4 or IPv6, becomes a SOCKS5 address that is converted
  back to the same address and port.\<close>

theorem lwip_addr_roundtrip:
  assumes "length addr = 260" and "length (ip_bytes ip) = 16" and "length (ip_bytes ip0) = 16"
    and "ip_type ip = IPADDR_TYPE_V4 \<or> ip_type ip = IPADDR_TYPE_V6"
  shows "\<exists>a ip'. hev_socks5_addr_from_lwip None addr ip port = Some (0, None, a) \<and>
    hev_socks5_addr_into_lwip a ip0 port0 = Some (0, ip', port) \<and> ip_type ip' = ip_type ip \<and>
    (if ip_type ip = IPADDR_TYPE_V4 then take 4 (ip_bytes ip') = take 4 (ip_bytes ip) else ip_bytes ip' = ip_bytes ip)"
proof (cases "ip_type ip = IPADDR_TYPE_V4")
  case True
  then show ?thesis
    using assms(1,2) from_ipv4_wire [OF assms(1), of "ip_bytes ip"] into_lwip_wire(1) [OF assms(3), of "take 4 (ip_bytes ip)"]
    by (simp add: hev_socks5_addr_from_lwip_def lookup_name_def)
next
  case False
  then have "ip_type ip = IPADDR_TYPE_V6" using assms(4) by simp
  then show ?thesis
    using assms(1,2) from_ipv6_wire [OF assms(1), of "ip_bytes ip"] into_lwip_wire(2) [OF assms(3), of "ip_bytes ip"]
    by (simp add: hev_socks5_addr_from_lwip_def)
qed

theorem lwip_addr_roundtrip_witness:
  "\<exists>a ip'. hev_socks5_addr_from_lwip None (replicate 260 0) \<lparr>ip_bytes = [1, 2, 3, 4] @ replicate 12 0, ip_type = 0\<rparr> 80 =
      Some (0, None, a) \<and>
    hev_socks5_addr_into_lwip a \<lparr>ip_bytes = replicate 16 0, ip_type = 0\<rparr> 0 = Some (0, ip', 80) \<and>
    take 4 (ip_bytes ip') = [1, 2, 3, 4]"
  using lwip_addr_roundtrip [of "replicate 260 0" "\<lparr>ip_bytes = [1, 2, 3, 4] @ replicate 12 0, ip_type = 0\<rparr>"
      "\<lparr>ip_bytes = replicate 16 0, ip_type = 0\<rparr>" 80 0] by auto

section \<open>Names of mapped addresses\<close>

text \<open>The bytes of an address in network order.\<close>

definition net_bytes :: "u32 \<Rightarrow> byte list" where
  "net_bytes v = [ucast (drop_bit 24 v), ucast (drop_bit 16 v), ucast (drop_bit 8 v), ucast v]"

lemma bit_ntohl:
  assumes "n < 32"
  shows "bit (ntohl v) n = bit v (if n < 8 then 24 + n else if n < 16 then 8 + n else if n < 24 then n - 8 else n - 24)"
proof -
  have m: "(0xff00 :: u32) = push_bit 8 (mask 8)" by (simp add: mask_eq_exp_minus_1 push_bit_eq_mult)
  show ?thesis using assms unfolding ntohl_def m by (simp add: bit_simps) (auto dest: bit_imp_le_length)
qed

lemma ntohl_bytes:
  "ntohl (ucast (ucast (drop_bit 24 v) :: byte) OR push_bit 8 (ucast (ucast (drop_bit 16 v) :: byte)) OR
      push_bit 16 (ucast (ucast (drop_bit 8 v) :: byte)) OR push_bit 24 (ucast (ucast v :: byte))) = v" (is "ntohl ?w = v")
proof (rule bit_word_eqI)
  fix n :: nat
  assume "n < LENGTH(32)"
  then have n: "n < 32" by simp
  consider "n < 8" | "8 \<le> n" "n < 16" | "16 \<le> n" "n < 24" | "24 \<le> n" by linarith
  then show "bit (ntohl ?w) n = bit v n"
    unfolding bit_ntohl [OF n] using n by cases (auto simp: bit_simps)
qed

lemma load32_net_bytes: "\<exists>a. load32 (net_bytes v @ rest) = Some a \<and> ntohl a = v"
  using ntohl_bytes [of v] by (simp add: load32_def net_bytes_def bget_def)

text \<open>C20: traffic to a mapped address is requested under its name: after the mapped DNS has given
  an address to a name, a connection to that address is requested from the server as a connection
  to the name, with the port of the packet.\<close>

theorem mapped_name_requested:
  assumes "dns_inv self xs" and "malloc_ok alloc" and "dns_net self"
    and "m_mask self = NOT (mask k)" "k < 32" "m_net self AND mask k = 0"
    and "hev_mapped_dns_find alloc self name = Some (self', i)" and "i \<noteq> - 1"
    and "length name < 256" "0 \<notin> set name" and "length addr = 260"
    and "ip_type ip = IPADDR_TYPE_V4" "ip_bytes ip = net_bytes (m_net self' OR i) @ pad"
  shows "\<exists>dns rest. hev_socks5_addr_from_lwip (Some self') addr ip port =
    Some (0, Some dns, wire_domain name (htons port) @ rest)"
proof -
  obtain dns where dns: "hev_mapped_dns_lookup self' (m_net self' OR i) = Some (dns, Some name)"
    using dns_roundtrip [OF assms(1-8)] by blast
  obtain a where a: "load32 (ip_bytes ip) = Some a" "ntohl a = m_net self' OR i"
    using load32_net_bytes [of "m_net self' OR i" pad] assms(13) by auto
  obtain rest where "hev_socks5_addr_from_name addr name (uint (htons port)) =
      Some (wire_domain name (htons port) @ rest, 4 + int (length name))"
    using from_name_wire [OF assms(9-11), of "uint (htons port)"] by auto
  then show ?thesis using dns a assms(12) by (simp add: hev_socks5_addr_from_lwip_def lookup_name_def)
qed

theorem mapped_name_requested_witness:
  "\<exists>self' i dns rest. hev_mapped_dns_find alloc0 dns0 [97] = Some (self', i) \<and>
     hev_socks5_addr_from_lwip (Some self') (replicate 260 0)
       \<lparr>ip_bytes = net_bytes (m_net self' OR i) @ replicate 12 0, ip_type = IPADDR_TYPE_V4\<rparr> 443 =
     Some (0, Some dns, wire_domain [97] (htons 443) @ rest)"
proof -
  obtain self' i where f: "hev_mapped_dns_find alloc0 dns0 [97] = Some (self', i)" "0 \<le> sint i"
    using dns_find [OF dns0_inv(1) alloc0_ok, of "[97]"] dns0_inv(2,6)
    by (auto simp: lru_find_def alloc0_def dns0_nodes split: if_splits)
  then have "i \<noteq> - 1" by auto
  moreover have "m_mask dns0 = NOT (mask 16)" "m_net dns0 AND mask 16 = 0"
    using dns0_inv(4,5) by (simp_all add: mask_eq_exp_minus_1)
  ultimately have "\<exists>dns rest. hev_socks5_addr_from_lwip (Some self') (replicate 260 0)
      \<lparr>ip_bytes = net_bytes (m_net self' OR i) @ replicate 12 0, ip_type = IPADDR_TYPE_V4\<rparr> 443 =
    Some (0, Some dns, wire_domain [97] (htons 443) @ rest)"
    using f(1) by (intro mapped_name_requested [OF dns0_inv(1) alloc0_ok dns0_inv(3), where k = 16 and pad = "replicate 12 0"]) simp_all
  then show ?thesis using f(1) by blast
qed

section \<open>The order of a session\<close>

lemma handshake_result:
  assumes "hev_socks5_client_handshake m mem rs net self pipeline = Some (res, self')"
  shows "res = 0 \<or> res = - 1"
proof -
  have "hev_socks5_client_handshake_standard mem rs net s = Some (r, s') \<Longrightarrow> r = 0 \<or> r = - 1" for s r s'
    by (auto simp: hev_socks5_client_handshake_standard_def split: bind_splits prod.splits if_splits)
  moreover have "hev_socks5_client_handshake_pipeline mem rs net s = Some (r, s') \<Longrightarrow> r = 0 \<or> r = - 1" for s r s'
    by (auto simp: hev_socks5_client_handshake_pipeline_def split: bind_splits prod.splits if_splits)
  moreover obtain s' where "(if pipeline then hev_socks5_client_handshake_pipeline mem rs net (hev_socks5_set_timeout self (tcp_timeout m))
      else hev_socks5_client_handshake_standard mem rs net (hev_socks5_set_timeout self (tcp_timeout m))) = Some (res, s')"
    using assms by (auto simp: hev_socks5_client_handshake_def Option.bind_eq_Some_conv Let_def)
  ultimately show ?thesis by (cases pipeline) auto
qed

text \<open>A configuration with credentials, and a session that connects to a server which accepts them
  and grants the request.\<close>

definition cfg1 :: config where
  "cfg1 = config0\<lparr>srv := (srv config0)\<lparr>srv_user := True, srv_pass := True, srv_port := 1080\<rparr>,
     static_user := [117, 0], static_pass := [112, 119, 0]\<rparr>"

definition net_up :: net where "net_up = net0\<lparr>n_stream := s_sock client0\<rparr>"

definition session1 :: HevSocks5Client where
  "session1 = client0\<lparr>s_fd := - 1, s_open := [], c_user := None, c_pass := None\<rparr>"

definition session2 :: HevSocks5Client where
  "session2 = client0\<lparr>s_fd := 9, s_open := [9], s_timeout := 300000\<rparr>"

lemma session1_connect:
  "hev_socks5_client_connect misc_default rs_loop net_up session1 [] 1080 =
     Some (0, session2\<lparr>s_timeout := 10000, c_user := None, c_pass := None\<rparr>)"
  by (simp add: hev_socks5_client_connect_def hev_socks5_set_timeout_def session1_def session2_def client0_def rs_loop_def
      net_up_def net0_def misc_default_def hev_socks5_name_into_sockaddr6_def hev_socks5_name_resolve_ipv4_def mput_def
      overwrite_def hev_socks5_socket_def hev_socks5_task_io_yielder_def hev_task_sleep_def hev_socks5_set_addr_family_def)

lemma cfg1_server:
  "c_str (srv_addr (srv cfg1)) = Some []" "srv_port (srv cfg1) = 1080" "server_user cfg1 = Some (Some [117])"
  "server_pass cfg1 = Some (Some [112, 119])"
proof -
  have "replicate 256 (0 :: byte) = 0 # replicate 255 0" by (simp flip: replicate_Suc)
  then show "c_str (srv_addr (srv cfg1)) = Some []" by (simp add: cfg1_def config0_def)
qed (simp_all add: cfg1_def server_user_def server_pass_def config0_def)

lemma session2_ready: "client_ready True net0 session2 (wire_ipv4 [1, 2, 3, 4] 0x5000)"
  using client0_ready
  by (simp add: client_ready_def session2_def client0_def hev_socks5_set_timeout_def get_upstream_addr_def
      hev_socks5_client_tcp_get_upstream_addr_def client_bytes_def has_creds_def tx_room_def)

lemma session2_inp: "inp session2 = server_replies (has_creds session2) 0 [1, 0, 0, 0, 0, 0, 0] @ [42]"
  by (simp add: inp_def session2_def client0_def server_replies_def hev_socks5_task_io_yielder_def hev_task_sleep_def has_creds_def)

lemma session1_run: "\<exists>self'. hev_socks5_session_run cfg1 misc_default True rs_loop net_up net0 session1 = Some (True, self')"
proof -
  have t: "session2 = hev_socks5_set_timeout (session2\<lparr>s_timeout := 10000\<rparr>) (tcp_timeout misc_default)"
    by (simp add: hev_socks5_set_timeout_def misc_default_def session2_def)
  have "reply_addr [1, 0, 0, 0, 0, 0, 0]" by (simp add: reply_addr_def)
  then obtain s5 where "hev_socks5_client_handshake misc_default True rs_loop net0 (session2\<lparr>s_timeout := 10000\<rparr>)
      (srv_pipeline (srv cfg1) \<noteq> 0) = Some (0, s5)"
    using client_handshake_ok [OF t session2_ready session2_inp, of "srv_pipeline (srv cfg1) \<noteq> 0" rs_loop] by blast
  moreover have "session2\<lparr>s_timeout := 10000\<rparr> = hev_socks5_client_set_auth
      (session2\<lparr>s_timeout := 10000, c_user := None, c_pass := None\<rparr>) (Some [117]) (Some [112, 119])"
    by (simp add: session2_def client0_def hev_socks5_client_set_auth_def)
  ultimately show ?thesis
    using session1_connect cfg1_server by (simp add: hev_socks5_session_run_def)
qed

text \<open>C15: a session relays only what the server granted: the splicer is called only after the
  connection to the configured server succeeded and the server's bytes accepted the login, if one
  was asked for, and granted the request.\<close>

theorem session_relays_if_granted:
  assumes "hev_socks5_session_run cfg m mem rs net net' self = Some (True, self')"
  shows "\<exists>addr self1 (self2 :: HevSocks5Client). c_str (srv_addr (srv cfg)) = Some addr \<and>
    hev_socks5_client_connect m rs net self addr (uint (srv_port (srv cfg))) = Some (0, self1) \<and>
    s_sock self2 = s_sock self1 \<and> granted (inp (hev_socks5_set_timeout self2 (tcp_timeout m)))"
proof -
  obtain addr res self1 where c: "c_str (srv_addr (srv cfg)) = Some addr"
      "hev_socks5_client_connect m rs net self addr (uint (srv_port (srv cfg))) = Some (res, self1)" "\<not> res < 0"
    using assms by (auto simp: hev_socks5_session_run_def split: bind_splits if_splits)
  have "res = 0"
    using c(2,3) by (auto simp: hev_socks5_client_connect_def Let_def split: bind_splits prod.splits if_splits)
  obtain user pass where up: "server_user cfg = Some user" "server_pass cfg = Some pass"
    using assms c by (auto simp: hev_socks5_session_run_def split: bind_splits if_splits)
  define self2 where "self2 = (if user \<noteq> None \<and> pass \<noteq> None then hev_socks5_client_set_auth self1 user pass else self1)"
  obtain res2 where h: "hev_socks5_client_handshake m mem rs net' self2 (srv_pipeline (srv cfg) \<noteq> 0) = Some (res2, self')" "\<not> res2 < 0"
    using assms c up by (auto simp: hev_socks5_session_run_def self2_def Let_def split: bind_splits)
  have "res2 = 0" using handshake_result [OF h(1)] h(2) by auto
  then have "granted (inp (hev_socks5_set_timeout self2 (tcp_timeout m)))" using client_granted h(1) by blast
  moreover have "s_sock self2 = s_sock self1" by (simp add: self2_def hev_socks5_client_set_auth_def)
  ultimately show ?thesis using c \<open>res = 0\<close> by blast
qed

theorem session_relays_if_granted_witness:
  "\<exists>self2 :: HevSocks5Client. s_sock self2 = n_stream net_up \<and> granted (inp (hev_socks5_set_timeout self2 300000))"
proof -
  obtain self' where "hev_socks5_session_run cfg1 misc_default True rs_loop net_up net0 session1 = Some (True, self')"
    using session1_run by blast
  from session_relays_if_granted [OF this] session1_connect cfg1_server
  show ?thesis by (auto simp: session2_def net_up_def misc_default_def)
qed

text \<open>And against a server that follows the protocol it does relay: after connecting to the
  configured server it logs in with the configured credentials, requests its destination in the
  configured variant of the handshake, and calls the splicer.\<close>

theorem session_run_requests:
  assumes "c_str (srv_addr (srv cfg)) = Some addr"
    and "hev_socks5_client_connect m rs net self addr (uint (srv_port (srv cfg))) = Some (0, self1)"
    and "server_user cfg = Some user" and "server_pass cfg = Some pass"
    and "self2 = (if user \<noteq> None \<and> pass \<noteq> None then self1\<lparr>c_user := user, c_pass := pass\<rparr> else self1)"
    and "self3 = hev_socks5_set_timeout self2 (tcp_timeout m)"
    and "client_ready mem net' self3 dest" and "reply_addr a"
    and "inp self3 = server_replies (has_creds self3) rsv a @ rest"
  shows "\<exists>self'. hev_socks5_session_run cfg m mem rs net net' self = Some (True, self') \<and>
    sent self' = sent self1 @ client_bytes self3 dest"
proof -
  have s2: "(if user \<noteq> None \<and> pass \<noteq> None then hev_socks5_client_set_auth self1 user pass else self1) = self2"
    by (simp add: assms(5) hev_socks5_client_set_auth_def)
  obtain s4 s5 :: HevSocks5Client where s: "sent s4 = sent self2 @ client_bytes self3 dest"
      "hev_socks5_client_handshake m mem rs net' self2 (srv_pipeline (srv cfg) \<noteq> 0) = Some (0, s5)" "s_sock s5 = s_sock s4"
    using client_handshake_ok [OF assms(6,7,9,8), of "srv_pipeline (srv cfg) \<noteq> 0" rs] by blast
  have "hev_socks5_session_run cfg m mem rs net net' self = Some (True, s5)"
    using s(2) assms(1-4) s2 by (simp add: hev_socks5_session_run_def Let_def)
  moreover have "sent self2 = sent self1" by (simp add: assms(5))
  ultimately show ?thesis using s by auto
qed

theorem session_run_requests_witness:
  "\<exists>self'. hev_socks5_session_run cfg1 misc_default True rs_loop net_up net0 session1 = Some (True, self') \<and>
     sent self' = [5, 1, 2, 1, 1, 117, 2, 112, 119, 5, 1, 0, 1, 1, 2, 3, 4, 0, 0x50]"
proof -
  let ?s1 = "session2\<lparr>s_timeout := 10000, c_user := None, c_pass := None\<rparr>"
  have 2: "session2\<lparr>s_timeout := 10000\<rparr> = (if Some [117 :: byte] \<noteq> None \<and> Some [112 :: byte, 119] \<noteq> None
      then ?s1\<lparr>c_user := Some [117], c_pass := Some [112, 119]\<rparr> else ?s1)"
    by (simp add: session2_def client0_def)
  have 3: "session2 = hev_socks5_set_timeout (session2\<lparr>s_timeout := 10000\<rparr>) (tcp_timeout misc_default)"
    by (simp add: hev_socks5_set_timeout_def misc_default_def session2_def)
  have c: "hev_socks5_client_connect misc_default rs_loop net_up session1 [] (uint (srv_port (srv cfg1))) = Some (0, ?s1)"
    using session1_connect cfg1_server(2) by simp
  have "reply_addr [1, 0, 0, 0, 0, 0, 0]" by (simp add: reply_addr_def)
  from session_run_requests [OF cfg1_server(1) c cfg1_server(3,4) 2 3 session2_ready this session2_inp]
  obtain self' where "hev_socks5_session_run cfg1 misc_default True rs_loop net_up net0 session1 = Some (True, self')"
      "sent self' = sent ?s1 @ client_bytes session2 (wire_ipv4 [1, 2, 3, 4] 0x5000)" by blast
  moreover have "sent ?s1 = []" by (simp add: session2_def client0_def)
  moreover have "client_bytes session2 (wire_ipv4 [1, 2, 3, 4] 0x5000) =
      [5, 1, 2, 1, 1, 117, 2, 112, 119, 5, 1, 0, 1, 1, 2, 3, 4, 0, 0x50]"
    by (simp add: client_bytes_def methods_bytes_def request_bytes_def session2_def client0_def
        has_creds_def wire_ipv4_def bytes16_def)
  ultimately show ?thesis by auto
qed

end
