(* ===== verification/SessionTCP.thy ===== *)
theory SessionTCP
  imports Reachability Pbuf RingBuffer Session
begin

text \<open>
  The relay of a TCP session, \<open>hev-socks5-session-tcp.c\<close>: between the connection of the TCP
  stack to the local client, whose callbacks run while the session's task is paused, and the
  connection to the SOCKS5 server. The two directions and the callbacks are functions on the
  session; the loop around them is a transition system in which the callbacks interleave with the
  task at every point where it yields. All calls into the stack are made under the tunnel's mutex,
  whose holders never yield, so that nothing runs in between.
\<close>

section \<open>The TCP stack\<close>

text \<open>Errors of the stack are small negative numbers in a signed byte, and are collected with the
  bitwise or.\<close>

type_synonym err_t = byte

abbreviation ERR_OK :: err_t where "ERR_OK \<equiv> 0"
abbreviation ERR_MEM :: err_t where "ERR_MEM \<equiv> - 1"

text \<open>Of a connection, the windows and what passed through it: the bytes given to the receive
  callback, the bytes accepted for sending, how many of them the peer has acknowledged, whether
  sending was shut down, and whether a call to send was refused.\<close>

record tcp_pcb =
  rcv_wnd :: u16
  snd_buf :: u16
  l_in :: "byte list"
  l_out :: "byte list"
  l_acked :: nat
  l_fin :: bool
  l_refused :: bool

definition TCP_WND :: u16 where "TCP_WND = 65528"

definition tcp_recved :: "tcp_pcb \<Rightarrow> u16 \<Rightarrow> tcp_pcb" where
  "tcp_recved pcb len =
     (let wnd = rcv_wnd pcb + len in
      if TCP_WND < wnd \<or> wnd < rcv_wnd pcb then pcb\<lparr>rcv_wnd := TCP_WND\<rparr> else pcb\<lparr>rcv_wnd := wnd\<rparr>)"

text \<open>The bytes are sent from where they are, without a copy. The first argument is what the state
  of the connection, the length of its queue and the memory allow; a call that fails queues nothing.\<close>

definition tcp_write :: "err_t \<Rightarrow> tcp_pcb \<Rightarrow> byte list \<Rightarrow> err_t \<times> tcp_pcb" where
  "tcp_write ans pcb bs =
     (let len = (of_nat (length bs) :: u16) in
      if ans \<noteq> ERR_OK then (ans, pcb\<lparr>l_refused := True\<rparr>)
      else if len = 0 then (ERR_OK, pcb)
      else if snd_buf pcb < len then (ERR_MEM, pcb\<lparr>l_refused := True\<rparr>)
      else (ERR_OK, pcb\<lparr>snd_buf := snd_buf pcb - len, l_out := l_out pcb @ take (unat len) bs\<rparr>))"

section \<open>The session\<close>

text \<open>The connection to the server, as the non-blocking calls see it.\<close>

record fdio =
  k_in :: "byte list"
  k_out :: "byte list"
  k_shut :: bool

record HevSocks5SessionTCP =
  t_base :: HevSocks5Client
  t_fd :: fdio
  t_queue :: "pbuf list"
  t_pcb :: bool
  t_conn :: tcp_pcb
  t_buffer :: "HevRingBuffer option"
  t_pcb_eof :: bool

text \<open>What \<open>writev\<close> and \<open>readv\<close> answer; they transfer at most what the vector holds.\<close>

datatype wv = WvAgain | WvFail | WvOk nat

datatype rv = RvAgain | RvFail | RvOk "byte list"

definition tcp_splice_f :: "wv \<Rightarrow> HevSocks5SessionTCP \<Rightarrow> int \<times> HevSocks5SessionTCP" where
  "tcp_splice_f ans self =
     (if t_queue self \<noteq> [] then
        (case ans of
           WvAgain \<Rightarrow> (0, self)
         | WvFail \<Rightarrow> (- 1, self)
         | WvOk n \<Rightarrow>
             let bs = take n (pbuf_bytes (take 64 (t_queue self)));
                 s = (of_nat (length bs) :: u16) in
             if bs = [] then (- 1, self)
             else
               let self = self\<lparr>t_fd := (t_fd self)\<lparr>k_out := k_out (t_fd self) @ bs\<rparr>\<rparr>;
                   self = self\<lparr>t_queue := fst (pbuf_free_header (t_queue self) s)\<rparr>;
                   self = (if t_pcb self then self\<lparr>t_conn := tcp_recved (t_conn self) s\<rparr> else self)
               in (1, self))
      else if t_pcb_eof self then (- 1, self\<lparr>t_fd := (t_fd self)\<lparr>k_shut := True\<rparr>\<rparr>)
      else (0, self))"

text \<open>The segments are written one after the other, whether or not the ones before were refused.\<close>

fun tcp_writes :: "(nat \<Rightarrow> err_t) \<Rightarrow> byte list \<Rightarrow> nat \<Rightarrow> iovec list \<Rightarrow> err_t \<times> size_t \<times> tcp_pcb \<Rightarrow> err_t \<times> size_t \<times> tcp_pcb" where
  "tcp_writes ans mem i [] r = r"
| "tcp_writes ans mem i (v # vs) (err, s, pcb) =
     (case tcp_write (ans i) pcb (take (unat (iov_len v)) (drop (unat (iov_base v)) mem)) of
        (e, pcb) \<Rightarrow> tcp_writes ans mem (i + 1) vs (err OR e, s + iov_len v, pcb))"

definition splice_b_read :: "rv \<Rightarrow> HevSocks5SessionTCP \<Rightarrow> (int \<times> HevSocks5SessionTCP) option" where
  "splice_b_read ans self = do {
     b \<leftarrow> t_buffer self;
     let iov = hev_ring_buffer_writing b;
     if iov = [] then Some (0, self)
     else (case ans of
         RvAgain \<Rightarrow> Some (0, self)
       | RvFail \<Rightarrow> Some (- 1, self)
       | RvOk bs \<Rightarrow>
           let bs = take (iov_room iov) bs in
           if bs = [] then Some (- 1, self)
           else do {
             b \<leftarrow> ring_fill b bs;
             Some (1, self\<lparr>t_buffer := Some b, t_fd := (t_fd self)\<lparr>k_in := k_in (t_fd self) @ bs\<rparr>\<rparr>) }) }"

definition splice_b_write ::
  "(nat \<Rightarrow> err_t) \<Rightarrow> int \<Rightarrow> HevSocks5SessionTCP \<Rightarrow> (err_t \<times> int \<times> HevSocks5SessionTCP) option" where
  "splice_b_write ans res self =
     (if \<not> t_pcb self then Some (ERR_OK, res, self)
      else do {
        b \<leftarrow> t_buffer self;
        let iov = hev_ring_buffer_reading b;
        if iov \<noteq> [] then
          (case tcp_writes ans (data b) 0 iov (ERR_OK, 0, t_conn self) of
             (err, s, pcb) \<Rightarrow> do {
               b \<leftarrow> hev_ring_buffer_read_finish b s;
               Some (err OR ans (length iov), 1, self\<lparr>t_conn := pcb, t_buffer := Some b\<rparr>) })
        else if res < 0 then Some (ERR_OK, res, self\<lparr>t_conn := (t_conn self)\<lparr>l_fin := True\<rparr>\<rparr>)
        else Some (ERR_OK, res, self) })"

definition tcp_splice_b ::
  "rv \<Rightarrow> (nat \<Rightarrow> err_t) \<Rightarrow> HevSocks5SessionTCP \<Rightarrow> (int \<times> HevSocks5SessionTCP) option" where
  "tcp_splice_b rans wans self = do {
     (res, self) \<leftarrow> splice_b_read rans self;
     (err, res, self) \<leftarrow> splice_b_write wans res self;
     Some (if \<not> t_pcb self \<or> err \<noteq> ERR_OK then - 1 else res, self) }"

subsection \<open>Callbacks\<close>

definition session_terminate :: "HevSocks5SessionTCP \<Rightarrow> HevSocks5SessionTCP" where
  "session_terminate self = self\<lparr>t_base := hev_socks5_session_terminate (t_base self)\<rparr>"

definition tcp_recv_handler :: "pbuf list \<Rightarrow> HevSocks5SessionTCP \<Rightarrow> HevSocks5SessionTCP" where
  "tcp_recv_handler p self =
     (if p \<noteq> [] then
        (if t_queue self \<noteq> [] then self\<lparr>t_queue := pbuf_cat (t_queue self) p\<rparr> else self\<lparr>t_queue := p\<rparr>)
      else self\<lparr>t_pcb_eof := True\<rparr>)"

definition tcp_sent_handler :: "u16 \<Rightarrow> HevSocks5SessionTCP \<Rightarrow> HevSocks5SessionTCP option" where
  "tcp_sent_handler len self = do {
     b \<leftarrow> t_buffer self;
     Some (self\<lparr>t_buffer := Some (hev_ring_buffer_read_release b (ucast len))\<rparr>) }"

definition tcp_err_handler :: "HevSocks5SessionTCP \<Rightarrow> HevSocks5SessionTCP" where
  "tcp_err_handler self = session_terminate (self\<lparr>t_pcb := False\<rparr>)"

subsection \<open>Construction and destruction\<close>

text \<open>The destination is the local address of the connection, converted in a local variable; the
  stack calls back from then on.\<close>

definition hev_socks5_session_tcp_construct ::
  "HevMappedDNS option \<Rightarrow> bool \<Rightarrow> HevSocks5Addr \<Rightarrow> ip_addr \<Rightarrow> u16 \<Rightarrow> tcp_pcb \<Rightarrow> HevSocks5SessionTCP \<Rightarrow>
   (int \<times> HevMappedDNS option \<times> HevSocks5SessionTCP) option" where
  "hev_socks5_session_tcp_construct dns mem addr local_ip local_port pcb self = do {
     (res, dns, addr) \<leftarrow> hev_socks5_addr_from_lwip dns addr local_ip local_port;
     if res < 0 then Some (- 1, dns, self)
     else do {
       (res, base) \<leftarrow> hev_socks5_client_tcp_construct mem (t_base self) addr;
       if res < 0 then Some (- 1, dns, self\<lparr>t_base := base\<rparr>)
       else Some (0, dns, self\<lparr>t_base := base, t_pcb := True, t_conn := pcb\<rparr>) } }"

definition session_tcp_zero :: "tcp_pcb \<Rightarrow> HevSocks5SessionTCP" where
  "session_tcp_zero pcb = \<lparr>t_base = client_zero (ClientTCP None), t_fd = \<lparr>k_in = [], k_out = [], k_shut = False\<rparr>,
     t_queue = [], t_pcb = False, t_conn = pcb, t_buffer = None, t_pcb_eof = False\<rparr>"

definition hev_socks5_session_tcp_new ::
  "bool \<Rightarrow> HevMappedDNS option \<Rightarrow> bool \<Rightarrow> HevSocks5Addr \<Rightarrow> ip_addr \<Rightarrow> u16 \<Rightarrow> tcp_pcb \<Rightarrow>
   (HevMappedDNS option \<times> HevSocks5SessionTCP option) option" where
  "hev_socks5_session_tcp_new smem dns mem addr local_ip local_port pcb =
     (if \<not> smem then Some (dns, None)
      else do {
        (res, dns, self) \<leftarrow> hev_socks5_session_tcp_construct dns mem addr local_ip local_port pcb (session_tcp_zero pcb);
        Some (dns, if res < 0 then None else Some self) })"

text \<open>A connection that is still alive is aborted, and what it had delivered is freed; the results
  are whether it was aborted, the buffers freed, and the session's base after its own destruction.\<close>

definition hev_socks5_session_tcp_destruct :: "HevSocks5SessionTCP \<Rightarrow> bool \<times> pbuf list \<times> HevSocks5Client" where
  "hev_socks5_session_tcp_destruct self = (t_pcb self, t_queue self, hev_socks5_client_tcp_destruct (t_base self))"

section \<open>The loop\<close>

definition session_io_yielder :: "HevTaskYieldType \<Rightarrow> int \<Rightarrow> int \<Rightarrow> int" where
  "session_io_yielder type timeout left =
     (case type of HEV_TASK_YIELD \<Rightarrow> 0 | HEV_TASK_WAITIO \<Rightarrow> hev_socks5_task_io_yielder timeout left)"

text \<open>Where the task is: before the relay, paused in its first loop or in its second one, with the
  kind of the pause and the timeout read before it, or back from the relay.\<close>

datatype tpc = Before | Loop | Paused HevTaskYieldType int | Drain | DrainPaused int | Returned

record tcp_run =
  r_self :: HevSocks5SessionTCP
  r_f :: int
  r_b :: int
  r_pc :: tpc

text \<open>The start of \<open>hev_socks5_session_tcp_splice\<close>: the buffer is allocated on the stack, with
  whatever the memory holds.\<close>

definition splice_enter :: "int \<Rightarrow> byte list \<Rightarrow> tcp_run \<Rightarrow> tcp_run" where
  "splice_enter bsize mem r =
     (if \<not> t_pcb (r_self r) then r\<lparr>r_pc := Returned\<rparr>
      else r\<lparr>r_self := (r_self r)\<lparr>t_buffer := Some (hev_ring_buffer_alloca (word_of_int bsize) mem)\<rparr>,
             r_f := 1, r_b := 1, r_pc := Loop\<rparr>)"

text \<open>One round of the first loop, up to the call of the yielder.\<close>

definition splice_round :: "wv \<Rightarrow> rv \<Rightarrow> (nat \<Rightarrow> err_t) \<Rightarrow> tcp_run \<Rightarrow> tcp_run option" where
  "splice_round wa ra wt r = do {
     let (f, self) = (if 0 \<le> r_f r then tcp_splice_f wa (r_self r) else (r_f r, r_self r));
     (b, self) \<leftarrow> (if 0 \<le> r_b r then tcp_splice_b ra wt self else Some (r_b r, self));
     Some (r\<lparr>r_self := self, r_f := f, r_b := b,
             r_pc := (case pause_type f b of
                        Some type \<Rightarrow> Paused type (s_timeout (t_base self))
                      | None \<Rightarrow> Drain)\<rparr>) }"

definition splice_resume :: "int \<Rightarrow> tcp_run \<Rightarrow> tcp_run" where
  "splice_resume left r =
     (case r_pc r of
        Paused type timeout \<Rightarrow> r\<lparr>r_pc := (if session_io_yielder type timeout left < 0 then Drain else Loop)\<rparr>
      | DrainPaused timeout \<Rightarrow>
          r\<lparr>r_pc := (if session_io_yielder HEV_TASK_WAITIO timeout left < 0 then Returned else Drain)\<rparr>
      | _ \<Rightarrow> r)"

text \<open>One round of the second loop, which waits until everything is acknowledged.\<close>

definition drain_round :: "tcp_run \<Rightarrow> tcp_run option" where
  "drain_round r =
     (if \<not> t_pcb (r_self r) then Some (r\<lparr>r_pc := Returned\<rparr>)
      else do {
        b \<leftarrow> t_buffer (r_self r);
        Some (r\<lparr>r_pc := (if hev_ring_buffer_get_use_size b = 0 then Returned
                         else DrainPaused (s_timeout (t_base (r_self r))))\<rparr>) })"

section \<open>The transition system\<close>

text \<open>What the stack does before it calls back: it passes on data inside the receive window only,
  which it narrows by that much, and reports each acknowledged byte once.\<close>

definition lwip_deliver :: "pbuf list \<Rightarrow> HevSocks5SessionTCP \<Rightarrow> HevSocks5SessionTCP" where
  "lwip_deliver p self = self\<lparr>t_conn := (t_conn self)\<lparr>l_in := l_in (t_conn self) @ pbuf_bytes p,
     rcv_wnd := rcv_wnd (t_conn self) - of_nat (length (pbuf_bytes p))\<rparr>\<rparr>"

definition lwip_ack :: "u16 \<Rightarrow> HevSocks5SessionTCP \<Rightarrow> HevSocks5SessionTCP" where
  "lwip_ack n self = self\<lparr>t_conn := (t_conn self)\<lparr>l_acked := l_acked (t_conn self) + unat n,
     snd_buf := snd_buf (t_conn self) + n\<rparr>\<rparr>"

definition unacked :: "tcp_pcb \<Rightarrow> nat" where
  "unacked pcb = length (l_out pcb) - l_acked pcb"

fun idle :: "tpc \<Rightarrow> bool" where
  "idle Before = True" | "idle (Paused _ _) = True" | "idle (DrainPaused _) = True" | "idle _ = False"

text \<open>The steps of the task, and the callbacks while it is paused. The size of the buffer is a positive
  number up to the send buffer of the stack, as loading the configuration leaves it. Without faults
  the stack never refuses to queue for lack of memory.\<close>

inductive tcp_step :: "bool \<Rightarrow> tcp_run \<Rightarrow> tcp_run \<Rightarrow> bool" for faults where
  enter: "r_pc r = Before \<Longrightarrow> 0 < bsize \<Longrightarrow> bsize \<le> 65528 \<Longrightarrow> length mem = nat bsize \<Longrightarrow> tcp_step faults r (splice_enter bsize mem r)"
| round: "r_pc r = Loop \<Longrightarrow> faults \<or> (\<forall>i. wt i = ERR_OK) \<Longrightarrow> splice_round wa ra wt r = Some r' \<Longrightarrow>
    tcp_step faults r r'"
| drain: "r_pc r = Drain \<Longrightarrow> drain_round r = Some r' \<Longrightarrow> tcp_step faults r r'"
| resume: "tcp_step faults r (splice_resume left r)"
| recv: "idle (r_pc r) \<Longrightarrow> t_pcb (r_self r) \<Longrightarrow> \<not> t_pcb_eof (r_self r) \<Longrightarrow> p \<noteq> [] \<Longrightarrow> chain_ok p \<Longrightarrow>
    length (pbuf_bytes p) \<le> unat (rcv_wnd (t_conn (r_self r))) \<Longrightarrow>
    tcp_step faults r (r\<lparr>r_self := tcp_recv_handler p (lwip_deliver p (r_self r))\<rparr>)"
| fin: "idle (r_pc r) \<Longrightarrow> t_pcb (r_self r) \<Longrightarrow> tcp_step faults r (r\<lparr>r_self := tcp_recv_handler [] (r_self r)\<rparr>)"
| sent: "idle (r_pc r) \<Longrightarrow> t_pcb (r_self r) \<Longrightarrow> 0 < unat n \<Longrightarrow> unat n \<le> unacked (t_conn (r_self r)) \<Longrightarrow>
    tcp_sent_handler n (lwip_ack n (r_self r)) = Some self \<Longrightarrow> tcp_step faults r (r\<lparr>r_self := self\<rparr>)"
| err: "idle (r_pc r) \<Longrightarrow> t_pcb (r_self r) \<Longrightarrow> tcp_step faults r (r\<lparr>r_self := tcp_err_handler (r_self r)\<rparr>)"
| terminate: "idle (r_pc r) \<Longrightarrow>
    tcp_step faults r (r\<lparr>r_self := session_terminate (r_self r)\<rparr>)"

inductive_cases tcp_stepE: "tcp_step faults r r'"

text \<open>A session as it is constructed, with a connection that nothing has passed through.\<close>

definition tcp_start :: "tcp_run \<Rightarrow> bool" where
  "tcp_start r \<longleftrightarrow>
     r_pc r = Before \<and> r_f r = 1 \<and> r_b r = 1 \<and> t_queue (r_self r) = [] \<and> t_pcb (r_self r) \<and> t_buffer (r_self r) = None \<and>
     \<not> t_pcb_eof (r_self r) \<and>
     t_conn (r_self r) = \<lparr>rcv_wnd = TCP_WND, snd_buf = TCP_WND, l_in = [], l_out = [], l_acked = 0,
       l_fin = False, l_refused = False\<rparr> \<and>
     t_fd (r_self r) = \<lparr>k_in = [], k_out = [], k_shut = False\<rparr>"

definition fresh_pcb :: tcp_pcb where
  "fresh_pcb = \<lparr>rcv_wnd = TCP_WND, snd_buf = TCP_WND, l_in = [], l_out = [], l_acked = 0, l_fin = False, l_refused = False\<rparr>"

lemma session_new_start:
  assumes "hev_socks5_session_tcp_new smem dns mem addr local_ip local_port fresh_pcb = Some (dns', Some self)"
  shows "tcp_start \<lparr>r_self = self, r_f = 1, r_b = 1, r_pc = Before\<rparr>"
  using assms
  by (auto simp: hev_socks5_session_tcp_new_def hev_socks5_session_tcp_construct_def session_tcp_zero_def fresh_pcb_def
      tcp_start_def split: if_splits bind_splits)

text \<open>The two segments of a ring that wraps around are written even when the first one is refused:
  of the bytes 1, 2 and 3 in the ring only the last one reaches the client.\<close>

lemma tcp_gap_after_refusal:
  "tcp_writes (\<lambda>i. if i = 0 then ERR_MEM else ERR_OK) [3, 0, 1, 2] 0
     [\<lparr>iov_base = 2, iov_len = 2\<rparr>, \<lparr>iov_base = 0, iov_len = 1\<rparr>] (ERR_OK, 0, fresh_pcb) =
   (ERR_MEM, 3, fresh_pcb\<lparr>snd_buf := 65527, l_out := [3], l_refused := True\<rparr>)"
  by (simp add: tcp_write_def fresh_pcb_def TCP_WND_def)

section \<open>From the client to the server\<close>

definition up_inv :: "HevSocks5SessionTCP \<Rightarrow> bool" where
  "up_inv self \<longleftrightarrow>
     l_in (t_conn self) = k_out (t_fd self) @ pbuf_bytes (t_queue self) \<and>
     chain_ok (t_queue self) \<and> length (pbuf_bytes (t_queue self)) \<le> 65528 \<and>
     (t_pcb self \<longrightarrow> unat (rcv_wnd (t_conn self)) + length (pbuf_bytes (t_queue self)) = 65528)"

text \<open>What the other direction depends on.\<close>

definition same_down :: "HevSocks5SessionTCP \<Rightarrow> HevSocks5SessionTCP \<Rightarrow> bool" where
  "same_down a b \<longleftrightarrow>
     t_buffer b = t_buffer a \<and> k_in (t_fd b) = k_in (t_fd a) \<and> l_out (t_conn b) = l_out (t_conn a) \<and>
     l_acked (t_conn b) = l_acked (t_conn a) \<and> l_fin (t_conn b) = l_fin (t_conn a) \<and>
     l_refused (t_conn b) = l_refused (t_conn a) \<and> snd_buf (t_conn b) = snd_buf (t_conn a)"

lemma unat_TCP_WND [simp]: "unat TCP_WND = 65528"
  by (simp add: TCP_WND_def)

lemma tcp_recved_wnd:
  assumes "unat (rcv_wnd pcb) + unat n \<le> 65528"
  shows "tcp_recved pcb n = pcb\<lparr>rcv_wnd := rcv_wnd pcb + n\<rparr>" and "unat (rcv_wnd pcb + n) = unat (rcv_wnd pcb) + unat n"
proof -
  show u: "unat (rcv_wnd pcb + n) = unat (rcv_wnd pcb) + unat n"
    using assms by (intro unat_add_lt) simp
  then show "tcp_recved pcb n = pcb\<lparr>rcv_wnd := rcv_wnd pcb + n\<rparr>"
    using assms by (simp add: tcp_recved_def Let_def word_less_nat_alt)
qed

lemma pbuf_bytes_take: "\<exists>zs. pbuf_bytes q = pbuf_bytes (take n q) @ zs"
  using append_take_drop_id [of n q] pbuf_bytes_simps(3) by metis

lemma splice_f_write:
  assumes inv: "up_inv self" and q: "t_queue self \<noteq> []"
    and bs: "bs = take n (pbuf_bytes (take 64 (t_queue self)))" "bs \<noteq> []"
  shows "\<exists>self'. tcp_splice_f (WvOk n) self = (1, self') \<and> up_inv self' \<and> same_down self self' \<and>
    t_fd self' = (t_fd self)\<lparr>k_out := k_out (t_fd self) @ bs\<rparr> \<and> t_pcb self' = t_pcb self \<and>
    t_pcb_eof self' = t_pcb_eof self \<and> t_base self' = t_base self \<and>
    pbuf_bytes (t_queue self') = drop (length bs) (pbuf_bytes (t_queue self))"
proof -
  let ?q = "pbuf_bytes (t_queue self)"
  let ?s = "of_nat (length bs) :: u16"
  note I = inv [unfolded up_inv_def]
  obtain zs where zs: "?q = bs @ zs"
    using pbuf_bytes_take [of "t_queue self" 64] append_take_drop_id [of n "pbuf_bytes (take 64 (t_queue self))"]
    unfolding bs by (metis append_assoc)
  have "length bs \<le> 65528" using I zs by simp
  then have s: "unat ?s = length bs" by (intro unat_of_nat_lt) simp
  obtain r f where r: "pbuf_free_header (t_queue self) ?s = (r, f)" by fastforce
  have R: "chain_ok r" "pbuf_bytes r = drop (length bs) ?q"
    using free_header_chain [OF _ r] I s by auto
  define self' where "self' = (if t_pcb self then
      self\<lparr>t_fd := (t_fd self)\<lparr>k_out := k_out (t_fd self) @ bs\<rparr>, t_queue := r, t_conn := tcp_recved (t_conn self) ?s\<rparr>
    else self\<lparr>t_fd := (t_fd self)\<lparr>k_out := k_out (t_fd self) @ bs\<rparr>, t_queue := r\<rparr>)"
  have w: "t_pcb self \<Longrightarrow> unat (rcv_wnd (t_conn self)) + unat ?s \<le> 65528" using I zs s by simp
  have "tcp_splice_f (WvOk n) self = (1, self')"
    unfolding tcp_splice_f_def Let_def self'_def wv.case bs(1) [symmetric] using q bs(2) r by simp
  moreover have "up_inv self'"
    unfolding up_inv_def self'_def using I R zs s tcp_recved_wnd [OF w] by auto
  moreover have "same_down self self'"
    by (simp add: same_down_def self'_def tcp_recved_def Let_def)
  ultimately show ?thesis using R by (intro exI [of _ self']) (simp add: self'_def)
qed

lemma splice_f_inv:
  assumes inv: "up_inv self" and shut: "\<not> k_shut (t_fd self)" and f: "tcp_splice_f a self = (res, self')"
  shows "up_inv self' \<and> same_down self self' \<and> res \<in> {- 1, 0, 1} \<and>
    (k_shut (t_fd self') \<longrightarrow> t_queue self' = [] \<and> t_pcb_eof self' \<and> res = - 1) \<and>
    t_pcb self' = t_pcb self \<and> t_pcb_eof self' = t_pcb_eof self \<and> t_base self' = t_base self"
proof (cases "\<exists>n. a = WvOk n \<and> t_queue self \<noteq> [] \<and> take n (pbuf_bytes (take 64 (t_queue self))) \<noteq> []")
  case True
  then obtain n where n: "a = WvOk n" "t_queue self \<noteq> []" "take n (pbuf_bytes (take 64 (t_queue self))) \<noteq> []"
    by blast
  obtain s where s: "tcp_splice_f (WvOk n) self = (1, s)" "up_inv s" "same_down self s"
      "t_fd s = (t_fd self)\<lparr>k_out := k_out (t_fd self) @ take n (pbuf_bytes (take 64 (t_queue self)))\<rparr>"
      "t_pcb s = t_pcb self" "t_pcb_eof s = t_pcb_eof self" "t_base s = t_base self"
    using splice_f_write [OF inv n(2) refl n(3)] by (elim exE conjE) (rule that)
  have "self' = s" "res = 1" using s(1) f n(1) by simp_all
  then show ?thesis using s(2-) shut by simp
next
  case False
  then have "self' = self \<and> res \<in> {- 1, 0} \<or>
      t_queue self = [] \<and> t_pcb_eof self \<and> res = - 1 \<and> self' = self\<lparr>t_fd := (t_fd self)\<lparr>k_shut := True\<rparr>\<rparr>"
    using f by (auto simp: tcp_splice_f_def Let_def split: wv.splits if_splits)
  then show ?thesis using inv shut by (auto simp: up_inv_def same_down_def)
qed

section \<open>From the server to the client\<close>

lemma tcp_write_cases:
  assumes "length bs \<le> unat (snd_buf pcb)" and "tcp_write a pcb bs = (e, pcb')"
  shows "e = ERR_OK \<and> a = ERR_OK \<and>
      pcb' = pcb\<lparr>snd_buf := snd_buf pcb - of_nat (length bs), l_out := l_out pcb @ bs\<rparr> \<and>
      unat (snd_buf pcb') = unat (snd_buf pcb) - length bs \<or>
    e \<noteq> ERR_OK \<and> a \<noteq> ERR_OK \<and> pcb' = pcb\<lparr>l_refused := True\<rparr>"
proof -
  have "length bs < 2 ^ 16" using assms(1) unsigned_less [of "snd_buf pcb", where 'a = nat] by simp
  then have l: "unat (of_nat (length bs) :: u16) = length bs" by (intro unat_of_nat_lt) simp
  then have "(of_nat (length bs) :: u16) = 0 \<longleftrightarrow> bs = []" by (simp add: word_eq_0_unat)
  moreover have "\<not> snd_buf pcb < of_nat (length bs)" using assms(1) l by (simp add: word_less_nat_alt)
  moreover have "unat (snd_buf pcb - of_nat (length bs)) = unat (snd_buf pcb) - length bs"
    using assms(1) l by (simp add: unat_sub_le)
  ultimately show ?thesis using assms(2) l by (auto simp: tcp_write_def Let_def split: if_splits)
qed

text \<open>The calls for the segments of the ring: either everything is queued, or an error is
  collected; and the space of the send buffer is accounted for in any case.\<close>

lemma tcp_writes_cases:
  assumes "\<forall>v \<in> set vs. unat (iov_base v) + unat (iov_len v) \<le> length mem"
    and "iov_room vs \<le> unat (snd_buf pcb)"
    and "tcp_writes ans mem i vs (err, s, pcb) = (err', s', pcb')"
  shows "s' = s + of_nat (iov_room vs) \<and> rcv_wnd pcb' = rcv_wnd pcb \<and> l_in pcb' = l_in pcb \<and>
    l_acked pcb' = l_acked pcb \<and> l_fin pcb' = l_fin pcb \<and>
    (err \<noteq> ERR_OK \<longrightarrow> err' \<noteq> ERR_OK) \<and> (l_refused pcb \<longrightarrow> l_refused pcb') \<and>
    (\<exists>ws. l_out pcb' = l_out pcb @ ws \<and> length ws \<le> iov_room vs \<and>
       unat (snd_buf pcb') + length ws = unat (snd_buf pcb) \<and>
       (\<not> l_refused pcb' \<longrightarrow> ws = iov_gather mem vs)) \<and>
    (l_refused pcb' \<longrightarrow> l_refused pcb \<or> err' \<noteq> ERR_OK \<and> (\<exists>i. ans i \<noteq> ERR_OK))"
  using assms
proof (induction vs arbitrary: i err s pcb)
  case Nil
  then show ?case by (simp add: iov_room_def iov_gather_def)
next
  case (Cons v vs)
  let ?bs = "take (unat (iov_len v)) (drop (unat (iov_base v)) mem)"
  have len: "length ?bs = unat (iov_len v)" using Cons.prems(1) by auto
  have room: "iov_room (v # vs) = unat (iov_len v) + iov_room vs" by (simp add: iov_room_def)
  have gather: "iov_gather mem (v # vs) = ?bs @ iov_gather mem vs" by (simp add: iov_gather_def)
  obtain e p1 where w: "tcp_write (ans i) pcb ?bs = (e, p1)" by fastforce
  have rest: "tcp_writes ans mem (i + 1) vs (err OR e, s + iov_len v, p1) = (err', s', pcb')"
    using Cons.prems(3) w by simp
  have fits: "length ?bs \<le> unat (snd_buf pcb)" using Cons.prems(2) room len by simp
  have in_vs: "\<forall>v \<in> set vs. unat (iov_base v) + unat (iov_len v) \<le> length mem" using Cons.prems(1) by simp
  have sum: "s + of_nat (iov_room (v # vs)) = s + iov_len v + of_nat (iov_room vs)" by (simp add: room)
  from tcp_write_cases [OF fits w] show ?case
  proof
    assume ok: "e = ERR_OK \<and> ans i = ERR_OK \<and>
      p1 = pcb\<lparr>snd_buf := snd_buf pcb - of_nat (length ?bs), l_out := l_out pcb @ ?bs\<rparr> \<and>
      unat (snd_buf p1) = unat (snd_buf pcb) - length ?bs"
    have sb: "unat (snd_buf p1) = unat (snd_buf pcb) - unat (iov_len v)" using ok len by metis
    have lo: "l_out p1 = l_out pcb @ ?bs" using ok by simp
    have "iov_room vs \<le> unat (snd_buf p1)" using sb Cons.prems(2) room by linarith
    note IH = Cons.IH [OF in_vs this rest]
    obtain ws where ws: "l_out pcb' = l_out p1 @ ws" "length ws \<le> iov_room vs"
        "unat (snd_buf pcb') + length ws = unat (snd_buf p1)" "\<not> l_refused pcb' \<longrightarrow> ws = iov_gather mem vs"
      using IH by (elim exE conjE) (rule that)
    have "\<exists>ws. l_out pcb' = l_out pcb @ ws \<and> length ws \<le> iov_room (v # vs) \<and>
        unat (snd_buf pcb') + length ws = unat (snd_buf pcb) \<and> (\<not> l_refused pcb' \<longrightarrow> ws = iov_gather mem (v # vs))"
      using ws sb lo len fits by (intro exI [of _ "?bs @ ws"]) (simp add: room gather)
    then show ?thesis using IH ok by (simp add: sum or_eq_0_iff)
  next
    assume no: "e \<noteq> ERR_OK \<and> ans i \<noteq> ERR_OK \<and> p1 = pcb\<lparr>l_refused := True\<rparr>"
    have "iov_room vs \<le> unat (snd_buf p1)" using no Cons.prems(2) room by simp
    note IH = Cons.IH [OF in_vs this rest]
    obtain ws where ws: "l_out pcb' = l_out p1 @ ws" "length ws \<le> iov_room vs"
        "unat (snd_buf pcb') + length ws = unat (snd_buf p1)"
      using IH by (elim exE conjE) (rule that)
    have refused: "l_refused pcb'" "err' \<noteq> ERR_OK" using IH no by (simp_all add: or_eq_0_iff)
    then have "\<exists>ws. l_out pcb' = l_out pcb @ ws \<and> length ws \<le> iov_room (v # vs) \<and>
        unat (snd_buf pcb') + length ws = unat (snd_buf pcb) \<and> (\<not> l_refused pcb' \<longrightarrow> ws = iov_gather mem (v # vs))"
      using ws no by (intro exI [of _ ws]) (simp add: room)
    then show ?thesis using IH no refused by (auto simp: sum)
  qed
qed

text \<open>The ring and the stack agree on what is under way.\<close>

definition ring_link :: "HevRingBuffer \<Rightarrow> tcp_pcb \<Rightarrow> bool" where
  "ring_link b pcb \<longleftrightarrow>
     ring_inv b \<and> unat (max_size b) \<le> 65528 \<and> l_acked pcb \<le> length (l_out pcb) \<and>
     unat (snd_buf pcb) + unacked pcb = 65528 \<and> unacked pcb \<le> length (inflight b)"

definition down_inv :: "bool \<Rightarrow> HevSocks5SessionTCP \<Rightarrow> int \<Rightarrow> bool" where
  "down_inv faults self res_b \<longleftrightarrow>
     (case t_buffer self of
        None \<Rightarrow> k_in (t_fd self) = [] \<and> l_out (t_conn self) = [] \<and> l_acked (t_conn self) = 0 \<and>
          \<not> l_fin (t_conn self) \<and> \<not> l_refused (t_conn self) \<and> snd_buf (t_conn self) = TCP_WND
      | Some b \<Rightarrow> ring_link b (t_conn self) \<and>
          (l_refused (t_conn self) \<longrightarrow> faults \<and> res_b = - 1) \<and>
          (\<not> l_refused (t_conn self) \<longrightarrow> l_out (t_conn self) @ pending b = k_in (t_fd self) \<and>
             drop (l_acked (t_conn self)) (l_out (t_conn self)) = inflight b) \<and>
          (l_fin (t_conn self) \<longrightarrow> res_b = - 1 \<and> pending b = []))"

lemma down_inv_same: "same_down a b \<Longrightarrow> down_inv faults b res_b = down_inv faults a res_b"
  by (simp add: same_down_def down_inv_def ring_link_def unacked_def split: option.split)

lemma ring_use: "ring_inv b \<Longrightarrow> length (inflight b) + length (pending b) + room b = unat (max_size b)"
  using ring_invD [of b] by (simp add: inflight_def pending_def room_def held_def)

lemma ring_fill_max: "ring_fill b bs = Some b' \<Longrightarrow> max_size b' = max_size b"
  by (auto simp: ring_fill_def hev_ring_buffer_write_finish_def split: if_splits)

lemma read_finish_max: "hev_ring_buffer_read_finish b n = Some b' \<Longrightarrow> max_size b' = max_size b"
  by (auto simp: hev_ring_buffer_read_finish_def split: if_splits)

lemma read_release_max: "max_size (hev_ring_buffer_read_release b n) = max_size b"
  by (simp add: hev_ring_buffer_read_release_def Let_def)

definition same_up :: "HevSocks5SessionTCP \<Rightarrow> HevSocks5SessionTCP \<Rightarrow> bool" where
  "same_up a b \<longleftrightarrow>
     t_queue b = t_queue a \<and> l_in (t_conn b) = l_in (t_conn a) \<and> k_out (t_fd b) = k_out (t_fd a) \<and>
     k_shut (t_fd b) = k_shut (t_fd a) \<and> rcv_wnd (t_conn b) = rcv_wnd (t_conn a) \<and> t_pcb b = t_pcb a \<and>
     t_pcb_eof b = t_pcb_eof a \<and> t_base b = t_base a"

lemma up_inv_same: "same_up a b \<Longrightarrow> up_inv b = up_inv a"
  by (simp add: same_up_def up_inv_def)

lemma splice_b_read_inv:
  assumes inv: "down_inv faults self res_b" and res_b: "res_b \<noteq> - 1" and b: "t_buffer self = Some b"
  shows "\<exists>res self' b'. splice_b_read a self = Some (res, self') \<and> t_buffer self' = Some b' \<and>
    down_inv faults self' res_b \<and> same_up self self' \<and> res \<in> {- 1, 0, 1} \<and> t_conn self' = t_conn self"
proof -
  note I = inv [unfolded down_inv_def b option.case ring_link_def]
  have ring: "ring_inv b" using I by simp
  show ?thesis
  proof (cases "\<exists>bs. a = RvOk bs \<and> take (room b) bs \<noteq> [] \<and> room b \<noteq> 0")
    case True
    then obtain bs where bs: "a = RvOk bs" "take (room b) bs \<noteq> []" "room b \<noteq> 0" by blast
    obtain b' where b': "ring_fill b (take (room b) bs) = Some b'" "ring_inv b'"
        "pending b' = pending b @ take (room b) bs" "inflight b' = inflight b"
      using ring_fill_correct [OF ring, of "take (room b) bs"] by auto
    let ?s = "self\<lparr>t_buffer := Some b', t_fd := (t_fd self)\<lparr>k_in := k_in (t_fd self) @ take (room b) bs\<rparr>\<rparr>"
    have "splice_b_read a self = Some (1, ?s)"
      using bs b'(1) writing_room [OF ring] by (simp add: splice_b_read_def b Let_def)
    moreover have "down_inv faults ?s res_b"
      using I b' res_b ring_fill_max [OF b'(1)] by (auto simp: down_inv_def ring_link_def)
    ultimately show ?thesis by (intro exI [of _ 1] exI [of _ ?s] exI [of _ b']) (simp add: same_up_def)
  next
    case False
    then obtain res where "splice_b_read a self = Some (res, self)" "res \<in> {- 1, 0, 1}"
      using writing_room [OF ring] by (cases a) (auto simp: splice_b_read_def b Let_def)
    then show ?thesis using inv b by (intro exI [of _ res] exI [of _ self] exI [of _ b]) (simp add: same_up_def)
  qed
qed

lemma splice_b_write_inv:
  assumes inv: "down_inv faults self res_b" and res_b: "res_b \<noteq> - 1" and b: "t_buffer self = Some b"
    and ans: "faults \<or> (\<forall>i. a i = ERR_OK)" and res: "res \<in> {- 1, 0, 1}"
  shows "\<exists>err res' self' b'. splice_b_write a res self = Some (err, res', self') \<and> t_buffer self' = Some b' \<and>
    down_inv faults self' (if \<not> t_pcb self' \<or> err \<noteq> ERR_OK then - 1 else res') \<and> same_up self self' \<and>
    res' \<in> {- 1, 0, 1}"
proof (cases "t_pcb self \<and> pending b \<noteq> []")
  case False
  note I = inv [unfolded down_inv_def b option.case ring_link_def]
  have ring: "ring_inv b" using I by simp
  let ?s = "if t_pcb self \<and> res < 0 then self\<lparr>t_conn := (t_conn self)\<lparr>l_fin := True\<rparr>\<rparr> else self"
  have "splice_b_write a res self = Some (ERR_OK, res, ?s)"
    using False reading_segments(3) [OF ring] by (auto simp: splice_b_write_def b)
  moreover have "down_inv faults ?s (if \<not> t_pcb ?s \<or> ERR_OK \<noteq> ERR_OK then - 1 else res)"
    using I False res res_b by (auto simp: down_inv_def ring_link_def unacked_def b)
  ultimately show ?thesis using b res
    by (intro exI [of _ ERR_OK] exI [of _ res] exI [of _ ?s] exI [of _ b]) (simp add: same_up_def)
next
  case True
  note I = inv [unfolded down_inv_def b option.case ring_link_def]
  have ring: "ring_inv b" and nr: "\<not> l_refused (t_conn self)" using I res_b by auto
  note seg = reading_segments [OF ring]
  obtain err s pcb where w: "tcp_writes a (data b) 0 (hev_ring_buffer_reading b) (ERR_OK, 0, t_conn self) = (err, s, pcb)"
    by (metis surj_pair)
  have "length (inflight b) = unacked (t_conn self)"
    using I nr by (metis length_drop unacked_def)
  then have "iov_room (hev_ring_buffer_reading b) \<le> unat (snd_buf (t_conn self))"
    using I ring_use [OF ring] seg(2) by linarith
  note W = tcp_writes_cases [OF seg(1) this w, unfolded seg(2) reading_gathers_pending [OF ring]]
  obtain ws where ws: "l_out pcb = l_out (t_conn self) @ ws" "length ws \<le> length (pending b)"
      "unat (snd_buf pcb) + length ws = unat (snd_buf (t_conn self))" "\<not> l_refused pcb \<longrightarrow> ws = pending b"
    using W by (elim exE conjE) (rule that)
  have "length (pending b) \<le> 65528" using ring_use [OF ring] I by linarith
  then have s: "unat s = length (pending b)" using W by (simp add: unat_of_nat_lt)
  then obtain b' where b': "hev_ring_buffer_read_finish b s = Some b'" "ring_inv b'" "pending b' = []"
      "inflight b' = inflight b @ pending b"
    using ring_read_finish_correct [OF ring, of s] by auto
  let ?s = "self\<lparr>t_conn := pcb, t_buffer := Some b'\<rparr>" and ?e = "err OR a (length (hev_ring_buffer_reading b))"
  have link: "ring_link b' pcb"
    using I W ws b'(2,4) read_finish_max [OF b'(1)] by (auto simp: ring_link_def unacked_def)
  have "l_out pcb = k_in (t_fd self) \<and> drop (l_acked pcb) (l_out pcb) = inflight b'" if "\<not> l_refused pcb"
    using that I W ws b'(4) nr by (metis drop_append diff_is_0_eq' drop_0)
  with link have "down_inv faults ?s (if \<not> t_pcb ?s \<or> ?e \<noteq> ERR_OK then - 1 else 1)"
    using I W b'(3) nr res_b ans True by (auto simp: down_inv_def or_eq_0_iff)
  moreover have "splice_b_write a res self = Some (?e, 1, ?s)"
    using True w b'(1) seg(3) by (simp add: splice_b_write_def b)
  ultimately show ?thesis using W
    by (intro exI [of _ ?e] exI [of _ 1] exI [of _ ?s] exI [of _ b']) (simp add: same_up_def)
qed

lemma splice_b_inv:
  assumes inv: "down_inv faults self res_b" and res_b: "res_b \<noteq> - 1" and b: "t_buffer self = Some b"
    and ans: "faults \<or> (\<forall>i. wt i = ERR_OK)"
  shows "\<exists>res self' b'. tcp_splice_b ra wt self = Some (res, self') \<and> t_buffer self' = Some b' \<and>
    down_inv faults self' res \<and> same_up self self' \<and> res \<in> {- 1, 0, 1}"
proof -
  obtain r1 s1 b1 where 1: "splice_b_read ra self = Some (r1, s1)" "t_buffer s1 = Some b1" "down_inv faults s1 res_b"
      "same_up self s1" "r1 \<in> {- 1, 0, 1}"
    using splice_b_read_inv [OF inv res_b b, of ra] by (elim exE conjE) (rule that)
  obtain err r2 s2 b2 where 2: "splice_b_write wt r1 s1 = Some (err, r2, s2)" "t_buffer s2 = Some b2"
      "down_inv faults s2 (if \<not> t_pcb s2 \<or> err \<noteq> ERR_OK then - 1 else r2)" "same_up s1 s2" "r2 \<in> {- 1, 0, 1}"
    using splice_b_write_inv [OF 1(3) res_b 1(2) ans 1(5)] by (elim exE conjE) (rule that)
  have "same_up self s2" using 1(4) 2(4) by (simp add: same_up_def)
  then show ?thesis using 1(1) 2 by (auto simp: tcp_splice_b_def)
qed

section \<open>The invariant\<close>

definition tcp_inv :: "bool \<Rightarrow> tcp_run \<Rightarrow> bool" where
  "tcp_inv faults r \<longleftrightarrow>
     up_inv (r_self r) \<and> down_inv faults (r_self r) (r_b r) \<and>
     (k_shut (t_fd (r_self r)) \<longrightarrow> t_queue (r_self r) = [] \<and> t_pcb_eof (r_self r) \<and> r_f r = - 1) \<and>
     r_f r \<in> {- 1, 0, 1} \<and> r_b r \<in> {- 1, 0, 1} \<and>
     (t_buffer (r_self r) = None \<longrightarrow> r_pc r \<in> {Before, Returned}) \<and>
     (r_pc r = Before \<longrightarrow> t_buffer (r_self r) = None \<and> \<not> k_shut (t_fd (r_self r)))"

lemma tcp_start_inv: "tcp_start r \<Longrightarrow> tcp_inv faults r"
  by (simp add: tcp_start_def tcp_inv_def up_inv_def down_inv_def)

lemma enter_inv:
  assumes "tcp_inv faults r" "r_pc r = Before" "0 < bsize" "bsize \<le> 65528" "length mem = nat bsize"
  shows "tcp_inv faults (splice_enter bsize mem r)"
proof -
  let ?b = "hev_ring_buffer_alloca (word_of_int bsize) mem"
  have "(word_of_int bsize :: size_t) = of_nat (nat bsize)" using assms(3) by simp
  then have u: "unat (word_of_int bsize :: size_t) = nat bsize" using assms(4) unat_of_nat_lt [where 'a = 64, of "nat bsize"] by simp
  have "ring_inv ?b" "pending ?b = []" "inflight ?b = []" "unat (max_size ?b) \<le> 65528"
    using ring_alloca_inv [of mem "word_of_int bsize"] assms(3,4,5) u by (simp_all add: hev_ring_buffer_alloca_def)
  then show ?thesis using assms(1,2)
    by (auto simp: splice_enter_def tcp_inv_def up_inv_def down_inv_def ring_link_def unacked_def split: option.splits)
qed

lemma splice_round_inv:
  assumes inv: "tcp_inv faults r" and pc: "r_pc r = Loop" and ans: "faults \<or> (\<forall>i. wt i = ERR_OK)"
  shows "\<exists>r'. splice_round wa ra wt r = Some r' \<and> tcp_inv faults r'"
proof -
  note I = inv [unfolded tcp_inv_def]
  obtain b0 where b0: "t_buffer (r_self r) = Some b0" using I pc by (cases "t_buffer (r_self r)") auto
  obtain f s1 where f: "(if 0 \<le> r_f r then tcp_splice_f wa (r_self r) else (r_f r, r_self r)) = (f, s1)" by fastforce
  have up: "up_inv s1 \<and> same_down (r_self r) s1 \<and> f \<in> {- 1, 0, 1} \<and>
      (k_shut (t_fd s1) \<longrightarrow> t_queue s1 = [] \<and> t_pcb_eof s1 \<and> f = - 1)"
  proof (cases "0 \<le> r_f r")
    case True
    then have "\<not> k_shut (t_fd (r_self r))" "up_inv (r_self r)" "tcp_splice_f wa (r_self r) = (f, s1)"
      using I f by auto
    then show ?thesis using splice_f_inv [of "r_self r" wa f s1] by blast
  next
    case False
    then show ?thesis using f I by (auto simp: same_down_def)
  qed
  have d1: "down_inv faults s1 (r_b r)" "t_buffer s1 = Some b0"
    using up I b0 down_inv_same by (blast, simp add: same_down_def)
  have "\<exists>b s2 b2. (if 0 \<le> r_b r then tcp_splice_b ra wt s1 else Some (r_b r, s1)) = Some (b, s2) \<and>
      t_buffer s2 = Some b2 \<and> down_inv faults s2 b \<and> same_up s1 s2 \<and> b \<in> {- 1, 0, 1}"
  proof (cases "0 \<le> r_b r")
    case True
    then show ?thesis using splice_b_inv [OF d1(1) _ d1(2) ans, of ra] by simp
  next
    case False
    then show ?thesis using d1 I by (intro exI [of _ "r_b r"] exI [of _ s1] exI [of _ b0]) (simp add: same_up_def)
  qed
  then obtain b s2 b2 where b: "(if 0 \<le> r_b r then tcp_splice_b ra wt s1 else Some (r_b r, s1)) = Some (b, s2)"
      "t_buffer s2 = Some b2" "down_inv faults s2 b" "same_up s1 s2" "b \<in> {- 1, 0, 1}"
    by (elim exE conjE) (rule that)
  let ?r = "r\<lparr>r_self := s2, r_f := f, r_b := b, r_pc := (case pause_type f b of
      Some type \<Rightarrow> Paused type (s_timeout (t_base s2)) | None \<Rightarrow> Drain)\<rparr>"
  have "splice_round wa ra wt r = Some ?r" by (simp add: splice_round_def f b(1))
  moreover have "up_inv s2" using up up_inv_same [OF b(4)] by blast
  then have "tcp_inv faults ?r"
    using up b(2-) by (auto simp: tcp_inv_def same_up_def split: option.splits)
  ultimately show ?thesis by blast
qed

lemma drain_round_inv:
  assumes inv: "tcp_inv faults r" and pc: "r_pc r = Drain"
  shows "\<exists>r'. drain_round r = Some r' \<and> tcp_inv faults r'"
proof -
  obtain b where "t_buffer (r_self r) = Some b"
    using inv pc by (cases "t_buffer (r_self r)") (auto simp: tcp_inv_def)
  then show ?thesis using inv by (auto simp: drain_round_def tcp_inv_def)
qed

lemma resume_inv: "tcp_inv faults r \<Longrightarrow> tcp_inv faults (splice_resume left r)"
  by (auto simp: splice_resume_def tcp_inv_def split: tpc.split)

lemma recv_inv:
  assumes inv: "tcp_inv faults r" and "t_pcb (r_self r)" "\<not> t_pcb_eof (r_self r)" and p: "p \<noteq> []" "chain_ok p"
    and wnd: "length (pbuf_bytes p) \<le> unat (rcv_wnd (t_conn (r_self r)))"
  shows "tcp_inv faults (r\<lparr>r_self := tcp_recv_handler p (lwip_deliver p (r_self r))\<rparr>)"
proof -
  note I = inv [unfolded tcp_inv_def]
  let ?s = "tcp_recv_handler p (lwip_deliver p (r_self r))" and ?q = "t_queue (r_self r)"
  have "length (pbuf_bytes p) < 2 ^ 16"
    using wnd unsigned_less [of "rcv_wnd (t_conn (r_self r))", where 'a = nat] by simp
  then have "unat (of_nat (length (pbuf_bytes p)) :: u16) = length (pbuf_bytes p)" by (intro unat_of_nat_lt) simp
  then have w: "unat (rcv_wnd (t_conn (r_self r)) - of_nat (length (pbuf_bytes p))) =
      unat (rcv_wnd (t_conn (r_self r))) - length (pbuf_bytes p)"
    using wnd by (simp add: unat_sub_le)
  have q: "pbuf_bytes (t_queue ?s) = pbuf_bytes ?q @ pbuf_bytes p" "chain_ok (t_queue ?s)"
    using p I pbuf_cat_ok [of ?q p] pbuf_cat_bytes [of ?q p]
    by (auto simp: tcp_recv_handler_def lwip_deliver_def up_inv_def)
  have c: "l_in (t_conn ?s) = l_in (t_conn (r_self r)) @ pbuf_bytes p" "t_fd ?s = t_fd (r_self r)"
    "rcv_wnd (t_conn ?s) = rcv_wnd (t_conn (r_self r)) - of_nat (length (pbuf_bytes p))" "t_pcb ?s = t_pcb (r_self r)"
    "t_pcb_eof ?s = t_pcb_eof (r_self r)" "t_buffer ?s = t_buffer (r_self r)" "same_down (r_self r) ?s"
    using p(1) by (simp_all add: same_down_def tcp_recv_handler_def lwip_deliver_def)
  have "up_inv ?s"
    unfolding up_inv_def c q w using q(2) I wnd assms(2) by (simp add: up_inv_def)
  moreover have "down_inv faults ?s (r_b r)" using I down_inv_same [OF c(7)] by simp
  ultimately show ?thesis unfolding tcp_inv_def using I assms(3) by (simp add: c)
qed

lemma fin_inv: "tcp_inv faults r \<Longrightarrow> tcp_inv faults (r\<lparr>r_self := tcp_recv_handler [] (r_self r)\<rparr>)"
  by (auto simp: tcp_inv_def tcp_recv_handler_def up_inv_def down_inv_def split: option.splits)

lemma sent_inv:
  assumes inv: "tcp_inv faults r" and pcb: "t_pcb (r_self r)" and n: "unat n \<le> unacked (t_conn (r_self r))" "0 < unat n"
  shows "\<exists>self. tcp_sent_handler n (lwip_ack n (r_self r)) = Some self \<and> tcp_inv faults (r\<lparr>r_self := self\<rparr>)"
proof -
  note I = inv [unfolded tcp_inv_def]
  let ?c = "t_conn (r_self r)"
  obtain b where b: "t_buffer (r_self r) = Some b"
    using I n by (cases "t_buffer (r_self r)") (auto simp: down_inv_def unacked_def)
  have d: "down_inv faults (r_self r) (r_b r)" using I by blast
  note D = d [unfolded down_inv_def b option.case ring_link_def]
  let ?b = "hev_ring_buffer_read_release b (ucast n)" and ?c' = "?c\<lparr>l_acked := l_acked ?c + unat n, snd_buf := snd_buf ?c + n\<rparr>"
  let ?s = "(r_self r)\<lparr>t_conn := ?c', t_buffer := Some ?b\<rparr>"
  have u: "unat (ucast n :: size_t) = unat n"
    using unsigned_less [of n, where 'a = nat] by (simp add: unsigned_ucast_eq take_bit_nat_eq_self)
  have le: "unat (ucast n :: size_t) \<le> length (inflight b)" using D n u by simp
  note R = ring_read_release_correct [OF _ le, unfolded u]
  have sb: "unat (snd_buf ?c + n) = unat (snd_buf ?c) + unat n" using D n by (intro unat_add_lt) simp
  have "ring_link ?b ?c'"
    using D R(1,3) n(1) sb read_release_max [of b "ucast n"] by (auto simp: ring_link_def unacked_def)
  moreover have "drop (l_acked ?c + unat n) (l_out ?c) = inflight ?b" if "drop (l_acked ?c) (l_out ?c) = inflight b"
    using R(3) D that by (metis add.commute drop_drop)
  ultimately have "down_inv faults ?s (r_b r)" using D R(2) by (auto simp: down_inv_def)
  moreover have "up_inv ?s" using I by (simp add: up_inv_def)
  ultimately have "tcp_inv faults (r\<lparr>r_self := ?s\<rparr>)" using I b unfolding tcp_inv_def by simp
  then show ?thesis by (simp add: tcp_sent_handler_def lwip_ack_def b)
qed

lemma err_inv: "tcp_inv faults r \<Longrightarrow> tcp_inv faults (r\<lparr>r_self := tcp_err_handler (r_self r)\<rparr>)"
  by (cases "t_buffer (r_self r)") (simp_all add: tcp_inv_def tcp_err_handler_def session_terminate_def up_inv_def down_inv_def)

lemma terminate_inv: "tcp_inv faults r \<Longrightarrow> tcp_inv faults (r\<lparr>r_self := session_terminate (r_self r)\<rparr>)"
  by (cases "t_buffer (r_self r)") (simp_all add: tcp_inv_def session_terminate_def up_inv_def down_inv_def)

lemma round_inv:
  "tcp_inv faults r \<Longrightarrow> r_pc r = Loop \<Longrightarrow> faults \<or> (\<forall>i. wt i = ERR_OK) \<Longrightarrow> splice_round wa ra wt r = Some r' \<Longrightarrow> tcp_inv faults r'"
  using splice_round_inv [of faults r wt wa ra] by auto

lemma tcp_step_inv: "tcp_inv faults r \<Longrightarrow> tcp_step faults r r' \<Longrightarrow> tcp_inv faults r'"
  by (elim tcp_stepE)
    (auto dest: drain_round_inv sent_inv intro: round_inv simp: enter_inv resume_inv recv_inv fin_inv err_inv terminate_inv)

interpretation tcp: inductive_invariant tcp_start "tcp_step faults" "tcp_inv faults" for faults
  by unfold_locales (auto intro: tcp_start_inv tcp_step_inv)

section \<open>A session for the examples\<close>

definition tcp0 :: tcp_run where
  "tcp0 = \<lparr>r_self = \<lparr>t_base = client_zero (ClientTCP None), t_fd = \<lparr>k_in = [], k_out = [], k_shut = False\<rparr>,
     t_queue = [], t_pcb = True, t_conn = \<lparr>rcv_wnd = TCP_WND, snd_buf = TCP_WND, l_in = [], l_out = [], l_acked = 0,
       l_fin = False, l_refused = False\<rparr>, t_buffer = None, t_pcb_eof = False\<rparr>, r_f = 1, r_b = 1, r_pc = Before\<rparr>"

text \<open>The client sends two bytes, the relay starts with a ring of two bytes, sends one byte to the
  server and receives three.\<close>

definition tcp1 :: tcp_run where
  "tcp1 = tcp0\<lparr>r_self := tcp_recv_handler [\<lparr>p_len = 2, p_tot_len = 2, p_payload = [5, 6]\<rparr>]
     (lwip_deliver [\<lparr>p_len = 2, p_tot_len = 2, p_payload = [5, 6]\<rparr>] (r_self tcp0))\<rparr>"

definition tcp2 :: tcp_run where "tcp2 = splice_enter 2 [0, 0] tcp1"

definition tcp3 :: tcp_run where
  "tcp3 = the (splice_round (WvOk 1) (RvOk [7, 8, 9]) (\<lambda>_. ERR_OK) tcp2)"

lemma tcp0_start: "tcp_start tcp0"
  by (simp add: tcp_start_def tcp0_def)

lemma tcp2_reach: "reach tcp_start (tcp_step faults) tcp2"
proof -
  have "tcp_step faults tcp0 tcp1"
    unfolding tcp1_def by (rule recv) (simp_all add: tcp0_def)
  moreover have "tcp_step faults tcp1 tcp2"
    unfolding tcp2_def by (rule enter) (simp_all add: tcp1_def tcp0_def)
  moreover have "reach tcp_start (tcp_step faults) tcp0" by (rule reach_init) (rule tcp0_start)
  ultimately show ?thesis by (blast intro: reach_step)
qed

lemma tcp3_reach: "reach tcp_start (tcp_step faults) tcp3" and tcp3_round: "splice_round (WvOk 1) (RvOk [7, 8, 9]) (\<lambda>_. ERR_OK) tcp2 = Some tcp3"
proof -
  have inv: "tcp_inv faults tcp2" by (rule tcp.reach_inv [OF tcp2_reach])
  have "r_pc tcp2 = Loop" by (simp add: tcp2_def tcp1_def tcp0_def splice_enter_def tcp_recv_handler_def lwip_deliver_def)
  then have s: "splice_round (WvOk 1) (RvOk [7, 8, 9]) (\<lambda>_. ERR_OK) tcp2 = Some tcp3"
    using splice_round_inv [OF inv, of "\<lambda>_. ERR_OK" "WvOk 1" "RvOk [7, 8, 9]"] by (auto simp: tcp3_def)
  then show "splice_round (WvOk 1) (RvOk [7, 8, 9]) (\<lambda>_. ERR_OK) tcp2 = Some tcp3" .
  show "reach tcp_start (tcp_step faults) tcp3"
    by (rule reach_step [OF tcp2_reach]) (rule round [OF \<open>r_pc tcp2 = Loop\<close> _ s], simp)
qed

lemmas tcp_eval = tcp_splice_f_def tcp_splice_b_def splice_b_read_def splice_b_write_def splice_round_def
  pause_type_def tcp2_def tcp1_def tcp0_def splice_enter_def tcp_recv_handler_def lwip_deliver_def Let_def
  hev_ring_buffer_alloca_def hev_ring_buffer_writing_def hev_ring_buffer_reading_def ring_fill_def
  hev_ring_buffer_write_finish_def hev_ring_buffer_read_finish_def iov_room_def blit_def
  pbuf_remove_header_def tcp_recved_def tcp_write_def TCP_WND_def client_zero_def

lemma tcp3_eval:
  "k_out (t_fd (r_self tcp3)) = [5]" "k_in (t_fd (r_self tcp3)) = [7, 8]" "s_timeout (t_base (r_self tcp3)) = 0"
  "r_pc tcp3 = Paused HEV_TASK_YIELD 0"
  by (simp_all add: tcp3_def tcp_eval)

text \<open>Both sides end: the relay shuts down both directions and leaves its first loop.\<close>

definition tcp4 :: tcp_run where
  "tcp4 = splice_enter 2 [0, 0] (tcp0\<lparr>r_self := tcp_recv_handler [] (r_self tcp0)\<rparr>)"

definition tcp5 :: tcp_run where
  "tcp5 = the (splice_round WvAgain RvFail (\<lambda>_. ERR_OK) tcp4)"

lemma tcp5_eval:
  "splice_round WvAgain RvFail (\<lambda>_. ERR_OK) tcp4 = Some tcp5" "r_pc tcp4 = Loop" "r_pc tcp5 = Drain"
  "k_shut (t_fd (r_self tcp5))" "\<exists>r. drain_round tcp5 = Some r \<and> r_pc r = Returned \<and> t_pcb (r_self r)"
  by (simp_all add: tcp5_def tcp4_def drain_round_def hev_ring_buffer_get_use_size_def tcp_eval)

lemma tcp4_reach: "reach tcp_start (tcp_step faults) tcp4"
proof -
  have "tcp_step faults tcp0 (tcp0\<lparr>r_self := tcp_recv_handler [] (r_self tcp0)\<rparr>)"
    by (rule fin) (simp_all add: tcp0_def)
  moreover have "tcp_step faults (tcp0\<lparr>r_self := tcp_recv_handler [] (r_self tcp0)\<rparr>) tcp4"
    unfolding tcp4_def by (rule enter) (simp_all add: tcp0_def)
  moreover have "reach tcp_start (tcp_step faults) tcp0" by (rule reach_init) (rule tcp0_start)
  ultimately show ?thesis by (blast intro: reach_step)
qed

lemma tcp5_reach: "reach tcp_start (tcp_step faults) tcp5"
proof -
  have "tcp_step faults tcp4 tcp5" by (rule round [OF tcp5_eval(2) _ tcp5_eval(1)]) simp
  then show ?thesis by (rule reach_step [OF tcp4_reach])
qed

section \<open>Streams\<close>







text \<open>A relay that ends by itself has delivered everything: when the second loop ends while the
  client's connection is alive, every byte received from the server, or given to the stack when it
  refused some, has been acknowledged by the client.\<close>

theorem tcp_drained:
  assumes "reach tcp_start (tcp_step faults) r" and "r_pc r = Drain" and "drain_round r = Some r'"
    and "r_pc r' = Returned" and "t_pcb (r_self r')" and "pcb = t_conn (r_self r')"
  shows "l_acked pcb = length (l_out pcb) \<and> (\<not> l_refused pcb \<longrightarrow> l_out pcb = k_in (t_fd (r_self r')))"
proof -
  have inv: "tcp_inv faults r" by (rule tcp.reach_inv [OF assms(1)])
  have same: "r_self r' = r_self r" using assms(3) by (auto simp: drain_round_def split: if_splits bind_splits)
  then obtain b where b: "t_buffer (r_self r) = Some b" "use_size b = 0"
    using assms(3-5) by (auto simp: drain_round_def hev_ring_buffer_get_use_size_def split: if_splits bind_splits)
  have "ring_inv b" using inv b(1) by (simp add: tcp_inv_def down_inv_def ring_link_def)
  then have "pending b = []" "inflight b = []"
    using b(2) ring_invD(5) [of b] by (simp_all add: pending_def inflight_def held_def ring_at_def)
  then show ?thesis
    using inv b(1) unfolding assms(6) same
    by (auto simp: tcp_inv_def down_inv_def ring_link_def unacked_def)
qed

theorem tcp_drained_witness:
  "\<exists>r. drain_round tcp5 = Some r \<and> l_acked (t_conn (r_self r)) = length (l_out (t_conn (r_self r)))"
proof -
  obtain r where r: "drain_round tcp5 = Some r" "r_pc r = Returned" "t_pcb (r_self r)" using tcp5_eval(5) by blast
  then show ?thesis using tcp_drained [OF tcp5_reach [of False] tcp5_eval(3) r refl] by blast
qed

section \<open>The end of a terminated session\<close>

text \<open>The steps of the task alone, and the work that is left to it without further callbacks.\<close>

inductive own_step :: "bool \<Rightarrow> tcp_run \<Rightarrow> tcp_run \<Rightarrow> bool" for faults where
  own_round: "r_pc r = Loop \<Longrightarrow> faults \<or> (\<forall>i. wt i = ERR_OK) \<Longrightarrow> splice_round wa ra wt r = Some r' \<Longrightarrow> own_step faults r r'"
| own_drain: "r_pc r = Drain \<Longrightarrow> drain_round r = Some r' \<Longrightarrow> own_step faults r r'"
| own_resume: "r_pc r = Paused type timeout \<or> r_pc r = DrainPaused timeout \<Longrightarrow> own_step faults r (splice_resume left r)"

inductive_cases own_stepE: "own_step faults r r'"

lemma own_step_step: "own_step faults r r' \<Longrightarrow> tcp_step faults r r'"
  by (elim own_stepE) (auto intro: tcp_step.intros)

definition ring_work :: "HevRingBuffer \<Rightarrow> nat" where
  "ring_work b = 2 * room b + (if pending b = [] then 0 else 1)"

definition tcp_work :: "HevSocks5SessionTCP \<Rightarrow> nat" where
  "tcp_work self = length (pbuf_bytes (t_queue self)) + (case t_buffer self of Some b \<Rightarrow> ring_work b | None \<Rightarrow> 0)"

fun pause_rank :: "nat \<Rightarrow> tpc \<Rightarrow> nat" where
  "pause_rank w Loop = 2 * w + 4"
| "pause_rank w (Paused HEV_TASK_WAITIO t) = (if t = 0 then 3 else 2 * w + 5)"
| "pause_rank w (Paused HEV_TASK_YIELD t) = 2 * w + 5"
| "pause_rank w (DrainPaused t) = (if t = 0 then 1 else 3)"
| "pause_rank w Drain = 2"
| "pause_rank w _ = 0"

definition tcp_rank :: "tcp_run \<Rightarrow> nat" where
  "tcp_rank r = pause_rank (tcp_work (r_self r)) (r_pc r)"

lemma splice_f_work:
  assumes "up_inv self" and f: "tcp_splice_f a self = (res, self')"
  shows "length (pbuf_bytes (t_queue self')) + (if 0 < res then 1 else 0) \<le> length (pbuf_bytes (t_queue self)) \<and>
    t_buffer self' = t_buffer self \<and> t_base self' = t_base self"
proof (cases "\<exists>n. a = WvOk n \<and> t_queue self \<noteq> [] \<and> take n (pbuf_bytes (take 64 (t_queue self))) \<noteq> []")
  case True
  then obtain n where n: "a = WvOk n" "t_queue self \<noteq> []" "take n (pbuf_bytes (take 64 (t_queue self))) \<noteq> []"
    by blast
  let ?bs = "take n (pbuf_bytes (take 64 (t_queue self)))"
  obtain s where s: "tcp_splice_f (WvOk n) self = (1, s)" "same_down self s" "t_base s = t_base self"
      "pbuf_bytes (t_queue s) = drop (length ?bs) (pbuf_bytes (t_queue self))"
    using splice_f_write [OF assms(1) n(2) refl n(3)] by (elim exE conjE) (rule that)
  have "self' = s" using s(1) f n(1) by simp
  moreover have "0 < length ?bs" "length ?bs \<le> length (pbuf_bytes (t_queue self))"
    using n(3) pbuf_bytes_take [of "t_queue self" 64] by auto
  then have "length (pbuf_bytes (t_queue s)) + 1 \<le> length (pbuf_bytes (t_queue self))"
    unfolding s(4) length_drop by linarith
  moreover have "t_buffer s = t_buffer self" using s(2) by (simp add: same_down_def)
  ultimately show ?thesis using s(3) by simp
next
  case False
  then have "t_queue self' = t_queue self \<and> res \<le> 0 \<and> t_buffer self' = t_buffer self \<and> t_base self' = t_base self"
    using f by (auto simp: tcp_splice_f_def Let_def split: wv.splits if_splits)
  then show ?thesis by simp
qed

lemma splice_b_read_work:
  assumes ring: "ring_inv b" and b: "t_buffer self = Some b" and r: "splice_b_read a self = Some (res, self')"
  shows "\<exists>b'. t_buffer self' = Some b' \<and> ring_inv b' \<and> ring_work b' + (if 0 < res then 1 else 0) \<le> ring_work b \<and> same_up self self'"
proof (cases "\<exists>bs. a = RvOk bs \<and> take (room b) bs \<noteq> [] \<and> room b \<noteq> 0")
  case True
  then obtain bs where bs: "a = RvOk bs" "take (room b) bs \<noteq> []" "room b \<noteq> 0" by blast
  obtain b' where b': "ring_fill b (take (room b) bs) = Some b'" "ring_inv b'"
      "pending b' = pending b @ take (room b) bs" "room b' = room b - length (take (room b) bs)"
    using ring_fill_correct [OF ring, of "take (room b) bs"] by auto
  have "t_buffer self' = Some b'" "same_up self self'"
    using r bs b'(1) writing_room [OF ring] by (auto simp: splice_b_read_def b Let_def same_up_def)
  moreover have "1 \<le> length (take (room b) bs)" "length (take (room b) bs) \<le> room b"
    using bs(2) by (cases "take (room b) bs", simp_all)
  then have "ring_work b' + 1 \<le> ring_work b" using b'(4) by (simp add: ring_work_def) linarith
  ultimately show ?thesis using b'(2) by auto
next
  case False
  then have "self' = self \<and> res \<le> 0"
    using r writing_room [OF ring] by (auto simp: splice_b_read_def b Let_def split: rv.splits if_splits)
  then show ?thesis using b ring by (simp add: same_up_def)
qed

lemma tcp_writes_size: "tcp_writes ans mem i vs (err, s, pcb) = (err', s', pcb') \<Longrightarrow>
    s' = s + of_nat (iov_room vs) \<and> l_in pcb' = l_in pcb \<and> rcv_wnd pcb' = rcv_wnd pcb"
proof (induction vs arbitrary: i err s pcb)
  case (Cons v vs)
  obtain e p1 where w: "tcp_write (ans i) pcb (take (unat (iov_len v)) (drop (unat (iov_base v)) mem)) = (e, p1)"
    by fastforce
  then have "l_in p1 = l_in pcb" "rcv_wnd p1 = rcv_wnd pcb"
    by (auto simp: tcp_write_def Let_def split: if_splits)
  then show ?case using Cons.IH [of "i + 1" "err OR e" "s + iov_len v" p1] Cons.prems w
    by (simp add: iov_room_def)
qed (simp add: iov_room_def)

lemma splice_b_write_work:
  assumes ring: "ring_inv b" and b: "t_buffer self = Some b" and w: "splice_b_write a res self = Some (err, res', self')"
  shows "\<exists>b'. t_buffer self' = Some b' \<and> same_up self self' \<and>
    (ring_work b' + 1 \<le> ring_work b \<or> ring_work b' = ring_work b \<and> res' = res)"
proof (cases "t_pcb self \<and> pending b \<noteq> []")
  case False
  then have "t_buffer self' = Some b \<and> same_up self self' \<and> res' = res"
    using w b reading_segments(3) [OF ring] by (auto simp: splice_b_write_def same_up_def split: if_splits)
  then show ?thesis by simp
next
  case True
  note seg = reading_segments [OF ring]
  obtain e s pcb where ws: "tcp_writes a (data b) 0 (hev_ring_buffer_reading b) (ERR_OK, 0, t_conn self) = (e, s, pcb)"
    by (metis surj_pair)
  note S = tcp_writes_size [OF ws]
  have "length (pending b) < 2 ^ 64" using ring_use [OF ring] ring_invD(3) [OF ring] by simp
  then have s: "unat s = length (pending b)" using S seg(2) by (simp add: unat_of_nat_lt)
  then obtain b' where b': "hev_ring_buffer_read_finish b s = Some b'" "pending b' = []" "room b' = room b"
    using ring_read_finish_correct [OF ring, of s] by auto
  have "t_buffer self' = Some b'" "same_up self self'"
    using w True ws b'(1) seg(3) S by (auto simp: splice_b_write_def b same_up_def)
  then show ?thesis using b' True by (simp add: ring_work_def)
qed

lemma splice_b_work:
  assumes ring: "ring_inv b" and b: "t_buffer self = Some b" and sp: "tcp_splice_b ra wt self = Some (res, self')"
  shows "\<exists>b'. t_buffer self' = Some b' \<and> same_up self self' \<and>
    ring_work b' + (if 0 < res then 1 else 0) \<le> ring_work b"
proof -
  obtain r1 s1 err r2 s2 where r: "splice_b_read ra self = Some (r1, s1)" "splice_b_write wt r1 s1 = Some (err, r2, s2)"
      "self' = s2" "res = (if \<not> t_pcb s2 \<or> err \<noteq> ERR_OK then - 1 else r2)"
    using sp by (auto simp: tcp_splice_b_def split: bind_splits)
  obtain b1 where b1: "t_buffer s1 = Some b1" "ring_inv b1" "ring_work b1 + (if 0 < r1 then 1 else 0) \<le> ring_work b"
      "same_up self s1"
    using splice_b_read_work [OF ring b r(1)] by (elim exE conjE) (rule that)
  obtain b2 where b2: "t_buffer s2 = Some b2" "same_up s1 s2"
      "ring_work b2 + 1 \<le> ring_work b1 \<or> ring_work b2 = ring_work b1 \<and> r2 = r1"
    using splice_b_write_work [OF b1(2,1) r(2)] by (elim exE conjE) (rule that)
  have "same_up self s2" using b1(4) b2(2) by (simp add: same_up_def)
  moreover have "ring_work b2 + (if 0 < res then 1 else 0) \<le> ring_work b"
    using b1(3) b2(3) r(4) by (auto split: if_splits)
  ultimately show ?thesis using b2(1) r(3) by blast
qed

lemma round_rank:
  assumes inv: "tcp_inv faults r" and pc: "r_pc r = Loop" and t: "s_timeout (t_base (r_self r)) = 0"
    and rd: "splice_round wa ra wt r = Some r'"
  shows "s_timeout (t_base (r_self r')) = 0 \<and> tcp_rank r' < tcp_rank r"
proof -
  note I = inv [unfolded tcp_inv_def]
  obtain b0 where b0: "t_buffer (r_self r) = Some b0" using I pc by (cases "t_buffer (r_self r)") auto
  then have ring: "ring_inv b0" using I by (simp add: down_inv_def ring_link_def)
  obtain f s1 where f: "(if 0 \<le> r_f r then tcp_splice_f wa (r_self r) else (r_f r, r_self r)) = (f, s1)" by fastforce
  have 1: "length (pbuf_bytes (t_queue s1)) + (if 0 < f then 1 else 0) \<le> length (pbuf_bytes (t_queue (r_self r)))"
    "t_buffer s1 = Some b0" "t_base s1 = t_base (r_self r)"
    using splice_f_work [of "r_self r" wa f s1] f I b0 by (auto split: if_splits)
  obtain b s2 where b: "(if 0 \<le> r_b r then tcp_splice_b ra wt s1 else Some (r_b r, s1)) = Some (b, s2)"
      and r': "r' = r\<lparr>r_self := s2, r_f := f, r_b := b, r_pc := (case pause_type f b of
        Some type \<Rightarrow> Paused type (s_timeout (t_base s2)) | None \<Rightarrow> Drain)\<rparr>"
    using rd f by (auto simp: splice_round_def split: bind_splits)
  have "\<exists>b'. t_buffer s2 = Some b' \<and> same_up s1 s2 \<and> ring_work b' + (if 0 < b then 1 else 0) \<le> ring_work b0"
  proof (cases "0 \<le> r_b r")
    case True
    then show ?thesis using b splice_b_work [OF ring 1(2), of ra wt b s2] by simp
  next
    case False
    then show ?thesis using b 1(2) by (auto simp: same_up_def)
  qed
  then obtain b' where 2: "t_buffer s2 = Some b'" "t_queue s2 = t_queue s1" "t_base s2 = t_base s1"
      "ring_work b' + (if 0 < b then 1 else 0) \<le> ring_work b0"
    by (auto simp: same_up_def)
  have w: "tcp_work s2 + (if 0 < f \<or> 0 < b then 1 else 0) \<le> tcp_work (r_self r)"
  proof -
    have "tcp_work s2 = length (pbuf_bytes (t_queue s1)) + ring_work b'" by (simp add: tcp_work_def 2(1,2))
    moreover have "tcp_work (r_self r) = length (pbuf_bytes (t_queue (r_self r))) + ring_work b0"
      by (simp add: tcp_work_def b0)
    ultimately show ?thesis using 1(1) 2(4) by (cases "0 < f"; cases "0 < b"; simp)
  qed
  have "tcp_rank r' < tcp_rank r"
    using w pc t 1(3) 2(3) by (auto simp: tcp_rank_def r' pause_type_def split: if_splits)
  then show ?thesis using t 1(3) 2(3) by (simp add: r')
qed

lemma own_step_rank:
  assumes inv: "tcp_inv faults r" and t: "s_timeout (t_base (r_self r)) = 0" and step: "own_step faults r r'"
  shows "s_timeout (t_base (r_self r')) = 0 \<and> tcp_rank r' < tcp_rank r"
  using step
proof cases
  case (own_round wt wa ra)
  then show ?thesis using round_rank [OF inv _ t] by blast
next
  case own_drain
  then show ?thesis using t by (auto simp: drain_round_def tcp_rank_def split: if_splits bind_splits)
next
  case (own_resume type timeout left)
  have z: "session_io_yielder HEV_TASK_WAITIO 0 left = - 1"
    by (simp add: session_io_yielder_def hev_socks5_task_io_yielder_def hev_task_sleep_def)
  from own_resume(2) show ?thesis
  proof
    assume "r_pc r = Paused type timeout"
    then show ?thesis using t z
      by (cases type) (auto simp: own_resume(1) splice_resume_def tcp_rank_def session_io_yielder_def)
  next
    assume "r_pc r = DrainPaused timeout"
    then show ?thesis using t z by (auto simp: own_resume(1) splice_resume_def tcp_rank_def)
  qed
qed

lemma own_step_pc: "own_step faults r r' \<Longrightarrow> r_pc r' \<noteq> Before"
  by (elim own_stepE)
    (auto simp: splice_round_def drain_round_def splice_resume_def case_prod_beta Let_def
      split: bind_split_asm option.split_asm bind_splits if_splits)

lemma own_steps_bound:
  "tcp_inv faults r \<Longrightarrow> s_timeout (t_base (r_self r)) = 0 \<Longrightarrow> (own_step faults ^^ n) r r' \<Longrightarrow> n + tcp_rank r' \<le> tcp_rank r"
proof (induction n arbitrary: r)
  case (Suc n)
  then obtain s where s: "own_step faults r s" "(own_step faults ^^ n) s r'" by (metis relpowp_Suc_D2)
  note R = own_step_rank [OF Suc.prems(1,2) s(1)]
  have "tcp_inv faults s" using tcp_step_inv [OF Suc.prems(1) own_step_step [OF s(1)]] .
  then have "n + tcp_rank r' \<le> tcp_rank s" using Suc.IH s(2) R by blast
  then show ?case using R by simp
qed simp

lemma own_step_progress:
  assumes "tcp_inv faults r" and "r_pc r \<noteq> Before" "r_pc r \<noteq> Returned"
  shows "\<exists>r'. own_step faults r r'"
proof (cases "r_pc r")
  case Loop
  obtain r' where "splice_round WvAgain RvAgain (\<lambda>_. ERR_OK) r = Some r'"
    using splice_round_inv [OF assms(1) Loop, of "\<lambda>_. ERR_OK" WvAgain RvAgain] by auto
  then have "own_step faults r r'" by (intro own_round [OF Loop, where wt = "\<lambda>_. ERR_OK"]) simp_all
  then show ?thesis by blast
next
  case Drain
  then show ?thesis using drain_round_inv [OF assms(1) Drain] own_drain by blast
qed (use assms own_resume in blast)+

text \<open>C18: a session that was told to terminate returns from its relay by itself, without any
  further callback: its task can always go on until it has returned, and it cannot take more steps
  than a number that depends on the bytes queued and the room in the ring, whatever the sockets
  answer.\<close>

theorem tcp_terminate_returns:
  assumes "reach tcp_start (tcp_step faults) r" and "s_timeout (t_base (r_self r)) = 0" and "r_pc r \<noteq> Before"
    and "(own_step faults ^^ n) r r'"
  shows "n \<le> tcp_rank r \<and> (r_pc r' = Returned \<or> (\<exists>r''. own_step faults r' r''))"
proof -
  have inv: "tcp_inv faults r" by (rule tcp.reach_inv [OF assms(1)])
  have "(tcp_step faults)\<^sup>*\<^sup>* r r'"
    using relpowp_imp_rtranclp [OF assms(4)] own_step_step mono_rtranclp by metis
  then have inv': "tcp_inv faults r'" by (rule tcp.reach_step_inv [OF assms(1)])
  have "r_pc r' \<noteq> Before"
    using assms(4,3)
  proof (induction n arbitrary: r')
    case (Suc n)
    then obtain s where "own_step faults s r'" by (metis relpowp_Suc_E)
    then show ?case by (rule own_step_pc)
  qed simp
  then show ?thesis using own_steps_bound [OF inv assms(2,4)] own_step_progress [OF inv'] by auto
qed

theorem tcp_terminate_returns_witness: "\<exists>r. own_step False tcp3 r"
proof -
  have "(own_step False ^^ 0) tcp3 tcp3" by simp
  then show ?thesis using tcp_terminate_returns [OF tcp3_reach tcp3_eval(3), where n = 0 and r' = tcp3 and faults = False] tcp3_eval(4) by simp
qed

end
