(* ===== verification/TaskIOMsg.thy ===== *)
theory TaskIOMsg
  imports TaskIO
begin

text \<open>
  Datagram sockets as the sources use them: \<open>hev_task_io_socket_recvmmsg\<close> and
  \<open>hev_task_io_socket_sendmmsg\<close> of \<open>hev-task-io-socket.c\<close>, which move whole vectors of
  datagrams. The yielder may change the state of its session, so the state is passed through.
\<close>

section \<open>Scripts\<close>

text \<open>\<open>Batch ds\<close> are datagrams that wait in the socket; what a call does not take stays. The end of
  the script is an error.\<close>

datatype 'd batch_event = Batch "'d list" | BatchAgain int | BatchError

type_synonym 's stateful_yielder = "'s \<Rightarrow> int \<Rightarrow> int \<times> 's"

fun batch_size :: "'d batch_event list \<Rightarrow> nat" where
  "batch_size [] = 0"
| "batch_size (Batch ds # evs) = Suc (length ds) + batch_size evs"
| "batch_size (e # evs) = Suc (batch_size evs)"

section \<open>Receiving\<close>

text \<open>The list \<open>got\<close> holds the datagrams received so far; its length is the variable \<open>c\<close>.\<close>

function hev_task_io_socket_recvmmsg ::
  "'s stateful_yielder \<Rightarrow> bool \<Rightarrow> bool \<Rightarrow> nat \<Rightarrow> 's \<Rightarrow> 'd list \<Rightarrow> 'd batch_event list \<Rightarrow>
   int \<times> 'd list \<times> 's \<times> 'd batch_event list" where
  "hev_task_io_socket_recvmmsg yielder waitall dontwait n s got [] =
     (if \<not> waitall then - 1 else size_or (length got) (- 1), got, s, [])"
| "hev_task_io_socket_recvmmsg yielder waitall dontwait n s got (BatchError # evs) =
     (if \<not> waitall then - 1 else size_or (length got) (- 1), got, s, evs)"
| "hev_task_io_socket_recvmmsg yielder waitall dontwait n s got (BatchAgain left # evs) =
     (if dontwait then (if \<not> waitall then - 1 else size_or (length got) (- 1), got, s, evs)
      else (case yielder s left of (stop, s) \<Rightarrow>
        if stop \<noteq> 0 then (size_or (length got) (- 2), got, s, evs)
        else hev_task_io_socket_recvmmsg yielder waitall dontwait n s got evs))"
| "hev_task_io_socket_recvmmsg yielder waitall dontwait n s got (Batch ds # evs) =
     (let r = min (n - length got) (length ds);
          got' = got @ take r ds;
          rest = (if r < length ds then Batch (drop r ds) # evs else evs)
      in if \<not> waitall then (int r, got', s, rest)
         else if r = 0 then (size_or (length got) 0, got, s, rest)
         else if length got' < n then hev_task_io_socket_recvmmsg yielder waitall dontwait n s got' rest
         else (int (length got'), got', s, rest))"
  by pat_completeness auto
termination hev_task_io_socket_recvmmsg
  by (relation "measure (\<lambda>(_, _, _, _, _, _, evs). batch_size evs)") (auto simp: min_def split: if_splits)

section \<open>Sending\<close>

text \<open>\<open>Accept k\<close> is here room for \<open>k\<close> datagrams; \<open>c\<close> of the datagrams are sent.\<close>

fun hev_task_io_socket_sendmmsg ::
  "'s stateful_yielder \<Rightarrow> bool \<Rightarrow> bool \<Rightarrow> 'd list \<Rightarrow> 's \<Rightarrow> nat \<Rightarrow> 'd list \<Rightarrow> tx_event list \<Rightarrow>
   int \<times> 's \<times> 'd list \<times> tx_event list" where
  "hev_task_io_socket_sendmmsg yielder waitall dontwait ds s c out [] =
     (if \<not> waitall then - 1 else size_or c (- 1), s, out, [])"
| "hev_task_io_socket_sendmmsg yielder waitall dontwait ds s c out (TxError # evs) =
     (if \<not> waitall then - 1 else size_or c (- 1), s, out, evs)"
| "hev_task_io_socket_sendmmsg yielder waitall dontwait ds s c out (TxAgain left # evs) =
     (if dontwait then (if \<not> waitall then - 1 else size_or c (- 1), s, out, evs)
      else (case yielder s left of (stop, s) \<Rightarrow>
        if stop \<noteq> 0 then (size_or c (- 2), s, out, evs)
        else hev_task_io_socket_sendmmsg yielder waitall dontwait ds s c out evs))"
| "hev_task_io_socket_sendmmsg yielder waitall dontwait ds s c out (Accept k # evs) =
     (let r = min k (length ds - c);
          out' = out @ take r (drop c ds);
          rest = (if r < k then Accept (k - r) # evs else evs)
      in if \<not> waitall then (int r, s, out', rest)
         else if r = 0 then (size_or c 0, s, out', rest)
         else if c + r < length ds
              then hev_task_io_socket_sendmmsg yielder waitall dontwait ds s (c + r) out' evs
         else (int (c + r), s, out', rest))"

section \<open>What the calls transfer\<close>

text \<open>A call that does not wait gets the first datagrams of the script, as many as fit, and keeps
  the others; it never asks the yielder.\<close>

lemma recvmmsg_dontwait:
  "hev_task_io_socket_recvmmsg yielder False True n s [] evs =
    (case evs of
       Batch ds # evs' \<Rightarrow> (int (min n (length ds)), take (min n (length ds)) ds, s,
         if min n (length ds) < length ds then Batch (drop (min n (length ds)) ds) # evs' else evs')
     | _ \<Rightarrow> (- 1, [], s, tl evs))"
  by (auto simp: Let_def split: list.split batch_event.split)

lemma recvmmsg_count:
  "case hev_task_io_socket_recvmmsg yielder False dontwait n s [] evs of (res, ds, s', evs') \<Rightarrow>
    length ds \<le> n \<and> (0 < res \<longrightarrow> nat res = length ds)"
proof (induction yielder False dontwait n s "[] :: 'a list" evs rule: hev_task_io_socket_recvmmsg.induct)
  case (3 yielder dontwait n s left evs)
  then show ?case by (auto simp: size_or_def split: prod.splits)
qed (auto simp: Let_def)

text \<open>The order and the contents of the datagrams are kept: what leaves the socket is a part of the
  vector from its start, and the result counts it.\<close>

lemma sendmmsg_prefix:
  assumes "c \<le> length ds"
  shows "case hev_task_io_socket_sendmmsg yielder True False ds s c out evs of (res, s', out', evs') \<Rightarrow>
    \<exists>n. c \<le> n \<and> n \<le> length ds \<and> out' = out @ take (n - c) (drop c ds) \<and>
      (if n = 0 then res \<le> 0 else res = int n)"
  using assms
proof (induction yielder True False ds s c out evs rule: hev_task_io_socket_sendmmsg.induct)
  case (4 yielder ds s c out k evs)
  let ?r = "min k (length ds - c)"
  show ?case
  proof (cases "?r \<noteq> 0 \<and> c + ?r < length ds")
    case True
    obtain res s' out' evs' where r: "hev_task_io_socket_sendmmsg yielder True False ds s (c + ?r) (out @ take ?r (drop c ds)) evs =
        (res, s', out', evs')" by (metis prod_cases4)
    then obtain n where n: "c + ?r \<le> n" "n \<le> length ds" "out' = (out @ take ?r (drop c ds)) @ take (n - (c + ?r)) (drop (c + ?r) ds)"
        "if n = 0 then res \<le> 0 else res = int n"
      using 4(1) [OF refl refl refl] True by auto
    have "take ?r (drop c ds) @ take (n - (c + ?r)) (drop (c + ?r) ds) = take (n - c) (drop c ds)"
      using take_add [of ?r "n - (c + ?r)" "drop c ds"] n(1) by (simp add: add.commute)
    then show ?thesis using True r n by (auto simp: Let_def intro!: exI [of _ n])
  next
    case False
    then show ?thesis using 4(2)
      by (cases "?r = 0") (auto simp: Let_def size_or_def intro!: exI [of _ "c + ?r"])
  qed
next
  case (3 yielder ds s c out left evs)
  obtain stop s' where y: "yielder s left = (stop, s')" by (metis surj_pair)
  show ?case
  proof (cases "stop = 0")
    case True
    then show ?thesis using 3(1) [OF _ y [symmetric]] 3(2) y by simp
  next
    case False
    then show ?thesis using 3(2) y by (auto simp: size_or_def intro!: exI [of _ c])
  qed
qed (auto simp: size_or_def intro!: exI)

end
