(* ===== verification/Socks5UDP.thy ===== *)
theory Socks5UDP
  imports Socks5 TaskIOMsg
begin

text \<open>
  Datagrams of a SOCKS5 session: \<open>core/src/hev-socks5-udp.c\<close>. When they go through the
  connection (\<open>UDP_IN_TCP\<close>), each one is a frame with a header of two lengths, an address and
  the payload; when they go over a datagram socket (\<open>UDP_IN_UDP\<close>), each one has the header of
  RFC 1928. A buffer is its bytes; an access outside of it is \<^term>\<open>None\<close>.
\<close>

section \<open>Waiting\<close>

text \<open>One plain \<open>recv\<close> of a byte from the connection, without waiting: whether the peer has
  closed it or it failed.\<close>

fun recv_closed :: "rx_event list \<Rightarrow> bool \<times> rx_event list" where
  "recv_closed [] = (True, [])"
| "recv_closed (Chunk bs # evs) = (bs = [], if length bs \<le> 1 then evs else Chunk (tl bs) # evs)"
| "recv_closed (RxAgain left # evs) = (False, evs)"
| "recv_closed (RxError # evs) = (True, evs)"

text \<open>While datagrams go over their own socket, every wait looks at the connection, whose end is
  the end of the association.\<close>

definition task_io_yielder ::
  "HevTaskYieldType \<Rightarrow> 'a HevSocks5_scheme \<Rightarrow> int \<Rightarrow> int \<times> 'a HevSocks5_scheme" where
  "task_io_yielder type self left =
     (case (if s_type self = TYPE_UDP_IN_UDP then recv_closed (rx (s_sock self)) else (False, rx (s_sock self))) of
        (closed, evs) \<Rightarrow>
          let self = self\<lparr>s_sock := (s_sock self)\<lparr>rx := evs\<rparr>\<rparr> in
          if closed then (- 1, hev_socks5_set_timeout self 0)
          else if type = HEV_TASK_YIELD then (0, self)
          else (hev_socks5_task_io_yielder (s_timeout self) left, self))"

text \<open>In the connection itself the yielder is the one of the session.\<close>

lemma task_io_yielder_conn:
  "s_type self \<noteq> TYPE_UDP_IN_UDP \<Longrightarrow> task_io_yielder HEV_TASK_WAITIO self left = (session_yielder self left, self)"
  by (simp add: task_io_yielder_def)

text \<open>What a failing call tells about \<open>errno\<close>: it may have failed without setting it.\<close>

datatype errno = EAGAIN | EOTHER

type_synonym errno_set = "errno option"

definition is_eagain :: "bool \<Rightarrow> errno_set \<Rightarrow> bool" where
  "is_eagain stale e = (case e of Some EAGAIN \<Rightarrow> True | Some EOTHER \<Rightarrow> False | None \<Rightarrow> stale)"

section \<open>Messages\<close>

text \<open>A message to send: the address and the payload. A message buffer for receiving: its memory,
  the address pointer, and the offset and length of the data.\<close>

record udp_out =
  o_addr :: HevSocks5Addr
  o_data :: "byte list"

datatype addr_ptr = Uninit | Null | At nat

record HevSocks5UDPMsg =
  m_mem :: "byte list"
  m_addr :: addr_ptr
  m_off :: nat
  m_len :: nat

text \<open>The header: \<open>datlen\<close> in network order and \<open>hdrlen\<close>, a byte.\<close>

definition udp_header :: "nat \<Rightarrow> int \<Rightarrow> byte list" where
  "udp_header datlen addrlen = bytes16 (ntohs (of_nat datlen)) @ [word_of_int (3 + addrlen)]"

section \<open>Frames in the connection\<close>

text \<open>The vector of buffers for all messages; the inner \<^term>\<open>None\<close> is the error return.\<close>

fun frame_iov :: "udp_out list \<Rightarrow> byte list list option option" where
  "frame_iov [] = Some (Some [])"
| "frame_iov (msg # msgs) = do {
     addrlen \<leftarrow> hev_socks5_addr_len (o_addr msg);
     if addrlen \<le> 0 then Some None
     else do {
       a \<leftarrow> mget (o_addr msg) 0 (nat addrlen);
       rest \<leftarrow> frame_iov msgs;
       Some (map_option (\<lambda>iov. [udp_header (length (o_data msg)) addrlen, a, o_data msg] @ iov) rest) } }"

definition hev_socks5_udp_sendmmsg_tcp ::
  "'a HevSocks5_scheme \<Rightarrow> udp_out list \<Rightarrow> (int \<times> errno_set \<times> 'a HevSocks5_scheme) option" where
  "hev_socks5_udp_sendmmsg_tcp self msgs = do {
     iov \<leftarrow> frame_iov msgs;
     case iov of
       None \<Rightarrow> Some (- 1, None, self)
     | Some iov \<Rightarrow>
         (case sock_sendmsg self iov of (res, self) \<Rightarrow>
            if res \<le> 0 then Some (- 1, if res = - 1 then Some EOTHER else None, self)
            else Some (int (length msgs), None, self)) }"

definition sock_recv_flags ::
  "'a HevSocks5_scheme \<Rightarrow> bool \<Rightarrow> nat \<Rightarrow> int \<times> errno_set \<times> byte list \<times> 'a HevSocks5_scheme" where
  "sock_recv_flags self dontwait len =
     (case hev_task_io_socket_recv (session_yielder self) False dontwait len [] (rx (s_sock self)) of
        (res, buf, evs) \<Rightarrow>
          (res,
           if res \<noteq> - 1 then None
           else Some (case rx (s_sock self) of RxAgain _ # _ \<Rightarrow> if dontwait then EAGAIN else EOTHER | _ \<Rightarrow> EOTHER),
           buf, self\<lparr>s_sock := (s_sock self)\<lparr>rx := evs\<rparr>\<rparr>))"

definition sock_recvmsg ::
  "'a HevSocks5_scheme \<Rightarrow> nat list \<Rightarrow> int \<times> byte list \<times> 'a HevSocks5_scheme" where
  "sock_recvmsg self iov =
     (case hev_task_io_socket_recvmsg (session_yielder self) True False iov (rx (s_sock self)) of
        (res, buf, evs) \<Rightarrow> (res, buf, self\<lparr>s_sock := (s_sock self)\<lparr>rx := evs\<rparr>\<rparr>))"

text \<open>The first five bytes of a frame: whatever is there, then the rest of them. The results of
  the two calls are added.\<close>

definition read_head ::
  "'a HevSocks5_scheme \<Rightarrow> bool \<Rightarrow> int \<times> errno_set \<times> byte list \<times> 'a HevSocks5_scheme" where
  "read_head self nonblock =
     (case sock_recv_flags self nonblock 5 of (res, e, udp, self) \<Rightarrow>
        if 0 < res \<and> res < 5 then
          (case sock_recv self (5 - nat res) of (res2, udp2, self) \<Rightarrow> (res + res2, None, udp @ udp2, self))
        else (res, e, udp, self))"

text \<open>The body of one frame. \<open>msgv[i].len - addrlen\<close> is computed in \<open>size_t\<close>. The results are the
  returned length and error, or \<^term>\<open>None\<close> when the frame is complete, and the buffer.\<close>

definition read_frame ::
  "'a HevSocks5_scheme \<Rightarrow> HevSocks5UDPMsg \<Rightarrow> byte list \<Rightarrow>
   ((int \<times> errno_set) option \<times> HevSocks5UDPMsg \<times> 'a HevSocks5_scheme) option" where
  "read_frame self msg udp =
     (let hdrlen = unat (udp ! 2) in
      if hdrlen < 5 then Some (Some (- 1, None), msg, self)
      else do {
        let addrlen = hdrlen - 3;
        datlen \<leftarrow> load16 udp 0;
        let datlen = unat (ntohs datlen);
        if addrlen \<le> m_len msg \<and> m_len msg - addrlen < datlen then Some (Some (- 1, None), msg, self)
        else (case sock_recvmsg self [addrlen - 2, datlen] of (res, bs, self) \<Rightarrow> do {
          mem \<leftarrow> mput (m_mem msg) (m_off msg + 2) bs;
          if res \<noteq> int (addrlen - 2 + datlen)
          then Some (Some (res, if res = - 1 then Some EOTHER else None), msg\<lparr>m_mem := mem\<rparr>, self)
          else do {
            mem \<leftarrow> mput mem (m_off msg) [udp ! 3];
            mem \<leftarrow> mput mem (m_off msg + 1) [udp ! 4];
            Some (None, msg\<lparr>m_mem := mem, m_addr := At (m_off msg), m_off := m_off msg + addrlen, m_len := datlen\<rparr>, self) } }) })"

text \<open>The loop over the buffers; \<open>rlen\<close> frames are complete.\<close>

fun recvmmsg_tcp_loop ::
  "'a HevSocks5_scheme \<Rightarrow> HevSocks5UDPMsg list \<Rightarrow> nat \<Rightarrow> bool \<Rightarrow>
   (int \<times> errno_set \<times> HevSocks5UDPMsg list \<times> 'a HevSocks5_scheme) option" where
  "recvmmsg_tcp_loop self [] rlen nonblock = Some (int rlen, None, [], self)"
| "recvmmsg_tcp_loop self (msg # msgs) rlen nonblock =
     (case read_head self nonblock of (res, e, udp, self) \<Rightarrow>
        if res \<noteq> 5 then Some (if 0 < rlen then int rlen else res, e, msg # msgs, self)
        else do {
          (ret, msg, self) \<leftarrow> read_frame self msg udp;
          case ret of
            Some (res, e) \<Rightarrow> Some (res, e, msg # msgs, self)
          | None \<Rightarrow> do {
              (res, e, msgs, self) \<leftarrow> recvmmsg_tcp_loop self msgs (rlen + 1) nonblock;
              Some (res, e, msg # msgs, self) } })"

definition hev_socks5_udp_recvmmsg_tcp ::
  "'a HevSocks5_scheme \<Rightarrow> HevSocks5UDPMsg list \<Rightarrow> bool \<Rightarrow>
   (int \<times> errno_set \<times> HevSocks5UDPMsg list \<times> 'a HevSocks5_scheme) option" where
  "hev_socks5_udp_recvmmsg_tcp self msgs nonblock = recvmmsg_tcp_loop self msgs 0 nonblock"

section \<open>Datagrams\<close>

text \<open>A datagram socket: the datagrams it receives with their senders, those it has sent with their
  destinations (none on a connected socket), and how many it can send.\<close>

record dsock =
  d_rx :: "(sockaddr_in6 \<times> byte list) batch_event list"
  d_tx :: "(sockaddr_in6 option \<times> byte list) list"
  d_txs :: "tx_event list"

definition dsock_send ::
  "'a HevSocks5_scheme \<Rightarrow> dsock \<Rightarrow> (sockaddr_in6 option \<times> byte list) list \<Rightarrow> int \<times> 'a HevSocks5_scheme \<times> dsock" where
  "dsock_send self d ds =
     (case hev_task_io_socket_sendmmsg (task_io_yielder HEV_TASK_WAITIO) True False ds self 0 (d_tx d) (d_txs d) of
        (res, self, out, evs) \<Rightarrow> (res, self, d\<lparr>d_tx := out, d_txs := evs\<rparr>))"

definition dsock_recv ::
  "'a HevSocks5_scheme \<Rightarrow> dsock \<Rightarrow> nat \<Rightarrow> bool \<Rightarrow>
   int \<times> errno_set \<times> (sockaddr_in6 \<times> byte list) list \<times> 'a HevSocks5_scheme \<times> dsock" where
  "dsock_recv self d n dontwait =
     (case hev_task_io_socket_recvmmsg (task_io_yielder HEV_TASK_WAITIO) False dontwait n self [] (d_rx d) of
        (res, ds, self, evs) \<Rightarrow>
          (res,
           if res \<noteq> - 1 then None
           else Some (case d_rx d of BatchAgain _ # _ \<Rightarrow> if dontwait then EAGAIN else EOTHER | _ \<Rightarrow> EOTHER),
           ds, self, d\<lparr>d_rx := evs\<rparr>))"

text \<open>The datagrams to send; the reserved bytes are zero.\<close>

fun datagrams :: "udp_out list \<Rightarrow> byte list list option option" where
  "datagrams [] = Some (Some [])"
| "datagrams (msg # msgs) = do {
     addrlen \<leftarrow> hev_socks5_addr_len (o_addr msg);
     if addrlen \<le> 0 then Some None
     else do {
       a \<leftarrow> mget (o_addr msg) 0 (nat addrlen);
       rest \<leftarrow> datagrams msgs;
       Some (map_option (\<lambda>ds. ([0, 0, 0] @ a @ o_data msg) # ds) rest) } }"

definition hev_socks5_udp_sendmmsg_udp ::
  "'a HevSocks5_scheme \<Rightarrow> dsock \<Rightarrow> udp_out list \<Rightarrow> (int \<times> errno_set \<times> 'a HevSocks5_scheme \<times> dsock) option" where
  "hev_socks5_udp_sendmmsg_udp self d msgs = do {
     ds \<leftarrow> datagrams msgs;
     case ds of
       None \<Rightarrow> Some (- 1, None, self, d)
     | Some ds \<Rightarrow>
         (case dsock_send self d (map (Pair None) ds) of (res, self, d) \<Rightarrow>
            Some (res, if res = - 1 then Some EOTHER else None, self, d)) }"

definition hev_socks5_udp_sendmmsg ::
  "'a HevSocks5_scheme \<Rightarrow> dsock \<Rightarrow> udp_out list \<Rightarrow> (int \<times> errno_set \<times> 'a HevSocks5_scheme \<times> dsock) option" where
  "hev_socks5_udp_sendmmsg self d msgs =
     (case s_type self of
        TYPE_UDP_IN_TCP \<Rightarrow>
          map_option (\<lambda>(res, e, self). (res, e, self, d)) (hev_socks5_udp_sendmmsg_tcp self msgs)
      | TYPE_UDP_IN_UDP \<Rightarrow> hev_socks5_udp_sendmmsg_udp self d msgs
      | _ \<Rightarrow> Some (- 1, None, self, d))"

text \<open>\<open>recvmmsg\<close> fills the buffers with the datagrams, cut to their lengths.\<close>

fun fill :: "HevSocks5UDPMsg list \<Rightarrow> byte list list \<Rightarrow> (HevSocks5UDPMsg list \<times> nat list) option" where
  "fill (msg # msgs) (d # ds) = do {
     let n = min (length d) (m_len msg);
     mem \<leftarrow> mput (m_mem msg) (m_off msg) (take n d);
     (msgs, ns) \<leftarrow> fill msgs ds;
     Some (msg\<lparr>m_mem := mem\<rparr> # msgs, n # ns) }"
| "fill msgs [] = Some (msgs, [])"
| "fill [] (d # ds) = None"

text \<open>The loop over the received datagrams. The address length is read from the buffer before the
  length of the datagram is known to suffice.\<close>

fun parse_datagrams ::
  "HevSocks5UDPMsg list \<Rightarrow> nat list \<Rightarrow> (int option \<times> HevSocks5UDPMsg list) option" where
  "parse_datagrams msgs [] = Some (None, msgs)"
| "parse_datagrams [] (n # ns) = None"
| "parse_datagrams (msg # msgs) (n # ns) = do {
     addrlen \<leftarrow> hev_socks5_addr_len (drop (m_off msg + 3) (m_mem msg));
     if n < 4 then do {
       (r, msgs) \<leftarrow> parse_datagrams msgs ns;
       Some (r, msg\<lparr>m_addr := Null, m_len := 0\<rparr> # msgs) }
     else if addrlen \<le> 0 then Some (Some (- 1), msg\<lparr>m_len := n\<rparr> # msgs)
     else if int n < 3 + addrlen then Some (Some (- 1), msg\<lparr>m_len := n\<rparr> # msgs)
     else do {
       (r, msgs) \<leftarrow> parse_datagrams msgs ns;
       Some (r, msg\<lparr>m_addr := At (m_off msg + 3), m_off := m_off msg + nat (3 + addrlen), m_len := n - nat (3 + addrlen)\<rparr> # msgs) } }"

text \<open>The first datagram decides the peer; \<open>conn\<close> is the answer to \<open>connect\<close>.\<close>

definition hev_socks5_udp_recvmmsg_udp ::
  "(sockaddr_in6 \<Rightarrow> int) \<Rightarrow> 'a HevSocks5_scheme \<Rightarrow> dsock \<Rightarrow> HevSocks5UDPMsg list \<Rightarrow> bool \<Rightarrow>
   (int \<times> errno_set \<times> HevSocks5UDPMsg list \<times> 'a HevSocks5_scheme \<times> dsock) option" where
  "hev_socks5_udp_recvmmsg_udp conn self d msgs nonblock =
     (case dsock_recv self d (length msgs) nonblock of (res, e, ds, self, d) \<Rightarrow>
        if res \<le> 0 then Some (res, e, msgs, self, d)
        else do {
          (msgs, ns) \<leftarrow> fill msgs (map snd ds);
          if \<not> s_udp_associated self \<and> conn (fst (hd ds)) < 0 then Some (- 1, None, msgs, self, d)
          else do {
            (r, msgs) \<leftarrow> parse_datagrams msgs ns;
            Some (case r of Some err \<Rightarrow> err | None \<Rightarrow> res, None, msgs, self\<lparr>s_udp_associated := True\<rparr>, d) } })"

definition hev_socks5_udp_recvmmsg ::
  "(sockaddr_in6 \<Rightarrow> int) \<Rightarrow> 'a HevSocks5_scheme \<Rightarrow> dsock \<Rightarrow> HevSocks5UDPMsg list \<Rightarrow> bool \<Rightarrow>
   (int \<times> errno_set \<times> HevSocks5UDPMsg list \<times> 'a HevSocks5_scheme \<times> dsock) option" where
  "hev_socks5_udp_recvmmsg conn self d msgs nonblock =
     (case s_type self of
        TYPE_UDP_IN_TCP \<Rightarrow>
          map_option (\<lambda>(res, e, msgs, self). (res, e, msgs, self, d)) (hev_socks5_udp_recvmmsg_tcp self msgs nonblock)
      | TYPE_UDP_IN_UDP \<Rightarrow> hev_socks5_udp_recvmmsg_udp conn self d msgs nonblock
      | _ \<Rightarrow> Some (- 1, None, msgs, self, d))"

section \<open>Frames on the wire\<close>

text \<open>The frame of an address and a payload, the messages that carry them, and the ones the format
  can represent: the header length is a byte.\<close>

definition frame :: "byte list \<times> byte list \<Rightarrow> byte list" where
  "frame f = udp_header (length (snd f)) (int (length (fst f))) @ fst f @ snd f"

definition carries :: "udp_out \<Rightarrow> byte list \<times> byte list \<Rightarrow> bool" where
  "carries msg f \<longleftrightarrow> wire_addr (fst f) \<and> (\<exists>rest. o_addr msg = fst f @ rest) \<and> o_data msg = snd f"

definition framable :: "byte list \<times> byte list \<Rightarrow> bool" where
  "framable f \<longleftrightarrow> wire_addr (fst f) \<and> length (fst f) \<le> 252 \<and> length (snd f) < 65536"

definition fits :: "HevSocks5UDPMsg \<Rightarrow> byte list \<times> byte list \<Rightarrow> bool" where
  "fits msg f \<longleftrightarrow> length (fst f) + length (snd f) \<le> m_len msg \<and> m_off msg + m_len msg \<le> length (m_mem msg)"

text \<open>The buffer \<open>msg'\<close> is \<open>msg\<close> after it has received the frame.\<close>

definition received :: "HevSocks5UDPMsg \<Rightarrow> byte list \<times> byte list \<Rightarrow> HevSocks5UDPMsg \<Rightarrow> bool" where
  "received msg f msg' \<longleftrightarrow> m_addr msg' = At (m_off msg) \<and> m_off msg' = m_off msg + length (fst f) \<and>
     m_len msg' = length (snd f) \<and> m_mem msg' = overwrite (m_mem msg) (m_off msg) (fst f @ snd f)"

lemma wire_addr_length: "wire_addr a \<Longrightarrow> 4 \<le> length a"
  by (auto simp: wire_addr_def)

lemma wire_ipv4_addr: "length ip = 4 \<Longrightarrow> wire_addr (wire_ipv4 ip port)"
  and wire_domain_addr: "length name < 256 \<Longrightarrow> wire_addr (wire_domain name port)"
  unfolding wire_addr_def by blast+

lemma length_udp_header [simp]: "length (udp_header n l) = 3"
  by (simp add: udp_header_def)

lemma unat_word_of_int_byte: "0 \<le> i \<Longrightarrow> i < 256 \<Longrightarrow> unat (word_of_int i :: byte) = nat i"
  using unat_of_nat_byte [of "nat i"] by simp

lemma frame_iov_carries:
  "list_all2 carries msgs fs \<Longrightarrow> \<exists>iov. frame_iov msgs = Some (Some iov) \<and> concat iov = concat (map frame fs)"
proof (induction msgs fs rule: list_all2_induct)
  case (Cons msg msgs f fs)
  then obtain iov rest where i: "frame_iov msgs = Some (Some iov)" "concat iov = concat (map frame fs)"
      and a: "wire_addr (fst f)" "o_addr msg = fst f @ rest" "o_data msg = snd f"
    by (auto simp: carries_def)
  have "hev_socks5_addr_len (o_addr msg) = Some (int (length (fst f)))" "length (fst f) \<noteq> 0"
    using addr_len_wire_addr [OF a(1), of rest] a(2) wire_addr_length [OF a(1)] by auto
  then show ?case using i a(2,3) by (simp add: mget_def frame_def [of f])
qed simp

section \<open>Receiving frames\<close>

text \<open>A single receive takes some of the bytes that are there, unless it must not wait for them.\<close>

lemma recv_once:
  assumes "0 < len" "stream yielder evs \<noteq> []"
  shows "(\<exists>n evs'. hev_task_io_socket_recv yielder False dontwait len [] evs = (int n, take n (stream yielder evs), evs') \<and>
      0 < n \<and> n \<le> len \<and> n \<le> length (stream yielder evs) \<and> stream yielder evs' = drop n (stream yielder evs)) \<or>
    dontwait \<and> (\<exists>left evs'. evs = RxAgain left # evs' \<and>
      hev_task_io_socket_recv yielder False dontwait len [] evs = (- 1, [], evs') \<and> stream yielder evs' = stream yielder evs)"
proof (cases dontwait)
  case False
  then show ?thesis using recv_some [OF assms] by simp
next
  case True
  consider left evs' where "evs = RxAgain left # evs'" | bs evs' where "evs = Chunk bs # evs'" "bs \<noteq> []"
    using assms(2) by (cases evs rule: rx_size.cases) (auto split: if_splits)
  then show ?thesis
  proof cases
    case 1
    then show ?thesis using assms(2) True by (auto split: if_splits)
  next
    case 2
    then show ?thesis using assms(1)
      by (intro disjI1 exI [of _ "min len (length bs)"]
          exI [of _ "if min len (length bs) < length bs then Chunk (drop (min len (length bs)) bs) # evs' else evs'"])
        (auto simp: Let_def min_def)
  qed
qed

lemma read_head_frame:
  assumes "inp self = h @ ys" "length h = 5"
  shows "\<exists>e sk. tx sk = sent self \<and> txs sk = txs (s_sock self) \<and>
    (read_head self nonblock = (5, e, h, self\<lparr>s_sock := sk\<rparr>) \<and> inp (self\<lparr>s_sock := sk\<rparr>) = ys \<or>
     nonblock \<and> read_head self nonblock = (- 1, Some EAGAIN, [], self\<lparr>s_sock := sk\<rparr>) \<and> inp (self\<lparr>s_sock := sk\<rparr>) = inp self)"
proof -
  have five: "0 < (5 :: nat)" by simp
  have ne: "stream (session_yielder self) (rx (s_sock self)) \<noteq> []" using assms by (auto simp: inp_def)
  consider (some) n evs where "hev_task_io_socket_recv (session_yielder self) False nonblock 5 [] (rx (s_sock self)) = (int n, take n (inp self), evs)"
      "0 < n" "n \<le> 5" "stream (session_yielder self) evs = drop n (inp self)"
    | (again) left evs where "nonblock" "rx (s_sock self) = RxAgain left # evs"
      "hev_task_io_socket_recv (session_yielder self) False nonblock 5 [] (rx (s_sock self)) = (- 1, [], evs)"
      "stream (session_yielder self) evs = inp self"
    using recv_once [OF five ne, of nonblock] unfolding inp_def by (elim disjE exE conjE) blast+
  then show ?thesis
  proof cases
    case some
    let ?self = "self\<lparr>s_sock := (s_sock self)\<lparr>rx := evs\<rparr>\<rparr>"
    have i: "inp ?self = drop n h @ ys" and t: "take n (inp self) = take n h"
      using some(3,4) assms by (simp_all add: inp_def)
    show ?thesis
    proof (cases "n = 5")
      case True
      then show ?thesis using some(1) i t assms
        by (intro exI [of _ None] exI [of _ "(s_sock self)\<lparr>rx := evs\<rparr>"]) (simp add: read_head_def sock_recv_flags_def)
    next
      case False
      then obtain sk where "sock_recv ?self (5 - n) = (int (5 - n), drop n h, ?self\<lparr>s_sock := sk\<rparr>)"
          "inp (?self\<lparr>s_sock := sk\<rparr>) = ys" "tx sk = sent self" "txs sk = txs (s_sock self)"
        using recv_append [OF i, of "5 - n"] some(3) assms(2) by auto
      then show ?thesis using some(1-3) False t
        by (intro exI [of _ None] exI [of _ sk]) (simp add: read_head_def sock_recv_flags_def)
    qed
  next
    case again
    then show ?thesis
      by (intro exI [of _ None] exI [of _ "(s_sock self)\<lparr>rx := evs\<rparr>"])
        (simp add: read_head_def sock_recv_flags_def inp_def)
  qed
qed

lemma recvmsg_append:
  assumes "inp self = xs @ ys" "xs \<noteq> []" "sum_list iov = length xs"
  shows "\<exists>sk. sock_recvmsg self iov = (int (length xs), xs, self\<lparr>s_sock := sk\<rparr>) \<and> inp (self\<lparr>s_sock := sk\<rparr>) = ys \<and>
    tx sk = sent self \<and> txs sk = txs (s_sock self)"
  using recv_append [OF assms(1,2) refl] assms(3) by (simp add: sock_recvmsg_def recvmsg_is_recv sock_recv_def)

lemma header_fields:
  assumes "framable f"
  shows "(udp_header (length (snd f)) (int (length (fst f))) @ xs) ! 2 = of_nat (3 + length (fst f))"
    and "unat (of_nat (3 + length (fst f)) :: byte) = 3 + length (fst f)"
    and "load16 (udp_header (length (snd f)) (int (length (fst f))) @ xs) 0 = Some (ntohs (of_nat (length (snd f))))"
    and "unat (ntohs (ntohs (of_nat (length (snd f))))) = length (snd f)"
proof -
  show "load16 (udp_header (length (snd f)) (int (length (fst f))) @ xs) 0 = Some (ntohs (of_nat (length (snd f))))"
    using load16_bytes16 [of "[]" "ntohs (of_nat (length (snd f)))"] by (simp add: udp_header_def)
  show "unat (ntohs (ntohs (of_nat (length (snd f))))) = length (snd f)"
    using assms unat_of_nat_lt [of "length (snd f)", where 'a = 16] by (simp add: framable_def)
  show "unat (of_nat (3 + length (fst f)) :: byte) = 3 + length (fst f)"
    using assms by (intro unat_of_nat_byte) (simp add: framable_def)
  show "(udp_header (length (snd f)) (int (length (fst f))) @ xs) ! 2 = of_nat (3 + length (fst f))"
    by (simp add: udp_header_def bytes16_def)
qed

lemma read_frame_ok:
  assumes "framable f" "fits msg f" "inp self = drop 2 (fst f) @ snd f @ ys"
  shows "\<exists>msg' sk. read_frame self msg (udp_header (length (snd f)) (int (length (fst f))) @ take 2 (fst f)) =
      Some (None, msg', self\<lparr>s_sock := sk\<rparr>) \<and> received msg f msg' \<and> inp (self\<lparr>s_sock := sk\<rparr>) = ys \<and>
    tx sk = sent self \<and> txs sk = txs (s_sock self)"
proof -
  let ?h = "udp_header (length (snd f)) (int (length (fst f))) @ take 2 (fst f)"
  let ?m = "m_mem msg" and ?o = "m_off msg" and ?b = "drop 2 (fst f) @ snd f"
  have l: "4 \<le> length (fst f)" using assms(1) wire_addr_length by (simp add: framable_def)
  obtain x y zs where a: "fst f = x # y # zs" using l by (cases "fst f" rule: remdups_adj.cases) auto
  obtain sk where r: "sock_recvmsg self [length (fst f) - 2, length (snd f)] = (int (length ?b), ?b, self\<lparr>s_sock := sk\<rparr>)"
      "inp (self\<lparr>s_sock := sk\<rparr>) = ys" "tx sk = sent self" "txs sk = txs (s_sock self)"
    using recvmsg_append [of self ?b ys "[length (fst f) - 2, length (snd f)]"] assms(3) l by auto
  have len: "?o + length (fst f @ snd f) \<le> length ?m" using assms(2) by (simp add: fits_def)
  have mem: "overwrite (overwrite (overwrite ?m (?o + 2) ?b) ?o [x]) (?o + 1) [y] = overwrite ?m ?o (fst f @ snd f)"
    using len by (simp add: overwrite_def a)
  have u: "?h ! 3 = x" "?h ! 4 = y" by (simp_all add: udp_header_def bytes16_def a)
  note h = header_fields(1,3) [OF assms(1), of "take 2 (fst f)"] header_fields(2,4) [OF assms(1)]
  have w: "unat (of_nat (length (snd f)) :: u16) = length (snd f)" using h(4) by simp
  have "read_frame self msg ?h = Some (None, msg\<lparr>m_mem := overwrite ?m ?o (fst f @ snd f), m_addr := At ?o,
      m_off := ?o + length (fst f), m_len := length (snd f)\<rparr>, self\<lparr>s_sock := sk\<rparr>)"
    unfolding read_frame_def h(1,2,3) u using r(1) l len assms(2) mem w by (simp add: fits_def mput_def Let_def) arith
  then show ?thesis using r(2-4)
    by (intro exI [of _ "msg\<lparr>m_mem := overwrite ?m ?o (fst f @ snd f), m_addr := At ?o, m_off := ?o + length (fst f), m_len := length (snd f)\<rparr>"]
        exI [of _ sk]) (simp add: received_def)
qed

lemma recv_frames:
  assumes "list_all2 fits msgs fs" "list_all framable fs" "inp self = concat (map frame fs) @ ys"
  shows "\<exists>k res e msgs' sk. recvmmsg_tcp_loop self msgs rlen nonblock = Some (res, e, msgs', self\<lparr>s_sock := sk\<rparr>) \<and>
    k \<le> length msgs \<and> (\<not> nonblock \<longrightarrow> k = length msgs) \<and>
    (if rlen + k = 0 \<and> msgs \<noteq> [] then res = - 1 \<and> e = Some EAGAIN else res = int (rlen + k)) \<and>
    (\<forall>i<k. received (msgs ! i) (fs ! i) (msgs' ! i)) \<and> drop k msgs' = drop k msgs \<and> length msgs' = length msgs \<and>
    inp (self\<lparr>s_sock := sk\<rparr>) = concat (map frame (drop k fs)) @ ys \<and> tx sk = sent self \<and> txs sk = txs (s_sock self)"
  using assms
proof (induction msgs fs arbitrary: self rlen rule: list_all2_induct)
  case Nil
  then show ?case
    by (intro exI [of _ 0] exI [of _ "int rlen"] exI [of _ None] exI [of _ "[]"] exI [of _ "s_sock self"]) simp
next
  case (Cons msg msgs f fs)
  let ?h = "udp_header (length (snd f)) (int (length (fst f))) @ take 2 (fst f)"
  have f: "framable f" "list_all framable fs" using Cons.prems(1) by simp_all
  then have l: "4 \<le> length (fst f)" using wire_addr_length by (simp add: framable_def)
  have "frame f = ?h @ drop 2 (fst f) @ snd f" by (simp add: frame_def)
  then have i: "inp self = ?h @ drop 2 (fst f) @ snd f @ concat (map frame fs) @ ys" "length ?h = 5"
    using Cons.prems(2) l by simp_all
  obtain e sk where sk: "tx sk = sent self" "txs sk = txs (s_sock self)" and
    hd: "read_head self nonblock = (5, e, ?h, self\<lparr>s_sock := sk\<rparr>) \<and>
       inp (self\<lparr>s_sock := sk\<rparr>) = drop 2 (fst f) @ snd f @ concat (map frame fs) @ ys \<or>
     nonblock \<and> read_head self nonblock = (- 1, Some EAGAIN, [], self\<lparr>s_sock := sk\<rparr>) \<and> inp (self\<lparr>s_sock := sk\<rparr>) = inp self"
    using read_head_frame [OF i, of nonblock] by (elim exE conjE) (rule that)
  from hd show ?case
  proof (elim disjE conjE)
    assume h: "read_head self nonblock = (5, e, ?h, self\<lparr>s_sock := sk\<rparr>)"
      and i1: "inp (self\<lparr>s_sock := sk\<rparr>) = drop 2 (fst f) @ snd f @ concat (map frame fs) @ ys"
    obtain msg' sk1 where r: "read_frame (self\<lparr>s_sock := sk\<rparr>) msg ?h = Some (None, msg', self\<lparr>s_sock := sk1\<rparr>)"
        "received msg f msg'" and i2: "inp (self\<lparr>s_sock := sk1\<rparr>) = concat (map frame fs) @ ys"
        and sk1: "tx sk1 = sent self" "txs sk1 = txs (s_sock self)"
      using read_frame_ok [OF f(1) Cons.hyps(1) i1] sk by auto
    obtain k res e' msgs' sk2 where ih: "recvmmsg_tcp_loop (self\<lparr>s_sock := sk1\<rparr>) msgs (rlen + 1) nonblock =
          Some (res, e', msgs', self\<lparr>s_sock := sk2\<rparr>)"
        "k \<le> length msgs" "\<not> nonblock \<longrightarrow> k = length msgs" "res = int (rlen + 1 + k)"
        "\<forall>i<k. received (msgs ! i) (fs ! i) (msgs' ! i)" "drop k msgs' = drop k msgs" "length msgs' = length msgs"
        "inp (self\<lparr>s_sock := sk2\<rparr>) = concat (map frame (drop k fs)) @ ys" "tx sk2 = sent self" "txs sk2 = txs (s_sock self)"
      using Cons.IH [OF f(2) i2, of "rlen + 1"] sk1 by simp blast
    have "\<forall>i<k + 1. received ((msg # msgs) ! i) ((f # fs) ! i) ((msg' # msgs') ! i)"
      using ih(5) r(2) by (auto simp: less_Suc_eq_0_disj)
    then show ?thesis using h r(1) ih
      by (intro exI [of _ "k + 1"] exI [of _ res] exI [of _ e'] exI [of _ "msg' # msgs'"] exI [of _ sk2]) simp
  next
    assume "nonblock" "read_head self nonblock = (- 1, Some EAGAIN, [], self\<lparr>s_sock := sk\<rparr>)"
      "inp (self\<lparr>s_sock := sk\<rparr>) = inp self"
    then show ?thesis using Cons.prems(2) sk
      by (intro exI [of _ 0] exI [of _ "if 0 < rlen then int rlen else - 1"] exI [of _ "Some EAGAIN"]
          exI [of _ "msg # msgs"] exI [of _ sk]) simp
  qed
qed

text \<open>A receiver that waits gets them all.\<close>

lemma recv_all_frames:
  assumes "list_all2 fits bufs fs" "list_all framable fs" "inp self = concat (map frame fs) @ ys"
  shows "\<exists>e bufs' sk. hev_socks5_udp_recvmmsg_tcp self bufs False = Some (int (length bufs), e, bufs', self\<lparr>s_sock := sk\<rparr>) \<and>
    (\<forall>i<length bufs. received (bufs ! i) (fs ! i) (bufs' ! i)) \<and> inp (self\<lparr>s_sock := sk\<rparr>) = ys"
proof -
  have len: "length bufs = length fs" using assms(1) by (rule list_all2_lengthD)
  obtain k res e bufs' sk where r: "recvmmsg_tcp_loop self bufs 0 False = Some (res, e, bufs', self\<lparr>s_sock := sk\<rparr>)"
      "\<not> False \<longrightarrow> k = length bufs" "if 0 + k = 0 \<and> bufs \<noteq> [] then res = - 1 \<and> e = Some EAGAIN else res = int (0 + k)"
      "\<forall>i<k. received (bufs ! i) (fs ! i) (bufs' ! i)" "inp (self\<lparr>s_sock := sk\<rparr>) = concat (map frame (drop k fs)) @ ys"
    using recv_frames [OF assms, of 0 False] by (elim exE conjE) (rule that)
  have k: "k = length fs" using r(2) len by simp
  then have "res = int (length bufs)" using r(3) len by (cases fs) auto
  then show ?thesis using r k len
    by (intro exI [of _ e] exI [of _ bufs'] exI [of _ sk]) (simp add: hev_socks5_udp_recvmmsg_tcp_def)
qed

section \<open>Sending frames\<close>

lemma send_frames:
  assumes "list_all2 carries msgs fs" "fs \<noteq> []" "length (concat (map frame fs)) \<le> tx_room self"
  shows "\<exists>sk. hev_socks5_udp_sendmmsg_tcp self msgs = Some (int (length msgs), None, self\<lparr>s_sock := sk\<rparr>) \<and>
    tx sk = sent self @ concat (map frame fs) \<and> rx sk = rx (s_sock self)"
proof -
  obtain iov where i: "frame_iov msgs = Some (Some iov)" "concat iov = concat (map frame fs)"
    using frame_iov_carries [OF assms(1)] by blast
  have ne: "concat (map frame fs) \<noteq> []" using assms(2) by (cases fs) (auto simp: frame_def udp_header_def)
  obtain sk where "sock_send self (concat iov) = (int (length (concat iov)), self\<lparr>s_sock := sk\<rparr>)"
      "tx sk = sent self @ concat iov" "rx sk = rx (s_sock self)"
    using send_ok [of "concat iov" self] ne assms(3) i(2) by auto
  moreover have "\<not> int (length (concat iov)) \<le> 0" using ne i(2) by simp
  ultimately show ?thesis using i
    by (intro exI [of _ sk]) (simp add: hev_socks5_udp_sendmmsg_tcp_def sock_sendmsg_send)
qed

section \<open>Truncated and unrepresentable frames\<close>

lemma recv_truncated:
  assumes "rx (s_sock self) = [Chunk bs]" "0 < length bs" "length bs < 5" "bufs \<noteq> []"
  shows "hev_socks5_udp_recvmmsg_tcp self bufs nonblock =
    Some (int (length bs), None, bufs, self\<lparr>s_sock := (s_sock self)\<lparr>rx := []\<rparr>\<rparr>)"
  using assms
  by (cases bufs) (simp_all add: hev_socks5_udp_recvmmsg_tcp_def read_head_def sock_recv_flags_def sock_recv_def size_or_def)

lemma recv_bad_header:
  assumes "inp self = h @ ys" "length h = 5" "unat (h ! 2) < 5"
  shows "\<exists>e sk. hev_socks5_udp_recvmmsg_tcp self (buf # bufs) False = Some (- 1, e, buf # bufs, self\<lparr>s_sock := sk\<rparr>)"
proof -
  obtain e sk where "read_head self False = (5, e, h, self\<lparr>s_sock := sk\<rparr>)"
    using read_head_frame [OF assms(1,2), of False] by blast
  then show ?thesis using assms(3)
    by (intro exI [of _ None] exI [of _ sk]) (simp add: hev_socks5_udp_recvmmsg_tcp_def read_frame_def)
qed

section \<open>Properties of frames\<close>

text \<open>C16: Datagrams sent through the connection arrive unchanged: when the connection takes the
  bytes, \<open>hev_socks5_udp_sendmmsg_tcp\<close> reports that all messages are sent, and a peer whose input
  starts with these bytes, in whatever fragments and with whatever waits, receives the same number
  of messages with the same addresses and payloads, in order, and keeps the input that follows.\<close>

theorem udp_frames_roundtrip:
  assumes "list_all2 carries msgs fs" "fs \<noteq> []" "length (concat (map frame fs)) \<le> tx_room self"
    "list_all framable fs" "list_all2 fits bufs fs"
  shows "\<exists>bs self'. hev_socks5_udp_sendmmsg_tcp self msgs = Some (int (length msgs), None, self') \<and>
    sent self' = sent self @ bs \<and>
    (\<forall>peer ys. inp peer = bs @ ys \<longrightarrow>
      (\<exists>e bufs' sk. hev_socks5_udp_recvmmsg_tcp peer bufs False = Some (int (length msgs), e, bufs', peer\<lparr>s_sock := sk\<rparr>) \<and>
        (\<forall>i<length msgs. received (bufs ! i) (fs ! i) (bufs' ! i)) \<and> inp (peer\<lparr>s_sock := sk\<rparr>) = ys))"
proof -
  have len: "length bufs = length msgs" using assms(1,5) by (simp add: list_all2_lengthD)
  have "\<exists>e bufs' sk. hev_socks5_udp_recvmmsg_tcp peer bufs False = Some (int (length msgs), e, bufs', peer\<lparr>s_sock := sk\<rparr>) \<and>
      (\<forall>i<length msgs. received (bufs ! i) (fs ! i) (bufs' ! i)) \<and> inp (peer\<lparr>s_sock := sk\<rparr>) = ys"
    if "inp peer = concat (map frame fs) @ ys" for peer :: "'b HevSocks5_scheme" and ys
    using recv_all_frames [OF assms(5,4) that] unfolding len .
  moreover obtain sk where "hev_socks5_udp_sendmmsg_tcp self msgs = Some (int (length msgs), None, self\<lparr>s_sock := sk\<rparr>)"
      "tx sk = sent self @ concat (map frame fs)"
    using send_frames [OF assms(1-3)] by blast
  ultimately show ?thesis
    by (intro exI [of _ "concat (map frame fs)"] exI [of _ "self\<lparr>s_sock := sk\<rparr>"]) simp
qed

definition udp_session :: "HevSocks5Type \<Rightarrow> byte list \<Rightarrow> HevSocks5" where
  "udp_session type bs = \<lparr>s_fd = 5, s_timeout = 1000, s_type = type, s_udp_associated = False, s_family = FAMILY_UNSPEC,
     s_sock = \<lparr>rx = [Chunk bs], tx = [], txs = [Accept 1000]\<rparr>, s_open = [5]\<rparr>"

definition udp_msg :: "nat \<Rightarrow> HevSocks5UDPMsg" where
  "udp_msg n = \<lparr>m_mem = replicate n 0, m_addr = Uninit, m_off = 0, m_len = n\<rparr>"

theorem udp_frames_roundtrip_witness:
  "\<exists>bs self'. hev_socks5_udp_sendmmsg_tcp (udp_session TYPE_UDP_IN_TCP [])
      [\<lparr>o_addr = wire_ipv4 [1, 2, 3, 4] 80, o_data = [9, 8]\<rparr>] = Some (1, None, self') \<and>
    sent self' = [] @ bs \<and>
    (\<forall>peer ys. inp (peer :: HevSocks5) = bs @ ys \<longrightarrow>
      (\<exists>e bufs' sk. hev_socks5_udp_recvmmsg_tcp peer [udp_msg 20] False = Some (1, e, bufs', peer\<lparr>s_sock := sk\<rparr>) \<and>
        received (udp_msg 20) (wire_ipv4 [1, 2, 3, 4] 80, [9, 8]) (bufs' ! 0) \<and> inp (peer\<lparr>s_sock := sk\<rparr>) = ys))"
proof -
  have "wire_addr (wire_ipv4 [1, 2, 3, 4] 80)" by (simp add: wire_ipv4_addr)
  then show ?thesis
    using udp_frames_roundtrip [of "[\<lparr>o_addr = wire_ipv4 [1, 2, 3, 4] 80, o_data = [9, 8]\<rparr>]" "[(wire_ipv4 [1, 2, 3, 4] 80, [9, 8])]"
        "udp_session TYPE_UDP_IN_TCP []" "[udp_msg 20]", where 'b = unit]
    by (simp add: carries_def framable_def fits_def frame_def udp_session_def udp_msg_def tx_room_def)
qed

text \<open>A name of 249 to 253 bytes cannot be sent through the connection: \<open>hdrlen\<close> is a byte and
  \<open>3 + addrlen\<close> wraps around in it, so the sender reports success and the peer, which needs a
  header length of at least 5, fails with the frame's body still in its input.\<close>

theorem udp_long_name_lost:
  assumes "249 \<le> length name" "length name \<le> 253" "o_addr msg = wire_domain name port" "o_data msg = d"
    "7 + length name + length d \<le> tx_room self"
  shows "\<exists>bs self'. hev_socks5_udp_sendmmsg_tcp self [msg] = Some (1, None, self') \<and> sent self' = sent self @ bs \<and>
    (\<forall>peer ys. inp peer = bs @ ys \<longrightarrow>
      (\<exists>e sk. hev_socks5_udp_recvmmsg_tcp peer (buf # bufs) False = Some (- 1, e, buf # bufs, peer\<lparr>s_sock := sk\<rparr>)))"
proof -
  let ?f = "(wire_domain name port, d)"
  let ?h = "take 5 (frame ?f)"
  have "carries msg ?f" using assms wire_domain_addr [of name port] by (simp add: carries_def)
  then obtain sk where s: "hev_socks5_udp_sendmmsg_tcp self [msg] = Some (1, None, self\<lparr>s_sock := sk\<rparr>)"
      "tx sk = sent self @ frame ?f"
    using send_frames [of "[msg]" "[?f]" self] assms(5) by (auto simp: frame_def)
  have "(of_nat (length name + 7) :: byte) = of_nat (length name - 249)"
    using assms(1) by (simp add: word_of_nat_eq_iff take_bit_eq_mod; presburger)
  then have "frame ?f ! 2 = of_nat (length name - 249)"
    by (simp add: frame_def udp_header_def bytes16_def add.commute)
  moreover have "?h ! 2 = frame ?f ! 2" by (rule nth_take) simp
  ultimately have "unat (?h ! 2) < 5" using assms(2) unat_of_nat_byte [of "length name - 249"] by simp
  moreover have "length ?h = 5" by (simp add: frame_def)
  ultimately have "\<exists>e sk. hev_socks5_udp_recvmmsg_tcp peer (buf # bufs) False = Some (- 1, e, buf # bufs, peer\<lparr>s_sock := sk\<rparr>)"
    if "inp peer = frame ?f @ ys" for peer :: "'b HevSocks5_scheme" and ys
    using recv_bad_header [of peer ?h "drop 5 (frame ?f) @ ys" buf bufs] that by simp
  then show ?thesis using s
    by (intro exI [of _ "frame ?f"] exI [of _ "self\<lparr>s_sock := sk\<rparr>"]) simp
qed

theorem udp_long_name_lost_witness:
  "\<exists>bs self'. hev_socks5_udp_sendmmsg_tcp (udp_session TYPE_UDP_IN_TCP [])
      [\<lparr>o_addr = wire_domain (replicate 250 97) 80, o_data = [9]\<rparr>] = Some (1, None, self') \<and> sent self' = [] @ bs \<and>
    (\<forall>peer ys. inp (peer :: HevSocks5) = bs @ ys \<longrightarrow>
      (\<exists>e sk. hev_socks5_udp_recvmmsg_tcp peer [udp_msg 1500] False = Some (- 1, e, [udp_msg 1500], peer\<lparr>s_sock := sk\<rparr>)))"
  using udp_long_name_lost [of "replicate 250 97" "\<lparr>o_addr = wire_domain (replicate 250 97) 80, o_data = [9]\<rparr>" 80 "[9]"
      "udp_session TYPE_UDP_IN_TCP []" "udp_msg 1500" "[]", where 'b = unit]
  by (simp add: udp_session_def tx_room_def)

section \<open>Datagrams on the wire\<close>

text \<open>A buffer for a datagram of at least five bytes, which the header and the length byte of a
  name need.\<close>

definition buf_ok :: "HevSocks5UDPMsg \<Rightarrow> bool" where
  "buf_ok msg \<longleftrightarrow> 5 \<le> m_len msg \<and> m_off msg + m_len msg \<le> length (m_mem msg)"

text \<open>What the callers may rely on for a received datagram: it is discarded, or its address is the
  one that was parsed and its data lies inside of the buffer, behind the address.\<close>

definition parsed :: "HevSocks5UDPMsg \<Rightarrow> HevSocks5UDPMsg \<Rightarrow> bool" where
  "parsed msg msg' \<longleftrightarrow> m_addr msg' = Null \<and> m_len msg' = 0 \<or>
     (\<exists>l>0. m_addr msg' = At (m_off msg + 3) \<and> hev_socks5_addr_len (drop (m_off msg + 3) (m_mem msg')) = Some (int l) \<and>
       m_off msg' = m_off msg + 3 + l \<and> m_off msg' + m_len msg' \<le> m_off msg + m_len msg \<and>
       m_off msg + m_len msg \<le> length (m_mem msg'))"

lemma addr_len_total:
  assumes "2 \<le> length a"
  shows "\<exists>l. hev_socks5_addr_len a = Some l \<and> (0 < l \<or> l = - 1)"
  using assms by (auto simp: hev_socks5_addr_len_def bget_def add_pos_nonneg)

lemma fill_total:
  assumes "list_all buf_ok msgs" "length ds \<le> length msgs"
  shows "\<exists>msgs' ns. fill msgs ds = Some (msgs', ns) \<and> list_all2 (\<lambda>m m'. \<exists>mem. m' = m\<lparr>m_mem := mem\<rparr> \<and> buf_ok m') msgs msgs' \<and>
    list_all2 (\<lambda>m n. n \<le> m_len m) (take (length ds) msgs) ns"
  using assms
proof (induction msgs ds rule: fill.induct)
  case (1 msg msgs d ds)
  let ?n = "min (length d) (m_len msg)"
  have b: "buf_ok msg" using 1(2) by simp
  then have le: "m_off msg + length (take ?n d) \<le> length (m_mem msg)" by (auto simp: buf_ok_def)
  then have m: "mput (m_mem msg) (m_off msg) (take ?n d) = Some (overwrite (m_mem msg) (m_off msg) (take ?n d))"
    by (simp add: mput_def)
  have o: "buf_ok (msg\<lparr>m_mem := overwrite (m_mem msg) (m_off msg) (take ?n d)\<rparr>)"
    using b length_overwrite [OF le] by (simp add: buf_ok_def)
  obtain msgs' ns where "fill msgs ds = Some (msgs', ns)" "list_all2 (\<lambda>m m'. \<exists>mem. m' = m\<lparr>m_mem := mem\<rparr> \<and> buf_ok m') msgs msgs'"
      "list_all2 (\<lambda>m n. n \<le> m_len m) (take (length ds) msgs) ns"
    using 1(1) [OF refl] 1(2,3) m by auto
  then show ?case using m o by (auto simp: Let_def)
next
  case (2 msgs)
  have "\<exists>mem. m = m\<lparr>m_mem := mem\<rparr> \<and> buf_ok m" if "buf_ok m" for m
    using that by (intro exI [of _ "m_mem m"]) simp
  then show ?case using 2 by (auto simp: list_all2_same list_all_iff)
qed simp

lemma parse_lengths:
  "parse_datagrams msgs ns = Some (r, msgs') \<Longrightarrow> map (length \<circ> m_mem) msgs' = map (length \<circ> m_mem) msgs"
  by (induction msgs ns arbitrary: r msgs' rule: parse_datagrams.induct)
    (auto split: if_split_asm bind_split_asm)

lemma fill_lengths:
  "fill msgs ds = Some (msgs', ns) \<Longrightarrow> map (length \<circ> m_mem) msgs' = map (length \<circ> m_mem) msgs"
  by (induction msgs ds arbitrary: msgs' ns rule: fill.induct)
    (auto simp: mput_def Let_def split: if_split_asm bind_split_asm)

lemma recvmmsg_udp_lengths:
  "hev_socks5_udp_recvmmsg_udp conn self d msgs nonblock = Some (res, e, msgs', self', d') \<Longrightarrow>
   map (length \<circ> m_mem) msgs' = map (length \<circ> m_mem) msgs"
  by (auto simp: hev_socks5_udp_recvmmsg_udp_def dest!: parse_lengths fill_lengths split: prod.split_asm if_split_asm bind_split_asm)

lemma parse_total:
  assumes "list_all buf_ok msgs" "list_all2 (\<lambda>m n. n \<le> m_len m) (take (length ns) msgs) ns"
  shows "\<exists>r msgs'. parse_datagrams msgs ns = Some (r, msgs') \<and> (r = None \<or> r = Some (- 1)) \<and>
    (r = None \<longrightarrow> list_all2 parsed (take (length ns) msgs) (take (length ns) msgs'))"
  using assms
proof (induction msgs ns rule: parse_datagrams.induct)
  case (3 msg msgs n ns)
  have b: "buf_ok msg" "n \<le> m_len msg" using 3(3,4) by simp_all
  then have "2 \<le> length (drop (m_off msg + 3) (m_mem msg))" by (simp add: buf_ok_def) arith
  then obtain l where l: "hev_socks5_addr_len (drop (m_off msg + 3) (m_mem msg)) = Some l" "0 < l \<or> l = - 1"
    using addr_len_total by blast
  have p: "parsed msg (msg\<lparr>m_addr := Null, m_len := 0\<rparr>)" by (simp add: parsed_def)
  have q: "parsed msg (msg\<lparr>m_addr := At (m_off msg + 3), m_off := m_off msg + nat (3 + l), m_len := n - nat (3 + l)\<rparr>)"
    if "0 < l" "3 + l \<le> int n"
    unfolding parsed_def using that b l by (intro disjI2 exI [of _ "nat l"]) (simp add: buf_ok_def)
  consider "n < 4" | "\<not> n < 4" "l \<le> 0 \<or> int n < 3 + l" | "\<not> n < 4" "0 < l" "3 + l \<le> int n" by linarith
  then show ?case
  proof cases
    case 1
    then show ?thesis using 3(1) [OF l(1)] 3(3,4) l(1) p by auto
  next
    case 2
    then show ?thesis using l(1) by auto
  next
    case 3
    then show ?thesis using "3.IH"(2) [OF l(1)] "3.prems" l(1) q by auto
  qed
qed auto

lemma recvmmsg_udp_total:
  assumes "list_all buf_ok msgs"
  shows "\<exists>res e msgs' self' d'. hev_socks5_udp_recvmmsg_udp conn self d msgs nonblock = Some (res, e, msgs', self', d') \<and>
    res \<le> int (length msgs) \<and> (0 < res \<longrightarrow> list_all2 parsed (take (nat res) msgs) (take (nat res) msgs'))"
proof -
  obtain res e ds self1 d1 where r: "dsock_recv self d (length msgs) nonblock = (res, e, ds, self1, d1)"
    by (metis prod_cases5)
  have c: "length ds \<le> length msgs" "0 < res \<longrightarrow> nat res = length ds"
    using recvmmsg_count [where yielder = "task_io_yielder HEV_TASK_WAITIO" and dontwait = nonblock and n = "length msgs"
        and s = self and evs = "d_rx d"] r
    by (auto simp: dsock_recv_def split: prod.splits)
  show ?thesis
  proof (cases "0 < res")
    case True
    obtain msgs1 ns where f: "fill msgs (map snd ds) = Some (msgs1, ns)"
        "list_all2 (\<lambda>m m'. \<exists>mem. m' = m\<lparr>m_mem := mem\<rparr> \<and> buf_ok m') msgs msgs1"
        "list_all2 (\<lambda>m n. n \<le> m_len m) (take (length ds) msgs) ns"
      using fill_total [OF assms, of "map snd ds"] c(1) by auto
    have n: "length ns = length ds" "length msgs1 = length msgs"
      using f(2,3) c(1) by (simp_all add: list_all2_lengthD [symmetric])
    have same: "m_len (msgs1 ! i) = m_len (msgs ! i) \<and> m_off (msgs1 ! i) = m_off (msgs ! i)" if "i < length msgs" for i
      using list_all2_nthD [OF f(2) that] by auto
    have b: "list_all buf_ok msgs1" using f(2) by (auto simp: list_all2_conv_all_nth list_all_length)
    have "list_all2 (\<lambda>m n. n \<le> m_len m) (take (length ns) msgs1) ns"
      using f(3) n c(1) same by (auto simp: list_all2_conv_all_nth)
    then obtain rr msgs2 where p: "parse_datagrams msgs1 ns = Some (rr, msgs2)" "rr = None \<or> rr = Some (- 1)"
        "rr = None \<longrightarrow> list_all2 parsed (take (length ns) msgs1) (take (length ns) msgs2)"
      using parse_total [OF b] by blast
    have "list_all2 parsed (take (nat res) msgs) (take (nat res) msgs2)" if "rr = None"
      using p(3) that n c True same by (auto simp: list_all2_conv_all_nth parsed_def)
    then show ?thesis using r f(1) p True c by (auto simp: hev_socks5_udp_recvmmsg_udp_def)
  qed (use r in \<open>auto simp: hev_socks5_udp_recvmmsg_udp_def\<close>)
qed

text \<open>The datagram of an address and a payload, and the buffer that has received it.\<close>

definition datagram :: "byte list \<times> byte list \<Rightarrow> byte list" where
  "datagram f = [0, 0, 0] @ fst f @ snd f"

definition fits_datagram :: "HevSocks5UDPMsg \<Rightarrow> byte list \<times> byte list \<Rightarrow> bool" where
  "fits_datagram msg f \<longleftrightarrow> wire_addr (fst f) \<and> length (datagram f) \<le> m_len msg \<and> m_off msg + m_len msg \<le> length (m_mem msg)"

definition dgram_msg :: "HevSocks5UDPMsg \<Rightarrow> byte list \<times> byte list \<Rightarrow> HevSocks5UDPMsg" where
  "dgram_msg msg f = msg\<lparr>m_mem := overwrite (m_mem msg) (m_off msg) (datagram f), m_addr := At (m_off msg + 3),
     m_off := m_off msg + 3 + length (fst f), m_len := length (snd f)\<rparr>"

lemma datagrams_carries: "list_all2 carries msgs fs \<Longrightarrow> datagrams msgs = Some (Some (map datagram fs))"
proof (induction msgs fs rule: list_all2_induct)
  case (Cons msg msgs f fs)
  then obtain rest where a: "wire_addr (fst f)" "o_addr msg = fst f @ rest" "o_data msg = snd f"
    by (auto simp: carries_def)
  have "hev_socks5_addr_len (o_addr msg) = Some (int (length (fst f)))" "length (fst f) \<noteq> 0"
    using addr_len_wire_addr [OF a(1), of rest] a(2) wire_addr_length [OF a(1)] by auto
  then show ?case using Cons.IH a(2,3) by (simp add: mget_def datagram_def)
qed simp

lemma fill_datagrams:
  "list_all2 fits_datagram bufs fs \<Longrightarrow>
   fill bufs (map datagram fs) =
     Some (map2 (\<lambda>m f. m\<lparr>m_mem := overwrite (m_mem m) (m_off m) (datagram f)\<rparr>) bufs fs, map (length \<circ> datagram) fs)"
  by (induction bufs fs rule: list_all2_induct) (auto simp: fits_datagram_def mput_def Let_def)

lemma addr_len_datagram:
  assumes "fits_datagram msg f"
  shows "hev_socks5_addr_len (drop (m_off msg + 3) (overwrite (m_mem msg) (m_off msg) (datagram f))) = Some (int (length (fst f)))"
proof -
  have "drop (m_off msg + 3) (overwrite (m_mem msg) (m_off msg) (datagram f)) =
      fst f @ snd f @ drop (m_off msg + length (datagram f)) (m_mem msg)"
    using assms by (simp add: overwrite_def fits_datagram_def datagram_def)
  then show ?thesis using assms addr_len_wire_addr by (simp add: fits_datagram_def)
qed

lemma parse_filled:
  "list_all2 fits_datagram bufs fs \<Longrightarrow>
   parse_datagrams (map2 (\<lambda>m f. m\<lparr>m_mem := overwrite (m_mem m) (m_off m) (datagram f)\<rparr>) bufs fs) (map (length \<circ> datagram) fs) =
     Some (None, map2 dgram_msg bufs fs)"
proof (induction bufs fs rule: list_all2_induct)
  case (Cons msg msgs f fs)
  then show ?case using addr_len_datagram [OF Cons.hyps(1)] wire_addr_length [of "fst f"]
    by (auto simp: fits_datagram_def datagram_def dgram_msg_def add.commute)
qed simp

section \<open>Properties of datagrams\<close>

text \<open>Datagrams over the datagram socket arrive unchanged: when the kernel takes them,
  \<open>hev_socks5_udp_sendmmsg_udp\<close> sends one datagram per message and returns their number, and a peer
  that finds these datagrams in its socket gets the same addresses and payloads in the same order
  and remembers that it is associated with the sender.\<close>

theorem udp_datagrams_roundtrip:
  assumes "list_all2 carries msgs fs" "fs \<noteq> []" "d_txs d = Accept k # evs" "length fs \<le> k"
    "list_all2 fits_datagram bufs fs" "d_rx p = Batch (map (Pair from) (map datagram fs)) # evs'"
    "s_udp_associated peer \<or> 0 \<le> conn from"
  shows "\<exists>d' p'. hev_socks5_udp_sendmmsg_udp self d msgs = Some (int (length msgs), None, self, d') \<and>
      d_tx d' = d_tx d @ map (Pair None) (map datagram fs) \<and>
      hev_socks5_udp_recvmmsg_udp conn peer p bufs True =
        Some (int (length msgs), None, map2 dgram_msg bufs fs, peer\<lparr>s_udp_associated := True\<rparr>, p') \<and> d_rx p' = evs'"
proof -
  have l: "length msgs = length fs" "length bufs = length fs" using assms(1,5) by (simp_all add: list_all2_lengthD)
  have "hev_socks5_udp_sendmmsg_udp self d msgs = Some (int (length msgs), None, self,
      d\<lparr>d_tx := d_tx d @ map (Pair None) (map datagram fs), d_txs := if length fs < k then Accept (k - length fs) # evs else evs\<rparr>)"
    using assms(2-4) l by (simp add: hev_socks5_udp_sendmmsg_udp_def datagrams_carries [OF assms(1)] dsock_send_def Let_def)
  moreover have "hev_socks5_udp_recvmmsg_udp conn peer p bufs True =
      Some (int (length msgs), None, map2 dgram_msg bufs fs, peer\<lparr>s_udp_associated := True\<rparr>, p\<lparr>d_rx := evs'\<rparr>)"
    using assms(2,6,7) l fill_datagrams [OF assms(5)] parse_filled [OF assms(5)]
    by (cases fs) (auto simp: hev_socks5_udp_recvmmsg_udp_def dsock_recv_def Let_def comp_def)
  ultimately show ?thesis
    by (intro exI [of _ "d\<lparr>d_tx := d_tx d @ map (Pair None) (map datagram fs),
        d_txs := if length fs < k then Accept (k - length fs) # evs else evs\<rparr>"] exI [of _ "p\<lparr>d_rx := evs'\<rparr>"]) simp
qed

definition sa0 :: sockaddr_in6 where
  "sa0 = \<lparr>sin6_port = 80, sin6_addr = replicate 16 1\<rparr>"

theorem udp_datagrams_roundtrip_witness:
  "\<exists>d' p'. hev_socks5_udp_sendmmsg_udp (udp_session TYPE_UDP_IN_UDP []) \<lparr>d_rx = [], d_tx = [], d_txs = [Accept 3]\<rparr>
      [\<lparr>o_addr = wire_ipv4 [1, 2, 3, 4] 80, o_data = [9, 8]\<rparr>] = Some (1, None, udp_session TYPE_UDP_IN_UDP [], d') \<and>
    d_tx d' = [(None, datagram (wire_ipv4 [1, 2, 3, 4] 80, [9, 8]))] \<and>
    hev_socks5_udp_recvmmsg_udp (\<lambda>_. 0) (udp_session TYPE_UDP_IN_UDP [])
      \<lparr>d_rx = [Batch [(sa0, datagram (wire_ipv4 [1, 2, 3, 4] 80, [9, 8]))]], d_tx = [], d_txs = []\<rparr> [udp_msg 20] True =
      Some (1, None, [dgram_msg (udp_msg 20) (wire_ipv4 [1, 2, 3, 4] 80, [9, 8])],
        (udp_session TYPE_UDP_IN_UDP [])\<lparr>s_udp_associated := True\<rparr>, p') \<and> d_rx p' = []"
  using udp_datagrams_roundtrip [of "[\<lparr>o_addr = wire_ipv4 [1, 2, 3, 4] 80, o_data = [9, 8]\<rparr>]" "[(wire_ipv4 [1, 2, 3, 4] 80, [9, 8])]"
      "\<lparr>d_rx = [], d_tx = [], d_txs = [Accept 3]\<rparr>" 3 "[]" "[udp_msg 20]"
      "\<lparr>d_rx = [Batch [(sa0, datagram (wire_ipv4 [1, 2, 3, 4] 80, [9, 8]))]], d_tx = [], d_txs = []\<rparr>" sa0 "[]"
      "udp_session TYPE_UDP_IN_UDP []" "\<lambda>_. 0" "udp_session TYPE_UDP_IN_UDP []"] wire_ipv4_addr [of "[1, 2, 3, 4]" 80]
  by (simp add: carries_def fits_datagram_def udp_msg_def datagram_def)

text \<open>C33: Whatever datagrams arrive, \<open>hev_socks5_udp_recvmmsg_udp\<close> stays inside of its buffers (of at
  least five bytes) and returns at most as many messages as it has buffers; each of them is
  marked as discarded, or its address is well-formed and its data ends inside of its buffer.\<close>

theorem udp_datagrams_in_bounds:
  assumes "list_all buf_ok msgs"
  shows "\<exists>res e msgs' self' d'. hev_socks5_udp_recvmmsg_udp conn self d msgs nonblock = Some (res, e, msgs', self', d') \<and>
    res \<le> int (length msgs) \<and> (0 < res \<longrightarrow> list_all2 parsed (take (nat res) msgs) (take (nat res) msgs'))"
  using recvmmsg_udp_total [OF assms] .

theorem udp_datagrams_in_bounds_witness:
  "\<exists>res e msgs' self' d'. hev_socks5_udp_recvmmsg_udp (\<lambda>_. 0) (udp_session TYPE_UDP_IN_UDP [])
      \<lparr>d_rx = [Batch [(sa0, [0, 0, 0, 3, 200, 1])]], d_tx = [], d_txs = []\<rparr> [udp_msg 1500] True = Some (res, e, msgs', self', d') \<and>
    res \<le> 1 \<and> (0 < res \<longrightarrow> list_all2 parsed (take (nat res) [udp_msg 1500]) (take (nat res) msgs'))"
  using udp_datagrams_in_bounds [of "[udp_msg 1500]" "\<lambda>_. 0" "udp_session TYPE_UDP_IN_UDP []"
      "\<lparr>d_rx = [Batch [(sa0, [0, 0, 0, 3, 200, 1])]], d_tx = [], d_txs = []\<rparr>" True]
  by (simp add: buf_ok_def udp_msg_def)

end
