(* ===== verification/Socks5UDPSplice.thy ===== *)
theory Socks5UDPSplice
  imports Socks5UDP
begin

unbundle bit_operations_syntax

text \<open>
  The relay of datagrams between a session and a plain datagram socket: \<open>fwd_f\<close>, \<open>fwd_b\<close> and
  the splicer of \<open>core/src/hev-socks5-udp.c\<close>. An access to uninitialised memory or outside of a
  buffer is \<^term>\<open>None\<close>. Registering the descriptors with the poller has no result the code uses
  and is left out.
\<close>

section \<open>State\<close>

definition UDP_BUF_SIZE :: nat where "UDP_BUF_SIZE = 1500"

text \<open>The session with its connection, its datagram socket (for \<open>UDP_IN_UDP\<close>), the plain socket
  \<open>fd_b\<close>, the receive buffers and the flag \<open>bind\<close>.\<close>

record 'a splice =
  sp_self :: "'a HevSocks5_scheme"
  sp_dsock :: dsock
  sp_peer :: dsock
  sp_buf :: "byte list list"
  sp_bind :: bool

text \<open>What comes from outside: name resolution, the answers of \<open>connect\<close> and of the binder of
  the session's class, whether \<open>errno\<close> happens to be \<open>EAGAIN\<close> where a call leaves it alone,
  and how much time is left after the n-th wait.\<close>

record splice_env =
  e_rs :: resolver
  e_conn :: "sockaddr_in6 \<Rightarrow> int"
  e_bind :: "sockaddr_in6 \<Rightarrow> int"
  e_stale :: "nat \<Rightarrow> bool"
  e_left :: "nat \<Rightarrow> int"

definition fwd_result :: "bool \<Rightarrow> int \<Rightarrow> errno_set \<Rightarrow> int" where
  "fwd_result stale res e =
     (if res \<le> 0 then if res = - 1 \<and> is_eagain stale e then 0 else - 1 else 1)"

section \<open>Forwarding\<close>

text \<open>The loop over the first messages that computes where they go; the inner \<^term>\<open>None\<close> is the
  error return.\<close>

fun fwd_dests ::
  "resolver \<Rightarrow> HevSocks5AddrFamily \<Rightarrow> HevSocks5UDPMsg list \<Rightarrow> nat \<Rightarrow> (sockaddr_in6 \<times> byte list) list option option" where
  "fwd_dests rs family msgs 0 = Some (Some [])"
| "fwd_dests rs family [] (Suc n) = None"
| "fwd_dests rs family (msg # msgs) (Suc n) =
     (if m_len msg = 0 then Some None
      else case m_addr msg of
        Uninit \<Rightarrow> None
      | Null \<Rightarrow> Some None
      | At a \<Rightarrow> do {
          (sa, _, ret) \<leftarrow> hev_socks5_addr_into_sockaddr6 rs (drop a (m_mem msg))
            \<lparr>sin6_port = 0, sin6_addr = replicate 16 0\<rparr> family;
          if ret < 0 then Some None
          else do {
            data \<leftarrow> mget (m_mem msg) (m_off msg) (m_len msg);
            rest \<leftarrow> fwd_dests rs family msgs n;
            Some (map_option (Cons (sa, data)) rest) } })"

definition svec :: "byte list list \<Rightarrow> HevSocks5UDPMsg list" where
  "svec bufs = map (\<lambda>mem. \<lparr>m_mem = mem, m_addr = Uninit, m_off = 0, m_len = UDP_BUF_SIZE\<rparr>) bufs"

definition hev_socks5_udp_fwd_f :: "splice_env \<Rightarrow> bool \<Rightarrow> 'a splice \<Rightarrow> (int \<times> 'a splice) option" where
  "hev_socks5_udp_fwd_f env stale st = do {
     (res, e, msgs, self, d) \<leftarrow>
       hev_socks5_udp_recvmmsg (e_conn env) (sp_self st) (sp_dsock st) (svec (sp_buf st)) True;
     let st = st\<lparr>sp_self := self, sp_dsock := d, sp_buf := map m_mem msgs\<rparr>;
     if 0 < res then do {
       dests \<leftarrow> fwd_dests (e_rs env) (s_family self) msgs (nat res);
       case dests of
         None \<Rightarrow> Some (- 1, st)
       | Some dvec \<Rightarrow>
           if \<not> sp_bind st \<and> e_bind env (fst (hd dvec)) < 0 then Some (- 1, st)
           else (case dsock_send self (sp_peer st) (map (\<lambda>(sa, data). (Some sa, data)) dvec) of (res, self, peer) \<Rightarrow>
             Some (fwd_result stale res (if res = - 1 then Some EOTHER else None),
               st\<lparr>sp_self := self, sp_peer := peer, sp_bind := True\<rparr>)) }
     else Some (fwd_result stale res e, st) }"

text \<open>The datagrams that came back, cut to the size of the buffers, with their senders.\<close>

fun bwd_msgs :: "(sockaddr_in6 \<times> byte list) list \<Rightarrow> udp_out list option" where
  "bwd_msgs [] = Some []"
| "bwd_msgs ((sa, data) # ds) = do {
     (addr, _) \<leftarrow> hev_socks5_addr_from_sockaddr6 (replicate 19 0) sa;
     msgs \<leftarrow> bwd_msgs ds;
     Some (\<lparr>o_addr = addr, o_data = take UDP_BUF_SIZE data\<rparr> # msgs) }"

definition hev_socks5_udp_fwd_b :: "bool \<Rightarrow> 'a splice \<Rightarrow> (int \<times> 'a splice) option" where
  "hev_socks5_udp_fwd_b stale st =
     (case dsock_recv (sp_self st) (sp_peer st) (length (sp_buf st)) True of (res, e, ds, self, peer) \<Rightarrow>
        let st = st\<lparr>sp_self := self, sp_peer := peer\<rparr> in
        if 0 < res then do {
          dvec \<leftarrow> bwd_msgs ds;
          (res, e, self, d) \<leftarrow> hev_socks5_udp_sendmmsg self (sp_dsock st) dvec;
          Some (fwd_result stale res e, st\<lparr>sp_self := self, sp_dsock := d\<rparr>) }
        else Some (fwd_result stale res e, st))"

section \<open>The splicer\<close>

definition splice_step ::
  "splice_env \<Rightarrow> nat \<Rightarrow> int \<Rightarrow> int \<Rightarrow> 'a splice \<Rightarrow> (int \<times> int \<times> 'a splice) option" where
  "splice_step env i res_f res_b st = do {
     (res_f, st) \<leftarrow> (if 0 \<le> res_f then hev_socks5_udp_fwd_f env (e_stale env (2 * i)) st else Some (res_f, st));
     (res_b, st) \<leftarrow> (if 0 \<le> res_b then hev_socks5_udp_fwd_b (e_stale env (2 * i + 1)) st else Some (res_b, st));
     Some (res_f, res_b, st) }"

text \<open>The loop, with fuel: the inner \<^term>\<open>None\<close> says that it has not ended yet.\<close>

fun splicer_loop ::
  "splice_env \<Rightarrow> nat \<Rightarrow> nat \<Rightarrow> int \<Rightarrow> int \<Rightarrow> 'a splice \<Rightarrow> 'a splice option option" where
  "splicer_loop env 0 i res_f res_b st = Some None"
| "splicer_loop env (Suc fuel) i res_f res_b st = do {
     (res_f, res_b, st) \<leftarrow> splice_step env i res_f res_b st;
     if \<not> (0 < res_f \<or> 0 < res_b) \<and> res_f AND res_b \<noteq> 0 then Some (Some st)
     else (case task_io_yielder (if 0 < res_f \<or> 0 < res_b then HEV_TASK_YIELD else HEV_TASK_WAITIO)
             (sp_self st) (e_left env i) of (stop, self) \<Rightarrow>
       if stop \<noteq> 0 then Some (Some (st\<lparr>sp_self := self\<rparr>))
       else splicer_loop env fuel (i + 1) res_f res_b (st\<lparr>sp_self := self\<rparr>)) }"

text \<open>\<open>buf\<close> is the answer of \<open>hev_malloc\<close>: the receive buffers, whatever they hold.\<close>

definition hev_socks5_udp_splicer ::
  "splice_env \<Rightarrow> nat \<Rightarrow> byte list list option \<Rightarrow> 'a HevSocks5_scheme \<Rightarrow> dsock \<Rightarrow> dsock \<Rightarrow> (int \<times> 'a splice option) option option" where
  "hev_socks5_udp_splicer env fuel buf self d peer =
     (case buf of
        None \<Rightarrow> Some (Some (- 1, None))
      | Some buf \<Rightarrow>
          map_option (map_option (\<lambda>st. (0, Some st)))
            (splicer_loop env fuel 0 1 1 \<lparr>sp_self = self, sp_dsock = d, sp_peer = peer, sp_buf = buf, sp_bind = False\<rparr>))"

section \<open>Progress\<close>

text \<open>Every call that does not fail for good uses up a part of what the kernel will answer. The
  relation says that a step keeps the kind of the session and reads no more than there is.\<close>

abbreviation conn_size :: "'a HevSocks5_scheme \<Rightarrow> nat" where
  "conn_size self \<equiv> rx_size (rx (s_sock self))"

definition moves :: "'a HevSocks5_scheme \<Rightarrow> 'a HevSocks5_scheme \<Rightarrow> bool" where
  "moves self self' \<longleftrightarrow> s_type self' = s_type self \<and> conn_size self' \<le> conn_size self"

lemma moves_refl [simp]: "moves self self"
  by (simp add: moves_def)

lemma moves_trans: "moves a b \<Longrightarrow> moves b c \<Longrightarrow> moves a c"
  by (simp add: moves_def)

lemma recv_size:
  "case hev_task_io_socket_recv yielder waitall dontwait len buf evs of (res, buf', evs') \<Rightarrow>
    rx_size evs' \<le> rx_size evs \<and> (\<not> waitall \<and> res \<noteq> 0 \<longrightarrow> rx_size evs' < rx_size evs)"
proof (induction yielder waitall dontwait len buf evs rule: hev_task_io_socket_recv.induct)
  case (4 yielder waitall dontwait len buf bs evs)
  let ?n = "min (len - length buf) (length bs)"
  let ?rest = "if ?n < length bs then Chunk (drop ?n bs) # evs else evs"
  have "rx_size ?rest \<le> rx_size (Chunk bs # evs)" "?n \<noteq> 0 \<longrightarrow> rx_size ?rest < rx_size (Chunk bs # evs)" by auto
  then show ?case using 4 [OF refl refl refl] by (auto simp: Let_def split: prod.splits)
qed (auto split: prod.splits)

lemma sock_recv_moves:
  "case sock_recv self n of (res, buf, self') \<Rightarrow> moves self self'"
  using recv_size [of "rx (s_sock self)" True "session_yielder self" False n "[]"]
  by (simp add: sock_recv_def moves_def split: prod.splits)

lemma recv_flags_moves:
  "case sock_recv_flags self dontwait n of (res, e, buf, self') \<Rightarrow>
    moves self self' \<and> (res \<noteq> 0 \<longrightarrow> conn_size self' < conn_size self)"
  using recv_size [of "rx (s_sock self)" False "session_yielder self" dontwait n "[]"]
  by (simp add: sock_recv_flags_def moves_def case_prod_beta)

lemma recvmsg_moves:
  "case sock_recvmsg self iov of (res, buf, self') \<Rightarrow> moves self self'"
  using recv_size [of "rx (s_sock self)" True "session_yielder self" False "sum_list iov" "[]"]
  by (simp add: sock_recvmsg_def recvmsg_is_recv moves_def split: prod.splits)

lemma read_head_moves:
  "case read_head self nonblock of (res, e, udp, self') \<Rightarrow>
    moves self self' \<and> (res \<noteq> 0 \<longrightarrow> conn_size self' < conn_size self)"
proof -
  obtain res e udp self1 where r: "sock_recv_flags self nonblock 5 = (res, e, udp, self1)" by (metis prod_cases4)
  have m: "moves self self1" "res \<noteq> 0 \<longrightarrow> conn_size self1 < conn_size self"
    using recv_flags_moves [of self nonblock 5] r by simp_all
  show ?thesis using r m sock_recv_moves [of self1 "5 - nat res"]
    by (auto simp: read_head_def moves_def split: prod.splits)
qed

lemma read_frame_moves:
  "read_frame self msg udp = Some (ret, msg', self') \<Longrightarrow> moves self self'"
  using recvmsg_moves [of self "[unat (udp ! 2) - 3 - 2, unat (ntohs (the (load16 udp 0)))]"]
  by (auto simp: read_frame_def Let_def split: if_split_asm prod.splits bind_split_asm)

lemma recvmmsg_tcp_moves:
  "recvmmsg_tcp_loop self msgs rlen nonblock = Some (res, e, msgs', self') \<Longrightarrow>
   moves self self' \<and> (res \<noteq> int rlen \<longrightarrow> conn_size self' < conn_size self)"
proof (induction msgs arbitrary: self rlen res e msgs' self')
  case (Cons msg msgs)
  obtain hres he udp self1 where h: "read_head self nonblock = (hres, he, udp, self1)" by (metis prod_cases4)
  have m: "moves self self1" "hres \<noteq> 0 \<longrightarrow> conn_size self1 < conn_size self"
    using read_head_moves [of self nonblock] h by simp_all
  show ?case
  proof (cases "hres = 5")
    case True
    then obtain ret msg1 self2 where f: "read_frame self1 msg udp = Some (ret, msg1, self2)"
      using Cons.prems h by (auto split: bind_split_asm)
    have m2: "moves self self2" "conn_size self2 < conn_size self"
      using read_frame_moves [OF f] m True by (auto simp: moves_def)
    show ?thesis
    proof (cases ret)
      case None
      then obtain msgs2 where "recvmmsg_tcp_loop self2 msgs (rlen + 1) nonblock = Some (res, e, msgs2, self')"
        using Cons.prems h True f by (auto split: bind_split_asm)
      then show ?thesis using Cons.IH m2 by (fastforce simp: moves_def)
    next
      case (Some x)
      then show ?thesis using Cons.prems h True f m2 by (cases x) auto
    qed
  next
    case False
    then show ?thesis using Cons.prems h m by (auto split: if_split_asm)
  qed
qed simp

text \<open>The yielder only reads, and so do the calls that use it.\<close>

lemma recv_closed_size: "rx_size (snd (recv_closed evs)) \<le> rx_size evs"
  by (cases evs rule: recv_closed.cases) auto

lemma yielder_moves: "task_io_yielder type self left = (stop, self') \<Longrightarrow> moves self self'"
  using recv_closed_size [of "rx (s_sock self)"]
  by (auto simp: task_io_yielder_def moves_def hev_socks5_set_timeout_def Let_def split: prod.split_asm if_split_asm)

lemma sendmmsg_moves:
  assumes "\<And>s left. moves s (snd (yielder s left))"
  shows "case hev_task_io_socket_sendmmsg yielder waitall dontwait ds s c out evs of (res, s', out', evs') \<Rightarrow> moves s s'"
  using assms
proof (induction yielder waitall dontwait ds s c out evs rule: hev_task_io_socket_sendmmsg.induct)
  case (3 yielder waitall dontwait ds s c out left evs)
  obtain stop s1 where y: "yielder s left = (stop, s1)" by (metis surj_pair)
  have m: "moves s s1" using 3(2) [of s left] y by simp
  show ?case
  proof (cases "dontwait \<or> stop \<noteq> 0")
    case True
    then show ?thesis using m y by auto
  next
    case False
    then have "case hev_task_io_socket_sendmmsg yielder waitall dontwait ds s1 c out evs of (res, s', out', evs') \<Rightarrow> moves s1 s'"
      using 3(1) [OF _ y [symmetric]] 3(2) by simp
    then show ?thesis using False y m by (auto dest: moves_trans split: prod.splits)
  qed
next
  case (4 yielder waitall dontwait ds s c out k evs)
  then show ?case by (auto simp: Let_def)
qed auto

lemma dsock_send_moves:
  "dsock_send self d ds = (res, self', d') \<Longrightarrow> moves self self' \<and> d_rx d' = d_rx d"
proof -
  have "moves s (snd (task_io_yielder HEV_TASK_WAITIO s left))" for s :: "'a HevSocks5_scheme" and left
    using yielder_moves [of HEV_TASK_WAITIO s left] by (metis prod.collapse)
  then show "dsock_send self d ds = (res, self', d') \<Longrightarrow> moves self self' \<and> d_rx d' = d_rx d"
    using sendmmsg_moves [of "task_io_yielder HEV_TASK_WAITIO" self True False ds 0 "d_tx d" "d_txs d"]
    by (auto simp: dsock_send_def split: prod.split_asm)
qed

lemma dsock_recv_size:
  "dsock_recv self d n True = (res, e, ds, self', d') \<Longrightarrow>
    self' = self \<and> batch_size (d_rx d') \<le> batch_size (d_rx d) \<and>
    (0 < res \<or> res = - 1 \<and> is_eagain stale e \<longrightarrow> batch_size (d_rx d') < batch_size (d_rx d))"
  by (auto simp: dsock_recv_def recvmmsg_dontwait is_eagain_def split: list.split_asm batch_event.split_asm)

lemma send_tcp_moves:
  "hev_socks5_udp_sendmmsg_tcp self msgs = Some (res, e, self') \<Longrightarrow> moves self self'"
proof -
  have "moves self (snd (sock_sendmsg self iov))" for iov
    using send_sock [of self "concat iov"] by (auto simp: sock_sendmsg_send moves_def)
  then show "hev_socks5_udp_sendmmsg_tcp self msgs = Some (res, e, self') \<Longrightarrow> moves self self'"
    by (auto simp: hev_socks5_udp_sendmmsg_tcp_def case_prod_beta split: bind_split_asm option.split_asm if_split_asm)
qed

lemma sendmmsg_udp_moves:
  "hev_socks5_udp_sendmmsg_udp self d msgs = Some (res, e, self', d') \<Longrightarrow> moves self self' \<and> d_rx d' = d_rx d"
  by (auto simp: hev_socks5_udp_sendmmsg_udp_def dest: dsock_send_moves split: bind_split_asm option.split_asm prod.split_asm)

lemma sendmmsg_both_moves:
  "hev_socks5_udp_sendmmsg self d msgs = Some (res, e, self', d') \<Longrightarrow> moves self self' \<and> d_rx d' = d_rx d"
  by (auto simp: hev_socks5_udp_sendmmsg_def dest: send_tcp_moves sendmmsg_udp_moves split: HevSocks5Type.split_asm)

text \<open>What is left to read: it shrinks with every call that does not fail for good.\<close>

definition to_read :: "'a splice \<Rightarrow> nat" where
  "to_read st = conn_size (sp_self st) + batch_size (d_rx (sp_dsock st)) + batch_size (d_rx (sp_peer st))"

lemma recvmmsg_both_size:
  assumes "hev_socks5_udp_recvmmsg conn self d msgs True = Some (res, e, msgs', self', d')"
    "s_type self = TYPE_UDP_IN_TCP \<or> s_type self = TYPE_UDP_IN_UDP"
  shows "moves self self' \<and> batch_size (d_rx d') \<le> batch_size (d_rx d) \<and>
    (0 < res \<or> res = - 1 \<and> is_eagain stale e \<longrightarrow>
      conn_size self' + batch_size (d_rx d') < conn_size self + batch_size (d_rx d))"
  using assms(2)
proof
  assume t: "s_type self = TYPE_UDP_IN_TCP"
  then have "recvmmsg_tcp_loop self msgs 0 True = Some (res, e, msgs', self')" "d' = d"
    using assms(1) by (auto simp: hev_socks5_udp_recvmmsg_def hev_socks5_udp_recvmmsg_tcp_def)
  then show ?thesis using recvmmsg_tcp_moves [of self msgs 0 True] by fastforce
next
  assume t: "s_type self = TYPE_UDP_IN_UDP"
  obtain r re ds self1 d1 where r: "dsock_recv self d (length msgs) True = (r, re, ds, self1, d1)" by (metis prod_cases5)
  have "d' = d1" "moves self self'" "s_sock self' = s_sock self" "0 < r \<or> res = r \<and> e = re"
    using assms(1) t r dsock_recv_size [OF r]
    by (auto simp: hev_socks5_udp_recvmmsg_def hev_socks5_udp_recvmmsg_udp_def moves_def
        split: if_split_asm bind_split_asm)
  then show ?thesis using dsock_recv_size [OF r, of stale] by auto
qed

lemma fwd_f_reads:
  assumes "hev_socks5_udp_fwd_f env stale st = Some (res, st')"
    "s_type (sp_self st) = TYPE_UDP_IN_TCP \<or> s_type (sp_self st) = TYPE_UDP_IN_UDP"
  shows "s_type (sp_self st') = s_type (sp_self st) \<and> to_read st' \<le> to_read st \<and> (0 \<le> res \<longrightarrow> to_read st' < to_read st) \<and>
    res \<in> {- 1, 0, 1}"
proof -
  obtain r e msgs self d where r: "hev_socks5_udp_recvmmsg (e_conn env) (sp_self st) (sp_dsock st) (svec (sp_buf st)) True =
      Some (r, e, msgs, self, d)"
    using assms(1) by (auto simp: hev_socks5_udp_fwd_f_def split: bind_split_asm)
  have m: "moves (sp_self st) self" "batch_size (d_rx d) \<le> batch_size (d_rx (sp_dsock st))"
      "0 < r \<or> r = - 1 \<and> is_eagain stale e \<longrightarrow>
       conn_size self + batch_size (d_rx d) < conn_size (sp_self st) + batch_size (d_rx (sp_dsock st))"
    using recvmmsg_both_size [OF r assms(2), of stale] by blast+
  show ?thesis
  proof (cases "0 < r")
    case True
    then show ?thesis using assms(1) r m
      by (auto simp: hev_socks5_udp_fwd_f_def moves_def to_read_def fwd_result_def Let_def
          dest!: dsock_send_moves split: bind_split_asm option.split_asm if_split_asm prod.split_asm)
  next
    case False
    then show ?thesis using assms(1) r m
      by (auto simp: hev_socks5_udp_fwd_f_def moves_def to_read_def fwd_result_def Let_def split: if_split_asm)
  qed
qed

lemma fwd_b_reads:
  assumes "hev_socks5_udp_fwd_b stale st = Some (res, st')"
  shows "s_type (sp_self st') = s_type (sp_self st) \<and> to_read st' \<le> to_read st \<and> (0 \<le> res \<longrightarrow> to_read st' < to_read st) \<and>
    res \<in> {- 1, 0, 1}"
proof -
  obtain r e ds self peer where r: "dsock_recv (sp_self st) (sp_peer st) (length (sp_buf st)) True = (r, e, ds, self, peer)"
    by (metis prod_cases5)
  note m = dsock_recv_size [OF r, of stale]
  show ?thesis
  proof (cases "0 < r")
    case True
    then show ?thesis using assms r m
      by (auto simp: hev_socks5_udp_fwd_b_def moves_def to_read_def fwd_result_def Let_def
          dest!: sendmmsg_both_moves split: bind_split_asm if_split_asm)
  next
    case False
    then show ?thesis using assms r m
      by (auto simp: hev_socks5_udp_fwd_b_def to_read_def fwd_result_def Let_def split: if_split_asm)
  qed
qed

lemma splice_step_reads:
  assumes "splice_step env i res_f res_b st = Some (rf, rb, st')" "res_f \<in> {- 1, 0, 1}" "res_b \<in> {- 1, 0, 1}"
    "s_type (sp_self st) = TYPE_UDP_IN_TCP \<or> s_type (sp_self st) = TYPE_UDP_IN_UDP"
  shows "s_type (sp_self st') = s_type (sp_self st)" "to_read st' \<le> to_read st" "rf \<in> {- 1, 0, 1}" "rb \<in> {- 1, 0, 1}"
    "0 \<le> rf \<or> 0 \<le> rb \<longrightarrow> to_read st' < to_read st"
proof -
  obtain st1 where f: "(if 0 \<le> res_f then hev_socks5_udp_fwd_f env (e_stale env (2 * i)) st else Some (res_f, st)) = Some (rf, st1)"
    and b: "(if 0 \<le> res_b then hev_socks5_udp_fwd_b (e_stale env (2 * i + 1)) st1 else Some (res_b, st1)) = Some (rb, st')"
    using assms(1) by (auto simp: splice_step_def split: bind_split_asm)
  have F: "s_type (sp_self st1) = s_type (sp_self st) \<and> to_read st1 \<le> to_read st \<and> (0 \<le> rf \<longrightarrow> to_read st1 < to_read st) \<and> rf \<in> {- 1, 0, 1}"
    using f fwd_f_reads [OF _ assms(4)] assms(2) by (auto split: if_split_asm)
  have B: "s_type (sp_self st') = s_type (sp_self st1) \<and> to_read st' \<le> to_read st1 \<and> (0 \<le> rb \<longrightarrow> to_read st' < to_read st1) \<and> rb \<in> {- 1, 0, 1}"
    using b fwd_b_reads assms(3) by (auto split: if_split_asm)
  from F B show "s_type (sp_self st') = s_type (sp_self st)" "to_read st' \<le> to_read st" "rf \<in> {- 1, 0, 1}" "rb \<in> {- 1, 0, 1}"
    "0 \<le> rf \<or> 0 \<le> rb \<longrightarrow> to_read st' < to_read st" by auto
qed

lemma splicer_loop_ends:
  "to_read st < fuel \<Longrightarrow> res_f \<in> {- 1, 0, 1} \<Longrightarrow> res_b \<in> {- 1, 0, 1} \<Longrightarrow>
   s_type (sp_self st) = TYPE_UDP_IN_TCP \<or> s_type (sp_self st) = TYPE_UDP_IN_UDP \<Longrightarrow>
   splicer_loop env fuel i res_f res_b st \<noteq> Some None"
proof (induction env fuel i res_f res_b st rule: splicer_loop.induct)
  case (2 env fuel i res_f res_b st)
  show ?case
  proof (cases "splice_step env i res_f res_b st")
    case (Some x)
    then obtain rf rb st1 where s: "splice_step env i res_f res_b st = Some (rf, rb, st1)" by (metis prod_cases3)
    note r = splice_step_reads [OF s 2(3-5)]
    let ?type = "if 0 < rf \<or> 0 < rb then HEV_TASK_YIELD else HEV_TASK_WAITIO"
    obtain stop self where y: "task_io_yielder ?type (sp_self st1) (e_left env i) = (stop, self)" by (metis surj_pair)
    show ?thesis
    proof (cases "0 \<le> rf \<or> 0 \<le> rb")
      case True
      have m: "s_type self = s_type (sp_self st1)" "conn_size self \<le> conn_size (sp_self st1)"
        using yielder_moves [OF y] by (simp_all add: moves_def)
      have "to_read (st1\<lparr>sp_self := self\<rparr>) < fuel"
        using r(5) True m(2) 2(2) by (auto simp: to_read_def)
      moreover have "s_type (sp_self (st1\<lparr>sp_self := self\<rparr>)) = TYPE_UDP_IN_TCP \<or> s_type (sp_self (st1\<lparr>sp_self := self\<rparr>)) = TYPE_UDP_IN_UDP"
        using m(1) r(1) 2(5) by simp
      ultimately have "stop = 0 \<Longrightarrow> \<not> (\<not> (0 < rf \<or> 0 < rb) \<and> rf AND rb \<noteq> 0) \<Longrightarrow>
          splicer_loop env fuel (i + 1) rf rb (st1\<lparr>sp_self := self\<rparr>) \<noteq> Some None"
        using 2(1) [OF s refl refl _ y [symmetric]] r(3,4) by blast
      then show ?thesis using s y by (auto split: if_split_asm)
    next
      case False
      then have "rf = - 1" "rb = - 1" using r(3,4) by auto
      then show ?thesis using s by simp
    qed
  qed simp
qed simp

section \<open>Safety over the datagram socket\<close>

text \<open>Addresses have the lengths of their families, in the answers of the resolver and of the
  kernel.\<close>

definition resolver_ok :: "resolver \<Rightarrow> bool" where
  "resolver_ok rs \<longleftrightarrow> (\<forall>name ip. inet_pton4 rs name = Some ip \<longrightarrow> length ip = 4) \<and>
     (\<forall>name ip. inet_pton6 rs name = Some ip \<longrightarrow> length ip = 16) \<and>
     (\<forall>name hint ip. getaddrinfo rs name hint = Some (FAMILY_IPV4, ip) \<longrightarrow> length ip = 4) \<and>
     (\<forall>name hint ip. getaddrinfo rs name hint = Some (FAMILY_IPV6, ip) \<longrightarrow> length ip = 16)"

fun senders_ok :: "(sockaddr_in6 \<times> byte list) batch_event list \<Rightarrow> bool" where
  "senders_ok [] = True"
| "senders_ok (Batch ds # evs) = (list_all (\<lambda>(sa, data). length (sin6_addr sa) = 16) ds \<and> senders_ok evs)"
| "senders_ok (e # evs) = senders_ok evs"

lemma name_into_total:
  assumes "resolver_ok rs" "length (sin6_addr sa) = 16"
  shows "hev_socks5_name_into_sockaddr6 rs name port sa family \<noteq> None"
proof -
  let ?sa = "sa\<lparr>sin6_port := ntohs (word_of_int port)\<rparr>"
  have len: "length ip = 4" if "inet_pton4 rs name = Some ip" for ip using assms(1) that by (auto simp: resolver_ok_def)
  obtain sa1 r1 where r1: "hev_socks5_name_resolve_ipv4 rs name ?sa = Some (sa1, r1)" "length (sin6_addr sa1) = 16"
    using assms(2) len by (cases "inet_pton4 rs name") (simp_all add: hev_socks5_name_resolve_ipv4_def mput_def)
  have len6: "length ip = 16" if "inet_pton6 rs name = Some ip" for ip using assms(1) that by (auto simp: resolver_ok_def)
  obtain sa2 r2 where r2: "hev_socks5_name_resolve_ipv6 rs name sa1 = Some (sa2, r2)" "length (sin6_addr sa2) = 16"
    using r1(2) len6 by (cases "inet_pton6 rs name") (simp_all add: hev_socks5_name_resolve_ipv6_def mput_def)
  have "hev_socks5_name_resolve_name rs name sa2 family \<noteq> None"
    using assms(1) r2(2)
    by (auto simp: hev_socks5_name_resolve_name_def mput_def resolver_ok_def split: option.split HevSocks5AddrFamily.split)
  then show ?thesis using r1(1) r2(1) by (auto simp: hev_socks5_name_into_sockaddr6_def)
qed

lemma addr_len_cases:
  assumes "hev_socks5_addr_len a = Some (int l)"
  obtains (v4) "bget a 0 = Some HEV_SOCKS5_ADDR_TYPE_IPV4" "l = 7"
    | (v6) "bget a 0 = Some HEV_SOCKS5_ADDR_TYPE_IPV6" "l = 19"
    | (name) len where "bget a 0 = Some HEV_SOCKS5_ADDR_TYPE_NAME" "bget a 1 = Some len" "l = 4 + unat len"
proof -
  have u: "4 + uint len = int l \<Longrightarrow> l = 4 + unat len" for len :: byte
    using uint_nat [of len] by linarith
  show ?thesis using assms that(3) [OF _ _ u] that(1,2)
    by (cases "bget a 0"; cases "bget a 1") (auto simp: hev_socks5_addr_len_def split: if_split_asm)
qed

lemma addr_into_total:
  assumes "resolver_ok rs" "length (sin6_addr sa) = 16" "hev_socks5_addr_len a = Some (int l)" "l \<le> length a"
  shows "hev_socks5_addr_into_sockaddr6 rs a sa family \<noteq> None"
proof -
  have l16: "\<exists>v. load16 a i = Some v" if "i + 2 \<le> length a" for i
    using that by (simp add: load16_def bget_def)
  from assms(3) show ?thesis
  proof (cases rule: addr_len_cases)
    case v4
    then obtain v where "load16 a 5 = Some v" using l16 [of 5] assms(4) by auto
    then show ?thesis using v4 assms(2,4)
      by (simp add: hev_socks5_addr_into_sockaddr6_def hev_socks5_ipv4_into_sockaddr6_def mget_def mput_def)
  next
    case v6
    then obtain v where "load16 a 17 = Some v" using l16 [of 17] assms(4) by auto
    then show ?thesis using v6 assms(2,4)
      by (simp add: hev_socks5_addr_into_sockaddr6_def hev_socks5_ipv6_into_sockaddr6_def mget_def mput_def)
  next
    case (name len)
    then obtain v where v: "load16 a (2 + unat len) = Some v" using l16 [of "2 + unat len"] assms(4) by auto
    obtain s where "c_str (take (unat len) (drop 2 a) @ [0]) = Some s" using c_str_Some [of "take (unat len) (drop 2 a) @ [0]"] by auto
    then show ?thesis using name v assms(4) name_into_total [OF assms(1,2)]
      by (simp add: hev_socks5_addr_into_sockaddr6_def mget_def)
  qed
qed

lemma parsed_readable:
  assumes "parsed m msg" "resolver_ok rs" "m_len msg \<noteq> 0" "length (sin6_addr sa) = 16"
  shows "\<exists>a sa' f r. m_addr msg = At a \<and> hev_socks5_addr_into_sockaddr6 rs (drop a (m_mem msg)) sa family = Some (sa', f, r) \<and>
    mget (m_mem msg) (m_off msg) (m_len msg) = Some (take (m_len msg) (drop (m_off msg) (m_mem msg)))"
proof -
  obtain l where l: "m_addr msg = At (m_off m + 3)" "hev_socks5_addr_len (drop (m_off m + 3) (m_mem msg)) = Some (int l)"
      "m_off msg = m_off m + 3 + l" "m_off msg + m_len msg \<le> m_off m + m_len m" "m_off m + m_len m \<le> length (m_mem msg)"
    using assms(1,3) by (auto simp: parsed_def)
  then have "l \<le> length (drop (m_off m + 3) (m_mem msg))" by simp
  then have "hev_socks5_addr_into_sockaddr6 rs (drop (m_off m + 3) (m_mem msg)) sa family \<noteq> None"
    using addr_into_total [OF assms(2,4) l(2)] by blast
  then show ?thesis using l by (auto simp: mget_def)
qed

lemma fwd_dests_total:
  "resolver_ok rs \<Longrightarrow> list_all2 parsed (take n ms) (take n msgs) \<Longrightarrow> n \<le> length msgs \<Longrightarrow> fwd_dests rs family msgs n \<noteq> None"
proof (induction rs family msgs n arbitrary: ms rule: fwd_dests.induct)
  case (3 rs family msg msgs n)
  let ?z = "\<lparr>sin6_port = 0, sin6_addr = replicate 16 0\<rparr>"
  obtain m ms' where ms: "ms = m # ms'" "parsed m msg" "list_all2 parsed (take n ms') (take n msgs)"
    using 3(3) by (cases ms) auto
  show ?case
  proof (cases "m_len msg = 0")
    case False
    obtain a sa f r where r: "m_addr msg = At a" "hev_socks5_addr_into_sockaddr6 rs (drop a (m_mem msg)) ?z family = Some (sa, f, r)"
        "mget (m_mem msg) (m_off msg) (m_len msg) = Some (take (m_len msg) (drop (m_off msg) (m_mem msg)))"
      using parsed_readable [OF ms(2) 3(2) False, of ?z family] by auto
    have "\<not> r < 0 \<Longrightarrow> fwd_dests rs family msgs n \<noteq> None"
      using 3(1) [OF False r(1,2) refl refl _ r(3) 3(2) ms(3)] 3(4) by simp
    then show ?thesis using False r by auto
  qed simp
qed auto

text \<open>The messages that go back carry the senders' addresses.\<close>

definition bwd :: "sockaddr_in6 \<times> byte list \<Rightarrow> byte list \<times> byte list" where
  "bwd d = (wire_sockaddr (fst d), take UDP_BUF_SIZE (snd d))"

lemma bwd_msgs_carries:
  "list_all (\<lambda>(sa, data). length (sin6_addr sa) = 16) ds \<Longrightarrow> \<exists>msgs. bwd_msgs ds = Some msgs \<and> list_all2 carries msgs (map bwd ds)"
proof (induction ds rule: bwd_msgs.induct)
  case (2 sa data ds)
  have "length (sin6_addr sa) = 16" using 2(2) by simp
  then have a: "hev_socks5_addr_from_sockaddr6 (replicate 19 0) sa =
      Some (wire_sockaddr sa @ drop (length (wire_sockaddr sa)) (replicate 19 0), int (length (wire_sockaddr sa)))"
      "wire_addr (wire_sockaddr sa)"
    using from_sockaddr6_wire [of sa "replicate 19 0"] wire_sockaddr_addr by simp_all
  obtain msgs where "bwd_msgs ds = Some msgs" "list_all2 carries msgs (map bwd ds)"
    using 2(1) [OF a(1) refl] 2(2) by auto
  moreover have "carries \<lparr>o_addr = wire_sockaddr sa @ drop (length (wire_sockaddr sa)) (replicate 19 0), o_data = take UDP_BUF_SIZE data\<rparr> (bwd (sa, data))"
    using a(2) by (simp add: carries_def bwd_def)
  ultimately show ?case using a(1) by simp
qed simp

lemma dsock_recv_senders:
  assumes "dsock_recv self d n True = (res, e, ds, self', d')" "senders_ok (d_rx d)"
  shows "list_all (\<lambda>(sa, data). length (sin6_addr sa) = 16) ds \<and> senders_ok (d_rx d')"
  using assms
  by (auto simp: dsock_recv_def recvmmsg_dontwait list_all_iff split: list.split_asm batch_event.split_asm if_split
      dest!: in_set_takeD in_set_dropD)

definition udp_ok :: "'a splice \<Rightarrow> bool" where
  "udp_ok st \<longleftrightarrow> s_type (sp_self st) = TYPE_UDP_IN_UDP \<and> list_all (\<lambda>b. length b = UDP_BUF_SIZE) (sp_buf st) \<and>
     senders_ok (d_rx (sp_peer st))"

lemma fwd_b_safe:
  assumes "udp_ok st"
  shows "\<exists>res st'. hev_socks5_udp_fwd_b stale st = Some (res, st') \<and> udp_ok st'"
proof -
  obtain r e ds self peer where r: "dsock_recv (sp_self st) (sp_peer st) (length (sp_buf st)) True = (r, e, ds, self, peer)"
    by (metis prod_cases5)
  have self: "self = sp_self st" using dsock_recv_size [OF r] by blast
  have ok: "list_all (\<lambda>(sa, data). length (sin6_addr sa) = 16) ds" "senders_ok (d_rx peer)"
    using dsock_recv_senders [OF r] assms by (simp_all add: udp_ok_def)
  obtain msgs where m: "bwd_msgs ds = Some msgs" "list_all2 carries msgs (map bwd ds)"
    using bwd_msgs_carries [OF ok(1)] by blast
  obtain res e' self' d' where s: "hev_socks5_udp_sendmmsg self (sp_dsock st) msgs = Some (res, e', self', d')"
    using assms datagrams_carries [OF m(2)] self
    by (cases "dsock_send self (sp_dsock st) (map (Pair None) (map (datagram \<circ> bwd) ds))")
      (auto simp: hev_socks5_udp_sendmmsg_def hev_socks5_udp_sendmmsg_udp_def udp_ok_def)
  have "s_type self' = s_type self" using sendmmsg_both_moves [OF s] by (simp add: moves_def)
  then show ?thesis using r m(1) s ok(2) assms self
    by (auto simp: hev_socks5_udp_fwd_b_def Let_def udp_ok_def)
qed

lemma fwd_f_safe:
  assumes "udp_ok st" "resolver_ok (e_rs env)"
  shows "\<exists>res st'. hev_socks5_udp_fwd_f env stale st = Some (res, st') \<and> udp_ok st'"
proof -
  let ?m = "svec (sp_buf st)"
  have "list_all buf_ok ?m" using assms(1) by (auto simp: udp_ok_def svec_def buf_ok_def UDP_BUF_SIZE_def list_all_iff)
  then obtain res e msgs self d where r: "hev_socks5_udp_recvmmsg_udp (e_conn env) (sp_self st) (sp_dsock st) ?m True = Some (res, e, msgs, self, d)"
      and p: "res \<le> int (length ?m)" "0 < res \<longrightarrow> list_all2 parsed (take (nat res) ?m) (take (nat res) msgs)"
    using recvmmsg_udp_total by blast
  have lens: "map (length \<circ> m_mem) msgs = map (length \<circ> m_mem) ?m" using recvmmsg_udp_lengths [OF r] .
  have "\<forall>b\<in>set (map (length \<circ> m_mem) ?m). b = UDP_BUF_SIZE"
    using assms(1) by (auto simp: udp_ok_def svec_def list_all_iff)
  then have buf: "list_all (\<lambda>b. length b = UDP_BUF_SIZE) (map m_mem msgs)" unfolding lens [symmetric] by (simp add: list_all_iff)
  have r': "hev_socks5_udp_recvmmsg (e_conn env) (sp_self st) (sp_dsock st) ?m True = Some (res, e, msgs, self, d)"
    using r assms(1) by (simp add: hev_socks5_udp_recvmmsg_def udp_ok_def)
  have t: "s_type self = TYPE_UDP_IN_UDP" using recvmmsg_both_size [OF r'] assms(1) by (auto simp: udp_ok_def moves_def)
  have "length msgs = length ?m" using arg_cong [OF lens, of length] by simp
  then have "0 < res \<Longrightarrow> fwd_dests (e_rs env) (s_family self) msgs (nat res) \<noteq> None"
    using fwd_dests_total [OF assms(2)] p by (metis nat_le_iff)
  then show ?thesis using r' t buf assms(1)
    by (auto simp: hev_socks5_udp_fwd_f_def Let_def udp_ok_def moves_def dest!: dsock_send_moves split: option.split prod.split)
qed

lemma splice_step_safe:
  assumes "udp_ok st" "resolver_ok (e_rs env)"
  shows "\<exists>rf rb st'. splice_step env i res_f res_b st = Some (rf, rb, st') \<and> udp_ok st'"
proof -
  obtain rf st1 where f: "(if 0 \<le> res_f then hev_socks5_udp_fwd_f env (e_stale env (2 * i)) st else Some (res_f, st)) = Some (rf, st1)"
      "udp_ok st1"
    using fwd_f_safe [OF assms, of "e_stale env (2 * i)"] assms(1) by (cases "0 \<le> res_f") auto
  obtain rb st2 where b: "(if 0 \<le> res_b then hev_socks5_udp_fwd_b (e_stale env (2 * i + 1)) st1 else Some (res_b, st1)) = Some (rb, st2)"
      "udp_ok st2"
    using fwd_b_safe [OF f(2), of "e_stale env (2 * i + 1)"] f(2) by (cases "0 \<le> res_b") auto
  show ?thesis unfolding splice_step_def f(1) bind.bind_lunit prod.case b(1) using b(2) by simp
qed

lemma splicer_loop_safe:
  "udp_ok st \<Longrightarrow> resolver_ok (e_rs env) \<Longrightarrow> splicer_loop env fuel i res_f res_b st \<noteq> None"
proof (induction env fuel i res_f res_b st rule: splicer_loop.induct)
  case (2 env fuel i res_f res_b st)
  obtain rf rb st1 where s: "splice_step env i res_f res_b st = Some (rf, rb, st1)" "udp_ok st1"
    using splice_step_safe [OF 2(2,3)] by blast
  let ?type = "if 0 < rf \<or> 0 < rb then HEV_TASK_YIELD else HEV_TASK_WAITIO"
  obtain stop self where y: "task_io_yielder ?type (sp_self st1) (e_left env i) = (stop, self)" by (metis surj_pair)
  have "udp_ok (st1\<lparr>sp_self := self\<rparr>)" using yielder_moves [OF y] s(2) by (simp add: udp_ok_def moves_def)
  then have "stop = 0 \<Longrightarrow> \<not> (\<not> (0 < rf \<or> 0 < rb) \<and> rf AND rb \<noteq> 0) \<Longrightarrow>
      splicer_loop env fuel (i + 1) rf rb (st1\<lparr>sp_self := self\<rparr>) \<noteq> None"
    using 2(1) [OF s(1) refl refl _ y [symmetric]] 2(3) by blast
  then show ?case using s(1) y by (auto split: if_split_asm)
qed simp

section \<open>What is relayed\<close>

text \<open>The frames of datagrams that are bound for socket addresses.\<close>

definition fwd :: "sockaddr_in6 \<times> byte list \<Rightarrow> byte list \<times> byte list" where
  "fwd p = (wire_sockaddr (fst p), snd p)"

definition relayable :: "sockaddr_in6 \<times> byte list \<Rightarrow> bool" where
  "relayable p \<longleftrightarrow> length (sin6_addr (fst p)) = 16 \<and> snd p \<noteq> [] \<and> length (snd p) \<le> UDP_BUF_SIZE - 19"

lemma wire_sockaddr_length: "length (sin6_addr sa) = 16 \<Longrightarrow> length (wire_sockaddr sa) \<le> 19"
  by (simp add: wire_sockaddr_def)

lemma relayable_framable: "relayable p \<Longrightarrow> framable (fwd p)"
  using wire_sockaddr_length [of "fst p"] wire_sockaddr_addr [of "fst p"]
  by (simp add: relayable_def framable_def fwd_def UDP_BUF_SIZE_def)

lemma relayable_fits:
  "relayable p \<Longrightarrow> length mem = UDP_BUF_SIZE \<Longrightarrow> fits \<lparr>m_mem = mem, m_addr = Uninit, m_off = 0, m_len = UDP_BUF_SIZE\<rparr> (fwd p)"
  using wire_sockaddr_length [of "fst p"] by (simp add: relayable_def fits_def fwd_def UDP_BUF_SIZE_def)

lemma received_dest:
  assumes "received \<lparr>m_mem = mem, m_addr = Uninit, m_off = 0, m_len = UDP_BUF_SIZE\<rparr> (fwd p) msg" "relayable p" "length mem = UDP_BUF_SIZE"
  shows "m_len msg \<noteq> 0 \<and> m_addr msg = At 0 \<and>
    (\<exists>f. hev_socks5_addr_into_sockaddr6 rs (m_mem msg) \<lparr>sin6_port = 0, sin6_addr = replicate 16 0\<rparr> family = Some (fst p, f, 0)) \<and>
    mget (m_mem msg) (m_off msg) (m_len msg) = Some (snd p)"
proof -
  have a: "length (sin6_addr (fst p)) = 16" using assms(2) by (simp add: relayable_def)
  have m: "m_mem msg = wire_sockaddr (fst p) @ snd p @ drop (length (wire_sockaddr (fst p) @ snd p)) mem"
    using assms(1) by (simp add: received_def fwd_def overwrite_def)
  have f: "m_addr msg = At 0" "m_off msg = length (wire_sockaddr (fst p))" "m_len msg = length (snd p)"
    using assms(1) by (simp_all add: received_def fwd_def)
  show ?thesis using assms(2) into_sockaddr6_wire [OF a, of "\<lparr>sin6_port = 0, sin6_addr = replicate 16 0\<rparr>" rs]
    by (simp add: m f relayable_def mget_def)
qed

lemma fwd_dests_received:
  assumes "list_all relayable ps" "list_all (\<lambda>b. length b = UDP_BUF_SIZE) bufs" "length bufs = length ps"
    "length msgs = length ps" "k \<le> length ps" "\<forall>i<k. received (svec bufs ! i) (map fwd ps ! i) (msgs ! i)"
  shows "fwd_dests rs family msgs k = Some (Some (take k ps))"
  using assms
proof (induction k arbitrary: ps bufs msgs)
  case (Suc k)
  obtain p ps' where p: "ps = p # ps'" using Suc.prems(5) by (cases ps) auto
  obtain b bs where b: "bufs = b # bs" using Suc.prems(3) p by (cases bufs) auto
  obtain m ms where m: "msgs = m # ms" using Suc.prems(4) p by (cases msgs) auto
  have "received (svec bs ! i) (map fwd ps' ! i) (ms ! i)" if "i < k" for i
    using Suc.prems(6) [rule_format, of "Suc i"] that unfolding p b m svec_def by simp
  then have ih: "fwd_dests rs family ms k = Some (Some (take k ps'))"
    using Suc.IH [of ps' bs ms] Suc.prems(1-5) unfolding p b m by simp
  have r: "received \<lparr>m_mem = b, m_addr = Uninit, m_off = 0, m_len = UDP_BUF_SIZE\<rparr> (fwd p) m"
    using Suc.prems(6) [rule_format, of 0] unfolding p b m svec_def by simp
  show ?case using received_dest [OF r, of rs family] Suc.prems(1,2) ih unfolding p b m by auto
qed simp

lemma sendmmsg_same:
  "(\<And>s left. s_type s \<noteq> TYPE_UDP_IN_UDP \<Longrightarrow> snd (yielder s left) = s) \<Longrightarrow> s_type s \<noteq> TYPE_UDP_IN_UDP \<Longrightarrow>
   fst (snd (hev_task_io_socket_sendmmsg yielder waitall dontwait ds s c out evs)) = s"
proof (induction yielder waitall dontwait ds s c out evs rule: hev_task_io_socket_sendmmsg.induct)
  case (3 yielder waitall dontwait ds s c out left evs)
  obtain stop where "yielder s left = (stop, s)" using 3(2) [OF 3(3), of left] by (metis prod.collapse)
  then show ?case using 3(1) [of stop s] 3(2,3) by auto
qed (auto simp: Let_def)

lemma dsock_send_conn:
  assumes "s_type self \<noteq> TYPE_UDP_IN_UDP"
  shows "\<exists>n res d'. dsock_send self d ds = (res, self, d') \<and> n \<le> length ds \<and> d_tx d' = d_tx d @ take n ds \<and>
    d_rx d' = d_rx d \<and> (if n = 0 then res \<le> 0 else res = int n)"
proof -
  let ?y = "task_io_yielder HEV_TASK_WAITIO :: 'a HevSocks5_scheme \<Rightarrow> int \<Rightarrow> int \<times> 'a HevSocks5_scheme"
  obtain res s' out evs where r: "hev_task_io_socket_sendmmsg ?y True False ds self 0 (d_tx d) (d_txs d) = (res, s', out, evs)"
    by (metis prod_cases4)
  have "s' = self" using sendmmsg_same [of ?y self True False ds 0 "d_tx d" "d_txs d"] assms r
    by (simp add: task_io_yielder_conn)
  moreover obtain n where "n \<le> length ds" "out = d_tx d @ take n ds" "if n = 0 then res \<le> 0 else res = int n"
    using sendmmsg_prefix [where yielder = ?y and ds = ds and s = self and c = 0 and out = "d_tx d" and evs = "d_txs d"] r by auto
  ultimately show ?thesis using r
    by (intro exI [of _ n] exI [of _ res] exI [of _ "d\<lparr>d_tx := out, d_txs := evs\<rparr>"]) (simp add: dsock_send_def)
qed

lemma fwd_f_frames:
  assumes "s_type (sp_self st) = TYPE_UDP_IN_TCP" "inp (sp_self st) = concat (map frame (map fwd ps)) @ ys" "ps \<noteq> []"
    "list_all relayable ps" "list_all (\<lambda>b. length b = UDP_BUF_SIZE) (sp_buf st)" "length (sp_buf st) = length ps"
    "sp_bind st \<or> (\<forall>sa. 0 \<le> e_bind env sa)"
  shows "\<exists>k n res st'. hev_socks5_udp_fwd_f env stale st = Some (res, st') \<and> n \<le> k \<and> k \<le> length ps \<and>
    inp (sp_self st') = concat (map frame (map fwd (drop k ps))) @ ys \<and>
    d_tx (sp_peer st') = d_tx (sp_peer st) @ map (\<lambda>(sa, data). (Some sa, data)) (take n ps) \<and>
    res = (if k = 0 then 0 else if n = 0 then - 1 else 1)"
proof -
  let ?m = "svec (sp_buf st)" and ?s = "sp_self st"
  have fit: "list_all2 fits ?m (map fwd ps)"
    using assms(4-6) relayable_fits by (auto simp: list_all2_conv_all_nth svec_def list_all_length)
  have fr: "list_all framable (map fwd ps)" using assms(4) relayable_framable by (auto simp: list_all_iff)
  obtain k res e msgs sk where r: "recvmmsg_tcp_loop ?s ?m 0 True = Some (res, e, msgs, ?s\<lparr>s_sock := sk\<rparr>)"
      "k \<le> length ?m" "if 0 + k = 0 \<and> ?m \<noteq> [] then res = - 1 \<and> e = Some EAGAIN else res = int (0 + k)"
      "\<forall>i<k. received (?m ! i) (map fwd ps ! i) (msgs ! i)" "length msgs = length ?m"
      "inp (?s\<lparr>s_sock := sk\<rparr>) = concat (map frame (drop k (map fwd ps))) @ ys"
    using recv_frames [OF fit fr assms(2), of 0 True] by (elim exE conjE) (rule that)
  let ?st = "st\<lparr>sp_self := ?s\<lparr>s_sock := sk\<rparr>, sp_dsock := sp_dsock st, sp_buf := map m_mem msgs\<rparr>"
  have ne: "?m \<noteq> []" "length ?m = length ps" using assms(3,6) by (auto simp: svec_def)
  have recv: "hev_socks5_udp_recvmmsg (e_conn env) ?s (sp_dsock st) ?m True = Some (res, e, msgs, ?s\<lparr>s_sock := sk\<rparr>, sp_dsock st)"
    using r(1) assms(1) by (simp add: hev_socks5_udp_recvmmsg_def hev_socks5_udp_recvmmsg_tcp_def)
  show ?thesis
  proof (cases "k = 0")
    case True
    then show ?thesis using recv r(3,6) ne
      by (intro exI [of _ 0] exI [of _ 0] exI [of _ 0] exI [of _ ?st])
        (simp add: hev_socks5_udp_fwd_f_def fwd_result_def is_eagain_def)
  next
    case False
    have d: "fwd_dests (e_rs env) (s_family ?s) msgs k = Some (Some (take k ps))"
      using fwd_dests_received [OF assms(4,5,6) _ _ r(4)] r(2,5) ne(2) by simp
    let ?ds = "map (\<lambda>(sa, data). (Some sa, data)) (take k ps)" and ?t = "?s\<lparr>s_sock := sk\<rparr>"
    have t: "s_type ?t \<noteq> TYPE_UDP_IN_UDP" using assms(1) by simp
    obtain n ret d' where s: "dsock_send ?t (sp_peer st) ?ds = (ret, ?t, d')" "n \<le> length ?ds"
        "d_tx d' = d_tx (sp_peer st) @ take n ?ds" "if n = 0 then ret \<le> 0 else ret = int n"
      using dsock_send_conn [OF t, of "sp_peer st" ?ds] by (elim exE conjE) (rule that)
    have n: "n \<le> k" "take n ?ds = map (\<lambda>(sa, data). (Some sa, data)) (take n ps)"
      using s(2) by (auto simp: take_map min_def split: if_split_asm)
    have k: "res = int k" "0 < int k" using r(3) False by simp_all
    have bnd: "\<not> (\<not> sp_bind st \<and> e_bind env (fst (hd (take k ps))) < 0)" using assms(7) by (auto simp: not_less)
    have res: "fwd_result stale ret (if ret = - 1 then Some EOTHER else None) = (if n = 0 then - 1 else 1)"
      using s(4) by (auto simp: fwd_result_def is_eagain_def split: if_split_asm)
    let ?st' = "?st\<lparr>sp_self := ?t, sp_peer := d', sp_bind := True\<rparr>"
    have "hev_socks5_udp_fwd_f env stale st = Some (if n = 0 then - 1 else 1, ?st')"
      unfolding hev_socks5_udp_fwd_f_def recv using k d s(1) bnd res by (simp add: Let_def) blast
    then show ?thesis using n s(3) False r(2,6) ne(2)
      by (intro exI [of _ k] exI [of _ n] exI [of _ "if n = 0 then - 1 else 1"] exI [of _ ?st']) (simp add: drop_map)
  qed
qed

lemma fwd_b_frames:
  assumes "s_type (sp_self st) = TYPE_UDP_IN_TCP" "d_rx (sp_peer st) = Batch ds # evs" "ds \<noteq> []" "length ds \<le> length (sp_buf st)"
    "list_all (\<lambda>(sa, data). length (sin6_addr sa) = 16) ds" "length (concat (map frame (map bwd ds))) \<le> tx_room (sp_self st)"
  shows "\<exists>st'. hev_socks5_udp_fwd_b stale st = Some (1, st') \<and> inp (sp_self st') = inp (sp_self st) \<and>
    sent (sp_self st') = sent (sp_self st) @ concat (map frame (map bwd ds)) \<and> d_rx (sp_peer st') = evs"
proof -
  obtain msgs where m: "bwd_msgs ds = Some msgs" "list_all2 carries msgs (map bwd ds)"
    using bwd_msgs_carries [OF assms(5)] by blast
  obtain sk where s: "hev_socks5_udp_sendmmsg_tcp (sp_self st) msgs = Some (int (length msgs), None, (sp_self st)\<lparr>s_sock := sk\<rparr>)"
      "tx sk = sent (sp_self st) @ concat (map frame (map bwd ds))" "rx sk = rx (s_sock (sp_self st))"
    using send_frames [OF m(2) _ assms(6)] assms(3) by auto
  have "length msgs = length ds" using list_all2_lengthD [OF m(2)] by simp
  then have l: "0 < length msgs" using assms(3) by simp
  let ?st = "st\<lparr>sp_self := (sp_self st)\<lparr>s_sock := sk\<rparr>, sp_peer := (sp_peer st)\<lparr>d_rx := evs\<rparr>, sp_dsock := sp_dsock st\<rparr>"
  have "dsock_recv (sp_self st) (sp_peer st) (length (sp_buf st)) True =
      (int (length ds), None, ds, sp_self st, (sp_peer st)\<lparr>d_rx := evs\<rparr>)"
    using assms(2,4) by (simp add: dsock_recv_def recvmmsg_dontwait)
  then show ?thesis using m(1) s assms(1,3) l inp_sock_cong [OF s(3)]
    by (intro exI [of _ ?st]) (simp add: hev_socks5_udp_fwd_b_def hev_socks5_udp_sendmmsg_def fwd_result_def Let_def)
qed

lemma fwd_f_truncated:
  assumes "s_type (sp_self st) = TYPE_UDP_IN_TCP" "rx (s_sock (sp_self st)) = [Chunk bs]" "0 < length bs" "length bs < 5" "sp_buf st \<noteq> []"
  shows "hev_socks5_udp_fwd_f env stale st = None"
proof -
  obtain b bufs where b: "sp_buf st = b # bufs" using assms(5) by (cases "sp_buf st") auto
  obtain m where "length bs = Suc m" using assms(3) by (cases bs) auto
  then have m: "nat (int (length bs)) = Suc m" by simp
  have "svec (sp_buf st) \<noteq> []" using b by (simp add: svec_def)
  then show ?thesis using recv_truncated [OF assms(2-4)] assms(1,3) m
    by (simp add: hev_socks5_udp_fwd_f_def hev_socks5_udp_recvmmsg_def b svec_def Let_def UDP_BUF_SIZE_def del: nat_int)
qed

section \<open>Properties\<close>

text \<open>C25: The relay always ends: whatever the connection, the datagram socket and the plain socket
  answer, and whatever \<open>errno\<close> holds, each round reads something unless both directions have
  failed, so the loop never runs longer than there is input left. Over the datagram socket it
  moreover never leaves its buffers or uses an uninitialised address, and returns 0.\<close>

theorem udp_splicer_ends:
  assumes "s_type self = TYPE_UDP_IN_TCP \<or> s_type self = TYPE_UDP_IN_UDP"
    "conn_size self + batch_size (d_rx d) + batch_size (d_rx peer) < fuel"
    "list_all (\<lambda>b. length b = UDP_BUF_SIZE) bufs" "resolver_ok (e_rs env)" "senders_ok (d_rx peer)"
  shows "hev_socks5_udp_splicer env fuel (Some bufs) self d peer \<noteq> Some None \<and>
    (s_type self = TYPE_UDP_IN_UDP \<longrightarrow> (\<exists>st. hev_socks5_udp_splicer env fuel (Some bufs) self d peer = Some (Some (0, Some st))))"
proof -
  let ?st = "\<lparr>sp_self = self, sp_dsock = d, sp_peer = peer, sp_buf = bufs, sp_bind = False\<rparr>"
  have e: "splicer_loop env fuel 0 1 1 ?st \<noteq> Some None"
    using splicer_loop_ends [of ?st fuel 1 1 env 0] assms(1,2) by (simp add: to_read_def)
  have "splicer_loop env fuel 0 1 1 ?st \<noteq> None" if "s_type self = TYPE_UDP_IN_UDP"
    using splicer_loop_safe [of ?st env fuel 0 1 1] assms(3-5) that by (simp add: udp_ok_def)
  then show ?thesis using e
    by (cases "splicer_loop env fuel 0 1 1 ?st") (auto simp: hev_socks5_udp_splicer_def)
qed

definition splice_env0 :: splice_env where
  "splice_env0 = \<lparr>e_rs = rs_none, e_conn = \<lambda>_. 0, e_bind = \<lambda>_. 0, e_stale = \<lambda>_. False, e_left = \<lambda>_. 5\<rparr>"

theorem udp_splicer_ends_witness:
  "\<exists>st. hev_socks5_udp_splicer splice_env0 10 (Some [replicate UDP_BUF_SIZE 0])
      (udp_session TYPE_UDP_IN_UDP [1]) \<lparr>d_rx = [BatchAgain 3], d_tx = [], d_txs = [Accept 9]\<rparr>
      \<lparr>d_rx = [Batch [(sa0, [7])]], d_tx = [], d_txs = []\<rparr> = Some (Some (0, Some st))"
  using udp_splicer_ends [of "udp_session TYPE_UDP_IN_UDP [1]" "\<lparr>d_rx = [BatchAgain 3], d_tx = [], d_txs = [Accept 9]\<rparr>"
      "\<lparr>d_rx = [Batch [(sa0, [7])]], d_tx = [], d_txs = []\<rparr>" 10 "[replicate UDP_BUF_SIZE 0]" splice_env0]
  by (simp add: udp_session_def splice_env0_def resolver_ok_def rs_none_def sa0_def)

text \<open>Datagrams a session sends through its connection leave the plain socket unchanged, to the
  addresses they name and in their order: one call of \<open>fwd_f\<close> consumes whole frames from the
  connection and sends a first part of their datagrams (all of them unless the socket refuses); the
  frames it did not consume stay in the connection, and nothing else is sent.\<close>

theorem udp_fwd_f_relays:
  assumes "s_type (sp_self st) = TYPE_UDP_IN_TCP" "inp (sp_self st) = concat (map frame (map fwd ps)) @ ys" "ps \<noteq> []"
    "list_all relayable ps" "list_all (\<lambda>b. length b = UDP_BUF_SIZE) (sp_buf st)" "length (sp_buf st) = length ps"
    "sp_bind st \<or> (\<forall>sa. 0 \<le> e_bind env sa)"
  shows "\<exists>k n res st'. hev_socks5_udp_fwd_f env stale st = Some (res, st') \<and> n \<le> k \<and> k \<le> length ps \<and>
    inp (sp_self st') = concat (map frame (map fwd (drop k ps))) @ ys \<and>
    d_tx (sp_peer st') = d_tx (sp_peer st) @ map (\<lambda>(sa, data). (Some sa, data)) (take n ps) \<and>
    res = (if k = 0 then 0 else if n = 0 then - 1 else 1)"
  using fwd_f_frames [OF assms] .

definition relay0 :: "byte list \<Rightarrow> unit splice" where
  "relay0 bs = \<lparr>sp_self = udp_session TYPE_UDP_IN_TCP bs, sp_dsock = \<lparr>d_rx = [], d_tx = [], d_txs = []\<rparr>,
     sp_peer = \<lparr>d_rx = [Batch [(sa0, [7])]], d_tx = [], d_txs = [Accept 3]\<rparr>, sp_buf = [replicate UDP_BUF_SIZE 0], sp_bind = False\<rparr>"

theorem udp_fwd_f_relays_witness:
  "\<exists>k n res st'. hev_socks5_udp_fwd_f splice_env0 False (relay0 (frame (fwd (sa0, [9, 8])))) = Some (res, st') \<and> n \<le> k \<and>
    k \<le> length [(sa0, [9, 8 :: byte])] \<and> inp (sp_self st') = concat (map frame (map fwd (drop k [(sa0, [9, 8])]))) @ [] \<and>
    d_tx (sp_peer st') = d_tx (sp_peer (relay0 (frame (fwd (sa0, [9, 8]))))) @ map (\<lambda>(sa, data). (Some sa, data)) (take n [(sa0, [9, 8])]) \<and>
    res = (if k = 0 then 0 else if n = 0 then - 1 else 1)"
proof (rule udp_fwd_f_relays)
  show "inp (sp_self (relay0 (frame (fwd (sa0, [9, 8]))))) = concat (map frame (map fwd [(sa0, [9, 8])])) @ []"
    by (simp add: relay0_def udp_session_def inp_def frame_def udp_header_def)
qed (simp_all add: relay0_def udp_session_def relayable_def sa0_def UDP_BUF_SIZE_def splice_env0_def)

text \<open>The answers go the other way: \<open>fwd_b\<close> sends, for every datagram that waits in the plain
  socket, one frame with the address of its sender and its data (at most 1500 bytes of it), in
  order, and reports progress, when the connection has room.\<close>

theorem udp_fwd_b_relays:
  assumes "s_type (sp_self st) = TYPE_UDP_IN_TCP" "d_rx (sp_peer st) = Batch ds # evs" "ds \<noteq> []" "length ds \<le> length (sp_buf st)"
    "list_all (\<lambda>(sa, data). length (sin6_addr sa) = 16) ds" "length (concat (map frame (map bwd ds))) \<le> tx_room (sp_self st)"
  shows "\<exists>st'. hev_socks5_udp_fwd_b stale st = Some (1, st') \<and> inp (sp_self st') = inp (sp_self st) \<and>
    sent (sp_self st') = sent (sp_self st) @ concat (map frame (map bwd ds)) \<and> d_rx (sp_peer st') = evs"
  using fwd_b_frames [OF assms] .

theorem udp_fwd_b_relays_witness:
  "\<exists>st'. hev_socks5_udp_fwd_b False (relay0 []) = Some (1, st') \<and> inp (sp_self st') = [] \<and>
    sent (sp_self st') = frame (bwd (sa0, [7])) \<and> d_rx (sp_peer st') = []"
proof -
  have "length (frame (bwd (sa0, [7]))) \<le> 1000"
    using wire_sockaddr_length [of sa0] by (simp add: frame_def bwd_def sa0_def UDP_BUF_SIZE_def)
  then show ?thesis using udp_fwd_b_relays [of "relay0 []" "[(sa0, [7])]" "[]" False]
    by (simp add: relay0_def udp_session_def sa0_def tx_room_def inp_def)
qed

text \<open>A connection that ends inside of the first header of a batch makes the relay use an
  uninitialised address: \<open>recvmmsg\<close> returns the number of bytes it got, and \<open>fwd_f\<close> takes it for
  a number of messages although it has received none.\<close>

theorem udp_truncated_header_undefined:
  assumes "s_type (sp_self st) = TYPE_UDP_IN_TCP" "rx (s_sock (sp_self st)) = [Chunk bs]" "0 < length bs" "length bs < 5" "sp_buf st \<noteq> []"
  shows "hev_socks5_udp_fwd_f env stale st = None"
  using fwd_f_truncated [OF assms] .

theorem udp_truncated_header_undefined_witness:
  "hev_socks5_udp_fwd_f splice_env0 False (relay0 [0, 2, 10]) = None"
  using udp_truncated_header_undefined [of "relay0 [0, 2, 10]" "[0, 2, 10]" splice_env0 False]
  by (simp add: relay0_def udp_session_def)

end
