(* ===== verification/SessionUDP.thy ===== *)
theory SessionUDP
  imports Pbuf Session Socks5UDPSplice "HOL-Library.Sublist"
begin

text \<open>
  The relay of a UDP session, \<open>hev-socks5-session-udp.c\<close>: datagrams that the stack delivers wait in
  a list of frames until the session's task sends them to the server, and datagrams that come back
  are given to the stack. The receive callback runs whenever the task waits, also in the middle of
  sending.
\<close>

section \<open>The session\<close>

definition UDP_POOL_SIZE :: int where "UDP_POOL_SIZE = 512"

text \<open>A frame has the address of the destination, in a buffer, and the chain of packet buffers.\<close>

record HevSocks5UDPFrame =
  f_addr :: HevSocks5Addr
  f_data :: "pbuf list"

text \<open>\<open>u_frames\<close> is the list of frames and \<open>u_count\<close> the field \<open>frames\<close>; the address and port are
  set when the destination is a mapped name.\<close>

record HevSocks5SessionUDP =
  u_base :: HevSocks5Client
  u_dsock :: dsock
  u_frames :: "HevSocks5UDPFrame list"
  u_count :: int
  u_addr :: u32
  u_port :: u16
  u_pcb :: bool

text \<open>The memory of a new session, whose socket for datagrams does not exist yet.\<close>

definition session_udp_zero :: HevSocks5SessionUDP where
  "session_udp_zero = \<lparr>u_base = client_zero (ClientUDP 0), u_dsock = \<lparr>d_rx = [], d_tx = [], d_txs = []\<rparr>, u_frames = [],
     u_count = 0, u_addr = 0, u_port = 0, u_pcb = False\<rparr>"

definition hev_socks5_session_udp_construct :: "config \<Rightarrow> HevSocks5SessionUDP \<Rightarrow> HevSocks5SessionUDP" where
  "hev_socks5_session_udp_construct cfg self =
     self\<lparr>u_base := hev_socks5_client_udp_construct (u_base self)
            (if srv_udp_in_udp (srv cfg) \<noteq> 0 then TYPE_UDP_IN_UDP else TYPE_UDP_IN_TCP),
          u_pcb := True\<rparr>"

definition hev_socks5_session_udp_new :: "bool \<Rightarrow> config \<Rightarrow> HevSocks5SessionUDP option" where
  "hev_socks5_session_udp_new mem cfg =
     (if \<not> mem then None else Some (hev_socks5_session_udp_construct cfg session_udp_zero))"

text \<open>The frames and their data are freed in the order of the list; the results are the data freed,
  whether the callback was unset, and the base after its own destruction.\<close>

definition hev_socks5_session_udp_destruct ::
  "HevSocks5SessionUDP \<Rightarrow> pbuf list list \<times> bool \<times> HevSocks5Client" where
  "hev_socks5_session_udp_destruct self =
     (map f_data (u_frames self), u_pcb self, hev_socks5_client_udp_destruct (u_base self))"

section \<open>From the client to the server\<close>

text \<open>The callback. A datagram without data tells that the stack gives up the association; otherwise
  it is queued, unless the list is full or there is no memory. The address of a name replaces the
  sender of the answers.\<close>

record arrival =
  a_data :: "pbuf list"
  a_mem :: bool
  a_buf :: HevSocks5Addr
  a_ip :: ip_addr
  a_port :: u16

definition udp_recv_handler ::
  "arrival \<Rightarrow> HevMappedDNS option \<times> HevSocks5SessionUDP \<Rightarrow> (HevMappedDNS option \<times> HevSocks5SessionUDP) option" where
  "udp_recv_handler a s =
     (case s of (dns, self) \<Rightarrow>
        if a_data a = [] then Some (dns, self\<lparr>u_base := hev_socks5_session_terminate (u_base self)\<rparr>)
        else if UDP_POOL_SIZE < u_count self then Some (dns, self)
        else if \<not> a_mem a then Some (dns, self)
        else do {
          (_, dns, addr) \<leftarrow> hev_socks5_addr_from_lwip dns (a_buf a) (a_ip a) (a_port a);
          atype \<leftarrow> bget addr 0;
          self \<leftarrow> (if atype = HEV_SOCKS5_ADDR_TYPE_NAME then do {
               ip \<leftarrow> load32 (ip_bytes (a_ip a));
               Some (self\<lparr>u_addr := ip, u_port := a_port a\<rparr>) }
             else Some self);
          Some (dns, self\<lparr>u_count := u_count self + 1,
            u_frames := u_frames self @ [\<lparr>f_addr = addr, f_data = a_data a\<rparr>]\<rparr>) })"

text \<open>Several callbacks, one after the other.\<close>

fun arrive ::
  "arrival list \<Rightarrow> HevMappedDNS option \<times> HevSocks5SessionUDP \<Rightarrow> (HevMappedDNS option \<times> HevSocks5SessionUDP) option" where
  "arrive [] s = Some s"
| "arrive (a # as) s = do { s \<leftarrow> udp_recv_handler a s; arrive as s }"

text \<open>The messages of the first frames: the payload of a frame is the one of its first buffer.\<close>

fun frame_msgs :: "nat \<Rightarrow> HevSocks5UDPFrame list \<Rightarrow> udp_out list option" where
  "frame_msgs 0 fs = Some []"
| "frame_msgs (Suc n) [] = None"
| "frame_msgs (Suc n) (f # fs) =
     (case f_data f of
        [] \<Rightarrow> None
      | p # ps \<Rightarrow> do {
          d \<leftarrow> mget (p_payload p) 0 (unat (p_len p));
          msgs \<leftarrow> frame_msgs n fs;
          Some (\<lparr>o_addr = f_addr f, o_data = d\<rparr> # msgs) })"

fun free_frames :: "nat \<Rightarrow> HevSocks5SessionUDP \<Rightarrow> HevSocks5SessionUDP option" where
  "free_frames 0 self = Some self"
| "free_frames (Suc n) self =
     (case u_frames self of
        [] \<Rightarrow> None
      | f # fs \<Rightarrow> free_frames n (self\<lparr>u_frames := fs, u_count := u_count self - 1\<rparr>))"

text \<open>\<open>as\<close> are the datagrams that arrive while the send waits.\<close>

definition hev_socks5_session_udp_fwd_f ::
  "arrival list \<Rightarrow> nat \<Rightarrow> HevMappedDNS option \<times> HevSocks5SessionUDP \<Rightarrow>
   (int \<times> HevMappedDNS option \<times> HevSocks5SessionUDP) option" where
  "hev_socks5_session_udp_fwd_f as num s =
     (case s of (dns, self) \<Rightarrow>
        if u_count self \<le> 0 then Some (0, dns, self)
        else do {
          let n = (if int num < u_count self then num else nat (u_count self));
          msgs \<leftarrow> frame_msgs n (u_frames self);
          (res, e, base, d) \<leftarrow> hev_socks5_udp_sendmmsg (u_base self) (u_dsock self) msgs;
          (dns, self) \<leftarrow> arrive as (dns, self\<lparr>u_base := base, u_dsock := d\<rparr>);
          if res \<le> 0 then Some (- 1, dns, self)
          else do {
            self \<leftarrow> free_frames (nat res) self;
            Some (1, dns, self) } })"

section \<open>From the server to the client\<close>

text \<open>What the stack is given: a datagram with the address it seems to come from.\<close>

type_synonym delivery = "ip_addr \<times> u16 \<times> byte list"

text \<open>The sender of an answer: the mapped address, if the destination is a name, and else the
  address in the message.\<close>

definition answer_source ::
  "HevSocks5SessionUDP \<Rightarrow> ip_addr \<Rightarrow> HevSocks5Addr \<Rightarrow> (int \<times> ip_addr \<times> u16) option" where
  "answer_source self saddr addr =
     (if u_addr self \<noteq> 0 \<and> u_port self \<noteq> 0 then do {
        bytes \<leftarrow> mput (ip_bytes saddr) 0 [ucast (u_addr self), ucast (drop_bit 8 (u_addr self)),
          ucast (drop_bit 16 (u_addr self)), ucast (drop_bit 24 (u_addr self))];
        Some (0, \<lparr>ip_bytes = bytes, ip_type = IPADDR_TYPE_V4\<rparr>, u_port self) }
      else hev_socks5_addr_into_lwip addr saddr 0)"

text \<open>The loop over the received messages: for each of them that is delivered, \<open>oks\<close> tells whether
  a buffer can be allocated, which datagrams arrive until the mutex is locked, and whether the
  stack takes it. The results are whether all went well, and what was given to the stack.\<close>

fun deliver ::
  "ip_addr \<Rightarrow> (bool \<times> arrival list \<times> bool) list \<Rightarrow> HevSocks5UDPMsg list \<Rightarrow>
   HevMappedDNS option \<times> HevSocks5SessionUDP \<Rightarrow> (bool \<times> delivery list \<times> HevMappedDNS option \<times> HevSocks5SessionUDP) option" where
  "deliver saddr oks [] s = Some (True, [], s)"
| "deliver saddr oks (msg # msgs) s =
     (if m_addr msg = Uninit then None
      else if m_addr msg = Null \<or> m_len msg = 0 then deliver saddr oks msgs s
      else do {
        (ret, src, port) \<leftarrow> answer_source (snd s) saddr (drop (case m_addr msg of At a \<Rightarrow> a | _ \<Rightarrow> 0) (m_mem msg));
        if ret < 0 then Some (False, [], s)
        else case oks of
          [] \<Rightarrow> Some (False, [], s)
        | (alloc, as, taken) # oks \<Rightarrow>
            if \<not> alloc then Some (False, [], s)
            else do {
              s \<leftarrow> arrive as s;
              d \<leftarrow> mget (m_mem msg) (m_off msg) (m_len msg);
              if \<not> taken then Some (False, [], s)
              else do {
                (good, ds, s) \<leftarrow> deliver saddr oks msgs s;
                Some (good, (src, port, d) # ds, s) } } })"

text \<open>What happens in one round of the relay: the datagrams that arrive while it sends, receives,
  delivers and waits, the answer of \<open>connect\<close>, whether \<open>errno\<close> happens to be \<open>EAGAIN\<close>, what the
  buffers and the variable \<open>saddr\<close> hold, and how much time is left after the wait.\<close>

record udp_round =
  v_send :: "arrival list"
  v_conn :: "sockaddr_in6 \<Rightarrow> int"
  v_stale :: bool
  v_buf :: "byte list list"
  v_recv :: "arrival list"
  v_saddr :: ip_addr
  v_oks :: "(bool \<times> arrival list \<times> bool) list"
  v_left :: int
  v_wait :: "arrival list"

definition hev_socks5_session_udp_fwd_b ::
  "udp_round \<Rightarrow> HevMappedDNS option \<times> HevSocks5SessionUDP \<Rightarrow>
   (int \<times> delivery list \<times> HevMappedDNS option \<times> HevSocks5SessionUDP) option" where
  "hev_socks5_session_udp_fwd_b v s =
     (case s of (dns, self) \<Rightarrow> do {
        (res, e, msgs, base, d) \<leftarrow> hev_socks5_udp_recvmmsg (v_conn v) (u_base self) (u_dsock self) (svec (v_buf v)) True;
        s \<leftarrow> arrive (v_recv v) (dns, self\<lparr>u_base := base, u_dsock := d\<rparr>);
        if res \<le> 0 then Some (if res = - 1 \<and> is_eagain (v_stale v) e then 0 else - 1, [], s)
        else do {
          (good, ds, s) \<leftarrow> deliver (v_saddr v) (v_oks v) (take (nat res) msgs) s;
          Some (if good then 1 else - 1, ds, s) } })"

section \<open>The relay\<close>


section \<open>The server's address for datagrams\<close>

definition hev_socks5_addr_get_port :: "HevSocks5Addr \<Rightarrow> u16 option" where
  "hev_socks5_addr_get_port addr = do {
     atype \<leftarrow> bget addr 0;
     if atype = HEV_SOCKS5_ADDR_TYPE_IPV4 then load16 addr 5
     else if atype = HEV_SOCKS5_ADDR_TYPE_IPV6 then load16 addr 17
     else if atype = HEV_SOCKS5_ADDR_TYPE_NAME then do { len \<leftarrow> bget addr 1; load16 addr (2 + unat len) }
     else Some 0 }"

text \<open>A configured address replaces the one in the server's reply, whose port is kept.\<close>

definition upstream_addr :: "config \<Rightarrow> HevSocks5Addr \<Rightarrow> HevSocks5Addr option" where
  "upstream_addr cfg addr = do {
     c \<leftarrow> bget (srv_udp_addr (srv cfg)) 0;
     if srv_udp_in_udp (srv cfg) \<noteq> 0 \<and> c \<noteq> 0 then do {
       port \<leftarrow> hev_socks5_addr_get_port addr;
       name \<leftarrow> c_str (srv_udp_addr (srv cfg));
       (addr, _) \<leftarrow> hev_socks5_addr_from_name addr name (uint port);
       Some addr }
     else Some addr }"

definition hev_socks5_session_udp_set_upstream_addr ::
  "config \<Rightarrow> resolver \<Rightarrow> net \<Rightarrow> HevSocks5Client \<Rightarrow> HevSocks5Addr \<Rightarrow> (int \<times> HevSocks5Client) option" where
  "hev_socks5_session_udp_set_upstream_addr cfg rs net self addr = do {
     addr \<leftarrow> upstream_addr cfg addr;
     hev_socks5_client_udp_set_upstream_addr rs net self addr }"

section \<open>Well-formed sessions\<close>

definition name_ok :: "cstr \<Rightarrow> bool" where
  "name_ok n \<longleftrightarrow> length n < 256 \<and> 0 \<notin> set n"

definition dns_ok :: "HevMappedDNS option \<Rightarrow> bool" where
  "dns_ok dns \<longleftrightarrow>
     (case dns of
        None \<Rightarrow> True
      | Some d \<Rightarrow> \<exists>xs. dns_inv d xs \<and> dns_net d \<and> list_all (\<lambda>(n, i). name_ok n) (entries d xs))"

definition frame_ok :: "HevSocks5UDPFrame \<Rightarrow> bool" where
  "frame_ok f \<longleftrightarrow> (\<exists>a rest. wire_addr a \<and> f_addr f = a @ rest) \<and> f_data f \<noteq> [] \<and> chain_ok (f_data f)"

definition queue_ok :: "HevMappedDNS option \<times> HevSocks5SessionUDP \<Rightarrow> bool" where
  "queue_ok s \<longleftrightarrow>
     dns_ok (fst s) \<and> u_count (snd s) = int (length (u_frames (snd s))) \<and> length (u_frames (snd s)) \<le> 513 \<and>
     list_all frame_ok (u_frames (snd s))"

definition arrival_ok :: "arrival \<Rightarrow> bool" where
  "arrival_ok a \<longleftrightarrow>
     chain_ok (a_data a) \<and> length (a_buf a) = 260 \<and> length (ip_bytes (a_ip a)) = 16 \<and>
     (ip_type (a_ip a) = IPADDR_TYPE_V4 \<or> ip_type (a_ip a) = IPADDR_TYPE_V6)"

lemma lru_lookup_entries:
  assumes "lru_lookup es i = (es', name)" "list_all P es"
  shows "list_all P es' \<and> (\<forall>n. name = Some n \<longrightarrow> P (n, i))"
proof (cases "map_of (map prod.swap es) i")
  case None
  then show ?thesis using assms by (simp add: lru_lookup_def)
next
  case (Some n)
  then have "(n, i) \<in> set es" by (auto dest!: map_of_SomeD)
  then show ?thesis using Some assms by (auto simp: lru_lookup_def list_all_iff dest: notin_set_remove1)
qed

lemma load32_some: "length bs = 16 \<Longrightarrow> \<exists>x. load32 bs = Some x"
  by (simp add: load32_def bget_def)

lemma lookup_name_ok:
  assumes "dns_ok dns" "length (ip_bytes ip) = 16"
  shows "\<exists>dns' name. lookup_name dns ip = Some (dns', name) \<and> dns_ok dns' \<and> (\<forall>n. name = Some n \<longrightarrow> name_ok n)"
proof (cases dns)
  case None
  then show ?thesis by (simp add: lookup_name_def dns_ok_def)
next
  case (Some d)
  then obtain xs where xs: "dns_inv d xs" "dns_net d" "list_all (\<lambda>(n, i). name_ok n) (entries d xs)"
    using assms(1) by (auto simp: dns_ok_def)
  obtain a where a: "load32 (ip_bytes ip) = Some a" using load32_some [OF assms(2)] by blast
  obtain d' name ys where l: "hev_mapped_dns_lookup d (ntohl a) = Some (d', name)" "dns_inv d' ys"
      "lru_lookup (entries d xs) (nat (sint (ntohl a AND NOT (m_mask d)))) = (entries d' ys, name)"
      "m_max d' = m_max d" "m_mask d' = m_mask d"
    using dns_lookup [OF xs(1,2), of "ntohl a"] by (elim exE conjE) (rule that)
  have "dns_net d'" using xs(2) l(4,5) by (simp add: dns_net_def)
  then have "dns_ok (Some d')" "\<forall>n. name = Some n \<longrightarrow> name_ok n"
    using lru_lookup_entries [OF l(3) xs(3)] l(2) by (auto simp: dns_ok_def)
  then show ?thesis using Some a l(1) by (simp add: lookup_name_def)
qed

lemma from_lwip_ok:
  assumes "dns_ok dns" "arrival_ok a"
  shows "\<exists>dns' addr w rest. hev_socks5_addr_from_lwip dns (a_buf a) (a_ip a) (a_port a) = Some (0, dns', addr) \<and>
    dns_ok dns' \<and> wire_addr w \<and> addr = w @ rest"
proof (cases "ip_type (a_ip a) = IPADDR_TYPE_V4")
  case True
  note A = assms(2) [unfolded arrival_ok_def]
  obtain dns' name where l: "lookup_name dns (a_ip a) = Some (dns', name)" "dns_ok dns'" "\<forall>n. name = Some n \<longrightarrow> name_ok n"
    using lookup_name_ok [OF assms(1), of "a_ip a"] A by auto
  show ?thesis
  proof (cases name)
    case None
    have "wire_addr (wire_ipv4 (take 4 (ip_bytes (a_ip a))) (htons (a_port a)))" using A by (intro wire_ipv4_addr) simp
    then show ?thesis using True l None A from_ipv4_wire [of "a_buf a" "ip_bytes (a_ip a)" "uint (htons (a_port a))"]
      by (auto simp: hev_socks5_addr_from_lwip_def)
  next
    case (Some n)
    then have n: "length n < 256" "0 \<notin> set n" using l(3) by (auto simp: name_ok_def)
    then obtain rest where r: "hev_socks5_addr_from_name (a_buf a) n (uint (htons (a_port a))) =
        Some (wire_domain n (htons (a_port a)) @ rest, 4 + int (length n))"
      using from_name_wire [OF n, of "a_buf a" "uint (htons (a_port a))"] A by auto
    moreover have "wire_addr (wire_domain n (htons (a_port a)))" using n(1) unfolding wire_addr_def by blast
    ultimately show ?thesis using True l Some by (auto simp: hev_socks5_addr_from_lwip_def)
  qed
next
  case False
  then have t: "ip_type (a_ip a) = IPADDR_TYPE_V6" and l: "length (ip_bytes (a_ip a)) = 16" "length (a_buf a) = 260"
    using assms(2) by (auto simp: arrival_ok_def)
  have "wire_addr (wire_ipv6 (ip_bytes (a_ip a)) (htons (a_port a)))" using l unfolding wire_addr_def by blast
  then show ?thesis using t l assms(1) from_ipv6_wire [of "a_buf a" "ip_bytes (a_ip a)" "uint (htons (a_port a))"]
    by (auto simp: hev_socks5_addr_from_lwip_def)
qed

lemma recv_handler_ok:
  assumes ok: "queue_ok (dns, self)" and a: "arrival_ok a"
  shows "\<exists>dns' self' new. udp_recv_handler a (dns, self) = Some (dns', self') \<and> queue_ok (dns', self') \<and>
    u_frames self' = u_frames self @ new \<and> subseq (map f_data new) [a_data a] \<and>
    u_dsock self' = u_dsock self \<and> s_type (u_base self') = s_type (u_base self)"
proof (cases "a_data a \<noteq> [] \<and> u_count self \<le> UDP_POOL_SIZE \<and> a_mem a")
  case True
  note U = ok [unfolded queue_ok_def fst_conv snd_conv]
  obtain dns' addr w rest where f: "hev_socks5_addr_from_lwip dns (a_buf a) (a_ip a) (a_port a) = Some (0, dns', addr)"
      "dns_ok dns'" "wire_addr w" "addr = w @ rest"
    using from_lwip_ok [OF _ a, of dns] U by blast
  have "0 < length addr" using wire_addr_length [OF f(3)] f(4) by auto
  moreover obtain ip where "load32 (ip_bytes (a_ip a)) = Some ip"
    using load32_some [of "ip_bytes (a_ip a)"] a by (auto simp: arrival_ok_def)
  ultimately obtain self1 where s1: "udp_recv_handler a (dns, self) = Some (dns', self1)"
      "u_count self1 = u_count self + 1" "u_frames self1 = u_frames self @ [\<lparr>f_addr = addr, f_data = a_data a\<rparr>]"
      "u_dsock self1 = u_dsock self" "u_base self1 = u_base self"
    using True f(1) by (cases "addr ! 0 = HEV_SOCKS5_ADDR_TYPE_NAME") (simp_all add: udp_recv_handler_def bget_def)
  have "frame_ok \<lparr>f_addr = addr, f_data = a_data a\<rparr>"
    using f(3,4) True a by (auto simp: frame_ok_def arrival_ok_def)
  then have "queue_ok (dns', self1)" using U s1 f(2) True by (simp add: queue_ok_def UDP_POOL_SIZE_def)
  then show ?thesis using s1 by simp
next
  case False
  then have "udp_recv_handler a (dns, self) =
      Some (dns, if a_data a = [] then self\<lparr>u_base := hev_socks5_session_terminate (u_base self)\<rparr> else self)"
    by (auto simp: udp_recv_handler_def)
  then show ?thesis using ok by (simp add: queue_ok_def hev_socks5_session_terminate_def hev_socks5_set_timeout_def)
qed

lemma arrive_ok:
  "queue_ok (dns, self) \<Longrightarrow> list_all arrival_ok as \<Longrightarrow>
     \<exists>dns' self' new. arrive as (dns, self) = Some (dns', self') \<and> queue_ok (dns', self') \<and>
       u_frames self' = u_frames self @ new \<and> subseq (map f_data new) (map a_data as) \<and>
       u_dsock self' = u_dsock self \<and> s_type (u_base self') = s_type (u_base self)"
proof (induction as arbitrary: dns self)
  case (Cons a as)
  obtain d1 s1 n1 where 1: "udp_recv_handler a (dns, self) = Some (d1, s1)" "queue_ok (d1, s1)"
      "u_frames s1 = u_frames self @ n1" "subseq (map f_data n1) [a_data a]" "u_dsock s1 = u_dsock self"
      "s_type (u_base s1) = s_type (u_base self)"
    using recv_handler_ok [OF Cons.prems(1), of a] Cons.prems(2) by auto
  obtain d2 s2 n2 where 2: "arrive as (d1, s1) = Some (d2, s2)" "queue_ok (d2, s2)"
      "u_frames s2 = u_frames s1 @ n2" "subseq (map f_data n2) (map a_data as)" "u_dsock s2 = u_dsock s1"
      "s_type (u_base s2) = s_type (u_base s1)"
    using Cons.IH [OF 1(2)] Cons.prems(2) by auto
  have "subseq (map f_data (n1 @ n2)) (map a_data (a # as))"
    using list_emb_append_mono [OF 1(4) 2(4)] by simp
  then show ?case using 1 2 by (intro exI [of _ d2] exI [of _ s2] exI [of _ "n1 @ n2"]) simp
qed simp

section \<open>Forwarding\<close>

text \<open>What a frame carries: the address in its buffer and the payload of its first packet buffer.\<close>

definition frame_pair :: "HevSocks5UDPFrame \<Rightarrow> byte list \<times> byte list" where
  "frame_pair f =
     (case hev_socks5_addr_len (f_addr f) of Some n \<Rightarrow> take (nat n) (f_addr f) | None \<Rightarrow> [], p_payload (hd (f_data f)))"

lemma frame_msgs_carry:
  "list_all frame_ok fs \<Longrightarrow> n \<le> length fs \<Longrightarrow>
     \<exists>msgs. frame_msgs n fs = Some msgs \<and> list_all2 carries msgs (map frame_pair (take n fs))"
proof (induction n fs rule: frame_msgs.induct)
  case (3 n f fs)
  obtain a rest p ps where f: "wire_addr a" "f_addr f = a @ rest" "f_data f = p # ps" "chain_ok (p # ps)"
    using "3.prems"(1) by (auto simp: frame_ok_def neq_Nil_conv)
  have "mget (p_payload p) 0 (unat (p_len p)) = Some (p_payload p)" using chain_ok_len [OF f(4)] by (simp add: mget_def)
  moreover from this obtain msgs where m: "frame_msgs n fs = Some msgs"
      "list_all2 carries msgs (map frame_pair (take n fs))"
    using "3.IH" [OF f(3), of "p_payload p"] "3.prems" by auto
  moreover have "carries \<lparr>o_addr = f_addr f, o_data = p_payload p\<rparr> (frame_pair f)"
    using f addr_len_wire_addr [OF f(1), of rest] by (simp add: carries_def frame_pair_def)
  ultimately show ?case using f(3) by simp
qed auto

lemma free_frames_drop:
  "n \<le> length (u_frames self) \<Longrightarrow>
     free_frames n self = Some (self\<lparr>u_frames := drop n (u_frames self), u_count := u_count self - int n\<rparr>)"
  by (induction n self rule: free_frames.induct) (auto split: list.split)

text \<open>Sending some of the messages; the number of them that left is the result, if it is positive.\<close>

lemma sendmmsg_count:
  assumes c: "list_all2 carries msgs ps" and ty: "s_type self = TYPE_UDP_IN_TCP \<or> s_type self = TYPE_UDP_IN_UDP"
  shows "\<exists>res e self' d' k. hev_socks5_udp_sendmmsg self d msgs = Some (res, e, self', d') \<and> k \<le> length msgs \<and>
    (if k = 0 then res \<le> 0 else res = int k) \<and>
    (s_type self = TYPE_UDP_IN_UDP \<longrightarrow> d_tx d' = d_tx d @ map (\<lambda>p. (None, datagram p)) (take k ps))"
proof (cases "s_type self = TYPE_UDP_IN_UDP")
  case True
  let ?ds = "map (Pair None) (map datagram ps)"
  have len: "length msgs = length ps" using c by (rule list_all2_lengthD)
  obtain res self' out evs where r: "hev_task_io_socket_sendmmsg (task_io_yielder HEV_TASK_WAITIO) True False ?ds self 0 (d_tx d) (d_txs d) =
      (res, self', out, evs)" by (metis prod_cases4)
  obtain k where "k \<le> length ps" "out = d_tx d @ take k ?ds" "if k = 0 then res \<le> 0 else res = int k"
    using sendmmsg_prefix [where c = 0 and ds = ?ds and yielder = "task_io_yielder HEV_TASK_WAITIO" and s = self and
        out = "d_tx d" and evs = "d_txs d"] r by auto
  then show ?thesis using True r len datagrams_carries [OF c]
    by (intro exI [of _ res] exI [of _ "if res = - 1 then Some EOTHER else None"] exI [of _ self']
        exI [of _ "d\<lparr>d_tx := out, d_txs := evs\<rparr>"] exI [of _ k])
      (simp add: hev_socks5_udp_sendmmsg_def hev_socks5_udp_sendmmsg_udp_def dsock_send_def take_map comp_def)
next
  case False
  then have t: "s_type self = TYPE_UDP_IN_TCP" using ty by simp
  obtain iov where i: "frame_iov msgs = Some (Some iov)" using frame_iov_carries [OF c] by blast
  obtain res self' where s: "sock_sendmsg self iov = (res, self')" by (metis surj_pair)
  show ?thesis
  proof (cases "res \<le> 0")
    case True
    then show ?thesis using t i s
      by (intro exI [of _ "- 1"] exI [of _ "if res = - 1 then Some EOTHER else None"] exI [of _ self'] exI [of _ d] exI [of _ 0])
        (simp add: hev_socks5_udp_sendmmsg_def hev_socks5_udp_sendmmsg_tcp_def)
  next
    case False
    then show ?thesis using t i s
      by (intro exI [of _ "int (length msgs)"] exI [of _ None] exI [of _ self'] exI [of _ d] exI [of _ "length msgs"])
        (simp add: hev_socks5_udp_sendmmsg_def hev_socks5_udp_sendmmsg_tcp_def)
  qed
qed

text \<open>What a part of the relay does to the queue: the frames in \<open>gone\<close> have left it, in order, and
  those in \<open>new\<close> have joined it, carrying some of the datagrams in \<open>as\<close>, in order.\<close>

definition queue_moves ::
  "arrival list \<Rightarrow> HevSocks5UDPFrame list \<Rightarrow> HevMappedDNS option \<times> HevSocks5SessionUDP \<Rightarrow>
   HevMappedDNS option \<times> HevSocks5SessionUDP \<Rightarrow> bool" where
  "queue_moves as gone s s' \<longleftrightarrow> queue_ok s' \<and> s_type (u_base (snd s')) = s_type (u_base (snd s)) \<and>
     (\<exists>new. u_frames (snd s) @ new = gone @ u_frames (snd s') \<and> subseq (map f_data new) (map a_data as)) \<and>
     (s_type (u_base (snd s)) = TYPE_UDP_IN_UDP \<longrightarrow>
        d_tx (u_dsock (snd s')) = d_tx (u_dsock (snd s)) @ map (\<lambda>f. (None, datagram (frame_pair f))) gone)"

lemma queue_moves_refl: "queue_ok s \<Longrightarrow> queue_moves [] [] s s"
  by (simp add: queue_moves_def)


lemma queue_moves_more: "queue_moves as fs s t \<Longrightarrow> subseq as bs \<Longrightarrow> queue_moves bs fs s t"
  unfolding queue_moves_def by (meson subseq_map subseq_order.order_trans)


lemma arrive_moves:
  assumes "queue_ok s" "list_all arrival_ok as"
  shows "\<exists>t. arrive as s = Some t \<and> queue_moves as [] s t"
proof -
  obtain dns self where s: "s = (dns, self)" by (cases s)
  obtain dns' self' new where "arrive as (dns, self) = Some (dns', self')" "queue_ok (dns', self')"
      "u_frames self' = u_frames self @ new" "subseq (map f_data new) (map a_data as)"
      "u_dsock self' = u_dsock self" "s_type (u_base self') = s_type (u_base self)"
    using arrive_ok [OF assms(1) [unfolded s] assms(2)] by (elim exE conjE) (rule that)
  then show ?thesis by (intro exI [of _ "(dns', self')"]) (auto simp: queue_moves_def s)
qed

lemma fwd_f_eval:
  assumes "u_count self = int (length (u_frames self))" "u_frames self \<noteq> []"
    "frame_msgs (min num (length (u_frames self))) (u_frames self) = Some msgs"
    "hev_socks5_udp_sendmmsg (u_base self) (u_dsock self) msgs = Some (res, e, base, d)" "if k = 0 then res \<le> 0 else res = int k"
    "arrive as (dns, self\<lparr>u_base := base, u_dsock := d\<rparr>) = Some (dns1, self1)" "k \<le> length (u_frames self1)"
  shows "hev_socks5_session_udp_fwd_f as num (dns, self) =
    Some (if k = 0 then - 1 else 1, dns1, self1\<lparr>u_frames := drop k (u_frames self1), u_count := u_count self1 - int k\<rparr>)"
proof -
  have n: "(if int num < u_count self then num else nat (u_count self)) = min num (length (u_frames self))"
    using assms(1) by (simp add: min_def)
  show ?thesis using n assms free_frames_drop [OF assms(7)]
    by (cases "k = 0") (simp_all add: hev_socks5_session_udp_fwd_f_def Let_def)
qed

text \<open>The first frames of the queue are sent, and exactly those leave it.\<close>

lemma fwd_f_moves:
  assumes ok: "queue_ok s" and as: "list_all arrival_ok as"
    and ty: "s_type (u_base (snd s)) = TYPE_UDP_IN_TCP \<or> s_type (u_base (snd s)) = TYPE_UDP_IN_UDP"
  shows "\<exists>res t k. hev_socks5_session_udp_fwd_f as num s = Some (res, t) \<and> k \<le> num \<and>
    queue_moves as (take k (u_frames (snd s))) s t \<and>
    res = (if u_frames (snd s) = [] then 0 else if k = 0 then - 1 else 1)"
proof -
  obtain dns self where s: "s = (dns, self)" by (cases s)
  note Q = ok [unfolded queue_ok_def s fst_conv snd_conv]
  show ?thesis
  proof (cases "u_frames self = []")
    case True
    then show ?thesis using Q queue_moves_more [OF queue_moves_refl [OF ok], of as]
      by (intro exI [of _ 0] exI [of _ s]) (simp add: hev_socks5_session_udp_fwd_f_def s)
  next
    case False
    let ?n = "min num (length (u_frames self))"
    obtain msgs where m: "frame_msgs ?n (u_frames self) = Some msgs"
        "list_all2 carries msgs (map frame_pair (take ?n (u_frames self)))"
      using frame_msgs_carry [of "u_frames self" ?n] Q by auto
    have len: "length msgs = ?n" using list_all2_lengthD [OF m(2)] by simp
    obtain res e base d k where r: "hev_socks5_udp_sendmmsg (u_base self) (u_dsock self) msgs = Some (res, e, base, d)"
        "k \<le> length msgs" "if k = 0 then res \<le> 0 else res = int k"
        "s_type (u_base self) = TYPE_UDP_IN_UDP \<longrightarrow>
           d_tx d = d_tx (u_dsock self) @ map (\<lambda>p. (None, datagram p)) (take k (map frame_pair (take ?n (u_frames self))))"
      using sendmmsg_count [OF m(2) ty [unfolded s snd_conv], of "u_dsock self"] by (elim exE conjE) (rule that)
    have b: "s_type base = s_type (u_base self)" using sendmmsg_both_moves [OF r(1)] by (simp add: moves_def)
    have k: "k \<le> length (u_frames self)" "k \<le> num" using r(2) len by simp_all
    let ?s1 = "(dns, self\<lparr>u_base := base, u_dsock := d\<rparr>)"
    have "queue_ok ?s1" using ok by (simp add: s queue_ok_def)
    then obtain t where t: "arrive as ?s1 = Some t" "queue_moves as [] ?s1 t" using arrive_moves [OF _ as] by blast
    obtain dns1 self1 where t1: "t = (dns1, self1)" by (cases t)
    have "\<exists>new. u_frames self @ new = u_frames self1 \<and> subseq (map f_data new) (map a_data as)"
      using t(2) by (simp add: queue_moves_def t1)
    then obtain new where new: "u_frames self1 = u_frames self @ new" "subseq (map f_data new) (map a_data as)" by metis
    let ?t = "(dns1, self1\<lparr>u_frames := drop k (u_frames self1), u_count := u_count self1 - int k\<rparr>)"
    have "hev_socks5_session_udp_fwd_f as num s = Some (if k = 0 then - 1 else 1, ?t)"
      unfolding s by (rule fwd_f_eval [OF _ False m(1) r(1,3) t(1) [unfolded t1]]) (use Q new(1) k in simp_all)
    moreover have "queue_moves as (take k (u_frames (snd s))) s ?t"
    proof -
      have q: "queue_ok t" "s_type (u_base self1) = s_type (u_base self)" "u_dsock self1 = d \<or> s_type (u_base self) \<noteq> TYPE_UDP_IN_UDP \<or>
          d_tx (u_dsock self1) = d_tx d"
        using t(2) b by (auto simp: queue_moves_def t1)
      have "queue_ok ?t" using q(1) k new(1) by (auto simp: queue_ok_def t1 list_all_iff dest: in_set_dropD)
      moreover have "u_frames self @ new = take k (u_frames self) @ drop k (u_frames self1)"
        using new(1) k by simp
      moreover have "d_tx (u_dsock self1) = d_tx (u_dsock self) @ map (\<lambda>f. (None, datagram (frame_pair f))) (take k (u_frames self))"
        if "s_type (u_base self) = TYPE_UDP_IN_UDP"
        using that r(4) q(3) k t(2) b by (auto simp: queue_moves_def t1 take_map comp_def min_def)
      ultimately show ?thesis using q(2) new(2) by (auto simp: queue_moves_def s)
    qed
    ultimately show ?thesis using False k(2)
      by (intro exI [of _ "if k = 0 then - 1 else 1"] exI [of _ ?t] exI [of _ k]) (simp add: s)
  qed
qed

section \<open>Delivering\<close>











section \<open>Answers\<close>

text \<open>Buffers that are not needed stay as they are.\<close>

lemma fill_append:
  "length ms = length ds \<Longrightarrow> fill ms ds = Some (ms', ns) \<Longrightarrow> fill (ms @ zs) ds = Some (ms' @ zs, ns)"
  by (induction ms ds arbitrary: ms' ns rule: fill.induct) (auto simp: Let_def split: bind_split_asm)

lemma parse_append:
  "parse_datagrams ms ns = Some (r, ms') \<Longrightarrow> parse_datagrams (ms @ zs) ns = Some (r, ms' @ zs)"
  by (induction ms ns arbitrary: r ms' rule: parse_datagrams.induct) (auto split: bind_split_asm if_split_asm)

lemma recv_datagrams:
  assumes "fs \<noteq> []" "list_all2 fits_datagram bufs fs" "d_rx p = Batch (map (Pair from) (map datagram fs)) # evs'"
    "s_udp_associated peer \<or> 0 \<le> conn from"
  shows "hev_socks5_udp_recvmmsg_udp conn peer p (bufs @ zs) True =
    Some (int (length fs), None, map2 dgram_msg bufs fs @ zs, peer\<lparr>s_udp_associated := True\<rparr>, p\<lparr>d_rx := evs'\<rparr>)"
proof -
  have l: "length bufs = length fs" using assms(2) by (rule list_all2_lengthD)
  have "fill (bufs @ zs) (map datagram fs) =
      Some (map2 (\<lambda>m f. m\<lparr>m_mem := overwrite (m_mem m) (m_off m) (datagram f)\<rparr>) bufs fs @ zs, map (length \<circ> datagram) fs)"
    using fill_append [OF _ fill_datagrams [OF assms(2)]] l by simp
  then show ?thesis using assms(1,3,4) l parse_append [OF parse_filled [OF assms(2)], of zs]
    by (cases fs) (auto simp: hev_socks5_udp_recvmmsg_udp_def dsock_recv_def Let_def comp_def)
qed

text \<open>An answer: the address of its sender, IPv4 or IPv6, the port and the payload; how the server
  sends it, and what the stack is given.\<close>

type_synonym answer = "byte list \<times> u16 \<times> byte list"

definition answer_wire :: "answer \<Rightarrow> byte list \<times> byte list" where
  "answer_wire x = (case x of (ip, port, data) \<Rightarrow>
     (if length ip = 4 then wire_ipv4 ip (htons port) else wire_ipv6 ip (htons port), data))"

definition answer_ok :: "answer \<Rightarrow> bool" where
  "answer_ok x \<longleftrightarrow> (case x of (ip, port, data) \<Rightarrow> (length ip = 4 \<or> length ip = 16) \<and> data \<noteq> [] \<and> length data \<le> 1478)"

definition answer_delivery :: "HevSocks5SessionUDP \<Rightarrow> ip_addr \<Rightarrow> answer \<Rightarrow> delivery" where
  "answer_delivery self saddr x = (case x of (ip, port, data) \<Rightarrow>
     if u_addr self \<noteq> 0 \<and> u_port self \<noteq> 0 then
       (\<lparr>ip_bytes = map (\<lambda>i. ucast (drop_bit (8 * i) (u_addr self))) [0..<4] @ drop 4 (ip_bytes saddr), ip_type = IPADDR_TYPE_V4\<rparr>,
        u_port self, data)
     else (\<lparr>ip_bytes = ip @ drop (length ip) (ip_bytes saddr), ip_type = (if length ip = 4 then IPADDR_TYPE_V4 else IPADDR_TYPE_V6)\<rparr>,
       port, data))"

lemma upt_4: "[0..<4] = [0, 1, 2, 3 :: nat]"
  by (simp add: upt_rec)

lemma answer_source_wire:
  assumes "answer_ok x" "length (ip_bytes saddr) = 16"
  shows "\<exists>src port. answer_source self saddr (fst (answer_wire x) @ rest) = Some (0, src, port) \<and>
    answer_delivery self saddr x = (src, port, snd (answer_wire x))"
  using assms into_lwip_wire [OF assms(2)]
  by (auto simp: answer_ok_def answer_wire_def answer_delivery_def answer_source_def mput_def overwrite_def upt_4 eval_nat_numeral split: prod.splits)

lemma answer_fits:
  assumes "answer_ok x" "length mem = UDP_BUF_SIZE"
  shows "fits_datagram \<lparr>m_mem = mem, m_addr = Uninit, m_off = 0, m_len = UDP_BUF_SIZE\<rparr> (answer_wire x)"
  using assms wire_ipv4_addr unfolding fits_datagram_def wire_addr_def answer_ok_def answer_wire_def datagram_def UDP_BUF_SIZE_def
  by (auto simp: wire_ipv4_def wire_ipv6_def split: prod.splits)

lemma mget_mid: "mget (xs @ ys @ zs) (length xs) (length ys) = Some ys"
  by (simp add: mget_def)

lemma deliver_answers:
  "list_all answer_ok xs \<Longrightarrow> list_all (\<lambda>b. length b = UDP_BUF_SIZE) bs \<Longrightarrow> length bs = length xs \<Longrightarrow> length (ip_bytes saddr) = 16 \<Longrightarrow>
     length xs \<le> n \<Longrightarrow>
     deliver saddr (replicate n (True, [], True)) (map2 dgram_msg (svec bs) (map answer_wire xs)) s =
       Some (True, map (answer_delivery (snd s) saddr) xs, s)"
proof (induction xs arbitrary: bs n)
  case (Cons x xs)
  obtain b bs' m where b: "bs = b # bs'" "length b = UDP_BUF_SIZE" "length bs' = length xs" "n = Suc m" "length xs \<le> m"
    using Cons.prems by (cases bs; cases n) auto
  have x: "answer_ok x" using Cons.prems(1) by simp
  let ?msg = "\<lparr>m_mem = b, m_addr = Uninit, m_off = 0, m_len = UDP_BUF_SIZE\<rparr>" and ?w = "answer_wire x"
  have fit: "length (datagram ?w) \<le> length b" using answer_fits [OF x b(2)] b(2) by (simp add: fits_datagram_def)
  then have "drop 3 (overwrite b 0 (datagram ?w)) = fst ?w @ snd ?w @ drop (length (datagram ?w)) b"
    by (simp add: overwrite_def datagram_def)
  moreover obtain src port where src: "answer_source (snd s) saddr (fst ?w @ snd ?w @ drop (length (datagram ?w)) b) = Some (0, src, port)"
      "answer_delivery (snd s) saddr x = (src, port, snd ?w)"
    using answer_source_wire [OF x Cons.prems(4)] by blast
  moreover have "mget (overwrite b 0 (datagram ?w)) (3 + length (fst ?w)) (length (snd ?w)) = Some (snd ?w)"
  proof -
    have "overwrite b 0 (datagram ?w) = ([0, 0, 0] @ fst ?w) @ snd ?w @ drop (length (datagram ?w)) b"
      by (simp add: overwrite_def datagram_def)
    then show ?thesis using mget_mid [of "[0, 0, 0] @ fst ?w" "snd ?w"] by (simp add: eval_nat_numeral)
  qed
  moreover have "snd ?w \<noteq> []" using x by (auto simp: answer_ok_def answer_wire_def)
  moreover have "deliver saddr (replicate m (True, [], True)) (map2 dgram_msg (svec bs') (map answer_wire xs)) s =
      Some (True, map (answer_delivery (snd s) saddr) xs, s)"
    using Cons.IH [of bs' m] Cons.prems b by simp
  ultimately show ?case using b by (simp add: svec_def dgram_msg_def)
qed simp

section \<open>Properties\<close>


definition udp_pbuf :: "byte list \<Rightarrow> pbuf" where
  "udp_pbuf bs = \<lparr>p_len = of_nat (length bs), p_tot_len = of_nat (length bs), p_payload = bs\<rparr>"

definition udp_arrival :: "byte list \<Rightarrow> arrival" where
  "udp_arrival bs = \<lparr>a_data = [udp_pbuf bs], a_mem = True, a_buf = replicate 260 0,
     a_ip = \<lparr>ip_bytes = [8, 8, 4, 4] @ replicate 12 0, ip_type = IPADDR_TYPE_V4\<rparr>, a_port = 53\<rparr>"

definition udp_self :: "HevSocks5Type \<Rightarrow> HevSocks5SessionUDP" where
  "udp_self ty = session_udp_zero\<lparr>u_base := (client_zero (ClientUDP 0))\<lparr>s_type := ty, s_timeout := 1000,
       s_sock := \<lparr>rx = [RxAgain 1, RxAgain 1, RxAgain 1], tx = [], txs = [Accept 100]\<rparr>\<rparr>,
     u_dsock := \<lparr>d_rx = [], d_tx = [], d_txs = [Accept 8]\<rparr>\<rparr>"

definition udp_round1 :: "byte list \<Rightarrow> udp_round" where
  "udp_round1 bs = \<lparr>v_send = [], v_conn = (\<lambda>_. 0), v_stale = False, v_buf = [replicate 1500 0], v_recv = [udp_arrival bs],
     v_saddr = \<lparr>ip_bytes = replicate 16 0, ip_type = 0\<rparr>, v_oks = [], v_left = 1, v_wait = []\<rparr>"

lemma udp_self_ok: "queue_ok (None, udp_self ty)" "s_type (u_base (udp_self ty)) = ty"
  by (simp_all add: queue_ok_def dns_ok_def udp_self_def session_udp_zero_def)

lemma udp_arrival_ok: "length bs < 2 ^ 16 \<Longrightarrow> arrival_ok (udp_arrival bs)"
  by (simp add: arrival_ok_def udp_arrival_def udp_pbuf_def)


text \<open>One call of \<open>hev_socks5_session_udp_fwd_f\<close> over either kind of transport returns: it
  takes some of the first \<open>num\<close> frames, sends them, and removes exactly those from the queue, also
  when datagrams arrive in between; it returns 0 only for an empty queue and 1 exactly when it has
  sent something.\<close>

theorem udp_forward_exact:
  assumes "queue_ok s" "list_all arrival_ok as"
    "s_type (u_base (snd s)) = TYPE_UDP_IN_TCP \<or> s_type (u_base (snd s)) = TYPE_UDP_IN_UDP"
  shows "\<exists>res t k new. hev_socks5_session_udp_fwd_f as num s = Some (res, t) \<and> queue_ok t \<and> k \<le> num \<and>
    u_frames (snd s) @ new = take k (u_frames (snd s)) @ u_frames (snd t) \<and> subseq (map f_data new) (map a_data as) \<and>
    res = (if u_frames (snd s) = [] then 0 else if k = 0 then - 1 else 1)"
proof -
  obtain res t k where r: "hev_socks5_session_udp_fwd_f as num s = Some (res, t)" "k \<le> num"
      "queue_moves as (take k (u_frames (snd s))) s t"
      "res = (if u_frames (snd s) = [] then 0 else if k = 0 then - 1 else 1)"
    using fwd_f_moves [OF assms, of num] by (elim exE conjE) (rule that)
  then obtain new where "u_frames (snd s) @ new = take k (u_frames (snd s)) @ u_frames (snd t)"
      "subseq (map f_data new) (map a_data as)"
    by (auto simp: queue_moves_def)
  then show ?thesis using r
    by (intro exI [of _ res] exI [of _ t] exI [of _ k] exI [of _ new]) (simp add: queue_moves_def)
qed

theorem udp_forward_exact_witness:
  "\<exists>res t k new. hev_socks5_session_udp_fwd_f [udp_arrival [7]] 8 (None, udp_self TYPE_UDP_IN_TCP) = Some (res, t) \<and> queue_ok t \<and>
    k \<le> 8 \<and> u_frames (udp_self TYPE_UDP_IN_TCP) @ new = take k (u_frames (udp_self TYPE_UDP_IN_TCP)) @ u_frames (snd t) \<and>
    subseq (map f_data new) (map a_data [udp_arrival [7]]) \<and>
    res = (if u_frames (udp_self TYPE_UDP_IN_TCP) = [] then 0 else if k = 0 then - 1 else 1)"
  using udp_forward_exact [of "(None, udp_self TYPE_UDP_IN_TCP)" "[udp_arrival [7]]" 8] udp_self_ok udp_arrival_ok [of "[7]"]
  by simp

text \<open>C28: Answers reach the client: datagrams in which the server wraps answers from IPv4 or IPv6
  senders, as many as there are buffers or fewer, are given to the stack one by one, in order, with
  their payloads. They come from the mapped address when the session has seen a mapped name, and
  else from the address the server gave.\<close>

theorem udp_answers_delivered:
  assumes "s_type (u_base self) = TYPE_UDP_IN_UDP" "s_udp_associated (u_base self) \<or> 0 \<le> v_conn v from"
    "d_rx (u_dsock self) = Batch (map (Pair from) (map datagram (map answer_wire xs))) # evs" "xs \<noteq> []" "list_all answer_ok xs"
    "length xs \<le> length (v_buf v)" "list_all (\<lambda>b. length b = UDP_BUF_SIZE) (v_buf v)" "length (ip_bytes (v_saddr v)) = 16"
    "v_recv v = []" "v_oks v = replicate (length xs) (True, [], True)"
  shows "hev_socks5_session_udp_fwd_b v (dns, self) =
    Some (1, map (answer_delivery self (v_saddr v)) xs, dns,
      self\<lparr>u_base := (u_base self)\<lparr>s_udp_associated := True\<rparr>, u_dsock := (u_dsock self)\<lparr>d_rx := evs\<rparr>\<rparr>)"
proof -
  let ?n = "length xs" and ?ws = "map answer_wire xs"
  let ?b1 = "take ?n (v_buf v)" and ?b2 = "drop ?n (v_buf v)"
  have b1: "list_all (\<lambda>b. length b = UDP_BUF_SIZE) ?b1" "length ?b1 = length xs"
    using assms(6,7) by (auto simp: list_all_iff dest: in_set_takeD)
  have fits: "list_all2 fits_datagram (svec ?b1) ?ws"
    using b1 assms(5) answer_fits by (auto simp: list_all2_conv_all_nth list_all_length svec_def)
  have v: "svec (v_buf v) = svec ?b1 @ svec ?b2" by (simp add: svec_def flip: map_append)
  have "hev_socks5_udp_recvmmsg (v_conn v) (u_base self) (u_dsock self) (svec (v_buf v)) True =
      Some (int ?n, None, map2 dgram_msg (svec ?b1) ?ws @ svec ?b2, (u_base self)\<lparr>s_udp_associated := True\<rparr>,
        (u_dsock self)\<lparr>d_rx := evs\<rparr>)"
    using recv_datagrams [of ?ws "svec ?b1" "u_dsock self" "from" evs "u_base self" "v_conn v" "svec ?b2"] fits assms(1-4)
    unfolding v by (simp add: hev_socks5_udp_recvmmsg_def)
  moreover have "length (svec ?b1) = ?n" using b1(2) by (simp add: svec_def)
  moreover have "answer_delivery (self\<lparr>u_base := a, u_dsock := d\<rparr>) = answer_delivery self" for a d
    by (simp add: answer_delivery_def fun_eq_iff)
  ultimately show ?thesis
    using deliver_answers [OF assms(5) b1 assms(8) order_refl] assms(4,9,10) by (simp add: hev_socks5_session_udp_fwd_b_def)
qed

theorem udp_answers_delivered_witness:
  "hev_socks5_session_udp_fwd_b ((udp_round1 [])\<lparr>v_recv := [], v_oks := [(True, [], True)]\<rparr>)
     (None, (udp_self TYPE_UDP_IN_UDP)\<lparr>u_dsock := \<lparr>d_rx = [Batch [(sa0, datagram (wire_ipv4 [9, 9, 9, 9] (htons 53), [1, 2]))]],
       d_tx = [], d_txs = []\<rparr>, u_addr := 0x00000564, u_port := 53\<rparr>) =
   Some (1, [(\<lparr>ip_bytes = [100, 5, 0, 0] @ replicate 12 0, ip_type = IPADDR_TYPE_V4\<rparr>, 53, [1, 2])], None,
     (udp_self TYPE_UDP_IN_UDP)\<lparr>u_base := (u_base (udp_self TYPE_UDP_IN_UDP))\<lparr>s_udp_associated := True\<rparr>,
       u_dsock := \<lparr>d_rx = [], d_tx = [], d_txs = []\<rparr>, u_addr := 0x00000564, u_port := 53\<rparr>)"
  using udp_answers_delivered [of "(udp_self TYPE_UDP_IN_UDP)\<lparr>u_dsock := \<lparr>d_rx = [Batch [(sa0, datagram (wire_ipv4 [9, 9, 9, 9] (htons 53), [1, 2]))]],
       d_tx = [], d_txs = []\<rparr>, u_addr := 0x00000564, u_port := 53\<rparr>" "(udp_round1 [])\<lparr>v_recv := [], v_oks := [(True, [], True)]\<rparr>"
      sa0 "[([9, 9, 9, 9], 53, [1, 2])]" "[]" None]
  by (simp add: udp_self_ok udp_round1_def answer_wire_def answer_ok_def answer_delivery_def upt_4 UDP_BUF_SIZE_def)

section \<open>Limits of the code\<close>

text \<open>The queue takes a datagram when it holds as many as \<open>UDP_POOL_SIZE\<close>.\<close>

lemma udp_queue_exceeds_pool:
  assumes ok: "queue_ok (dns, self)" and a: "arrival_ok a" "a_data a \<noteq> []" "a_mem a" and full: "u_count self = UDP_POOL_SIZE"
  shows "\<exists>dns' self'. udp_recv_handler a (dns, self) = Some (dns', self') \<and> u_count self' = UDP_POOL_SIZE + 1"
proof -
  note U = ok [unfolded queue_ok_def fst_conv snd_conv]
  obtain dns' addr w rest where f: "hev_socks5_addr_from_lwip dns (a_buf a) (a_ip a) (a_port a) = Some (0, dns', addr)"
      "wire_addr w" "addr = w @ rest"
    using from_lwip_ok [OF _ a(1), of dns] U by blast
  have "0 < length addr" using wire_addr_length [OF f(2)] f(3) by auto
  moreover obtain ip where "load32 (ip_bytes (a_ip a)) = Some ip"
    using load32_some [of "ip_bytes (a_ip a)"] a(1) by (auto simp: arrival_ok_def)
  ultimately show ?thesis using f(1) a full
    by (cases "addr ! 0 = HEV_SOCKS5_ADDR_TYPE_NAME") (simp_all add: udp_recv_handler_def bget_def)
qed

text \<open>Only the first packet buffer of a datagram is sent.\<close>

lemma udp_chain_cut:
  assumes "f_data f = p # q"
  shows "snd (frame_pair f) = p_payload p"
  by (simp add: frame_pair_def assms)

end
