(* ===== verification/MappedDNSPacket.thy ===== *)
theory MappedDNSPacket
  imports MappedDNS
begin

text \<open>
  The DNS responder of \<open>hev-mapped-dns.c\<close> (\<open>hev_mapped_dns_handle\<close>): the request is parsed in
  place, every A question of class IN is answered from the cache, and the response is the
  request followed by the answers. The two buffers are byte lists whose lengths are the
  arguments \<open>qlen\<close> and \<open>slen\<close>; an access outside a buffer has the value \<^term>\<open>None\<close>. Offsets
  are natural numbers: they stay below \<open>qlen + 256\<close> and \<open>slen + 16\<close>, far from the range of
  \<open>int\<close> for packets. 16-bit header fields are loaded and stored in the byte order of a
  little-endian host, and \<open>ntohs\<close>, \<open>htons\<close> swap their bytes.
\<close>

section \<open>Bytes\<close>

definition read_u16 :: "byte list \<Rightarrow> nat \<Rightarrow> u16 option" where
  "read_u16 b i = do {
     x \<leftarrow> bget b i;
     y \<leftarrow> bget b (i + 1);
     Some (push_bit 8 (ucast x) OR ucast y) }"

definition write_u16 :: "byte list \<Rightarrow> nat \<Rightarrow> u16 \<Rightarrow> byte list option" where
  "write_u16 b i v = do {
     b \<leftarrow> bput b i (ucast (drop_bit 8 v));
     bput b (i + 1) (ucast v) }"

definition write_u32 :: "byte list \<Rightarrow> nat \<Rightarrow> u32 \<Rightarrow> byte list option" where
  "write_u32 b i v = do {
     b \<leftarrow> bput b i (ucast (drop_bit 24 v));
     b \<leftarrow> bput b (i + 1) (ucast (drop_bit 16 v));
     b \<leftarrow> bput b (i + 2) (ucast (drop_bit 8 v));
     bput b (i + 3) (ucast v) }"

section \<open>Questions\<close>

text \<open>The labels of one name: every length byte becomes a dot. The flag is false when the name
  leaves the request.\<close>

function dns_labels :: "byte list \<Rightarrow> nat \<Rightarrow> (byte list \<times> nat \<times> bool) option" where
  "dns_labels rb off =
     (if length rb \<le> off then None
      else if rb ! off = 0 then Some (rb, off, True)
      else if length rb \<le> off + 1 + unat (rb ! off) then Some (rb, off + 1 + unat (rb ! off), False)
      else dns_labels (rb[off := 46]) (off + 1 + unat (rb ! off)))"
  by auto
termination
  by (relation "measure (\<lambda>(rb, off). length rb - off)") auto

declare dns_labels.simps [simp del]

fun dns_questions ::
  "alloc \<Rightarrow> nat \<Rightarrow> HevMappedDNS \<Rightarrow> byte list \<Rightarrow> nat \<Rightarrow> (nat \<times> cint) list \<Rightarrow>
     (HevMappedDNS \<times> byte list \<times> nat \<times> (nat \<times> cint) list \<times> bool) option" where
  "dns_questions alloc 0 self rb off ips = Some (self, rb, off, ips, True)"
| "dns_questions alloc (Suc n) self rb off ips =
     (if length rb \<le> off then Some (self, rb, off, ips, False)
      else do {
        (rb, end, ok) \<leftarrow> dns_labels rb off;
        if \<not> ok then Some (self, rb, end, ips, False)
        else if length rb \<le> end + 1 + 3 then Some (self, rb, end + 1, ips, False)
        else do {
          ty \<leftarrow> read_u16 rb (end + 1);
          cl \<leftarrow> read_u16 rb (end + 3);
          (self, ips) \<leftarrow>
            (if ty = 1 \<and> cl = 1 then do {
               name \<leftarrow> c_str (drop (off + 1) rb);
               (self, idx) \<leftarrow> hev_mapped_dns_find alloc self name;
               Some (self, if 0 \<le> sint idx then ips @ [(off, m_net self OR idx)] else ips) }
             else Some (self, ips));
          dns_questions alloc n self rb (end + 5) ips } })"

section \<open>Answers\<close>

fun dns_answers :: "(nat \<times> cint) list \<Rightarrow> byte list \<Rightarrow> nat \<Rightarrow> (byte list \<times> nat \<times> bool) option" where
  "dns_answers [] sb off = Some (sb, off, True)"
| "dns_answers ((ipo, ip) # ips) sb off =
     (if length sb \<le> off + 15 then Some (sb, off, False)
      else do {
        sb \<leftarrow> write_u16 sb off (0xc000 OR of_nat ipo);
        sb \<leftarrow> write_u16 sb (off + 2) 1;
        sb \<leftarrow> write_u16 sb (off + 4) 1;
        sb \<leftarrow> write_u32 sb (off + 6) 1;
        sb \<leftarrow> write_u16 sb (off + 10) 4;
        sb \<leftarrow> write_u32 sb (off + 12) ip;
        dns_answers ips sb (off + 16) })"

section \<open>The handler\<close>

text \<open>The result is the cache, both buffers and the returned length, or -1.\<close>

definition hev_mapped_dns_handle ::
  "alloc \<Rightarrow> HevMappedDNS \<Rightarrow> byte list \<Rightarrow> byte list \<Rightarrow> (HevMappedDNS \<times> byte list \<times> byte list \<times> int) option" where
  "hev_mapped_dns_handle alloc self req res =
     (if length res < length req then Some (self, req, res, - 1)
      else if length req < 12 then Some (self, req, res, - 1)
      else do {
        let sb = req @ drop (length req) res;
        qd \<leftarrow> load16 req 4;
        rb \<leftarrow> store16 req 4 (ntohs qd);
        fl \<leftarrow> load16 sb 2;
        sb \<leftarrow> store16 sb 2 (ntohs fl);
        sb \<leftarrow> store16 sb 8 0;
        sb \<leftarrow> store16 sb 6 0;
        sb \<leftarrow> store16 sb 10 0;
        if 32 < unat (ntohs qd) then Some (self, rb, sb, - 1)
        else do {
          (self, rb, off, ips, ok) \<leftarrow> dns_questions alloc (unat (ntohs qd)) self rb 12 [];
          if \<not> ok then Some (self, rb, sb, - 1)
          else do {
            (sb, off, ok) \<leftarrow> dns_answers ips sb off;
            if \<not> ok then Some (self, rb, sb, - 1)
            else do {
              fl \<leftarrow> load16 sb 2;
              sb \<leftarrow> store16 sb 2 (htons (fl OR 0x8000 OR drop_bit 1 (fl AND 0x100)));
              sb \<leftarrow> store16 sb 6 (htons (of_nat (length ips)));
              Some (self, rb, sb, int off) } } } })"

section \<open>No access outside the buffers\<close>

lemma bytes_in:
  "i < length b \<Longrightarrow> bget b i = Some (b ! i)" "i < length b \<Longrightarrow> bput b i v = Some (b[i := v])"
  by (simp_all add: bget_def bput_def)

lemma words_in:
  "i + 1 < length b \<Longrightarrow> \<exists>v. read_u16 b i = Some v" "i + 1 < length b \<Longrightarrow> \<exists>v. load16 b i = Some v"
  "i + 1 < length b \<Longrightarrow> write_u16 b i w = Some (b[i := ucast (drop_bit 8 w), i + 1 := ucast w])"
  "i + 1 < length b \<Longrightarrow> store16 b i w = Some (b[i := ucast w, i + 1 := ucast (drop_bit 8 w)])"
  "i + 3 < length b \<Longrightarrow> write_u32 b i x = Some (b[i := ucast (drop_bit 24 x), i + 1 := ucast (drop_bit 16 x),
     i + 2 := ucast (drop_bit 8 x), i + 3 := ucast x])"
  by (simp_all add: read_u16_def load16_def write_u16_def store16_def write_u32_def bytes_in)

text \<open>A name that stays inside the request ends at a zero byte.\<close>

lemma dns_labels_in:
  assumes "off < length rb"
  shows "\<exists>rb' e ok. dns_labels rb off = Some (rb', e, ok) \<and> length rb' = length rb \<and> off \<le> e \<and>
    (ok \<longrightarrow> e < length rb \<and> rb' ! e = 0)"
  using assms
proof (induction rb off rule: dns_labels.induct)
  case (1 rb off)
  show ?case
  proof (cases "rb ! off = 0 \<or> length rb \<le> off + 1 + unat (rb ! off)")
    case True
    then show ?thesis using "1.prems" by (subst dns_labels.simps) auto
  next
    case False
    then obtain rb' e ok where "dns_labels (rb[off := 46]) (off + 1 + unat (rb ! off)) = Some (rb', e, ok)"
        "length rb' = length rb" "off + 1 + unat (rb ! off) \<le> e" "ok \<longrightarrow> e < length rb \<and> rb' ! e = 0"
      using "1.IH" "1.prems" by auto
    then show ?thesis using False "1.prems" by (subst dns_labels.simps) auto
  qed
qed

lemma read_u16_1: "read_u16 b i = Some 1 \<Longrightarrow> i < length b \<and> b ! i = 0"
proof -
  assume a: "read_u16 b i = Some 1"
  then have l: "i + 1 < length b" by (auto simp: read_u16_def bget_def split: if_splits)
  let ?x = "b ! i" and ?y = "b ! (i + 1)"
  have w: "push_bit 8 (ucast ?x) OR ucast ?y = (1 :: u16)" using a l by (simp add: read_u16_def bytes_in)
  have "\<not> bit ?x n" if "n < 8" for n
  proof -
    have "bit (push_bit 8 (ucast ?x) OR ucast ?y :: u16) (n + 8) \<longleftrightarrow> bit ?x n"
      using that by (auto simp: bit_simps dest: bit_imp_le_length)
    then show ?thesis using w by (simp add: bit_1_iff)
  qed
  then have "?x = 0" by (intro bit_eqI) simp
  then show ?thesis using l by simp
qed

text \<open>The string that the cache is asked for is terminated inside the request, also for the root
  name, where it is read from the type field.\<close>

lemma question_name:
  assumes "e < length rb" "rb ! e = 0" "off \<le> e" "e + 1 + 3 < length rb" "read_u16 rb (e + 1) = Some 1"
  shows "\<exists>name. c_str (drop (off + 1) rb) = Some name"
proof -
  have "0 \<in> set (drop (off + 1) rb)"
  proof (cases "off = e")
    case True
    then have "drop (off + 1) rb ! 0 = 0" "0 < length (drop (off + 1) rb)" using read_u16_1 [OF assms(5)] assms(4) by auto
    then show ?thesis by (metis nth_mem)
  next
    case False
    then have "drop (off + 1) rb ! (e - (off + 1)) = 0" "e - (off + 1) < length (drop (off + 1) rb)"
      using assms by auto
    then show ?thesis by (metis nth_mem)
  qed
  then show ?thesis using c_str_Some by blast
qed

lemma dns_questions_in:
  "dns_inv self xs \<Longrightarrow> malloc_ok alloc \<Longrightarrow> off \<le> length rb \<Longrightarrow>
   \<exists>self' rb' off' ips' ok ys. dns_questions alloc n self rb off ips = Some (self', rb', off', ips', ok) \<and>
    dns_inv self' ys \<and> length rb' = length rb \<and> (ok \<longrightarrow> off \<le> off' \<and> off' \<le> length rb) \<and>
    length ips' \<le> length ips + n \<and> m_max self' = m_max self \<and> m_net self' = m_net self \<and> m_mask self' = m_mask self"
proof (induction n arbitrary: self xs rb off ips)
  case 0
  then show ?case by auto
next
  case (Suc n)
  show ?case
  proof (cases "off < length rb")
    case False
    then show ?thesis using Suc.prems by auto
  next
    case True
    obtain rb1 e ok where l: "dns_labels rb off = Some (rb1, e, ok)" "length rb1 = length rb" "off \<le> e"
        "ok \<longrightarrow> e < length rb \<and> rb1 ! e = 0" using dns_labels_in [OF True] by blast
    show ?thesis
    proof (cases "ok \<and> e + 1 + 3 < length rb")
      case False
      then show ?thesis using True l Suc.prems by auto
    next
      case ok: True
      obtain ty cl where tc: "read_u16 rb1 (e + 1) = Some ty" "read_u16 rb1 (e + 3) = Some cl"
        using words_in(1) [of "e + 1" rb1] words_in(1) [of "e + 3" rb1] ok l(2) by auto
      have step: "\<exists>self1 ips1 ys. (if ty = 1 \<and> cl = 1 then do {
               name \<leftarrow> c_str (drop (off + 1) rb1);
               (self, idx) \<leftarrow> hev_mapped_dns_find alloc self name;
               Some (self, if 0 \<le> sint idx then ips @ [(off, m_net self OR idx)] else ips) }
             else Some (self, ips)) = Some (self1, ips1) \<and> dns_inv self1 ys \<and> length ips1 \<le> length ips + 1 \<and>
          m_max self1 = m_max self \<and> m_net self1 = m_net self \<and> m_mask self1 = m_mask self"
      proof (cases "ty = 1 \<and> cl = 1")
        case False
        then show ?thesis using Suc.prems(1) by auto
      next
        case q: True
        then obtain name where name: "c_str (drop (off + 1) rb1) = Some name"
          using question_name [of e rb1 off] l ok tc by auto
        show ?thesis using dns_find [OF Suc.prems(1,2), of name] q name Suc.prems(1) by auto
      qed
      then obtain self1 ips1 ys where s1: "(if ty = 1 \<and> cl = 1 then do {
               name \<leftarrow> c_str (drop (off + 1) rb1);
               (self, idx) \<leftarrow> hev_mapped_dns_find alloc self name;
               Some (self, if 0 \<le> sint idx then ips @ [(off, m_net self OR idx)] else ips) }
             else Some (self, ips)) = Some (self1, ips1)" "dns_inv self1 ys" "length ips1 \<le> length ips + 1"
          "m_max self1 = m_max self" "m_net self1 = m_net self" "m_mask self1 = m_mask self" by blast
      have "dns_questions alloc (Suc n) self rb off ips = dns_questions alloc n self1 rb1 (e + 5) ips1"
        using True l(1,2) ok tc s1(1) by simp
      moreover have "e + 5 \<le> length rb1" using ok l(2) by simp
      then obtain self' rb' off' ips' ok' zs where "dns_questions alloc n self1 rb1 (e + 5) ips1 = Some (self', rb', off', ips', ok')"
          "dns_inv self' zs" "length rb' = length rb1" "ok' \<longrightarrow> e + 5 \<le> off' \<and> off' \<le> length rb1" "length ips' \<le> length ips1 + n"
          "m_max self' = m_max self1" "m_net self' = m_net self1" "m_mask self' = m_mask self1"
        using Suc.IH [OF s1(2) Suc.prems(2), of "e + 5" rb1 ips1] by blast
      ultimately show ?thesis using l(2,3) s1(3-6)
        by (intro exI [of _ self'] exI [of _ rb'] exI [of _ off'] exI [of _ ips'] exI [of _ ok'] exI [of _ zs]) auto
    qed
  qed
qed

text \<open>Writing bytes at an offset, and one answer: a pointer to the name, type A, class IN, a
  lifetime of one second, and the address.\<close>

definition answer_bytes :: "nat \<Rightarrow> cint \<Rightarrow> byte list" where
  "answer_bytes ipo ip =
     [ucast (drop_bit 8 (0xc000 OR of_nat ipo :: u16)), ucast (0xc000 OR of_nat ipo :: u16),
      0, 1, 0, 1, 0, 0, 0, 1, 0, 4,
      ucast (drop_bit 24 ip), ucast (drop_bit 16 ip), ucast (drop_bit 8 ip), ucast ip]"

lemma length_answer_bytes [simp]: "length (answer_bytes ipo ip) = 16"
  by (simp add: answer_bytes_def)



lemma write_u16_overwrite: "i + 1 < length b \<Longrightarrow> write_u16 b i v = Some (overwrite b i [ucast (drop_bit 8 v), ucast v])"
  by (simp add: write_u16_def bput_overwrite overwrite_overwrite)

lemma write_u32_overwrite:
  "i + 3 < length b \<Longrightarrow> write_u32 b i v = Some (overwrite b i [ucast (drop_bit 24 v), ucast (drop_bit 16 v), ucast (drop_bit 8 v), ucast v])"
  by (simp add: write_u32_def bput_overwrite overwrite_overwrite)

lemma dns_answers_step:
  assumes "off + 15 < length sb"
  shows "dns_answers ((ipo, ip) # ips) sb off = dns_answers ips (overwrite sb off (answer_bytes ipo ip)) (off + 16)"
  using assms by (simp add: write_u16_overwrite write_u32_overwrite overwrite_overwrite answer_bytes_def)

lemma dns_answers_in:
  "\<exists>sb' off' ok. dns_answers ips sb off = Some (sb', off', ok) \<and> length sb' = length sb \<and>
     (ok \<longrightarrow> off' = off + 16 * length ips \<and> (off \<le> length sb \<longrightarrow> off' \<le> length sb))"
proof (induction ips arbitrary: sb off)
  case (Cons a ips)
  obtain ipo ip where a: "a = (ipo, ip)" by fastforce
  show ?case
  proof (cases "off + 15 < length sb")
    case True
    then show ?thesis using dns_answers_step [OF True, of ipo ip ips]
        Cons.IH [of "overwrite sb off (answer_bytes ipo ip)" "off + 16"] by (auto simp: a simp del: dns_answers.simps)
  qed (auto simp: a)
qed auto

lemma dns_handle_total:
  assumes "dns_inv self xs" and "malloc_ok alloc"
  shows "\<exists>self' req' res' r ys. hev_mapped_dns_handle alloc self req res = Some (self', req', res', r) \<and>
    dns_inv self' ys \<and> length req' = length req \<and> length res' = length res \<and>
    (r = - 1 \<or> 12 \<le> r \<and> r \<le> int (length res))"
proof (cases "length res < length req \<or> length req < 12")
  case True
  then show ?thesis using assms(1) by (auto simp: hev_mapped_dns_handle_def)
next
  case False
  let ?sb = "req @ drop (length req) res"
  have len: "12 \<le> length req" "length ?sb = length res" "12 \<le> length res" using False by auto
  obtain qd where qd: "load16 req 4 = Some qd" using words_in(2) [of 4 req] len by auto
  obtain fl where fl: "load16 ?sb 2 = Some fl" using words_in(2) [of 2 ?sb] len by auto
  let ?rb = "req[4 := ucast (ntohs qd), 5 := ucast (drop_bit 8 (ntohs qd))]"
  let ?sb1 = "?sb[2 := ucast (ntohs fl), 3 := ucast (drop_bit 8 (ntohs fl)), 8 := 0, 9 := 0, 6 := 0, 7 := 0, 10 := 0, 11 := 0]"
  obtain self1 rb1 off1 ips ok1 ys where q: "dns_questions alloc (unat (ntohs qd)) self ?rb 12 [] = Some (self1, rb1, off1, ips, ok1)"
      "dns_inv self1 ys" "length rb1 = length ?rb" "ok1 \<longrightarrow> 12 \<le> off1 \<and> off1 \<le> length ?rb"
    using dns_questions_in [OF assms, of 12 ?rb "unat (ntohs qd)" "[]"] len by auto
  obtain sb2 off2 ok2 where a: "dns_answers ips ?sb1 off1 = Some (sb2, off2, ok2)" "length sb2 = length ?sb1"
      "ok2 \<longrightarrow> off2 = off1 + 16 * length ips \<and> (off1 \<le> length ?sb1 \<longrightarrow> off2 \<le> length ?sb1)"
    using dns_answers_in by blast
  have l2: "length sb2 = length res" using a(2) len(2) by simp
  obtain fl2 where fl2: "load16 sb2 2 = Some fl2" using words_in(2) [of 2 sb2] l2 len by auto
  have run: "hev_mapped_dns_handle alloc self req res =
      (if 32 < unat (ntohs qd) then Some (self, ?rb, ?sb1, - 1)
       else if \<not> ok1 then Some (self1, rb1, ?sb1, - 1)
       else if \<not> ok2 then Some (self1, rb1, sb2, - 1)
       else Some (self1, rb1, sb2[2 := ucast (htons (fl2 OR 0x8000 OR drop_bit 1 (fl2 AND 0x100))),
         3 := ucast (drop_bit 8 (htons (fl2 OR 0x8000 OR drop_bit 1 (fl2 AND 0x100)))),
         6 := ucast (htons (of_nat (length ips))), 7 := ucast (drop_bit 8 (htons (of_nat (length ips))))], int off2))"
    using False len qd fl q(1) a(1) fl2 l2 by (simp add: hev_mapped_dns_handle_def words_in Let_def)
  have ran: "12 \<le> int off2 \<and> int off2 \<le> int (length res)" if "ok1" "ok2" using that q(3,4) a(3) len False by auto
  show ?thesis
  proof (cases "32 < unat (ntohs qd) \<or> \<not> ok1")
    case True
    then show ?thesis using run assms(1) q(2,3) len by (auto split: if_splits)
  next
    case ok: False
    then show ?thesis using run q(2,3) l2 len ran by (cases ok2) auto
  qed
qed

text \<open>C5: whatever bytes the request holds, the handler ends, reads and writes only inside the
  two buffers, keeps the cache consistent, and returns -1 or a length between that of a
  header and that of the response buffer.\<close>

theorem mapped_dns_handle_safe:
  assumes "dns_inv self xs" and "malloc_ok alloc"
  shows "\<exists>self' req' res' r ys. hev_mapped_dns_handle alloc self req res = Some (self', req', res', r) \<and>
    dns_inv self' ys \<and> length req' = length req \<and> length res' = length res \<and>
    (r = - 1 \<or> 12 \<le> r \<and> r \<le> int (length res))"
  using dns_handle_total [OF assms] .

theorem mapped_dns_handle_safe_witness:
  "\<exists>self' req' res' r ys. hev_mapped_dns_handle alloc0 dns0 [1, 2, 1, 0, 0, 2, 0, 0, 0, 0, 0, 0, 255] (replicate 64 0) =
      Some (self', req', res', r) \<and> dns_inv self' ys \<and> (r = - 1 \<or> 12 \<le> r \<and> r \<le> 64)"
  using mapped_dns_handle_safe [OF dns0_inv(1) alloc0_ok, of "[1, 2, 1, 0, 0, 2, 0, 0, 0, 0, 0, 0, 255]" "replicate 64 0"]
  by auto

section \<open>The answer to a question\<close>

text \<open>Names on the wire, and as the parser leaves them in the request.\<close>

definition wire_name :: "cstr list \<Rightarrow> byte list" where
  "wire_name ls = concat (map (\<lambda>l. of_nat (length l) # l) ls)"

definition dotted :: "cstr list \<Rightarrow> byte list" where
  "dotted ls = concat (map (\<lambda>l. 46 # l) ls)"

definition label_ok :: "cstr \<Rightarrow> bool" where
  "label_ok l \<longleftrightarrow> 0 < length l \<and> length l < 256 \<and> 0 \<notin> set l"

lemma dns_labels_wire:
  "\<forall>l\<in>set ls. label_ok l \<Longrightarrow>
     dns_labels (pre @ wire_name ls @ 0 # post) (length pre) =
       Some (pre @ dotted ls @ 0 # post, length pre + length (wire_name ls), True)"
proof (induction ls arbitrary: pre)
  case Nil
  then show ?case by (subst dns_labels.simps) (simp add: wire_name_def dotted_def nth_append)
next
  case (Cons l ls)
  let ?n = "of_nat (length l) :: byte" and ?rest = "wire_name ls @ 0 # post"
  have l: "unat ?n = length l" "?n \<noteq> 0"
    using Cons.prems by (auto simp: label_ok_def unat_of_nat_lt word_eq_0_unat)
  have w: "wire_name (l # ls) = ?n # l @ wire_name ls" by (simp add: wire_name_def)
  have "dns_labels (pre @ ?n # l @ ?rest) (length pre) = dns_labels (pre @ 46 # l @ ?rest) (length pre + 1 + length l)"
    using l by (subst dns_labels.simps) (simp add: nth_append list_update_append)
  also have "\<dots> = dns_labels ((pre @ 46 # l) @ ?rest) (length (pre @ 46 # l))" by simp
  also have "\<dots> = Some ((pre @ 46 # l) @ dotted ls @ 0 # post, length (pre @ 46 # l) + length (wire_name ls), True)"
    by (rule Cons.IH) (use Cons.prems in simp)
  finally show ?case by (simp add: w dotted_def)
qed

lemma dotted_no_zero: "\<forall>l\<in>set ls. label_ok l \<Longrightarrow> 0 \<notin> set (dotted ls)"
  by (auto simp: dotted_def label_ok_def)

lemma length_dotted: "length (dotted ls) = length (wire_name ls)"
  by (induction ls) (auto simp: dotted_def wire_name_def)

text \<open>The flags of the response: a response, with recursion available when it was desired.\<close>

definition resp_flags :: "byte \<Rightarrow> byte \<Rightarrow> byte list" where
  "resp_flags a b = [a OR 0x80, b OR push_bit 7 (a AND 1)]"

lemma net_order: "ntohs (ucast a OR push_bit 8 (ucast b)) = push_bit 8 (ucast a) OR (ucast b :: u16)"
  for a b :: byte
  by (intro bit_eqI) (auto simp: ntohs_def bit_simps dest: bit_imp_le_length)

lemma flag_word:
  fixes a b :: byte
  defines "f \<equiv> push_bit 8 (ucast a) OR (ucast b :: u16)"
  shows "ucast (htons (f OR 0x8000 OR drop_bit 1 (f AND 0x100))) = a OR 0x80"
    and "ucast (drop_bit 8 (htons (f OR 0x8000 OR drop_bit 1 (f AND 0x100)))) = b OR push_bit 7 (a AND 1)"
proof -
  have c: "0x8000 = (push_bit 15 1 :: u16)" "0x100 = (push_bit 8 1 :: u16)" "0x80 = (push_bit 7 1 :: byte)" by simp_all
  show "ucast (htons (f OR 0x8000 OR drop_bit 1 (f AND 0x100))) = a OR 0x80"
    unfolding f_def c by (rule bit_eqI) (auto simp: ntohs_def bit_simps dest: bit_imp_le_length simp del: push_bit_of_1)
  show "ucast (drop_bit 8 (htons (f OR 0x8000 OR drop_bit 1 (f AND 0x100)))) = b OR push_bit 7 (a AND 1)"
    unfolding f_def c by (rule bit_eqI) (auto simp: ntohs_def bit_simps dest: bit_imp_le_length simp del: push_bit_of_1)
qed

lemma net_bytes:
  fixes a b :: byte
  shows "ucast (push_bit 8 (ucast a) OR ucast b :: u16) = b" "ucast (drop_bit 8 (push_bit 8 (ucast a) OR ucast b :: u16)) = a"
  by (rule bit_eqI; auto simp: bit_simps dest: bit_imp_le_length)+

text \<open>A query with one question of type A and class IN, as a resolver sends it.\<close>

definition query :: "byte list \<Rightarrow> cstr list \<Rightarrow> byte list" where
  "query hdr ls = hdr @ wire_name ls @ [0, 0, 1, 0, 1]"

lemma query_question:
  assumes ls: "ls \<noteq> []" "\<forall>l\<in>set ls. label_ok l" and hdr: "length hdr = 12"
    and find: "hev_mapped_dns_find alloc self (tl (dotted ls)) = Some (self', idx)" "0 \<le> sint idx"
  shows "dns_questions alloc (Suc 0) self (query hdr ls) 12 [] =
    Some (self', hdr @ dotted ls @ [0, 0, 1, 0, 1], length (query hdr ls), [(12, m_net self' OR idx)], True)"
proof -
  let ?rb = "hdr @ dotted ls @ [0, 0, 1, 0, 1]" and ?e = "12 + length (wire_name ls)"
  have lab: "dns_labels (query hdr ls) 12 = Some (?rb, ?e, True)"
    using dns_labels_wire [OF ls(2), of hdr "[0, 1, 0, 1]"] hdr by (simp add: query_def)
  have len: "length ?rb = ?e + 5" using hdr by (simp add: length_dotted)
  have w: "read_u16 ?rb (?e + 1) = Some 1" "read_u16 ?rb (?e + 3) = Some 1"
    using hdr by (simp_all add: read_u16_def bget_def nth_append length_dotted)
  obtain l ls' where l: "ls = l # ls'" using ls(1) by (cases ls) auto
  have "drop 13 ?rb = tl (dotted ls) @ [0, 0, 1, 0, 1]" using hdr by (simp add: l dotted_def)
  moreover have "0 \<notin> set (tl (dotted ls))" using dotted_no_zero [OF ls(2)] by (auto dest: list.set_sel(2) [rotated] simp: l dotted_def)
  ultimately have "c_str (drop 13 ?rb) = Some (tl (dotted ls))" using c_str_append by simp
  then show ?thesis using lab len w find hdr by (simp add: query_def)
qed

text \<open>C31: the response to such a query repeats the request with the response flags set and one
  answer counted, followed by one answer that points to the name of the question and holds the
  address that stands for the name.\<close>

theorem mapped_dns_answer:
  assumes "ls \<noteq> []" and "\<forall>l\<in>set ls. label_ok l"
    and "req = query [i0, i1, f0, f1, 0, 1, a0, a1, n0, n1, r0, r1] ls"
    and "length req + 16 \<le> length res"
    and "hev_mapped_dns_find alloc self (tl (dotted ls)) = Some (self', idx)" and "0 \<le> sint idx"
  shows "\<exists>req'. hev_mapped_dns_handle alloc self req res =
    Some (self', req',
      query ([i0, i1] @ resp_flags f0 f1 @ [0, 1, 0, 1, 0, 0, 0, 0]) ls @
        answer_bytes 12 (m_net self' OR idx) @ drop (length req + 16) res,
      int (length req) + 16)"
proof -
  have len: "length req = 17 + length (wire_name ls)" using assms(3) by (simp add: query_def)
  have swap: "ntohs (ucast (0 :: byte) OR push_bit 8 (ucast (1 :: byte))) = 1" by (simp add: ntohs_def)
  have qd: "load16 req 4 = Some (push_bit 8 1)" by (simp add: assms(3) query_def load16_def bget_def)
  have rb: "store16 req 4 1 = Some (query [i0, i1, f0, f1, 1, 0, a0, a1, n0, n1, r0, r1] ls)"
    by (simp add: assms(3) query_def words_in)
  let ?h = "[i0, i1, f0, f1, 0, 1, a0, a1, n0, n1, r0, r1]" and ?rest = "wire_name ls @ [0, 0, 1, 0, 1] @ drop (length req) res"
  let ?sb = "[i0, i1, f1, f0, 0, 1, 0, 0, 0, 0, 0, 0] @ ?rest"
  have fl: "load16 (?h @ ?rest) 2 = Some (ucast f0 OR push_bit 8 (ucast f1))" by (simp add: load16_def bget_def)
  let ?F = "push_bit 8 (ucast f0) OR ucast f1 :: u16" and ?ip = "m_net self' OR idx"
  have h: "store16 (?h @ ?rest) 2 ?F = Some ([i0, i1, f1, f0, 0, 1, a0, a1, n0, n1, r0, r1] @ ?rest)"
    using net_bytes [of f0 f1] by (simp add: words_in)
  have h8: "store16 ([i0, i1, f1, f0, 0, 1, a0, a1, n0, n1, r0, r1] @ ?rest) 8 0 = Some ([i0, i1, f1, f0, 0, 1, a0, a1, 0, 0, r0, r1] @ ?rest)"
    and h6: "store16 ([i0, i1, f1, f0, 0, 1, a0, a1, 0, 0, r0, r1] @ ?rest) 6 0 = Some ([i0, i1, f1, f0, 0, 1, 0, 0, 0, 0, r0, r1] @ ?rest)"
    and h10: "store16 ([i0, i1, f1, f0, 0, 1, 0, 0, 0, 0, r0, r1] @ ?rest) 10 0 = Some ?sb"
    by (simp_all add: words_in)
  have q: "dns_questions alloc (Suc 0) self (query [i0, i1, f0, f1, 1, 0, a0, a1, n0, n1, r0, r1] ls) 12 [] =
      Some (self', [i0, i1, f0, f1, 1, 0, a0, a1, n0, n1, r0, r1] @ dotted ls @ [0, 0, 1, 0, 1], length req, [(12, ?ip)], True)"
    using query_question [OF assms(1,2) _ assms(5,6), of "[i0, i1, f0, f1, 1, 0, a0, a1, n0, n1, r0, r1]"] len by (simp add: query_def)
  let ?tail = "wire_name ls @ [0, 0, 1, 0, 1] @ answer_bytes 12 ?ip @ drop (length req + 16) res"
  have "dns_answers [(12, ?ip)] ?sb (length req) = Some (overwrite ?sb (length req) (answer_bytes 12 ?ip), length req + 16, True)"
    using dns_answers_step [of "length req" ?sb 12 ?ip "[]"] assms(4) len by (simp del: dns_answers.simps(2))
  moreover have "overwrite ?sb (length req) (answer_bytes 12 ?ip) = [i0, i1, f1, f0, 0, 1, 0, 0, 0, 0, 0, 0] @ ?tail"
    using overwrite_append [of "length req" "[i0, i1, f1, f0, 0, 1, 0, 0, 0, 0, 0, 0] @ wire_name ls @ [0, 0, 1, 0, 1]"] len
    by (simp add: add.commute)
  ultimately have a: "dns_answers [(12, ?ip)] ?sb (length req) = Some ([i0, i1, f1, f0, 0, 1, 0, 0, 0, 0, 0, 0] @ ?tail, length req + 16, True)" by simp
  have f2: "load16 ([i0, i1, f1, f0, 0, 1, 0, 0, 0, 0, 0, 0] @ ?tail) 2 = Some ?F" by (simp add: load16_def bget_def or.commute)
  have s2: "store16 ([i0, i1, f1, f0, 0, 1, 0, 0, 0, 0, 0, 0] @ ?tail) 2 (htons (?F OR 0x8000 OR drop_bit 1 (?F AND 0x100))) =
      Some (([i0, i1] @ resp_flags f0 f1 @ [0, 1, 0, 0, 0, 0, 0, 0]) @ ?tail)"
    using flag_word [of f0 f1] by (simp add: words_in resp_flags_def)
  have s6: "store16 (([i0, i1] @ resp_flags f0 f1 @ [0, 1, 0, 0, 0, 0, 0, 0]) @ ?tail) 6 (htons (of_nat (length [(12 :: nat, ?ip)]))) =
      Some (([i0, i1] @ resp_flags f0 f1 @ [0, 1, 0, 1, 0, 0, 0, 0]) @ ?tail)"
    by (simp add: words_in resp_flags_def ntohs_def)
  have big: "\<not> length res < length req" "\<not> length req < 12" using assms(4) len by auto
  have sb0: "req @ drop (length req) res = ?h @ ?rest" by (simp add: assms(3) query_def)
  have qd1: "ntohs (push_bit 8 1) = 1" by (simp add: ntohs_def)
  show ?thesis
    unfolding hev_mapped_dns_handle_def sb0 Let_def if_not_P [OF big(1)] if_not_P [OF big(2)] qd bind.bind_lunit
      fl net_order qd1 rb h h8 h6 h10
    using q a f2 s2 s6 by (simp add: query_def del: dns_questions.simps dns_answers.simps)
qed

theorem mapped_dns_answer_witness:
  "\<exists>self' req'. hev_mapped_dns_handle alloc0 dns0
      (query [7, 9, 1, 0, 0, 1, 0, 0, 0, 0, 0, 0] [[97], [98, 99]]) (replicate 64 0) =
    Some (self', req', query [7, 9, 0x81, 0x80, 0, 1, 0, 1, 0, 0, 0, 0] [[97], [98, 99]] @
      [0xc0, 0x0c, 0, 1, 0, 1, 0, 0, 0, 1, 0, 4, 198, 18, 0, 0] @ replicate 26 0, 38)"
proof -
  let ?ls = "[[97], [98, 99]] :: cstr list"
  obtain self' i where f: "hev_mapped_dns_find alloc0 dns0 (tl (dotted ?ls)) = Some (self', i)" "0 \<le> sint i" "nat (sint i) = 0"
      "m_net self' = m_net dns0"
    using dns_find [OF dns0_inv(1) alloc0_ok, of "tl (dotted ?ls)"] dns0_inv(2,6)
    by (auto simp: lru_find_def alloc0_def dns0_nodes split: if_splits)
  have "i = 0" using f(2,3) uint_nonneg [OF f(2)] by (simp add: uint_0_iff)
  moreover have "label_ok l" if "l \<in> set ?ls" for l using that by (auto simp: label_ok_def)
  ultimately obtain req' where "hev_mapped_dns_handle alloc0 dns0
      (query [7, 9, 1, 0, 0, 1, 0, 0, 0, 0, 0, 0] ?ls) (replicate 64 0) =
    Some (self', req', query ([7, 9] @ resp_flags 1 0 @ [0, 1, 0, 1, 0, 0, 0, 0]) ?ls @
        answer_bytes 12 (m_net self' OR 0) @ replicate 26 0, 38)"
    using mapped_dns_answer [of ?ls _ 7 9 1 0 0 0 0 0 0 0 "replicate 64 0" alloc0 dns0 self' 0] f
    by (auto simp: query_def wire_name_def)
  moreover have "answer_bytes 12 (m_net self' OR 0) = [0xc0, 0x0c, 0, 1, 0, 1, 0, 0, 0, 1, 0, 4, 198, 18, 0, 0]"
    using f(4) dns0_inv(4) by (simp add: answer_bytes_def)
  ultimately show ?thesis by (auto simp: resp_flags_def)
qed

end
