(* ===== verification/Tunnel.thy ===== *)
theory Tunnel
  imports SessionTCP SessionUDP MappedDNSPacket
begin

text \<open>
  The sessions of the tunnel, \<open>hev-socks5-tunnel.c\<close>: the list of the sessions that run, which
  orders them by their last activity, and the callbacks of the stack that start them. A session
  is known by the address of its list node, which is a part of it.
\<close>

section \<open>The set of sessions\<close>

datatype session = STCP HevSocks5SessionTCP | SUDP HevSocks5SessionUDP

fun session_base :: "session \<Rightarrow> HevSocks5Client" where
  "session_base (STCP t) = t_base t"
| "session_base (SUDP u) = u_base u"

fun terminate :: "session \<Rightarrow> session" where
  "terminate (STCP t) = STCP (t\<lparr>t_base := hev_socks5_session_terminate (t_base t)\<rparr>)"
| "terminate (SUDP u) = SUDP (u\<lparr>u_base := hev_socks5_session_terminate (u_base u)\<rparr>)"

text \<open>The static variables \<open>session_set\<close> and \<open>session_count\<close>, the memory of the nodes, and the
  sessions they are in.\<close>

record sessions =
  session_set :: HevList
  session_count :: cint
  nodes :: list_heap
  selfs :: "session heap"

definition sessions0 :: sessions where
  "sessions0 = \<lparr>session_set = \<lparr>l_head = NULL, l_tail = NULL\<rparr>, session_count = 0, nodes = Map.empty, selfs = Map.empty\<rparr>"

definition hev_socks5_tunnel_insert_session :: "config \<Rightarrow> ptr \<Rightarrow> sessions \<Rightarrow> sessions option" where
  "hev_socks5_tunnel_insert_session cfg node s = do {
     (l, h) \<leftarrow> hev_list_add_tail (session_set s) (nodes s) node;
     let s = s\<lparr>session_set := l, nodes := h, session_count := session_count s + 1\<rparr>;
     if max_session_count cfg = 0 \<or> sint (session_count s) < sint (max_session_count cfg) then Some s
     else do {
       m \<leftarrow> wr (selfs s) (hev_list_first (session_set s)) terminate;
       Some (s\<lparr>selfs := m\<rparr>) } }"

definition hev_socks5_tunnel_delete_session :: "ptr \<Rightarrow> sessions \<Rightarrow> sessions option" where
  "hev_socks5_tunnel_delete_session node s = do {
     (l, h) \<leftarrow> hev_list_del (session_set s) (nodes s) node;
     Some (s\<lparr>session_set := l, nodes := h, session_count := session_count s - 1\<rparr>) }"

definition hev_socks5_tunnel_update_session :: "config \<Rightarrow> ptr \<Rightarrow> sessions \<Rightarrow> sessions option" where
  "hev_socks5_tunnel_update_session cfg node s =
     (if max_session_count cfg = 0 then Some s
      else do {
        (l, h) \<leftarrow> hev_list_del (session_set s) (nodes s) node;
        (l, h) \<leftarrow> hev_list_add_tail l h node;
        Some (s\<lparr>session_set := l, nodes := h\<rparr>) })"

text \<open>A session is allocated with its node zeroed. After its run it leaves the list and its memory
  is freed.\<close>

definition session_alloc :: "ptr \<Rightarrow> session \<Rightarrow> sessions \<Rightarrow> sessions" where
  "session_alloc node x s = s\<lparr>nodes := (nodes s)(node \<mapsto> \<lparr>l_next = NULL, l_prev = NULL\<rparr>), selfs := (selfs s)(node \<mapsto> x)\<rparr>"

definition session_free :: "ptr \<Rightarrow> sessions \<Rightarrow> sessions" where
  "session_free node s = s\<lparr>nodes := (nodes s)(node := None), selfs := (selfs s)(node := None)\<rparr>"

definition hev_socks5_session_task_entry :: "ptr \<Rightarrow> sessions \<Rightarrow> sessions option" where
  "hev_socks5_session_task_entry node s = do {
     s \<leftarrow> hev_socks5_tunnel_delete_session node s;
     Some (session_free node s) }"

text \<open>The loop of the event task that ends all sessions.\<close>

partial_function (option) terminate_loop :: "ptr \<Rightarrow> sessions \<Rightarrow> sessions option" where
  "terminate_loop node s =
     (if node = NULL then Some s
      else do {
        m \<leftarrow> wr (selfs s) node terminate;
        node' \<leftarrow> hev_list_node_next (nodes s) node;
        terminate_loop node' (s\<lparr>selfs := m\<rparr>) })"

definition event_task_terminate :: "sessions \<Rightarrow> sessions option" where
  "event_task_terminate s = terminate_loop (hev_list_first (session_set s)) s"

section \<open>Callbacks\<close>


text \<open>What the callbacks of a new connection or datagram find: whether the tunnel runs, the memory
  for the session (where, if at all), the one for the name of the destination, and for the task.\<close>

record accept_env =
  c_run :: bool
  c_node :: "ptr option"
  c_mem :: bool
  c_addr :: HevSocks5Addr
  c_task :: bool


text \<open>What becomes of the stack's side of a new association.\<close>

datatype udp_outcome = Removed | ToDNS | ToSession

definition tunnel_udp_recv_handler ::
  "config \<Rightarrow> accept_env \<Rightarrow> ip_addr \<Rightarrow> u16 \<Rightarrow> HevMappedDNS option \<times> sessions \<Rightarrow> (udp_outcome \<times> sessions) option" where
  "tunnel_udp_recv_handler cfg c addr port st =
     (case st of (dns, s) \<Rightarrow>
        if \<not> c_run c then Some (Removed, s)
        else do {
          fake \<leftarrow> (if dns \<noteq> None \<and> ip_type addr = IPADDR_TYPE_V4 then do {
              a \<leftarrow> load32 (ip_bytes addr);
              Some (sint (mapdns_port cfg) = uint port \<and> mapdns_address cfg = a) }
            else Some False);
          if fake then Some (ToDNS, s)
          else (case hev_socks5_session_udp_new (c_node c \<noteq> None) cfg of
              None \<Rightarrow> Some (Removed, s)
            | Some udp \<Rightarrow>
                if \<not> c_task c then Some (Removed, s)
                else do {
                  node \<leftarrow> c_node c;
                  s \<leftarrow> hev_socks5_tunnel_insert_session cfg node (session_alloc node (SUDP udp) s);
                  Some (ToSession, s) }) })"

text \<open>A question to the mapped DNS: the answer that is sent, if any. The pcb is removed in any
  case; \<open>buf\<close> is the buffer for the answer, if it can be allocated.\<close>

definition dns_recv_handler ::
  "alloc \<Rightarrow> byte list option \<Rightarrow> pbuf list \<Rightarrow> HevMappedDNS \<Rightarrow> (byte list option \<times> HevMappedDNS) option" where
  "dns_recv_handler alloc buf p dns =
     (case buf of
        None \<Rightarrow> Some (None, dns)
      | Some b \<Rightarrow>
          (case p of
             [] \<Rightarrow> None
           | q # qs \<Rightarrow> do {
               req \<leftarrow> mget (p_payload q) 0 (unat (p_len q));
               (dns, req, b, res) \<leftarrow> hev_mapped_dns_handle alloc dns req b;
               if res < 0 then Some (None, dns)
               else do {
                 ans \<leftarrow> mget b 0 (nat res);
                 Some (Some ans, dns) } }))"

section \<open>The order of the sessions\<close>

definition sess_inv :: "sessions \<Rightarrow> ptr list \<Rightarrow> bool" where
  "sess_inv s xs \<longleftrightarrow> hev_list_rep (session_set s) (nodes s) xs \<and> session_count s = of_nat (length xs) \<and> set xs \<subseteq> dom (selfs s)"

lemma sess_inv0: "sess_inv sessions0 []"
  by (simp add: sess_inv_def sessions0_def hev_list_rep_def)

text \<open>Whether the next session makes the limit.\<close>

definition full :: "config \<Rightarrow> sessions \<Rightarrow> bool" where
  "full cfg s \<longleftrightarrow> max_session_count cfg \<noteq> 0 \<and> \<not> sint (session_count s + 1) < sint (max_session_count cfg)"

lemma insert_session:
  assumes inv: "sess_inv s xs" and x: "node \<notin> set xs" "node \<noteq> NULL"
  shows "\<exists>s'. hev_socks5_tunnel_insert_session cfg node (session_alloc node x s) = Some s' \<and> sess_inv s' (xs @ [node]) \<and>
    selfs s' = (let m = (selfs s)(node \<mapsto> x) in
      if full cfg s then m(hd (xs @ [node]) := map_option terminate (m (hd (xs @ [node])))) else m)"
proof -
  let ?victim = "hd (xs @ [node])"
  note I = inv [unfolded sess_inv_def]
  let ?h = "(nodes s)(node \<mapsto> \<lparr>l_next = NULL, l_prev = NULL\<rparr>)" and ?m = "(selfs s)(node \<mapsto> x)"
  have rep: "hev_list_rep (session_set s) ?h xs" using I x by simp
  obtain l h where a: "hev_list_add_tail (session_set s) ?h node = Some (l, h)" "hev_list_rep l h (xs @ [node])"
    using hl.add_tail_rep [OF rep x] by (metis fun_upd_same)
  have f: "hev_list_first l = ?victim" using hl.first_rep [OF a(2)] by (cases xs) auto
  have v: "?victim \<noteq> NULL" "?victim \<in> dom ?m"
    using hl.rep_mem [OF a(2), of ?victim] I by (cases xs; auto)+
  then obtain y where y: "?m ?victim = Some y" by blast
  have dom: "set (xs @ [node]) \<subseteq> dom ?m" using I by auto
  show ?thesis
  proof (cases "full cfg s")
    case True
    then have "hev_socks5_tunnel_insert_session cfg node (session_alloc node x s) =
        Some (s\<lparr>session_set := l, nodes := h, session_count := session_count s + 1, selfs := ?m(?victim \<mapsto> terminate y)\<rparr>)"
      using a(1) f wr_Some [of ?victim "?m", OF v(1) y] by (simp add: hev_socks5_tunnel_insert_session_def session_alloc_def full_def Let_def)
    then show ?thesis using True a(2) I dom y by (auto simp: sess_inv_def Let_def)
  next
    case False
    then have "hev_socks5_tunnel_insert_session cfg node (session_alloc node x s) =
        Some (s\<lparr>session_set := l, nodes := h, session_count := session_count s + 1, selfs := ?m\<rparr>)"
      using a(1) by (auto simp: hev_socks5_tunnel_insert_session_def session_alloc_def full_def Let_def)
    then show ?thesis using False a(2) I dom by (auto simp: sess_inv_def Let_def)
  qed
qed

lemma update_session:
  assumes "sess_inv s xs" "node \<in> set xs" "max_session_count cfg \<noteq> 0"
  shows "\<exists>s'. hev_socks5_tunnel_update_session cfg node s = Some s' \<and> sess_inv s' (remove1 node xs @ [node]) \<and> selfs s' = selfs s"
proof -
  note I = assms(1) [unfolded sess_inv_def]
  obtain l1 h1 l h where "hev_list_del (session_set s) (nodes s) node = Some (l1, h1)" "hev_list_add_tail l1 h1 node = Some (l, h)"
      "hev_list_rep l h (remove1 node xs @ [node])"
    using hl.touch_rep [of "session_set s" "nodes s" xs node] I assms(2) by blast
  moreover have "length (remove1 node xs @ [node]) = length xs" "set (remove1 node xs @ [node]) = set xs"
    using assms(2) hl.rep_distinct [of "session_set s" "nodes s" xs] I by (auto simp: length_remove1 dest: length_pos_if_in_set)
  ultimately show ?thesis using I assms(3) by (simp add: hev_socks5_tunnel_update_session_def sess_inv_def)
qed

lemma delete_session:
  assumes "sess_inv s xs" "node \<in> set xs"
  shows "\<exists>s'. hev_socks5_session_task_entry node s = Some s' \<and> sess_inv s' (remove1 node xs) \<and> selfs s' = (selfs s)(node := None)"
proof -
  note I = assms(1) [unfolded sess_inv_def]
  have dist: "distinct xs" using hl.rep_distinct I by blast
  obtain l h where d: "hev_list_del (session_set s) (nodes s) node = Some (l, h)" "hev_list_rep l h (remove1 node xs)"
    using hl.del_remove1 [of "session_set s" "nodes s" xs node] I assms(2) by blast
  have "node \<notin> set (remove1 node xs)" using dist by simp
  then have "hev_list_rep l (h(node := None)) (remove1 node xs)" using d(2) by simp
  moreover have "session_count s - 1 = of_nat (length (remove1 node xs))"
    using I assms(2) by (cases "length xs") (auto simp: length_remove1)
  moreover have "set (remove1 node xs) \<subseteq> dom ((selfs s)(node := None))" using I dist by auto
  ultimately show ?thesis using d(1)
    by (simp add: hev_socks5_session_task_entry_def hev_socks5_tunnel_delete_session_def session_free_def sess_inv_def)
qed

subsection \<open>Runs\<close>

text \<open>What the sessions do: they start, are active, and end. The memory of a new session is new.\<close>

datatype session_op = Start ptr session | Active ptr | End ptr

fun session_step :: "config \<Rightarrow> sessions \<Rightarrow> session_op \<Rightarrow> sessions option" where
  "session_step cfg s (Start p x) = hev_socks5_tunnel_insert_session cfg p (session_alloc p x s)"
| "session_step cfg s (Active p) = hev_socks5_tunnel_update_session cfg p s"
| "session_step cfg s (End p) = hev_socks5_session_task_entry p s"

fun lru_step :: "ptr list \<Rightarrow> session_op \<Rightarrow> ptr list option" where
  "lru_step xs (Start p x) = (if p \<in> set xs \<or> p = NULL then None else Some (xs @ [p]))"
| "lru_step xs (Active p) = (if p \<in> set xs then Some (remove1 p xs @ [p]) else None)"
| "lru_step xs (End p) = (if p \<in> set xs then Some (remove1 p xs) else None)"

text \<open>The list is carried along as a ghost; the tunnel then refines the list.\<close>

definition ghost_step :: "config \<Rightarrow> sessions \<times> ptr list \<Rightarrow> session_op \<Rightarrow> (sessions \<times> ptr list) option" where
  "ghost_step cfg c op = do { s \<leftarrow> session_step cfg (fst c) op; xs \<leftarrow> lru_step (snd c) op; Some (s, xs) }"

definition ghost_inv :: "config \<Rightarrow> sessions \<times> ptr list \<Rightarrow> bool" where
  "ghost_inv cfg c \<longleftrightarrow> max_session_count cfg \<noteq> 0 \<and> sess_inv (fst c) (snd c)"

interpretation sess: data_refinement "ghost_step cfg" lru_step "ghost_inv cfg" snd for cfg
proof
  fix c op a'
  assume inv: "ghost_inv cfg c" and a: "lru_step (snd c) op = Some a'"
  have "\<exists>s'. session_step cfg (fst c) op = Some s' \<and> sess_inv s' a'"
  proof (cases op)
    case (Start p x)
    then show ?thesis using insert_session [of "fst c" "snd c" p cfg x] inv a by (auto simp: ghost_inv_def split: if_splits)
  next
    case (Active p)
    then show ?thesis using update_session [of "fst c" "snd c" p cfg] inv a by (auto simp: ghost_inv_def split: if_splits)
  next
    case (End p)
    then show ?thesis using delete_session [of "fst c" "snd c" p] inv a by (auto simp: ghost_inv_def split: if_splits)
  qed
  then show "\<exists>c'. ghost_step cfg c op = Some c' \<and> ghost_inv cfg c' \<and> snd c' = a'"
    using a inv by (auto simp: ghost_step_def ghost_inv_def)
qed

lemma ghost_run: "run (ghost_step cfg) c ops = Some c' \<Longrightarrow> run (session_step cfg) (fst c) ops = Some (fst c')"
  by (induction ops arbitrary: c) (auto simp: ghost_step_def split: option.splits bind_split_asm)

text \<open>The specification of the order: the sessions that live, by their last activity.\<close>

fun touched :: "session_op list \<Rightarrow> ptr list" where
  "touched [] = []"
| "touched (Start p x # ops) = p # touched ops"
| "touched (Active p # ops) = p # touched ops"
| "touched (End p # ops) = touched ops"

fun live :: "ptr set \<Rightarrow> session_op list \<Rightarrow> ptr set" where
  "live L [] = L"
| "live L (Start p x # ops) = live (insert p L) ops"
| "live L (Active p # ops) = live L ops"
| "live L (End p # ops) = live (L - {p}) ops"

definition by_activity :: "session_op list \<Rightarrow> ptr list" where
  "by_activity ops = filter (\<lambda>p. p \<in> live {} ops) (remdups (touched ops))"

lemma touched_append [simp]: "touched (xs @ ys) = touched xs @ touched ys"
  by (induction xs rule: touched.induct) auto

lemma live_append [simp]: "live L (xs @ ys) = live (live L xs) ys"
  by (induction xs arbitrary: L rule: touched.induct) auto

lemma remdups_snoc: "remdups (xs @ [x]) = filter (\<lambda>y. x \<noteq> y) (remdups xs) @ [x]"
  by (induction xs) auto

lemma run_append: "run step s (xs @ ys) = (case run step s xs of None \<Rightarrow> None | Some t \<Rightarrow> run step t ys)"
  by (induction xs arbitrary: s) (auto split: option.split)

lemma live_touched: "run lru_step [] ops = Some xs \<Longrightarrow> live {} ops \<subseteq> set (touched ops)"
proof (induction ops arbitrary: xs rule: rev_induct)
  case (snoc op ops)
  then obtain ys where "run lru_step [] ops = Some ys" by (auto simp: run_append split: option.splits)
  then have "live {} ops \<subseteq> set (touched ops)" using snoc.IH by blast
  then show ?case by (cases op) auto
qed simp

lemma lru_by_activity: "run lru_step [] ops = Some xs \<Longrightarrow> xs = by_activity ops"
proof (induction ops arbitrary: xs rule: rev_induct)
  case Nil
  then show ?case by (simp add: by_activity_def)
next
  case (snoc op ops)
  then obtain ys where r: "run lru_step [] ops = Some ys" and s: "lru_step ys op = Some xs"
    by (auto simp: run_append split: option.splits)
  have ys: "ys = filter (\<lambda>p. p \<in> live {} ops) (remdups (touched ops))" using snoc.IH [OF r] by (simp add: by_activity_def)
  have mem: "set ys = live {} ops" using live_touched [OF r] by (auto simp: ys)
  have rm: "remove1 p ys = filter (\<lambda>q. p \<noteq> q) ys" for p by (simp add: ys distinct_remove1_removeAll removeAll_filter_not_eq)
  show ?case
  proof (cases op)
    case (Start p x)
    then have "xs = ys @ [p]" "p \<notin> live {} ops" using s mem by (auto split: if_splits)
    then show ?thesis using Start by (auto simp: by_activity_def ys remdups_snoc filter_filter intro: filter_cong)
  next
    case (Active p)
    then have "xs = remove1 p ys @ [p]" "p \<in> live {} ops" using s mem by (auto split: if_splits)
    then show ?thesis using Active rm by (auto simp: by_activity_def ys remdups_snoc filter_filter intro: filter_cong)
  next
    case (End p)
    then have "xs = remove1 p ys" using s by (auto split: if_splits)
    then show ?thesis using End rm by (auto simp: by_activity_def ys filter_filter intro: filter_cong)
  qed
qed

lemma sint_of_nat_small: "n < 2 ^ 31 \<Longrightarrow> sint (of_nat n :: 32 word) = int n"
  by (simp add: signed_of_nat signed_take_bit_int_eq_self)

section \<open>Ending all sessions\<close>

lemma terminate_loop_rep:
  "hev_list_rep (session_set s) (nodes s) (ys @ zs) \<Longrightarrow> set zs \<subseteq> dom (selfs s) \<Longrightarrow>
     terminate_loop (hd (zs @ [NULL])) s =
       Some (s\<lparr>selfs := (\<lambda>p. if p \<in> set zs then map_option terminate (selfs s p) else selfs s p)\<rparr>)"
proof (induction zs arbitrary: ys s)
  case Nil
  then show ?case by (simp add: terminate_loop.simps)
next
  case (Cons z zs)
  obtain x where x: "selfs s z = Some x" "z \<noteq> NULL" using Cons.prems hl.rep_mem [OF Cons.prems(1), of z] by auto
  have n: "hev_list_node_next (nodes s) z = Some (hd (zs @ [NULL]))" using hl.next_rep [OF Cons.prems(1)] .
  have d: "z \<notin> set zs" using hl.rep_distinct [OF Cons.prems(1)] by simp
  let ?s = "s\<lparr>selfs := (selfs s)(z \<mapsto> terminate x)\<rparr>"
  have "hev_list_rep (session_set ?s) (nodes ?s) ((ys @ [z]) @ zs)" "set zs \<subseteq> dom (selfs ?s)" using Cons.prems by auto
  from Cons.IH [OF this] show ?case using x n d
    by (subst terminate_loop.simps) (auto simp: wr_Some fun_eq_iff)
qed

lemma terminate_timeout: "s_timeout (session_base (terminate x)) = 0"
  by (cases x) (simp_all add: hev_socks5_session_terminate_def hev_socks5_set_timeout_def)

section \<open>Starting sessions\<close>


section \<open>Properties\<close>

text \<open>C8: With a session limit, the list of sessions always has the ones that live, in the order of
  their last activity: whatever sequence of starts, activities and ends the tunnel sees, the list
  operations succeed, and the pointers represent the list that a specification computes from the
  sequence alone, by keeping the last mention of each session and dropping the ended ones.\<close>

theorem tunnel_sessions_by_activity:
  assumes "max_session_count cfg \<noteq> 0" "run lru_step [] ops = Some xs"
  shows "\<exists>s. run (session_step cfg) sessions0 ops = Some s \<and> sess_inv s (by_activity ops) \<and>
    session_count s = of_nat (card (live {} ops))"
proof -
  have "ghost_inv cfg (sessions0, [])" using assms(1) sess_inv0 by (simp add: ghost_inv_def)
  then obtain c where c: "run (ghost_step cfg) (sessions0, []) ops = Some c" "ghost_inv cfg c" "snd c = xs"
    using sess.run_refines [of cfg "(sessions0, [])" ops xs] assms(2) by auto
  have xs: "xs = by_activity ops" by (rule lru_by_activity [OF assms(2)])
  have "distinct xs" "set xs = live {} ops"
    using live_touched [OF assms(2)] by (auto simp: xs by_activity_def)
  then have "length xs = card (live {} ops)" using distinct_card by metis
  then show ?thesis using c ghost_run [OF c(1)] xs by (auto simp: ghost_inv_def sess_inv_def)
qed

definition cfg_limit :: config where
  "cfg_limit = config0\<lparr>max_session_count := 3\<rparr>"

definition udp0 :: session where
  "udp0 = SUDP session_udp_zero"

definition ops3 :: "session_op list" where
  "ops3 = [Start 8 udp0, Start 16 udp0, Active 8, Start 24 udp0, End 16]"

theorem tunnel_sessions_by_activity_witness:
  "\<exists>s. run (session_step cfg_limit) sessions0 ops3 = Some s \<and> sess_inv s [8, 24] \<and> session_count s = 2"
proof -
  have l: "run lru_step [] ops3 = Some [8, 24]" by (simp add: ops3_def)
  have "max_session_count cfg_limit \<noteq> 0" by (simp add: cfg_limit_def)
  moreover have "by_activity ops3 = [8, 24]" "live {} ops3 = {8, 24}" by (simp_all add: by_activity_def ops3_def insert_commute insert_Diff_if)
  ultimately show ?thesis using tunnel_sessions_by_activity [OF _ l, of cfg_limit] by simp
qed

text \<open>The limit: when a new session makes as many sessions as the limit allows, the session
  whose activity is the longest ago is told to end, and no other one is touched; below the limit
  none is.\<close>

theorem tunnel_limit_ends_oldest:
  assumes "sess_inv s xs" "node \<notin> set xs" "node \<noteq> NULL" "length xs + 1 < 2 ^ 31" "0 < sint (max_session_count cfg)"
  shows "\<exists>s'. hev_socks5_tunnel_insert_session cfg node (session_alloc node x s) = Some s' \<and> sess_inv s' (xs @ [node]) \<and>
    (if int (length xs) + 1 < sint (max_session_count cfg) then selfs s' = (selfs s)(node \<mapsto> x)
     else selfs s' (hd (xs @ [node])) = map_option terminate (((selfs s)(node \<mapsto> x)) (hd (xs @ [node]))) \<and>
       (\<forall>p. p \<noteq> hd (xs @ [node]) \<longrightarrow> selfs s' p = ((selfs s)(node \<mapsto> x)) p))"
proof -
  have c: "session_count s + 1 = of_nat (length xs + 1)" using assms(1) by (simp add: sess_inv_def)
  have "sint (session_count s + 1) = int (length xs) + 1"
    unfolding c using assms(4) sint_of_nat_small [of "length xs + 1"] by simp
  moreover have "max_session_count cfg \<noteq> 0" using assms(5) by auto
  ultimately have "full cfg s \<longleftrightarrow> \<not> int (length xs) + 1 < sint (max_session_count cfg)" by (simp add: full_def)
  then show ?thesis using insert_session [OF assms(1-3), of cfg x] by (auto simp: Let_def)
qed

theorem tunnel_limit_ends_oldest_witness:
  "\<exists>s s'. run (session_step cfg_limit) sessions0 [Start 8 udp0, Start 16 udp0] = Some s \<and>
    hev_socks5_tunnel_insert_session cfg_limit 24 (session_alloc 24 udp0 s) = Some s' \<and> sess_inv s' [8, 16, 24] \<and>
    selfs s' 8 = map_option terminate (selfs s 8) \<and> selfs s' 16 = selfs s 16"
proof -
  have inv: "ghost_inv cfg_limit (sessions0, [])" using sess_inv0 by (simp add: ghost_inv_def cfg_limit_def)
  obtain c where c: "run (ghost_step cfg_limit) (sessions0, []) [Start 8 udp0, Start 16 udp0] = Some c" "ghost_inv cfg_limit c" "snd c = [8, 16]"
    using sess.run_refines [OF inv, of "[Start 8 udp0, Start 16 udp0]" "[8, 16]"] by auto
  have "sess_inv (fst c) [8, 16]" using c(2,3) by (simp add: ghost_inv_def)
  from tunnel_limit_ends_oldest [OF this, of 24 cfg_limit udp0] ghost_run [OF c(1)]
  show ?thesis by (auto simp: cfg_limit_def)
qed

text \<open>C29: When the tunnel stops, the event task tells every session to end: its loop over the list
  returns, it leaves the list as it is, and the timeout of each session in it is 0.\<close>

theorem tunnel_stop_ends_sessions:
  assumes "sess_inv s xs"
  shows "\<exists>s'. event_task_terminate s = Some s' \<and> sess_inv s' xs \<and>
    (\<forall>p. p \<in> set xs \<longrightarrow> (\<exists>x. selfs s' p = Some x \<and> s_timeout (session_base x) = 0)) \<and>
    (\<forall>p. p \<notin> set xs \<longrightarrow> selfs s' p = selfs s p)"
proof -
  note I = assms [unfolded sess_inv_def]
  let ?s = "s\<lparr>selfs := (\<lambda>p. if p \<in> set xs then map_option terminate (selfs s p) else selfs s p)\<rparr>"
  have "event_task_terminate s = Some ?s"
    using terminate_loop_rep [of s "[]" xs] hl.first_rep [of "session_set s" "nodes s" xs] I by (simp add: event_task_terminate_def)
  moreover have "sess_inv ?s xs" using I by (auto simp: sess_inv_def)
  ultimately show ?thesis using I by (auto simp: terminate_timeout)
qed

theorem tunnel_stop_ends_sessions_witness:
  "\<exists>s s' x. run (session_step cfg_limit) sessions0 [Start 8 udp0, Start 16 udp0] = Some s \<and> event_task_terminate s = Some s' \<and>
    selfs s' 16 = Some x \<and> s_timeout (session_base x) = 0"
proof -
  have inv: "ghost_inv cfg_limit (sessions0, [])" using sess_inv0 by (simp add: ghost_inv_def cfg_limit_def)
  obtain c where c: "run (ghost_step cfg_limit) (sessions0, []) [Start 8 udp0, Start 16 udp0] = Some c" "ghost_inv cfg_limit c" "snd c = [8, 16]"
    using sess.run_refines [OF inv, of "[Start 8 udp0, Start 16 udp0]" "[8, 16]"] by auto
  have "sess_inv (fst c) [8, 16]" using c(2,3) by (simp add: ghost_inv_def)
  from tunnel_stop_ends_sessions [OF this] ghost_run [OF c(1)] show ?thesis by fastforce
qed




text \<open>The mapped DNS answers inside of its buffer: whatever the stack delivers as a question,
  the callback returns, keeps the cache consistent, and sends nothing, or an answer of at least the
  size of a header and at most that of the buffer.\<close>

theorem tunnel_dns_answers:
  assumes "dns_inv dns ys" "malloc_ok alloc" "chain_ok p" "p \<noteq> []" "length b = 1500"
  shows "\<exists>ans dns' zs. dns_recv_handler alloc (Some b) p dns = Some (ans, dns') \<and> dns_inv dns' zs \<and>
    (\<forall>a. ans = Some a \<longrightarrow> 12 \<le> length a \<and> length a \<le> 1500)"
proof -
  obtain q qs where p: "p = q # qs" using assms(4) by (cases p) auto
  have g: "mget (p_payload q) 0 (unat (p_len q)) = Some (p_payload q)"
    using chain_ok_len [OF assms(3) [unfolded p]] by (simp add: mget_def)
  obtain dns' req' b' r zs where h: "hev_mapped_dns_handle alloc dns (p_payload q) b = Some (dns', req', b', r)" "dns_inv dns' zs"
      "length b' = length b" "r = - 1 \<or> 12 \<le> r \<and> r \<le> int (length b)"
    using dns_handle_total [OF assms(1,2), of "p_payload q" b] by blast
  then show ?thesis using p g assms(5) by (cases "r = - 1") (auto simp: dns_recv_handler_def mget_def)
qed

theorem tunnel_dns_answers_witness:
  "\<exists>ans dns' zs. dns_recv_handler alloc0 (Some (replicate 1500 0)) [udp_pbuf (query [7, 9, 1, 0, 0, 1, 0, 0, 0, 0, 0, 0] [[97], [98, 99]])] dns0 =
      Some (ans, dns') \<and> dns_inv dns' zs \<and> (\<forall>a. ans = Some a \<longrightarrow> 12 \<le> length a \<and> length a \<le> 1500)"
proof -
  have "chain_ok [udp_pbuf (query [7, 9, 1, 0, 0, 1, 0, 0, 0, 0, 0, 0] [[97], [98, 99]])]"
    by (simp add: udp_pbuf_def query_def wire_name_def)
  from tunnel_dns_answers [OF dns0_inv(1) alloc0_ok this] show ?thesis by simp
qed

section \<open>Limits of the code\<close>

text \<open>With a limit of one, every session is told to end when it starts.\<close>

lemma limit_one_ends_every_session:
  assumes "max_session_count cfg = 1" "node \<noteq> NULL" "sess_inv s []"
  shows "\<exists>s'. hev_socks5_tunnel_insert_session cfg node (session_alloc node x s) = Some s' \<and> selfs s' node = Some (terminate x)"
proof -
  have "full cfg s" using assms(1,3) by (simp add: full_def sess_inv_def)
  then show ?thesis using insert_session [OF assms(3) _ assms(2), of cfg x] by (auto simp: Let_def)
qed

end
