(* ===== verification/TunnelStop.thy ===== *)
theory TunnelStop
  imports Reachability
begin

text \<open>
  Starting and stopping the tunnel, \<open>hev-socks5-tunnel.c\<close>. \<open>hev_socks5_tunnel_stop\<close> may be
  called by any thread at any time, also while another thread initialises, runs or finishes the
  tunnel; the threads agree by the bits of the atomic variable \<open>tsync\<close> and the socket pair
  \<open>event_fds\<close>. The theory has one step per atomic operation, lets any number of stopping
  threads interleave with the thread of the tunnel and with its event task, and shows what the
  protocol guarantees in every interleaving.
\<close>

section \<open>The variable tsync\<close>

definition SYNC_SEND :: cint where "SYNC_SEND = push_bit 0 1"
definition SYNC_SENT :: cint where "SYNC_SENT = push_bit 1 1"
definition SYNC_WAIT :: cint where "SYNC_WAIT = push_bit 2 1"
definition SYNC_STOP :: cint where "SYNC_STOP = push_bit 3 1"

text \<open>Whether \<open>t & b\<close> is not zero.\<close>

definition has :: "cint \<Rightarrow> cint \<Rightarrow> bool" where
  "has t b \<longleftrightarrow> t AND b \<noteq> 0"

lemma sync_bits:
  "bit SYNC_SEND n \<longleftrightarrow> n = 0" "bit SYNC_SENT n \<longleftrightarrow> n = 1" "bit SYNC_WAIT n \<longleftrightarrow> n = 2" "bit SYNC_STOP n \<longleftrightarrow> n = 3"
  unfolding SYNC_SEND_def SYNC_SENT_def SYNC_WAIT_def SYNC_STOP_def by (auto simp only: bit_simps) auto

lemma has_bit: "(\<And>n. bit b n \<longleftrightarrow> n = k) \<Longrightarrow> has t b \<longleftrightarrow> bit t k"
  unfolding has_def bit_eq_iff [of "t AND b" 0] using bit_imp_le_length [of t k] by (auto simp: bit_and_iff)

lemmas has_bits = has_bit [OF sync_bits(1)] has_bit [OF sync_bits(2)] has_bit [OF sync_bits(3)] has_bit [OF sync_bits(4)]

lemmas sync_simps = has_bits sync_bits bit_or_iff bit_and_iff bit_not_iff

section \<open>The threads\<close>

text \<open>Where the thread of the tunnel is: outside, in \<open>hev_socks5_tunnel_init\<close>, between \<open>init\<close> and
  \<open>run\<close>, in \<open>hev_task_system_run\<close>, before the atomic operation of \<open>hev_socks5_tunnel_fini\<close>, and
  before the release of the resources.\<close>

datatype main_pc = MOff | MInit | MReady | MRun | MFini | MRelease

text \<open>The event task: waiting for a byte, before the atomic operation, and finished.\<close>

datatype event_pc = EvRead | EvClear | EvDone

text \<open>A thread in \<open>hev_socks5_tunnel_stop\<close>: the point before each of its atomic operations, and
  before the call of \<open>write\<close>.\<close>

datatype stop_pc = SIdle | SRetry | SSent | SWrite | SStop | SClear

text \<open>\<open>asked\<close> is not in the code: it says that a call of \<open>stop\<close> has found the tunnel initialised
  since it was. A write to a closed descriptor, or one that fails the assertion, sets \<open>fault\<close>.\<close>

record tunnel =
  tsync :: cint
  run_flag :: bool
  ev_open :: bool
  ev_bytes :: nat
  main :: main_pc
  event :: event_pc
  stoppers :: "nat \<Rightarrow> stop_pc"
  fault :: bool
  asked :: bool

subsection \<open>hev_socks5_tunnel_stop\<close>

definition goto :: "nat \<Rightarrow> stop_pc \<Rightarrow> tunnel \<Rightarrow> tunnel" where
  "goto i pc s = s\<lparr>stoppers := (stoppers s)(i := pc)\<rparr>"

definition hev_socks5_tunnel_stop :: "nat \<Rightarrow> tunnel \<Rightarrow> tunnel" where
  "hev_socks5_tunnel_stop i s =
     (case stoppers s i of
        SIdle \<Rightarrow> goto i SRetry s
      | SRetry \<Rightarrow>
          let res = tsync s; s = s\<lparr>tsync := res OR SYNC_WAIT\<rparr> in
          if has res SYNC_WAIT then s
          else if has res SYNC_SEND then goto i SSent (s\<lparr>asked := True\<rparr>)
          else goto i SStop s
      | SSent \<Rightarrow>
          let res = tsync s; s = s\<lparr>tsync := res OR SYNC_SENT\<rparr> in
          if \<not> has res SYNC_SENT then goto i SWrite s else goto i SClear s
      | SWrite \<Rightarrow> goto i SClear (if ev_open s then s\<lparr>ev_bytes := ev_bytes s + 1\<rparr> else s\<lparr>fault := True\<rparr>)
      | SStop \<Rightarrow> goto i SClear (s\<lparr>tsync := tsync s OR SYNC_STOP\<rparr>)
      | SClear \<Rightarrow> goto i SIdle (s\<lparr>tsync := tsync s AND NOT SYNC_WAIT\<rparr>))"

subsection \<open>event_task_entry\<close>

definition event_task_entry :: "tunnel \<Rightarrow> tunnel" where
  "event_task_entry s =
     (case event s of
        EvRead \<Rightarrow>
          if ev_bytes s = 0 then s
          else s\<lparr>ev_bytes := ev_bytes s - min 4 (ev_bytes s), run_flag := False, event := EvClear\<rparr>
      | EvClear \<Rightarrow> s\<lparr>tsync := tsync s AND NOT SYNC_SENT, event := EvDone\<rparr>
      | EvDone \<Rightarrow> s)"

subsection \<open>hev_socks5_tunnel_init, run and fini\<close>

text \<open>\<open>pair\<close> tells whether the initialisation got to creating the socket pair, and \<open>good\<close>
  whether all of it succeeded; otherwise it calls \<open>fini\<close>.\<close>

definition hev_socks5_tunnel_init :: "bool \<Rightarrow> bool \<Rightarrow> tunnel \<Rightarrow> tunnel" where
  "hev_socks5_tunnel_init pair good s =
     (case main s of
        MOff \<Rightarrow> s\<lparr>main := MInit, ev_open := pair, ev_bytes := 0, asked := False\<rparr>
      | MInit \<Rightarrow>
          if good \<and> ev_open s then s\<lparr>tsync := tsync s OR SYNC_SEND, main := MReady\<rparr>
          else s\<lparr>main := MFini\<rparr>
      | _ \<Rightarrow> s)"

definition hev_socks5_tunnel_run :: "tunnel \<Rightarrow> tunnel" where
  "hev_socks5_tunnel_run s =
     (case main s of
        MReady \<Rightarrow>
          let res = tsync s; s = s\<lparr>tsync := res AND NOT SYNC_STOP\<rparr> in
          if has res SYNC_STOP then s\<lparr>main := MFini\<rparr>
          else s\<lparr>event := EvRead, run_flag := True, main := MRun\<rparr>
      | MRun \<Rightarrow> if event s = EvDone then s\<lparr>main := MFini\<rparr> else s
      | _ \<Rightarrow> s)"

definition hev_socks5_tunnel_fini :: "tunnel \<Rightarrow> tunnel" where
  "hev_socks5_tunnel_fini s =
     (case main s of
        MFini \<Rightarrow>
          let res = tsync s; s = s\<lparr>tsync := res AND NOT (SYNC_SEND OR SYNC_SENT)\<rparr> in
          if has res SYNC_WAIT then s else s\<lparr>main := MRelease\<rparr>
      | MRelease \<Rightarrow> s\<lparr>ev_open := False, main := MOff\<rparr>
      | _ \<Rightarrow> s)"

section \<open>The system\<close>

text \<open>The event task runs while the thread of the tunnel is in \<open>hev_task_system_run\<close>.\<close>

inductive tunnel_step :: "tunnel \<Rightarrow> tunnel \<Rightarrow> bool" where
  step_stop: "tunnel_step s (hev_socks5_tunnel_stop i s)"
| step_event: "main s = MRun \<Longrightarrow> tunnel_step s (event_task_entry s)"
| step_init: "tunnel_step s (hev_socks5_tunnel_init pair good s)"
| step_run: "tunnel_step s (hev_socks5_tunnel_run s)"
| step_fini: "tunnel_step s (hev_socks5_tunnel_fini s)"

inductive_cases tunnel_stepE: "tunnel_step s s'"

definition tunnel0 :: tunnel where
  "tunnel0 = \<lparr>tsync = 0, run_flag = False, ev_open = False, ev_bytes = 0, main = MOff, event = EvDone,
     stoppers = (\<lambda>_. SIdle), fault = False, asked = False\<rparr>"

abbreviation tunnel_init0 :: "tunnel \<Rightarrow> bool" where
  "tunnel_init0 s \<equiv> s = tunnel0"

abbreviation tunnel_reach :: "tunnel \<Rightarrow> bool" where
  "tunnel_reach \<equiv> reach tunnel_init0 tunnel_step"

section \<open>The invariant\<close>

text \<open>The threads between the first and the last atomic operation of \<open>stop\<close>.\<close>

definition crit :: "stop_pc \<Rightarrow> bool" where
  "crit pc \<longleftrightarrow> pc \<noteq> SIdle \<and> pc \<noteq> SRetry"

definition holders :: "tunnel \<Rightarrow> nat set" where
  "holders s = {i. crit (stoppers s i)}"

definition excl_inv :: "tunnel \<Rightarrow> bool" where
  "excl_inv s \<longleftrightarrow> (if has (tsync s) SYNC_WAIT then \<exists>h. holders s = {h} else holders s = {})"

text \<open>Outside of \<open>init\<close>, \<open>run\<close> and \<open>fini\<close> nobody uses the socket pair.\<close>

definition unused :: "tunnel \<Rightarrow> bool" where
  "unused s \<longleftrightarrow> main s = MOff \<or> main s = MInit \<or> main s = MRelease"

definition live_inv :: "tunnel \<Rightarrow> bool" where
  "live_inv s \<longleftrightarrow> \<not> fault s \<and>
     (main s = MReady \<or> main s = MRun \<longrightarrow> has (tsync s) SYNC_SEND) \<and>
     (unused s \<longrightarrow> \<not> has (tsync s) SYNC_SEND \<and> \<not> has (tsync s) SYNC_SENT) \<and>
     (has (tsync s) SYNC_SEND \<longrightarrow> ev_open s) \<and>
     (\<forall>i. stoppers s i = SSent \<or> stoppers s i = SWrite \<longrightarrow> \<not> unused s \<and> ev_open s)"

text \<open>A stop is not forgotten: while the tunnel is up, a request is a byte in the socket pair, or
  the thread that writes it is on its way.\<close>

definition is_up :: "tunnel \<Rightarrow> bool" where
  "is_up s \<longleftrightarrow> main s = MReady \<or> main s = MRun \<and> event s = EvRead"

definition some_at :: "stop_pc \<Rightarrow> tunnel \<Rightarrow> bool" where
  "some_at pc s \<longleftrightarrow> (\<exists>i. stoppers s i = pc)"

definition ask_inv :: "tunnel \<Rightarrow> bool" where
  "ask_inv s \<longleftrightarrow>
     (is_up s \<and> has (tsync s) SYNC_SENT \<longrightarrow> 0 < ev_bytes s \<or> some_at SWrite s) \<and>
     (is_up s \<and> asked s \<longrightarrow> has (tsync s) SYNC_SENT \<or> some_at SSent s) \<and>
     (main s = MInit \<longrightarrow> \<not> asked s) \<and> (main s = MRun \<longrightarrow> (run_flag s \<longleftrightarrow> event s = EvRead))"

definition tunnel_inv :: "tunnel \<Rightarrow> bool" where
  "tunnel_inv s \<longleftrightarrow> excl_inv s \<and> live_inv s \<and> ask_inv s"

lemma crit_simps [simp]:
  "\<not> crit SIdle" "\<not> crit SRetry" "crit SSent" "crit SWrite" "crit SStop" "crit SClear"
  by (simp_all add: crit_def)

lemma holders_simps [simp]:
  "holders (goto i pc s) = (if crit pc then insert i (holders s) else holders s - {i})"
  "holders (s\<lparr>tsync := t\<rparr>) = holders s" "holders (s\<lparr>asked := b\<rparr>) = holders s" "holders (s\<lparr>ev_bytes := n\<rparr>) = holders s"
  "holders (s\<lparr>fault := b\<rparr>) = holders s" "holders (s\<lparr>main := m\<rparr>) = holders s" "holders (s\<lparr>event := e\<rparr>) = holders s"
  "holders (s\<lparr>run_flag := b\<rparr>) = holders s" "holders (s\<lparr>ev_open := b\<rparr>) = holders s"
  by (auto simp: holders_def goto_def)

lemma goto_simps [simp]:
  "tsync (goto i pc s) = tsync s" "main (goto i pc s) = main s" "event (goto i pc s) = event s" "ev_open (goto i pc s) = ev_open s"
  "ev_bytes (goto i pc s) = ev_bytes s" "fault (goto i pc s) = fault s" "asked (goto i pc s) = asked s" "run_flag (goto i pc s) = run_flag s"
  by (simp_all add: goto_def)

lemmas step_defs = hev_socks5_tunnel_stop_def event_task_entry_def hev_socks5_tunnel_init_def hev_socks5_tunnel_run_def
  hev_socks5_tunnel_fini_def Let_def

text \<open>A thread inside excludes the others.\<close>

lemma excl_inside: "excl_inv s \<Longrightarrow> crit (stoppers s i) \<Longrightarrow> has (tsync s) SYNC_WAIT \<and> holders s = {i}"
proof -
  assume "excl_inv s" "crit (stoppers s i)"
  moreover from this have "i \<in> holders s" by (simp add: holders_def)
  ultimately show ?thesis by (auto simp: excl_inv_def split: if_splits)
qed

lemma excl_other: "excl_inv s \<Longrightarrow> crit (stoppers s i) \<Longrightarrow> crit (stoppers s j) \<Longrightarrow> j = i"
  using excl_inside [of s i] by (auto simp: holders_def)

lemma excl_stop: "excl_inv s \<Longrightarrow> excl_inv (hev_socks5_tunnel_stop i s)"
  using excl_inside [of s i]
  by (cases "stoppers s i") (auto simp: excl_inv_def step_defs sync_simps holders_def [of s] split: if_splits)

lemma stoppers_goto: "stoppers (goto i pc s) j = (if j = i then pc else stoppers s j)"
  by (simp add: goto_def)

lemma unused_simps [simp]:
  "unused (goto i pc s) = unused s" "unused (s\<lparr>tsync := t\<rparr>) = unused s" "unused (s\<lparr>asked := b\<rparr>) = unused s"
  "unused (s\<lparr>ev_bytes := n\<rparr>) = unused s" "unused (s\<lparr>fault := b\<rparr>) = unused s"
  by (simp_all add: unused_def)

lemma live_stop:
  assumes "live_inv s"
  shows "live_inv (hev_socks5_tunnel_stop i s)"
proof -
  note L = assms [unfolded live_inv_def]
  show ?thesis
  proof (cases "stoppers s i")
    case SRetry
    then show ?thesis using L by (auto simp: live_inv_def step_defs stoppers_goto sync_simps)
  qed (use L in \<open>auto simp: live_inv_def step_defs stoppers_goto sync_simps\<close>)
qed

lemma is_up_simps [simp]:
  "is_up (goto i pc s) = is_up s" "is_up (s\<lparr>tsync := t\<rparr>) = is_up s" "is_up (s\<lparr>asked := b\<rparr>) = is_up s"
  "is_up (s\<lparr>ev_bytes := n\<rparr>) = is_up s" "is_up (s\<lparr>fault := b\<rparr>) = is_up s"
  by (simp_all add: is_up_def)

lemma some_at_simps [simp]:
  "some_at q (s\<lparr>tsync := t\<rparr>) = some_at q s" "some_at q (s\<lparr>asked := b\<rparr>) = some_at q s" "some_at q (s\<lparr>ev_bytes := n\<rparr>) = some_at q s"
  "some_at q (s\<lparr>fault := b\<rparr>) = some_at q s" "some_at q (s\<lparr>main := m\<rparr>) = some_at q s" "some_at q (s\<lparr>event := e\<rparr>) = some_at q s"
  "some_at q (s\<lparr>run_flag := b\<rparr>) = some_at q s" "some_at q (s\<lparr>ev_open := b\<rparr>) = some_at q s"
  by (simp_all add: some_at_def)

lemma some_at_outside:
  "\<not> crit (stoppers s i) \<Longrightarrow> crit q \<Longrightarrow> some_at q (goto i pc s) \<longleftrightarrow> pc = q \<or> some_at q s"
  by (auto simp: some_at_def stoppers_goto)

lemma some_at_inside:
  "excl_inv s \<Longrightarrow> crit (stoppers s i) \<Longrightarrow> crit q \<Longrightarrow> some_at q (goto i pc s) \<longleftrightarrow> pc = q"
  unfolding some_at_def stoppers_goto by (metis excl_other)

lemma ask_stop:
  assumes "excl_inv s" "live_inv s" "ask_inv s"
  shows "ask_inv (hev_socks5_tunnel_stop i s)"
proof -
  have ev: "is_up s \<Longrightarrow> ev_open s" using assms(2) by (auto simp: live_inv_def is_up_def)
  have at: "stoppers s i = q \<Longrightarrow> some_at q s" for q by (auto simp: some_at_def)
  have out: "some_at q (goto i pc s') \<longleftrightarrow> pc = q \<or> some_at q s'" if "\<not> crit (stoppers s i)" "crit q" "stoppers s' = stoppers s" for q pc s'
    using that some_at_outside [of s' i q pc] by simp
  have ins: "some_at q (goto i pc s') \<longleftrightarrow> pc = q" if "crit (stoppers s i)" "crit q" "stoppers s' = stoppers s" for q pc s'
    using some_at_inside [OF assms(1) that(1,2), of pc] unfolding some_at_def stoppers_goto that(3) .
  have now: "some_at q s \<longleftrightarrow> stoppers s i = q" if "crit (stoppers s i)" "crit q" for q
    unfolding some_at_def using that excl_other [OF assms(1)] by metis
  note A = assms(3) [unfolded ask_inv_def]
  show ?thesis
  proof (cases "stoppers s i")
    case SIdle
    then show ?thesis using A out by (auto simp: ask_inv_def step_defs)
  next
    case SRetry
    have "main s = MInit \<Longrightarrow> \<not> has (tsync s) SYNC_SEND" using assms(2) by (simp add: live_inv_def unused_def)
    then show ?thesis using SRetry A out by (auto simp: ask_inv_def step_defs sync_simps)
  next
    case SSent
    then show ?thesis using A ins now by (auto simp: ask_inv_def step_defs sync_simps)
  next
    case SWrite
    then show ?thesis using A ins now ev by (auto simp: ask_inv_def step_defs sync_simps)
  next
    case SStop
    then show ?thesis using A ins now by (auto simp: ask_inv_def step_defs sync_simps)
  next
    case SClear
    then show ?thesis using A ins now by (auto simp: ask_inv_def step_defs sync_simps)
  qed
qed

lemma stop_inv: "tunnel_inv s \<Longrightarrow> tunnel_inv (hev_socks5_tunnel_stop i s)"
  unfolding tunnel_inv_def by (simp add: excl_stop live_stop ask_stop)

text \<open>The other steps do not move a stopping thread.\<close>

lemma no_writer:
  assumes "tunnel_inv s" "\<not> has (tsync s) SYNC_WAIT"
  shows "\<forall>i. stoppers s i \<noteq> SSent \<and> stoppers s i \<noteq> SWrite"
proof (intro allI)
  fix i
  have "\<not> crit (stoppers s i)" using assms by (auto simp: tunnel_inv_def dest: excl_inside)
  then show "stoppers s i \<noteq> SSent \<and> stoppers s i \<noteq> SWrite" by auto
qed

lemma event_inv: "tunnel_inv s \<Longrightarrow> main s = MRun \<Longrightarrow> tunnel_inv (event_task_entry s)"
  by (cases "event s"; cases "ev_bytes s = 0")
    (simp_all add: tunnel_inv_def excl_inv_def live_inv_def ask_inv_def unused_def is_up_def event_task_entry_def sync_simps)

lemma init_inv: "tunnel_inv s \<Longrightarrow> tunnel_inv (hev_socks5_tunnel_init pair good s)"
  by (cases "main s")
    (auto simp: tunnel_inv_def excl_inv_def live_inv_def ask_inv_def unused_def is_up_def hev_socks5_tunnel_init_def sync_simps)

lemma run_inv: "tunnel_inv s \<Longrightarrow> tunnel_inv (hev_socks5_tunnel_run s)"
  by (cases "main s")
    (simp_all add: tunnel_inv_def excl_inv_def live_inv_def ask_inv_def unused_def is_up_def hev_socks5_tunnel_run_def Let_def sync_simps)

lemma fini_inv:
  assumes "tunnel_inv s"
  shows "tunnel_inv (hev_socks5_tunnel_fini s)"
proof (cases "main s = MFini \<and> \<not> has (tsync s) SYNC_WAIT")
  case True
  then show ?thesis using assms no_writer [OF assms]
    by (simp add: tunnel_inv_def excl_inv_def live_inv_def ask_inv_def unused_def is_up_def hev_socks5_tunnel_fini_def sync_simps)
next
  case False
  then show ?thesis using assms
    by (cases "main s")
      (simp_all add: tunnel_inv_def excl_inv_def live_inv_def ask_inv_def unused_def is_up_def hev_socks5_tunnel_fini_def sync_simps)
qed

lemma tunnel0_inv: "tunnel_inv tunnel0"
  by (simp add: tunnel_inv_def excl_inv_def live_inv_def ask_inv_def unused_def is_up_def holders_def tunnel0_def sync_simps)

lemma step_inv: "tunnel_step s t \<Longrightarrow> tunnel_inv s \<Longrightarrow> tunnel_inv t"
  by (auto simp: stop_inv event_inv init_inv run_inv fini_inv elim!: tunnel_stepE)

interpretation sync: inductive_invariant tunnel_init0 tunnel_step tunnel_inv
  by unfold_locales (auto simp: tunnel0_inv intro: step_inv)

section \<open>Ending\<close>

text \<open>The stopping thread that is inside leaves after at most three steps of its own, and the other
  threads stay where they are.\<close>

lemma stop_steps: "tunnel_step\<^sup>*\<^sup>* s (((hev_socks5_tunnel_stop i) ^^ n) s)"
  by (induction n) (auto intro: rtranclp.rtrancl_into_rtrancl step_stop)

lemma stop_leaves:
  assumes "excl_inv s"
  shows "\<exists>t. tunnel_step\<^sup>*\<^sup>* s t \<and> \<not> has (tsync t) SYNC_WAIT \<and> main t = main s \<and> event t = event s \<and> ev_bytes s \<le> ev_bytes t \<and>
    asked t = asked s"
proof (cases "has (tsync s) SYNC_WAIT")
  case False
  then show ?thesis by (intro exI [of _ s]) simp
next
  case True
  then obtain i where i: "crit (stoppers s i)" using assms by (auto simp: excl_inv_def holders_def)
  let ?f = "hev_socks5_tunnel_stop i"
  have 1: "\<not> has (tsync (?f u)) SYNC_WAIT \<and> main (?f u) = main u \<and> event (?f u) = event u \<and> ev_bytes (?f u) = ev_bytes u \<and>
      asked (?f u) = asked u" if "stoppers u i = SClear" for u
    using that by (simp add: step_defs sync_simps)
  have 2: "stoppers (?f u) i = SClear \<and> main (?f u) = main u \<and> event (?f u) = event u \<and> ev_bytes u \<le> ev_bytes (?f u) \<and>
      asked (?f u) = asked u" if "stoppers u i = SWrite \<or> stoppers u i = SStop" for u
    using that by (auto simp: step_defs stoppers_goto)
  have 3: "(stoppers (?f u) i = SClear \<or> stoppers (?f u) i = SWrite) \<and> main (?f u) = main u \<and> event (?f u) = event u \<and>
      ev_bytes (?f u) = ev_bytes u \<and> asked (?f u) = asked u" if "stoppers u i = SSent" for u
    using that by (simp add: step_defs stoppers_goto)
  consider "stoppers s i = SClear" | "stoppers s i = SWrite \<or> stoppers s i = SStop" | "stoppers s i = SSent"
    using i by (cases "stoppers s i") auto
  then show ?thesis
  proof cases
    case a: 1
    then show ?thesis using 1 [OF a] stop_steps [where s = s and i = i and n = 1] by (intro exI [of _ "?f s"]) simp
  next
    case a: 2
    then show ?thesis using 2 [OF a] 1 [of "?f s"] stop_steps [where s = s and i = i and n = 2]
      by (intro exI [of _ "?f (?f s)"]) (simp add: numeral_2_eq_2)
  next
    case a: 3
    show ?thesis
    proof (cases "stoppers (?f s) i = SClear")
      case True
      then show ?thesis using 3 [OF a] 1 [of "?f s"] stop_steps [where s = s and i = i and n = 2]
        by (intro exI [of _ "?f (?f s)"]) (simp add: numeral_2_eq_2)
    next
      case False
      then have w: "stoppers (?f s) i = SWrite" using 3 [OF a] by simp
      then show ?thesis using 3 [OF a] 2 [of "?f s"] 1 [of "?f (?f s)"] stop_steps [where s = s and i = i and n = 3]
        by (intro exI [of _ "?f (?f (?f s))"]) (simp add: numeral_3_eq_3)
    qed
  qed
qed

text \<open>The thread of the tunnel gets out of \<open>fini\<close>, and of \<open>run\<close> after the event task has ended.\<close>

lemma inv_steps: "tunnel_step\<^sup>*\<^sup>* s t \<Longrightarrow> tunnel_inv s \<Longrightarrow> tunnel_inv t"
  by (induction rule: rtranclp_induct) (auto intro: step_inv)

lemma fini_ends:
  assumes "tunnel_inv s" "main s = MFini"
  shows "\<exists>t. tunnel_step\<^sup>*\<^sup>* s t \<and> main t = MOff"
proof -
  obtain t where t: "tunnel_step\<^sup>*\<^sup>* s t" "\<not> has (tsync t) SYNC_WAIT" "main t = MFini"
    using stop_leaves [of s] assms by (auto simp: tunnel_inv_def)
  let ?u = "hev_socks5_tunnel_fini t" and ?v = "hev_socks5_tunnel_fini (hev_socks5_tunnel_fini t)"
  have "main ?v = MOff" using t(2,3) by (simp add: hev_socks5_tunnel_fini_def Let_def)
  moreover have "tunnel_step\<^sup>*\<^sup>* s ?v"
    using rtranclp.rtrancl_into_rtrancl [OF rtranclp.rtrancl_into_rtrancl [OF t(1) step_fini] step_fini] .
  ultimately show ?thesis by blast
qed

lemma run_ends:
  assumes "tunnel_inv s" "main s = MRun" "event s \<noteq> EvRead \<or> 0 < ev_bytes s"
  shows "\<exists>t. tunnel_step\<^sup>*\<^sup>* s t \<and> main t = MOff"
proof -
  let ?e = "event_task_entry"
  have ended: "\<exists>t. tunnel_step\<^sup>*\<^sup>* u t \<and> main t = MOff" if u: "tunnel_inv u" "main u = MRun" "event u = EvDone" for u
  proof -
    have "main (hev_socks5_tunnel_run u) = MFini" using u by (simp add: hev_socks5_tunnel_run_def)
    then show ?thesis using fini_ends [OF run_inv [OF u(1)]] converse_rtranclp_into_rtranclp [of tunnel_step, OF step_run [of u]] by blast
  qed
  have clear: "\<exists>t. tunnel_step\<^sup>*\<^sup>* u t \<and> main t = MOff" if u: "tunnel_inv u" "main u = MRun" "event u = EvClear" for u
  proof -
    have "main (?e u) = MRun" "event (?e u) = EvDone" using u by (simp_all add: event_task_entry_def)
    then show ?thesis using ended [OF event_inv [OF u(1,2)]] converse_rtranclp_into_rtranclp [of tunnel_step, OF step_event [OF u(2)]] by blast
  qed
  show ?thesis
  proof (cases "event s")
    case EvRead
    then have "main (?e s) = MRun" "event (?e s) = EvClear" using assms by (simp_all add: event_task_entry_def)
    then show ?thesis using clear [OF event_inv [OF assms(1,2)]] converse_rtranclp_into_rtranclp [of tunnel_step, OF step_event [OF assms(2)]] by blast
  qed (use ended clear assms in auto)
qed

text \<open>A request that is on its way arrives.\<close>

lemma asked_byte:
  assumes "tunnel_inv s" "asked s" "is_up s"
  shows "\<exists>t. tunnel_step\<^sup>*\<^sup>* s t \<and> tunnel_inv t \<and> main t = main s \<and> event t = event s \<and> 0 < ev_bytes t"
proof -
  obtain t where t: "tunnel_step\<^sup>*\<^sup>* s t" "\<not> has (tsync t) SYNC_WAIT" "main t = main s" "event t = event s" "asked t = asked s"
    using stop_leaves [of s] assms(1) by (auto simp: tunnel_inv_def)
  have inv: "tunnel_inv t" using inv_steps [OF t(1) assms(1)] .
  have "\<not> some_at SSent t" "\<not> some_at SWrite t" using no_writer [OF inv t(2)] by (auto simp: some_at_def)
  moreover have "is_up t" using assms(3) t(3,4) by (simp add: is_up_def)
  ultimately have "0 < ev_bytes t" using inv assms(2) t(5) by (simp add: tunnel_inv_def ask_inv_def)
  then show ?thesis using t inv by blast
qed

lemma asked_ends:
  assumes "tunnel_inv s" "asked s"
  shows "\<exists>t. tunnel_step\<^sup>*\<^sup>* s t \<and> main t = MOff"
proof (cases "main s")
  case MInit
  then show ?thesis using assms by (simp add: tunnel_inv_def ask_inv_def)
next
  case MReady
  obtain t where t: "tunnel_step\<^sup>*\<^sup>* s t" "tunnel_inv t" "main t = MReady" "0 < ev_bytes t"
    using asked_byte [OF assms] MReady by (auto simp: is_up_def)
  let ?r = "hev_socks5_tunnel_run t"
  have r: "tunnel_inv ?r" "tunnel_step\<^sup>*\<^sup>* s ?r"
    using run_inv [OF t(2)] rtranclp.rtrancl_into_rtrancl [OF t(1) step_run] by simp_all
  have "main ?r = MFini \<or> main ?r = MRun \<and> 0 < ev_bytes ?r"
    using t(3,4) by (simp add: hev_socks5_tunnel_run_def Let_def)
  then have "\<exists>u. tunnel_step\<^sup>*\<^sup>* ?r u \<and> main u = MOff" using fini_ends [OF r(1)] run_ends [OF r(1)] by blast
  then show ?thesis using rtranclp_trans [OF r(2)] by blast
next
  case MRun
  show ?thesis
  proof (cases "event s = EvRead")
    case True
    then obtain t where "tunnel_step\<^sup>*\<^sup>* s t" "tunnel_inv t" "main t = MRun" "0 < ev_bytes t"
      using asked_byte [OF assms] MRun by (auto simp: is_up_def)
    then show ?thesis using run_ends [of t] rtranclp_trans [of tunnel_step s t] by blast
  next
    case False
    then show ?thesis using run_ends [OF assms(1) MRun] by blast
  qed
next
  case MFini
  then show ?thesis by (rule fini_ends [OF assms(1)])
next
  case MRelease
  then have "main (hev_socks5_tunnel_fini s) = MOff" by (simp add: hev_socks5_tunnel_fini_def)
  then show ?thesis using step_fini [of s] by blast
qed auto

section \<open>Properties\<close>

text \<open>C7: The stop protocol is safe: however calls of \<open>hev_socks5_tunnel_stop\<close> by any number of
  threads interleave with \<open>init\<close>, \<open>run\<close>, the event task and \<open>fini\<close>, at most one thread is
  between the first and the last atomic operation of \<open>stop\<close>, a thread that is about to write to
  the socket pair finds it open, and no write fails.\<close>

theorem tunnel_stop_safe:
  assumes "tunnel_reach s"
  shows "\<not> fault s \<and> (stoppers s i = SWrite \<longrightarrow> ev_open s) \<and> (crit (stoppers s i) \<and> crit (stoppers s j) \<longrightarrow> i = j)"
proof -
  have inv: "excl_inv s" "live_inv s" using sync.reach_inv [OF assms] by (simp_all add: tunnel_inv_def)
  then show ?thesis using excl_other [OF inv(1), of j i] by (auto simp: live_inv_def)
qed

lemma reach_threads:
  "tunnel_reach s \<Longrightarrow> tunnel_reach (hev_socks5_tunnel_stop i s)" "tunnel_reach s \<Longrightarrow> tunnel_reach (hev_socks5_tunnel_run s)"
  "tunnel_reach s \<Longrightarrow> tunnel_reach (hev_socks5_tunnel_init pair good s)" "tunnel_reach tunnel0"
  by (auto intro: reach_step reach_init tunnel_step.intros)

definition tunnel_ready :: tunnel where
  "tunnel_ready = hev_socks5_tunnel_init True True (hev_socks5_tunnel_init True True tunnel0)"

definition stop_at_write :: tunnel where
  "stop_at_write = hev_socks5_tunnel_stop 0 (hev_socks5_tunnel_stop 0 (hev_socks5_tunnel_stop 0 (hev_socks5_tunnel_run tunnel_ready)))"

lemmas tunnel_eval = tunnel_ready_def stop_at_write_def tunnel0_def step_defs goto_def sync_simps

lemma stop_at_write_reach: "tunnel_reach stop_at_write"
  unfolding stop_at_write_def tunnel_ready_def by (intro reach_threads)

theorem tunnel_stop_safe_witness:
  "stoppers stop_at_write 7 = SIdle \<and> stoppers stop_at_write 0 = SWrite \<and> ev_open stop_at_write \<and> \<not> fault stop_at_write"
  using tunnel_stop_safe [OF stop_at_write_reach, of 0 0] by (simp add: tunnel_eval)

text \<open>C19: A stop that finds the tunnel initialised is not forgotten: from every state that the
  threads can reach after it, they can reach the end of \<open>fini\<close>; in particular the tunnel does not
  wait for a byte that nobody writes.\<close>

theorem tunnel_stop_heard:
  assumes "tunnel_reach s" "asked s"
  shows "(\<exists>t. tunnel_step\<^sup>*\<^sup>* s t \<and> main t = MOff) \<and>
    (main s = MRun \<and> event s = EvRead \<longrightarrow> 0 < ev_bytes s \<or> (\<exists>i. stoppers s i = SSent \<or> stoppers s i = SWrite))"
proof -
  have inv: "tunnel_inv s" by (rule sync.reach_inv [OF assms(1)])
  then show ?thesis using asked_ends [OF inv assms(2)] assms(2)
    by (auto simp: tunnel_inv_def ask_inv_def is_up_def some_at_def)
qed

theorem tunnel_stop_heard_witness:
  "(\<exists>t. tunnel_step\<^sup>*\<^sup>* stop_at_write t \<and> main t = MOff) \<and> main stop_at_write = MRun \<and> event stop_at_write = EvRead \<and>
    (\<exists>i. stoppers stop_at_write i = SSent \<or> stoppers stop_at_write i = SWrite)"
proof -
  have "asked stop_at_write" by (simp add: tunnel_eval)
  moreover have "main stop_at_write = MRun" "event stop_at_write = EvRead" "ev_bytes stop_at_write = 0"
    by (simp_all add: tunnel_eval)
  ultimately show ?thesis using tunnel_stop_heard [OF stop_at_write_reach] by simp
qed

section \<open>Limits of the code\<close>

text \<open>A stop that finds the tunnel not initialised, but sets its bit only after \<open>run\<close> has looked at
  it, is lost: the call has returned, and the tunnel runs on and waits for a byte that nobody writes.\<close>

definition lost :: tunnel where
  "lost = hev_socks5_tunnel_stop 0 (hev_socks5_tunnel_stop 0 (hev_socks5_tunnel_run
     (hev_socks5_tunnel_init True True (hev_socks5_tunnel_init True True (hev_socks5_tunnel_stop 0 (hev_socks5_tunnel_stop 0 tunnel0))))))"

lemma stop_lost_in_init:
  "tunnel_reach lost \<and> (\<forall>i. stoppers lost i = SIdle) \<and> main lost = MRun \<and>
    event_task_entry lost = lost \<and> hev_socks5_tunnel_run lost = lost \<and> has (tsync lost) SYNC_STOP"
proof (intro conjI)
  show "tunnel_reach lost"
    unfolding lost_def by (intro reach_threads)
qed (simp_all add: lost_def tunnel_eval)

text \<open>And a stop of a tunnel that has ended on its own, for instance because \<open>init\<close> failed, is
  remembered: the next \<open>run\<close> returns at once.\<close>

definition stale_stop :: tunnel where
  "stale_stop = hev_socks5_tunnel_run (hev_socks5_tunnel_init True True (hev_socks5_tunnel_init True True
     ((hev_socks5_tunnel_stop 0 ^^ 4) (hev_socks5_tunnel_fini (hev_socks5_tunnel_fini
       (hev_socks5_tunnel_init False False (hev_socks5_tunnel_init False False tunnel0)))))))"

lemma stop_cancels_next_start: "main stale_stop = MFini \<and> \<not> run_flag stale_stop"
  by (simp add: stale_stop_def tunnel_eval eval_nat_numeral)

end
