(* ===== verification/TunnelInit.thy ===== *)
theory TunnelInit
  imports SessionTCP "HOL-Library.Multiset"
begin

text \<open>
  The resources of the tunnel, \<open>hev-socks5-tunnel.c\<close>: what \<open>hev_socks5_tunnel_init\<close> acquires
  step by step and \<open>hev_socks5_tunnel_fini\<close> releases, the static variables that remember it, and
  the counters of the packets. The synchronisation of \<open>init\<close> and \<open>fini\<close> with other threads is in
  the theory of the stop protocol.
\<close>

section \<open>Variables and resources\<close>

text \<open>The \<open>ledger\<close> is not in the code: it lists what was acquired and not released. Releasing
  what is not in it, such as a descriptor of the caller, sets \<open>wrong\<close>.\<close>

datatype resource = Fd int | Netif | TcpPcb | UdpPcb | TaskEvent | TaskIo | TaskTimer | Dns

record tun =
  tun_fd :: int
  tun_fd_local :: bool
  v_netif :: bool
  v_tcp :: bool
  v_udp :: bool
  v_event0 :: int
  v_event1 :: int
  v_task_event :: bool
  v_task_io :: bool
  v_task_timer :: bool
  v_dns :: "HevMappedDNS option"
  stat_tx_packets :: size_t
  stat_rx_packets :: size_t
  stat_tx_bytes :: size_t
  stat_rx_bytes :: size_t
  ledger :: "resource list"
  wrong :: bool

definition acquire :: "resource \<Rightarrow> tun \<Rightarrow> tun" where
  "acquire r s = s\<lparr>ledger := r # ledger s\<rparr>"

definition release :: "resource \<Rightarrow> tun \<Rightarrow> tun" where
  "release r s = (if r \<in> set (ledger s) then s\<lparr>ledger := remove1 r (ledger s)\<rparr> else s\<lparr>wrong := True\<rparr>)"

text \<open>What the kernel, the device, the stack and the allocator answer. \<open>o_fd\<close> is the result of
  opening the device and \<open>o_pair\<close> that of \<open>socketpair\<close>.\<close>

record init_env =
  o_ioctl :: bool
  o_fd :: int
  o_mtu :: bool
  o_ipv4 :: bool
  o_ipv6 :: bool
  o_state :: bool
  o_netif :: bool
  o_tcp :: bool
  o_listen :: bool
  o_udp :: bool
  o_pair :: "(int \<times> int) option"
  o_nonblock :: bool
  o_task1 :: bool
  o_task2 :: bool
  o_task3 :: bool
  o_dns :: bool

section \<open>The steps\<close>

text \<open>The scripts that the configuration may name are run by the shell and have no result.\<close>

definition tunnel_init :: "config \<Rightarrow> init_env \<Rightarrow> int \<Rightarrow> tun \<Rightarrow> (int \<times> tun) option" where
  "tunnel_init cfg env extern_tun_fd s =
     (if 0 \<le> extern_tun_fd then
        (if \<not> o_ioctl env then Some (- 1, s) else Some (0, s\<lparr>tun_fd := extern_tun_fd\<rparr>))
      else do {
        let s = s\<lparr>tun_fd_local := True\<rparr>;
        name \<leftarrow> hev_config_get_tunnel_name cfg;
        let s = s\<lparr>tun_fd := o_fd env\<rparr>;
        if tun_fd s < 0 then Some (- 1, s)
        else do {
          let s = acquire (Fd (tun_fd s)) s;
          if \<not> o_mtu env then Some (- 1, s)
          else do {
            ipv4 \<leftarrow> hev_config_get_tunnel_ipv4_address cfg;
            if ipv4 \<noteq> None \<and> \<not> o_ipv4 env then Some (- 1, s)
            else do {
              ipv6 \<leftarrow> hev_config_get_tunnel_ipv6_address cfg;
              if ipv6 \<noteq> None \<and> \<not> o_ipv6 env then Some (- 1, s)
              else if \<not> o_state env then Some (- 1, s)
              else do {
                script_path \<leftarrow> hev_config_get_tunnel_post_up_script cfg;
                Some (0, s) } } } } })"

definition tunnel_fini :: "config \<Rightarrow> tun \<Rightarrow> tun option" where
  "tunnel_fini cfg s =
     (if \<not> tun_fd_local s then Some s
      else do {
        script_path \<leftarrow> hev_config_get_tunnel_pre_down_script cfg;
        Some (if 0 \<le> tun_fd s then (release (Fd (tun_fd s)) s)\<lparr>tun_fd_local := False, tun_fd := - 1\<rparr> else s) })"

text \<open>\<open>tcp_listen\<close> returns a new pcb and frees the old one, or returns NULL and leaves it alone.\<close>

definition gateway_init :: "init_env \<Rightarrow> tun \<Rightarrow> int \<times> tun" where
  "gateway_init env s =
     (let s = s\<lparr>v_netif := o_netif env\<rparr> in
      if \<not> v_netif s then (- 1, s)
      else
        let s = acquire Netif s; s = s\<lparr>v_tcp := o_tcp env\<rparr> in
        if \<not> v_tcp s then (- 1, s)
        else
          let s = acquire TcpPcb s; s = s\<lparr>v_tcp := o_listen env\<rparr>; s = s\<lparr>v_udp := o_udp env\<rparr> in
          if \<not> v_udp s then (- 1, s) else (0, acquire UdpPcb s))"

definition gateway_fini :: "tun \<Rightarrow> tun" where
  "gateway_fini s =
     (let s = (if v_udp s then (release UdpPcb s)\<lparr>v_udp := False\<rparr> else s);
          s = (if v_tcp s then (release TcpPcb s)\<lparr>v_tcp := False\<rparr> else s);
          s = (if v_netif s then (release Netif s)\<lparr>v_netif := False\<rparr> else s)
      in s)"

definition event_task_init :: "init_env \<Rightarrow> tun \<Rightarrow> int \<times> tun" where
  "event_task_init env s =
     (case o_pair env of
        None \<Rightarrow> (- 1, s)
      | Some (a, b) \<Rightarrow>
          let s = acquire (Fd b) (acquire (Fd a) s); s = s\<lparr>v_event0 := a, v_event1 := b\<rparr> in
          if \<not> o_nonblock env then (- 1, s)
          else
            let s = s\<lparr>v_task_event := o_task1 env\<rparr> in
            if \<not> v_task_event s then (- 1, s) else (0, acquire TaskEvent s))"

definition event_task_fini :: "tun \<Rightarrow> tun" where
  "event_task_fini s =
     (let s = (if v_task_event s then (release TaskEvent s)\<lparr>v_task_event := False\<rparr> else s);
          s = (if 0 \<le> v_event0 s then (release (Fd (v_event0 s)) s)\<lparr>v_event0 := - 1\<rparr> else s);
          s = (if 0 \<le> v_event1 s then (release (Fd (v_event1 s)) s)\<lparr>v_event1 := - 1\<rparr> else s)
      in s)"

definition lwip_io_task_init :: "init_env \<Rightarrow> tun \<Rightarrow> int \<times> tun" where
  "lwip_io_task_init env s =
     (let s = s\<lparr>v_task_io := o_task2 env\<rparr> in if \<not> v_task_io s then (- 1, s) else (0, acquire TaskIo s))"

definition lwip_io_task_fini :: "tun \<Rightarrow> tun" where
  "lwip_io_task_fini s = (if v_task_io s then (release TaskIo s)\<lparr>v_task_io := False\<rparr> else s)"

definition lwip_timer_task_init :: "init_env \<Rightarrow> tun \<Rightarrow> int \<times> tun" where
  "lwip_timer_task_init env s =
     (let s = s\<lparr>v_task_timer := o_task3 env\<rparr> in if \<not> v_task_timer s then (- 1, s) else (0, acquire TaskTimer s))"

definition lwip_timer_task_fini :: "tun \<Rightarrow> tun" where
  "lwip_timer_task_fini s = (if v_task_timer s then (release TaskTimer s)\<lparr>v_task_timer := False\<rparr> else s)"

definition mapped_dns_init :: "config \<Rightarrow> init_env \<Rightarrow> tun \<Rightarrow> int \<times> tun" where
  "mapped_dns_init cfg env s =
     (if mapdns_cache_size cfg = 0 then (0, s)
      else case hev_mapped_dns_new (o_dns env) (mapdns_network cfg) (mapdns_netmask cfg) (mapdns_cache_size cfg) of
        None \<Rightarrow> (- 1, s)
      | Some dns \<Rightarrow> (0, acquire Dns (s\<lparr>v_dns := Some dns\<rparr>)))"

definition mapped_dns_fini :: "tun \<Rightarrow> tun" where
  "mapped_dns_fini s = (if v_dns s \<noteq> None then (release Dns s)\<lparr>v_dns := None\<rparr> else s)"

section \<open>Initialisation and its end\<close>

definition tunnel_release :: "config \<Rightarrow> tun \<Rightarrow> tun option" where
  "tunnel_release cfg s = do {
     s \<leftarrow> tunnel_fini cfg (gateway_fini (event_task_fini (lwip_io_task_fini (lwip_timer_task_fini (mapped_dns_fini s)))));
     Some (s\<lparr>stat_tx_packets := 0, stat_rx_packets := 0, stat_tx_bytes := 0, stat_rx_bytes := 0\<rparr>) }"

text \<open>One step after the other, as long as they succeed.\<close>

definition and_then :: "int \<times> tun \<Rightarrow> (tun \<Rightarrow> int \<times> tun) \<Rightarrow> int \<times> tun" where
  "and_then r f = (if fst r < 0 then r else f (snd r))"

definition tunnel_setup :: "config \<Rightarrow> init_env \<Rightarrow> int \<Rightarrow> tun \<Rightarrow> (int \<times> tun) option" where
  "tunnel_setup cfg env fd s = do {
     r \<leftarrow> tunnel_init cfg env fd s;
     let r = and_then (and_then (and_then (and_then (and_then r
               (gateway_init env)) (event_task_init env)) (lwip_io_task_init env)) (lwip_timer_task_init env)) (mapped_dns_init cfg env);
     if fst r < 0 then do { s \<leftarrow> tunnel_release cfg (snd r); Some (- 1, s) } else Some (0, snd r) }"

section \<open>Balanced books\<close>

text \<open>What the variables say is owned, and the invariant that this is what is ledger.\<close>

definition own :: "bool \<Rightarrow> resource \<Rightarrow> resource multiset" where
  "own b r = (if b then {#r#} else {#})"

lemma own_simps [simp]: "own True r = {#r#}" "own False r = {#}"
  by (simp_all add: own_def)

definition owned :: "tun \<Rightarrow> resource multiset" where
  "owned s =
     own (tun_fd_local s \<and> 0 \<le> tun_fd s) (Fd (tun_fd s)) + own (v_netif s) Netif + own (v_tcp s) TcpPcb +
     own (v_udp s) UdpPcb + own (0 \<le> v_event0 s) (Fd (v_event0 s)) + own (0 \<le> v_event1 s) (Fd (v_event1 s)) +
     own (v_task_event s) TaskEvent + own (v_task_io s) TaskIo + own (v_task_timer s) TaskTimer +
     own (v_dns s \<noteq> None) Dns"

definition books :: "tun \<Rightarrow> bool" where
  "books s \<longleftrightarrow> \<not> wrong s \<and> mset (ledger s) = owned s"

lemma owned_fields [simp]:
  "owned (s\<lparr>ledger := h\<rparr>) = owned s" "owned (s\<lparr>wrong := w\<rparr>) = owned s"
  by (simp_all add: owned_def)








text \<open>\<open>acquire\<close> and \<open>release\<close> touch the ledger alone.\<close>

lemma ledger_fields [simp]:
  "tun_fd (release r s) = tun_fd s" "tun_fd_local (release r s) = tun_fd_local s" "v_netif (release r s) = v_netif s"
  "v_tcp (release r s) = v_tcp s" "v_udp (release r s) = v_udp s" "v_event0 (release r s) = v_event0 s"
  "v_event1 (release r s) = v_event1 s" "v_task_event (release r s) = v_task_event s"
  "v_task_io (release r s) = v_task_io s" "v_task_timer (release r s) = v_task_timer s" "v_dns (release r s) = v_dns s"
  "tun_fd (acquire r s) = tun_fd s" "tun_fd_local (acquire r s) = tun_fd_local s" "v_netif (acquire r s) = v_netif s"
  "v_tcp (acquire r s) = v_tcp s" "v_udp (acquire r s) = v_udp s" "v_event0 (acquire r s) = v_event0 s"
  "v_event1 (acquire r s) = v_event1 s" "v_task_event (acquire r s) = v_task_event s"
  "v_task_io (acquire r s) = v_task_io s" "v_task_timer (acquire r s) = v_task_timer s" "v_dns (acquire r s) = v_dns s"
  by (simp_all add: release_def acquire_def)





text \<open>Each step of the initialisation keeps the books, whether it succeeds or not, from a state in
  which its own variables are unset. The stage says which steps have not run yet.\<close>

definition stage :: "config \<Rightarrow> nat \<Rightarrow> tun \<Rightarrow> bool" where
  "stage cfg k s \<longleftrightarrow> books s \<and> 0 \<le> tun_fd s \<and>
     (if k \<le> 1 then \<not> v_netif s \<and> \<not> v_tcp s \<and> \<not> v_udp s else v_netif s \<and> v_tcp s \<and> v_udp s) \<and>
     (if k \<le> 2 then v_event0 s < 0 \<and> v_event1 s < 0 \<and> \<not> v_task_event s
      else 0 \<le> v_event0 s \<and> 0 \<le> v_event1 s \<and> v_task_event s) \<and>
     v_task_io s = (3 < k) \<and> v_task_timer s = (4 < k) \<and>
     (v_dns s \<noteq> None) = (5 < k \<and> mapdns_cache_size cfg \<noteq> 0)"



lemma stage_books: "stage cfg k s \<Longrightarrow> books s"
  by (simp add: stage_def)









section \<open>Samples\<close>

definition tun0 :: tun where
  "tun0 = \<lparr>tun_fd = - 1, tun_fd_local = False, v_netif = False, v_tcp = False, v_udp = False, v_event0 = - 1,
     v_event1 = - 1, v_task_event = False, v_task_io = False, v_task_timer = False, v_dns = None, stat_tx_packets = 0,
     stat_rx_packets = 0, stat_tx_bytes = 0, stat_rx_bytes = 0, ledger = [], wrong = False\<rparr>"

definition env0 :: init_env where
  "env0 = \<lparr>o_ioctl = True, o_fd = 3, o_mtu = True, o_ipv4 = True, o_ipv6 = True, o_state = True, o_netif = True,
     o_tcp = True, o_listen = True, o_udp = True, o_pair = Some (4, 5), o_nonblock = True, o_task1 = True,
     o_task2 = True, o_task3 = True, o_dns = True\<rparr>"



text \<open>A device that could not be opened leaves \<open>tun_fd_local\<close> set. A later start that is given a
  descriptor by its caller then takes it for its own, and the end closes it.\<close>

lemma failed_open_then_foreign_fd:
  "case tunnel_setup config0 (env0\<lparr>o_fd := - 1\<rparr>) (- 1) tun0 of
     Some (c, s) \<Rightarrow> c = - 1 \<and> tun_fd_local s \<and>
       (case tunnel_setup config0 env0 9 s of
          Some (c', s') \<Rightarrow> c' = 0 \<and> tun_fd_local s' \<and> tun_fd s' = 9 \<and>
            (case tunnel_release config0 s' of Some t \<Rightarrow> wrong t \<and> \<not> tun_fd_local t | None \<Rightarrow> False)
        | None \<Rightarrow> False)
   | None \<Rightarrow> False"
  by code_simp

text \<open>A listener that could not be allocated is not noticed: initialisation succeeds without one,
  and the pcb that was to become it is lost.\<close>

lemma failed_listen_unnoticed:
  "case tunnel_setup config0 (env0\<lparr>o_listen := False\<rparr>) (- 1) tun0 of
     Some (c, s) \<Rightarrow> c = 0 \<and> \<not> v_tcp s \<and>
       (case tunnel_release config0 s of Some t \<Rightarrow> ledger t = [TcpPcb] | None \<Rightarrow> False)
   | None \<Rightarrow> False"
  by code_simp

end
