(* ===== verification/TunnelMain.thy ===== *)
theory TunnelMain
  imports TunnelInit
begin

text \<open>
  The process around the tunnel: the loggers (\<open>misc/hev-logger.c\<close> and
  \<open>core/src/hev-socks5-logger.c\<close>, which is the same code) and the entry points of \<open>hev-main.c\<close>,
  which load the configuration, hand its settings to the core, and start and end everything else.
  An Android process runs them once for every connection, so what one run leaves in the static
  variables is what the next one starts with.
\<close>

section \<open>The loggers\<close>

text \<open>The open descriptors, and whether one was closed that was not open.\<close>

record descs =
  d_open :: "int list"
  d_foreign :: bool

definition d_close :: "int \<Rightarrow> descs \<Rightarrow> descs" where
  "d_close fd d = (if fd \<in> set (d_open d) then d\<lparr>d_open := remove1 fd (d_open d)\<rparr> else d\<lparr>d_foreign := True\<rparr>)"

record logger =
  lg_fd :: int
  req_level :: int

text \<open>\<open>res\<close> is the result of \<open>dup (1)\<close>, \<open>dup (2)\<close> or \<open>open\<close>, whichever the path asks for.\<close>

definition hev_logger_init :: "int \<Rightarrow> int \<Rightarrow> cstr option \<Rightarrow> logger \<Rightarrow> descs \<Rightarrow> int \<times> logger \<times> descs" where
  "hev_logger_init res level path lg d =
     (case path of
        None \<Rightarrow> (0, lg, d)
      | Some p \<Rightarrow>
          let lg = lg\<lparr>req_level := level, lg_fd := res\<rparr> in
          if lg_fd lg < 0 then (- 1, lg, d) else (0, lg, d\<lparr>d_open := lg_fd lg # d_open d\<rparr>))"

definition hev_logger_fini :: "logger \<Rightarrow> descs \<Rightarrow> descs" where
  "hev_logger_fini lg d = (if 0 \<le> lg_fd lg then d_close (lg_fd lg) d else d)"

definition hev_logger_enabled :: "int \<Rightarrow> logger \<Rightarrow> bool" where
  "hev_logger_enabled level lg \<longleftrightarrow> req_level lg \<le> level \<and> 0 \<le> lg_fd lg"

text \<open>\<open>ts\<close> is what \<open>snprintf\<close> made of the time, \<open>n\<close> and \<open>msg\<close> are the result of \<open>vsnprintf\<close> and the
  buffer of 1024 bytes it wrote to. The result is what is written to which descriptor.\<close>

definition level_tag :: "int \<Rightarrow> cstr" where
  "level_tag level =
     (if level = 0 then str ''[D] '' else if level = 1 then str ''[I] '' else if level = 2 then str ''[W] ''
      else if level = 3 then str ''[E] '' else str ''[?] '')"

definition hev_logger_log :: "int \<Rightarrow> cstr \<Rightarrow> cint \<Rightarrow> byte list \<Rightarrow> logger \<Rightarrow> (int \<times> byte list) option" where
  "hev_logger_log level ts n msg lg =
     (if level < req_level lg \<or> lg_fd lg < 0 then None
      else
        let len = (scast n :: size_t); len = (if 1024 \<le> len then 1023 else len)
        in Some (lg_fd lg, ts @ level_tag level @ take (unat len) msg @ [10]))"

section \<open>The process\<close>

record app =
  app_cfg :: config
  app_misc :: socks5_misc
  app_tun :: tun
  app_log :: logger
  app_slog :: logger
  app_fds :: descs
  app_sys :: bool

text \<open>What the system answers: the two log files, the task system and the steps of \<open>init\<close>; and what
  \<open>run\<close> leaves in the counters. That the limit of descriptors cannot be set is only logged.\<close>

record main_env =
  e_log :: int
  e_slog :: int
  e_sys :: int
  e_init :: init_env
  e_counters :: "size_t \<times> size_t \<times> size_t \<times> size_t"

definition tunnel_run :: "main_env \<Rightarrow> tun \<Rightarrow> tun" where
  "tunnel_run env s =
     (case e_counters env of (a, b, c, d) \<Rightarrow>
        s\<lparr>stat_tx_packets := a, stat_rx_packets := b, stat_tx_bytes := c, stat_rx_bytes := d\<rparr>)"

definition core_settings :: "config \<Rightarrow> socks5_misc \<Rightarrow> socks5_misc" where
  "core_settings cfg m =
     hev_socks5_set_udp_recv_buffer_size
       (hev_socks5_set_udp_timeout
         (hev_socks5_set_tcp_timeout
           (hev_socks5_set_connect_timeout m (sint (cfg_connect_timeout cfg)))
           (sint (tcp_read_write_timeout cfg)))
         (sint (udp_read_write_timeout cfg)))
       (sint (cfg_udp_recv_buffer_size cfg))"

text \<open>The labels at the end of the function.\<close>

definition free_logger :: "app \<Rightarrow> app" where
  "free_logger a = a\<lparr>app_fds := hev_logger_fini (app_log a) (app_fds a)\<rparr>"

definition free_socks5_logger :: "app \<Rightarrow> app" where
  "free_socks5_logger a = free_logger (a\<lparr>app_fds := hev_logger_fini (app_slog a) (app_fds a)\<rparr>)"

definition free_task_sys :: "app \<Rightarrow> app" where
  "free_task_sys a = free_socks5_logger (a\<lparr>app_sys := False\<rparr>)"

definition hev_socks5_tunnel_main_inner :: "main_env \<Rightarrow> int \<Rightarrow> app \<Rightarrow> (int \<times> app) option" where
  "hev_socks5_tunnel_main_inner env fd a = do {
     let cfg = app_cfg a;
     log_file \<leftarrow> hev_config_get_misc_log_file cfg;
     let a = a\<lparr>app_misc := core_settings cfg (app_misc a)\<rparr>;
     let (res, lg, d) = hev_logger_init (e_log env) (log_level cfg) log_file (app_log a) (app_fds a);
     let a = a\<lparr>app_log := lg, app_fds := d\<rparr>;
     if res < 0 then Some (res, a)
     else do {
       let (res, lg, d) = hev_logger_init (e_slog env) (log_level cfg) log_file (app_slog a) (app_fds a);
       let a = a\<lparr>app_slog := lg, app_fds := d\<rparr>;
       if res < 0 then Some (res, free_logger a)
       else do {
         pid_file \<leftarrow> hev_config_get_misc_pid_file cfg;
         let res = e_sys env;
         if res < 0 then Some (res, free_socks5_logger a)
         else do {
           let a = a\<lparr>app_sys := True\<rparr>;
           (res, s) \<leftarrow> tunnel_setup cfg (e_init env) fd (app_tun a);
           let a = a\<lparr>app_tun := s\<rparr>;
           if res < 0 then Some (res, free_task_sys a)
           else do {
             s \<leftarrow> tunnel_release cfg (tunnel_run env s);
             Some (res, free_task_sys (a\<lparr>app_tun := s\<rparr>)) } } } } }"


definition hev_socks5_tunnel_main_from_str ::
  "bool \<Rightarrow> yaml_document option \<Rightarrow> main_env \<Rightarrow> int \<Rightarrow> app \<Rightarrow> (int \<times> app) option" where
  "hev_socks5_tunnel_main_from_str i l env fd a =
     (case hev_config_init_from_str i l (app_cfg a) of (res, cfg) \<Rightarrow>
        if res < 0 then Some (- 1, a\<lparr>app_cfg := cfg\<rparr>)
        else hev_socks5_tunnel_main_inner env fd (a\<lparr>app_cfg := cfg\<rparr>))"

section \<open>A run leaves nothing behind\<close>







section \<open>Samples\<close>

definition logger0 :: logger where
  "logger0 = \<lparr>lg_fd = - 1, req_level = 0\<rparr>"




text \<open>A logger does not forget its descriptor when it is closed. A later run without a log file
  still takes it for open: it logs to whatever has the number by then, and closes that at its end.\<close>

lemma logger_not_forgotten:
  "let (_, lg, d) = hev_logger_init 3 1 (Some (str ''log'')) logger0 \<lparr>d_open = [], d_foreign = False\<rparr>;
       d = hev_logger_fini lg d; (res, lg', d') = hev_logger_init 4 1 None lg d
   in d_open d = [] \<and> res = 0 \<and> hev_logger_enabled 3 lg' \<and>
      hev_logger_log 3 [] 2 (replicate 1024 120) lg' = Some (3, level_tag 3 @ [120, 120, 10]) \<and>
      d_foreign (hev_logger_fini lg' d')"
  by code_simp

text \<open>A record is never longer than the time stamp, the tag, the buffer and the line end, whatever
  \<open>vsnprintf\<close> returns.\<close>

lemma log_record_bounded:
  assumes "hev_logger_log level ts n msg lg = Some (fd, bs)" "length msg = 1024"
  shows "length bs \<le> length ts + 4 + 1023 + 1 \<and> fd = lg_fd lg \<and> req_level lg \<le> level"
proof -
  let ?len = "if 1024 \<le> (scast n :: size_t) then 1023 else (scast n :: size_t)"
  have "unat ?len \<le> 1023" by (auto simp: word_le_nat_alt)
  moreover have "length (level_tag level) = 4" by (simp add: level_tag_def str_def)
  ultimately show ?thesis using assms by (auto simp: hev_logger_log_def Let_def split: if_splits)
qed

end
