(* ===== verification/TunnelDevice.thy ===== *)
theory TunnelDevice
  imports TunnelInit Pbuf
begin

text \<open>
  The device of the tunnel: how packets are read from it and written to it (\<open>hev-tunnel.h\<close>), the
  task and the callback of \<open>hev-socks5-tunnel.c\<close> that connect it to the stack and len the
  traffic, and how the device is set up on Linux (\<open>hev-tunnel-linux.c\<close>). Where the system puts an
  address family before every packet (\<open>HEV_TUNNEL_GENERIC_HEAD\<close>), reading and writing differ from
  Linux and Android (\<open>HEV_TUNNEL_GENERIC\<close>); what the task does is shown for both.
\<close>

section \<open>Reading\<close>

text \<open>The answers of the device: a packet, an error, or a wait after which the tunnel still runs or
  does not. A packet that is too long for the buffer is cut off. \<open>hev_task_io_read\<close> waits with
  \<open>task_io_yielder\<close>; the third result is whether the tunnel still runs.\<close>

datatype dev_event = Packet "byte list" | DevWait bool | DevError

fun dev_read :: "nat \<Rightarrow> dev_event list \<Rightarrow> int \<times> byte list \<times> bool \<times> dev_event list" where
  "dev_read len [] = (- 2, [], False, [])"
| "dev_read len (DevError # evs) = (- 1, [], True, evs)"
| "dev_read len (DevWait running # evs) = (if running then dev_read len evs else (- 2, [], False, evs))"
| "dev_read len (Packet bs # evs) = (int (min len (length bs)), take len bs, True, evs)"

lemma dev_read_shorter: "dev_read len evs = (s, bs, running, evs') \<Longrightarrow> length evs' \<le> length evs \<and> (evs \<noteq> [] \<longrightarrow> length evs' < length evs)"
  by (induction len evs rule: dev_read.induct) (auto split: if_splits)

text \<open>\<open>pbuf_alloc\<close> takes a 16-bit length.\<close>

definition packet_pbuf :: "byte list \<Rightarrow> pbuf" where
  "packet_pbuf bs = \<lparr>p_len = of_nat (length bs), p_tot_len = of_nat (length bs), p_payload = bs\<rparr>"

type_synonym tunnel_reader = "bool \<Rightarrow> u32 \<Rightarrow> dev_event list \<Rightarrow> pbuf option \<times> bool \<times> dev_event list"

definition hev_tunnel_read :: tunnel_reader where
  "hev_tunnel_read alloc mtu evs =
     (if \<not> alloc then (None, True, evs)
      else case dev_read (unat (ucast mtu :: u16)) evs of (s, bs, running, evs) \<Rightarrow>
        if s \<le> 0 then (None, running, evs) else (Some (packet_pbuf bs), running, evs))"

definition hev_tunnel_read_head :: tunnel_reader where
  "hev_tunnel_read_head alloc mtu evs =
     (if \<not> alloc then (None, True, evs)
      else case dev_read (4 + unat (ucast mtu :: u16)) evs of (s, bs, running, evs) \<Rightarrow>
        if s \<le> 4 then (None, running, evs) else (Some (packet_pbuf (drop 4 bs)), running, evs))"

section \<open>Writing\<close>

text \<open>The device takes a packet, has no room, or fails. The results are the return value, whether
  \<open>errno\<close> is \<open>EAGAIN\<close>, and the packets written so far.\<close>

datatype dev_answer = DevTakes | DevAgain | DevFails

definition dev_write :: "dev_answer \<Rightarrow> byte list \<Rightarrow> byte list list \<Rightarrow> int \<times> bool \<times> byte list list" where
  "dev_write ans bs out =
     (case ans of DevTakes \<Rightarrow> (int (length bs), False, out @ [bs]) | DevAgain \<Rightarrow> (- 1, True, out) | DevFails \<Rightarrow> (- 1, False, out))"

type_synonym tunnel_writer = "dev_answer \<Rightarrow> pbuf list \<Rightarrow> byte list list \<Rightarrow> int \<times> bool \<times> byte list list"

definition pbuf_data :: "pbuf \<Rightarrow> byte list" where
  "pbuf_data p = take (unat (p_len p)) (p_payload p)"

definition hev_tunnel_write :: tunnel_writer where
  "hev_tunnel_write ans buf out =
     (case buf of
        [p] \<Rightarrow> dev_write ans (pbuf_data p) out
      | _ \<Rightarrow> dev_write ans (concat (map pbuf_data (take 512 buf))) out)"

text \<open>The loop looks for the first byte of the packet; \<open>af4\<close> and \<open>af6\<close> are the numbers of the
  families, in four bytes.\<close>

fun head_type :: "byte list \<Rightarrow> byte list \<Rightarrow> byte list \<Rightarrow> pbuf list \<Rightarrow> byte list" where
  "head_type af4 af6 type [] = type"
| "head_type af4 af6 type (p # ps) =
     head_type af4 af6
       (if type = replicate 4 0 \<and> p_len p \<noteq> 0 then (if drop_bit 4 (hd (p_payload p)) AND 0xF = 4 then af4 else af6) else type) ps"

definition hev_tunnel_write_head :: "byte list \<Rightarrow> byte list \<Rightarrow> tunnel_writer" where
  "hev_tunnel_write_head af4 af6 ans buf out =
     (let ps = take 511 buf in
      case dev_write ans (head_type af4 af6 (replicate 4 0) ps @ concat (map pbuf_data ps)) out of (res, again, out) \<Rightarrow>
        if res \<le> 4 then (- 1, again, out) else (res, again, out))"

section \<open>Between the device and the stack\<close>

abbreviation ERR_WOULDBLOCK :: err_t where "ERR_WOULDBLOCK \<equiv> - 7"
abbreviation ERR_IF :: err_t where "ERR_IF \<equiv> - 12"

definition netif_output_handler ::
  "tunnel_writer \<Rightarrow> dev_answer \<Rightarrow> pbuf list \<Rightarrow> byte list list \<Rightarrow> tun \<Rightarrow> err_t \<times> byte list list \<times> tun" where
  "netif_output_handler write ans p out s =
     (case write ans p out of (n, again, out) \<Rightarrow>
        if n \<le> 0 then (if again then ERR_WOULDBLOCK else ERR_IF, out, s)
        else (ERR_OK, out, s\<lparr>stat_rx_packets := stat_rx_packets s + 1, stat_rx_bytes := stat_rx_bytes s + of_int n\<rparr>))"

text \<open>The task of the device. \<open>allocs\<close> is whether each packet buffer can be allocated, and true when
  the list ends. The packets passed to \<open>netif->input\<close> are collected; one that is refused is freed.\<close>

partial_function (option) lwip_io_task_entry ::
  "tunnel_reader \<Rightarrow> u32 \<Rightarrow> bool list \<Rightarrow> bool \<Rightarrow> dev_event list \<Rightarrow> byte list list \<Rightarrow> tun \<Rightarrow> (byte list list \<times> tun) option" where
  "lwip_io_task_entry read mtu allocs running evs ins s =
     (if \<not> running then Some (ins, s)
      else case read (allocs = [] \<or> hd allocs) mtu evs of (buf, running, evs) \<Rightarrow>
        (case buf of
           None \<Rightarrow> lwip_io_task_entry read mtu (tl allocs) running evs ins s
         | Some p \<Rightarrow>
             lwip_io_task_entry read mtu (tl allocs) running evs (ins @ [p_payload p])
               (s\<lparr>stat_tx_packets := stat_tx_packets s + 1, stat_tx_bytes := stat_tx_bytes s + ucast (p_tot_len p)\<rparr>)))"

text \<open>The task of the timers, over its rounds: whether the tunnel still runs, and whether there are
  sessions. The trace is the timers it calls and how it waits.\<close>

datatype timer_event = TcpTimer | ReassTimer | Nd6Timer | Reass6Timer | TimerSleep | TimerWait

fun lwip_timer_task_entry :: "u32 \<Rightarrow> (bool \<times> bool) list \<Rightarrow> timer_event list" where
  "lwip_timer_task_entry i [] = []"
| "lwip_timer_task_entry i ((running, sessions) # rounds) =
     (if \<not> running then []
      else [TcpTimer] @ (if i AND 3 = 0 then [ReassTimer, Nd6Timer, Reass6Timer] else []) @
        [if sessions then TimerSleep else TimerWait] @ lwip_timer_task_entry (i + 1) rounds)"

text \<open>The counters as the application gets them: packets and bytes sent into the tunnel, then those
  that came out of it, as signed numbers.\<close>

definition hev_socks5_tunnel_stats :: "tun \<Rightarrow> size_t \<times> size_t \<times> size_t \<times> size_t" where
  "hev_socks5_tunnel_stats s = (stat_tx_packets s, stat_tx_bytes s, stat_rx_packets s, stat_rx_bytes s)"

definition native_get_stats :: "tun \<Rightarrow> int list" where
  "native_get_stats s =
     (case hev_socks5_tunnel_stats s of (tx_packets, tx_bytes, rx_packets, rx_bytes) \<Rightarrow>
        [sint tx_packets, sint tx_bytes, sint rx_packets, sint rx_bytes])"

section \<open>From the device to the stack\<close>

text \<open>The packets that arrive before the tunnel stops, cut to the buffer, without a header of \<open>h\<close>
  bytes.\<close>

fun arrived :: "nat \<Rightarrow> nat \<Rightarrow> dev_event list \<Rightarrow> byte list list" where
  "arrived h n [] = []"
| "arrived h n (DevError # evs) = arrived h n evs"
| "arrived h n (DevWait running # evs) = (if running then arrived h n evs else [])"
| "arrived h n (Packet bs # evs) = (let p = drop h (take (h + n) bs) in if p = [] then arrived h n evs else p # arrived h n evs)"

lemma arrived_length: "p \<in> set (arrived h n evs) \<Longrightarrow> 0 < length p \<and> length p \<le> n"
  by (induction h n evs rule: arrived.induct) (auto simp: Let_def split: if_splits)

lemma dev_read_arrived:
  assumes "dev_read (h + n) evs = (s, bs, running, evs')"
  shows "arrived h n evs = (if s \<le> int h then [] else [drop h bs]) @ (if running then arrived h n evs' else [])"
    "running \<Longrightarrow> length evs' < length evs" "\<not> running \<Longrightarrow> s \<le> int h"
  using assms by (induction h n evs rule: arrived.induct) (auto simp: Let_def split: if_splits)

lemma ucast_of_nat_small: "n < 2 ^ 16 \<Longrightarrow> (ucast (of_nat n :: u16) :: size_t) = of_nat n"
  by (simp add: word_unat_eq_iff unat_of_nat take_bit_nat_eq_self unsigned_ucast_eq)

definition counted_in :: "byte list list \<Rightarrow> tun \<Rightarrow> tun" where
  "counted_in ps s = s\<lparr>stat_tx_packets := stat_tx_packets s + of_nat (length ps),
     stat_tx_bytes := stat_tx_bytes s + of_nat (length (concat ps))\<rparr>"

lemma counted_in_Nil [simp]: "counted_in [] s = s"
  by (simp add: counted_in_def)

lemma counted_in_Cons: "counted_in ps (counted_in [p] s) = counted_in (p # ps) s"
  by (simp add: counted_in_def ac_simps)

text \<open>What the task needs of a way of reading: the header is skipped, and a buffer that cannot be
  allocated loses no packet.\<close>

locale packet_source =
  fixes read :: tunnel_reader and h :: nat
  assumes read_fails: "read False mtu evs = (None, True, evs)"
    and read_skips: "read True mtu evs =
      (case dev_read (h + unat (ucast mtu :: u16)) evs of (s, bs, running, evs') \<Rightarrow>
         (if s \<le> int h then None else Some (packet_pbuf (drop h bs)), running, evs'))"
begin

lemma io_task_delivers:
  "lwip_io_task_entry read mtu allocs True evs ins s =
   Some (ins @ arrived h (unat (ucast mtu :: u16)) evs, counted_in (arrived h (unat (ucast mtu :: u16)) evs) s)"
proof (induction "length evs + length allocs" arbitrary: evs allocs ins s rule: less_induct)
  case less
  let ?n = "unat (ucast mtu :: u16)"
  show ?case
  proof (cases "allocs = [] \<or> hd allocs")
    case False
    then have "length (tl allocs) < length allocs" by (cases allocs) auto
    then show ?thesis
      using less [of evs "tl allocs" ins s] False by (subst lwip_io_task_entry.simps) (simp add: read_fails)
  next
    case True
    obtain k bs running evs' where r: "dev_read (h + ?n) evs = (k, bs, running, evs')" by (rule prod_cases4)
    note A = dev_read_arrived [OF r]
    have stop: "lwip_io_task_entry read mtu allocs' False evs' ins' s' = Some (ins', s')" for allocs' ins' s'
      by (subst lwip_io_task_entry.simps) simp
    have next_round: "lwip_io_task_entry read mtu (tl allocs) running evs' ins' s' =
        Some (ins' @ (if running then arrived h ?n evs' else []), counted_in (if running then arrived h ?n evs' else []) s')" for ins' s'
      using less [of evs' "tl allocs"] A(2) stop by (cases running) simp_all
    show ?thesis
    proof (cases "k \<le> int h")
      case True
      then show ?thesis
        using \<open>allocs = [] \<or> hd allocs\<close> next_round [of ins s]
        by (subst lwip_io_task_entry.simps) (simp add: read_skips r A(1))
    next
      case False
      let ?p = "drop h bs"
      have "?p \<in> set (arrived h ?n evs)" using A(1) False by simp
      then have "length ?p \<le> ?n" using arrived_length by blast
      then have "length ?p < 2 ^ 16" using unsigned_less [of "ucast mtu :: u16"] by (auto intro: le_less_trans)
      then have c: "s\<lparr>stat_tx_packets := stat_tx_packets s + 1, stat_tx_bytes := stat_tx_bytes s + ucast (of_nat (length ?p) :: u16)\<rparr> =
          counted_in [?p] s"
        by (simp add: counted_in_def ucast_of_nat_small)
      have "lwip_io_task_entry read mtu allocs True evs ins s =
          lwip_io_task_entry read mtu (tl allocs) running evs' (ins @ [?p]) (counted_in [?p] s)"
        using \<open>allocs = [] \<or> hd allocs\<close> False
        by (subst lwip_io_task_entry.simps) (simp add: read_skips r packet_pbuf_def flip: c)
      also have "\<dots> = Some (ins @ arrived h ?n evs, counted_in (arrived h ?n evs) s)"
        using False by (simp only: next_round A(1) counted_in_Cons if_False append_Cons append_Nil append_assoc)
      finally show ?thesis .
    qed
  qed
qed

end

interpretation plain: packet_source hev_tunnel_read 0
  by unfold_locales (auto simp: hev_tunnel_read_def split: prod.split)

interpretation headed: packet_source hev_tunnel_read_head 4
  by unfold_locales (auto simp: hev_tunnel_read_head_def split: prod.split)

section \<open>From the stack to the device\<close>

lemma pbuf_data_chain: "chain_ok ps \<Longrightarrow> concat (map pbuf_data ps) = pbuf_bytes ps"
  by (induction ps) (auto simp: pbuf_data_def unat_of_nat_lt)

text \<open>A chain of at most 512 buffers is written whole, as one packet.\<close>

lemma tunnel_write_chain:
  assumes "chain_ok ps" "length ps \<le> 512"
  shows "hev_tunnel_write ans ps out = dev_write ans (pbuf_bytes ps) out"
  using assms pbuf_data_chain [OF assms(1)] pbuf_data_chain [of "[hd ps]"]
  by (auto simp: hev_tunnel_write_def split: list.split)

lemma head_type_fixed: "type \<noteq> replicate 4 0 \<Longrightarrow> head_type af4 af6 type ps = type"
  by (induction ps) auto

lemma head_type_version:
  assumes "chain_ok ps" "pbuf_bytes ps \<noteq> []" "af4 \<noteq> replicate 4 0" "af6 \<noteq> replicate 4 0"
  shows "head_type af4 af6 (replicate 4 0) ps = (if drop_bit 4 (hd (pbuf_bytes ps)) AND 0xF = 4 then af4 else af6)"
  using assms
proof (induction ps)
  case (Cons p ps)
  show ?case
  proof (cases "p_payload p")
    case Nil
    then show ?thesis using Cons by simp
  next
    case (Cons b bs)
    then have "p_len p \<noteq> 0"
      using Cons.prems(1) chain_ok_len [OF Cons.prems(1)] by (metis length_0_conv list.distinct(1) unat_0)
    then show ?thesis
      using local.Cons assms(3,4) head_type_fixed [of af4 af4 af6 ps] head_type_fixed [of af6 af4 af6 ps] by simp
  qed
qed simp

lemma tunnel_write_head_chain:
  assumes "chain_ok ps" "length ps \<le> 511" "pbuf_bytes ps \<noteq> []" "af4 \<noteq> replicate 4 0" "af6 \<noteq> replicate 4 0"
    "length af4 = 4" "length af6 = 4"
  defines "af \<equiv> if drop_bit 4 (hd (pbuf_bytes ps)) AND 0xF = 4 then af4 else af6"
  shows "hev_tunnel_write_head af4 af6 ans ps out = dev_write ans (af @ pbuf_bytes ps) out" "length af = 4"
proof -
  show af: "length af = 4" using assms(6,7) by (simp add: af_def)
  have "0 < length (pbuf_bytes ps)" using assms(3) by simp
  then show "hev_tunnel_write_head af4 af6 ans ps out = dev_write ans (af @ pbuf_bytes ps) out"
    using af head_type_version [OF assms(1,3-5)] pbuf_data_chain [OF assms(1)] assms(2)
    by (cases ans) (simp_all add: hev_tunnel_write_head_def Let_def dev_write_def af_def)
qed

lemma output_counts:
  assumes "\<And>ans. write ans ps out = dev_write ans w out" "w \<noteq> []"
  shows "netif_output_handler write DevAgain ps out s = (ERR_WOULDBLOCK, out, s)"
    "netif_output_handler write DevFails ps out s = (ERR_IF, out, s)"
    "netif_output_handler write DevTakes ps out s =
       (ERR_OK, out @ [w], s\<lparr>stat_rx_packets := stat_rx_packets s + 1, stat_rx_bytes := stat_rx_bytes s + of_nat (length w)\<rparr>)"
  using assms by (simp_all add: netif_output_handler_def dev_write_def)

text \<open>C39: the task of the device passes exactly the packets that arrive before the tunnel stops to the
  stack, in order and each cut to the buffer, and counts them and their bytes; it ends, and a buffer
  that cannot be allocated loses no packet. This holds with and without a header.\<close>

theorem tunnel_packets_in:
  "lwip_io_task_entry hev_tunnel_read mtu allocs True evs ins s =
     Some (ins @ arrived 0 (unat (ucast mtu :: u16)) evs, counted_in (arrived 0 (unat (ucast mtu :: u16)) evs) s) \<and>
   lwip_io_task_entry hev_tunnel_read_head mtu allocs True evs ins s =
     Some (ins @ arrived 4 (unat (ucast mtu :: u16)) evs, counted_in (arrived 4 (unat (ucast mtu :: u16)) evs) s)"
  using plain.io_task_delivers headed.io_task_delivers by blast

text \<open>The timer of the connections is called in every round and the slow timers in every fourth, also
  when the counter of the rounds wraps around.\<close>

lemma and_3: "(of_nat n :: u32) AND 3 = 0 \<longleftrightarrow> n mod 4 = 0"
proof -
  have "(of_nat n :: u32) AND 3 = take_bit 2 (of_nat n)" by (simp add: take_bit_eq_mask mask_eq_exp_minus_1)
  also have "\<dots> = of_nat (take_bit 2 n)" by (simp add: of_nat_take_bit)
  finally show ?thesis by (simp add: take_bit_eq_mod unat_of_nat_lt word_unat_eq_iff)
qed

lemma timers_from:
  assumes "\<forall>r \<in> set rounds. fst r"
  shows "length (filter ((=) TcpTimer) (lwip_timer_task_entry (of_nat (Suc k)) rounds)) = length rounds \<and>
    length (filter ((=) Nd6Timer) (lwip_timer_task_entry (of_nat (Suc k)) rounds)) = (k + length rounds) div 4 - k div 4"
  using assms
proof (induction rounds arbitrary: k)
  case (Cons r rounds)
  obtain sessions where r: "r = (True, sessions)" using Cons.prems by (cases r) auto
  have ih: "length (filter ((=) TcpTimer) (lwip_timer_task_entry (of_nat (Suc (Suc k))) rounds)) = length rounds"
    "length (filter ((=) Nd6Timer) (lwip_timer_task_entry (of_nat (Suc (Suc k))) rounds)) = (Suc k + length rounds) div 4 - Suc k div 4"
    using Cons.IH [of "Suc k"] Cons.prems by simp_all
  have i: "(of_nat (Suc k) :: u32) + 1 = of_nat (Suc (Suc k))" by simp
  have "Suc k div 4 = k div 4 + (if Suc k mod 4 = 0 then 1 else 0)" by presburger
  moreover have "Suc k div 4 \<le> (Suc k + length rounds) div 4" by (simp add: div_le_mono)
  ultimately show ?case using ih and_3 [of "Suc k"] by (simp only: r lwip_timer_task_entry.simps i) auto
qed simp

lemma timers_due:
  assumes "\<forall>r \<in> set rounds. fst r"
  shows "length (filter ((=) TcpTimer) (lwip_timer_task_entry 1 rounds)) = length rounds"
    "length (filter ((=) Nd6Timer) (lwip_timer_task_entry 1 rounds)) = length rounds div 4"
  using timers_from [OF assms, of 0] by simp_all

text \<open>What the application reads after the task has run on a tunnel that was just initialised.\<close>

lemma stats_after_input:
  assumes "stat_tx_packets s = 0" "stat_tx_bytes s = 0" "length (concat ps) < 2 ^ 63" "length ps < 2 ^ 63"
  shows "take 2 (native_get_stats (counted_in ps s)) = [int (length ps), int (length (concat ps))]"
proof -
  have "sint (of_nat n :: size_t) = int n" if "n < 2 ^ 63" for n
    using that by (simp add: signed_of_nat signed_take_bit_int_eq_self)
  then show ?thesis using assms by (simp add: native_get_stats_def hev_socks5_tunnel_stats_def counted_in_def)
qed

text \<open>C40: a packet of the stack in at most 511 buffers is written as one packet, whichever build, and is
  read back as it was by the other end, if its buffer is large enough; the family before it is that
  of its version. The callback counts what was written, and on failure counts nothing and says
  whether it is worth trying again.\<close>

theorem tunnel_packet_roundtrip:
  assumes "chain_ok ps" and "length ps \<le> 511" and "pbuf_bytes ps \<noteq> []"
    and "length (pbuf_bytes ps) \<le> unat (ucast mtu :: u16)"
    and "length af4 = 4" and "length af6 = 4" and "af4 \<noteq> replicate 4 0" and "af6 \<noteq> replicate 4 0"
  shows "\<exists>w wh. hev_tunnel_write DevTakes ps out = (int (length w), False, out @ [w]) \<and>
    hev_tunnel_read True mtu (Packet w # evs) = (Some (packet_pbuf (pbuf_bytes ps)), True, evs) \<and>
    hev_tunnel_write_head af4 af6 DevTakes ps out = (int (length wh), False, out @ [wh]) \<and>
    hev_tunnel_read_head True mtu (Packet wh # evs) = (Some (packet_pbuf (pbuf_bytes ps)), True, evs) \<and>
    take 4 wh = (if drop_bit 4 (hd (pbuf_bytes ps)) AND 0xF = 4 then af4 else af6) \<and>
    (\<forall>write \<in> {hev_tunnel_write, hev_tunnel_write_head af4 af6}.
       netif_output_handler write DevAgain ps out s = (ERR_WOULDBLOCK, out, s) \<and>
       netif_output_handler write DevFails ps out s = (ERR_IF, out, s) \<and>
       (\<exists>w. netif_output_handler write DevTakes ps out s =
          (ERR_OK, out @ [w], s\<lparr>stat_rx_packets := stat_rx_packets s + 1, stat_rx_bytes := stat_rx_bytes s + of_nat (length w)\<rparr>)))"
proof -
  let ?af = "if drop_bit 4 (hd (pbuf_bytes ps)) AND 0xF = 4 then af4 else af6"
  have w: "hev_tunnel_write ans ps out = dev_write ans (pbuf_bytes ps) out" for ans
    using tunnel_write_chain [OF assms(1)] assms(2) by simp
  have h: "hev_tunnel_write_head af4 af6 ans ps out = dev_write ans (?af @ pbuf_bytes ps) out" "length ?af = 4" for ans
    using tunnel_write_head_chain [OF assms(1-3,7,8,5,6)] by blast+
  define af where "af = ?af"
  have r: "hev_tunnel_read True mtu (Packet (pbuf_bytes ps) # evs) = (Some (packet_pbuf (pbuf_bytes ps)), True, evs)"
    using assms(3,4) by (simp add: hev_tunnel_read_def)
  have "length af = 4" using h(2) by (simp add: af_def)
  then have rh: "hev_tunnel_read_head True mtu (Packet (af @ pbuf_bytes ps) # evs) = (Some (packet_pbuf (pbuf_bytes ps)), True, evs)"
    using assms(3,4) by (simp add: hev_tunnel_read_head_def)
  have t: "take 4 (af @ pbuf_bytes ps) = af" using \<open>length af = 4\<close> by simp
  note O = output_counts [of hev_tunnel_write, OF w assms(3)]
    output_counts [of "hev_tunnel_write_head af4 af6", OF h(1) [folded af_def]]
  show ?thesis
    unfolding af_def [symmetric]
    by (intro exI [of _ "pbuf_bytes ps"] exI [of _ "af @ pbuf_bytes ps"])
      (use w [of DevTakes] h(1) [of DevTakes, folded af_def] r rh t O assms(3) in \<open>simp add: dev_write_def\<close>)
qed

definition chain0 :: "pbuf list" where
  "chain0 = [\<lparr>p_len = 2, p_tot_len = 3, p_payload = [0x45, 0]\<rparr>, \<lparr>p_len = 1, p_tot_len = 1, p_payload = [7]\<rparr>]"

theorem tunnel_packet_roundtrip_witness:
  "\<exists>w. hev_tunnel_write_head [0, 0, 0, 2] [0, 0, 0, 28] DevTakes chain0 [] = (int (length w), False, [w]) \<and>
    hev_tunnel_read_head True 1500 [Packet w] = (Some (packet_pbuf [0x45, 0, 7]), True, []) \<and> take 4 w = [0, 0, 0, 2]"
proof -
  have c: "chain_ok chain0" "length chain0 \<le> 511" "pbuf_bytes chain0 \<noteq> []" "pbuf_bytes chain0 = [0x45, 0, 7]"
      "length (pbuf_bytes chain0) \<le> unat (ucast (1500 :: u32) :: u16)"
    by (simp_all add: chain0_def)
  have v: "drop_bit 4 (hd [0x45, 0, 7 :: byte]) AND 0xF = 4" by simp
  have "length [0, 0, 0, 2 :: byte] = 4" "length [0, 0, 0, 28 :: byte] = 4" "[0, 0, 0, 2 :: byte] \<noteq> replicate 4 0"
      "[0, 0, 0, 28 :: byte] \<noteq> replicate 4 0"
    by code_simp+
  from tunnel_packet_roundtrip [OF c(1-3,5) this, of "[]" "[]" tun0]
  show ?thesis unfolding c(4) if_P [OF v] by auto
qed

text \<open>Only the first 512 buffers of a chain are written; the rest is lost without an error.\<close>

lemma long_chain_cut:
  "hev_tunnel_write DevTakes (replicate 513 \<lparr>p_len = 1, p_tot_len = 0, p_payload = [7]\<rparr>) [] =
   (512, False, [replicate 512 7])"
  by code_simp

text \<open>With a header, the four bytes of the family are counted with what is written, and not with
  what is read.\<close>

lemma header_counted_once:
  "let (_, out, s) = netif_output_handler (hev_tunnel_write_head [0, 0, 0, 2] [0, 0, 0, 28]) DevTakes chain0 [] tun0;
       (_, _, evs) = hev_tunnel_read_head True 1500 (map Packet out)
   in stat_rx_bytes s = 7 \<and> evs = [] \<and> stat_tx_bytes (counted_in (arrived 4 1500 (map Packet out)) tun0) = 3"
  by code_simp

text \<open>A buffer length of 65536 is 0 in 16 bits: every packet is dropped.\<close>

lemma mtu_wraps: "arrived 0 (unat (ucast (65536 :: u32) :: u16)) (map Packet ps) = []"
  by (induction ps) simp_all

end
