(* ===== verification/TunnelLinux.thy ===== *)
theory TunnelLinux
  imports Config
begin

text \<open>
  Setting up the device on Linux, \<open>hev-tunnel-linux.c\<close>. Every function asks the kernel through a
  socket of its own. The kernel's answers are arguments; the state is what is open, and what of the
  interface has been set. The theory shows that no socket stays open and that success means that
  the setting is in effect, which is not so for an address that is not one.
\<close>

section \<open>State and answers\<close>

record lin =
  l_fds :: "int list"
  l_name :: "byte list"
  l_mtu :: "int option"
  l_up :: bool
  l_addr4 :: "u32 option"
  l_mask4 :: "u32 option"
  l_addr6 :: "(byte list \<times> int) option"

text \<open>\<open>k_fd\<close> is the result of \<open>open\<close> or \<open>socket\<close>, \<open>k_res1\<close> and \<open>k_res2\<close> those of the requests,
  \<open>k_exist\<close> whether \<open>errno\<close> is \<open>EEXIST\<close> then, \<open>k_ifname\<close> the name the kernel chose.\<close>

record lin_env =
  k_fd :: int
  k_res1 :: int
  k_res2 :: int
  k_exist :: bool
  k_ifname :: "byte list"

definition IFNAMSIZ :: nat where "IFNAMSIZ = 16"

definition open_fd :: "int \<Rightarrow> lin \<Rightarrow> lin" where
  "open_fd fd s = s\<lparr>l_fds := fd # l_fds s\<rparr>"

definition shut_fd :: "int \<Rightarrow> lin \<Rightarrow> lin" where
  "shut_fd fd s = s\<lparr>l_fds := remove1 fd (l_fds s)\<rparr>"

section \<open>Operations\<close>

text \<open>The request holds the first 15 bytes of the name, and zeros.\<close>

definition request_name :: "cstr option \<Rightarrow> byte list" where
  "request_name name =
     (case name of None \<Rightarrow> replicate IFNAMSIZ 0
      | Some n \<Rightarrow> take (IFNAMSIZ - 1) n @ replicate (IFNAMSIZ - length (take (IFNAMSIZ - 1) n)) 0)"

text \<open>The second result is the name asked for.\<close>

definition hev_tunnel_open :: "lin_env \<Rightarrow> cstr option \<Rightarrow> lin \<Rightarrow> int \<times> byte list option \<times> lin" where
  "hev_tunnel_open k name s =
     (let fd = k_fd k in
      if fd < 0 then (- 1, None, s)
      else
        let s = open_fd fd s; req = request_name name; res = k_res1 k in
        if res < 0 then (res, Some req, shut_fd fd s)
        else (fd, Some req, s\<lparr>l_name := k_ifname k\<rparr>))"

definition hev_tunnel_close :: "int \<Rightarrow> lin \<Rightarrow> lin" where
  "hev_tunnel_close fd s = shut_fd fd s"

definition hev_tunnel_set_mtu :: "lin_env \<Rightarrow> int \<Rightarrow> lin \<Rightarrow> int \<times> lin" where
  "hev_tunnel_set_mtu k mtu s =
     (let fd = k_fd k in
      if fd < 0 then (- 1, s)
      else
        let s = open_fd fd s; res = k_res1 k; s = (if 0 \<le> res then s\<lparr>l_mtu := Some mtu\<rparr> else s)
        in (res, shut_fd fd s))"

definition hev_tunnel_set_state :: "lin_env \<Rightarrow> int \<Rightarrow> lin \<Rightarrow> int \<times> lin" where
  "hev_tunnel_set_state k state s =
     (let fd = k_fd k in
      if fd < 0 then (- 1, s)
      else
        let s = open_fd fd s; res = k_res1 k in
        if res < 0 then (res, shut_fd fd s)
        else let res = k_res2 k; s = (if 0 \<le> res then s\<lparr>l_up := (state \<noteq> 0)\<rparr> else s) in (res, shut_fd fd s))"

definition prefix_mask :: "nat \<Rightarrow> u32" where
  "prefix_mask prefix = ntohl (push_bit (32 - prefix) (- 1))"

definition hev_tunnel_set_ipv4 :: "lin_env \<Rightarrow> cstr \<Rightarrow> nat \<Rightarrow> lin \<Rightarrow> int \<times> lin" where
  "hev_tunnel_set_ipv4 k addr prefix s =
     (let fd = k_fd k in
      if fd < 0 then (- 1, s)
      else
        let s = open_fd fd s in
        case inet_pton addr of
          None \<Rightarrow> (0, shut_fd fd s)
        | Some a \<Rightarrow>
            let res = k_res1 k in
            if res < 0 then (res, shut_fd fd s)
            else
              let s = s\<lparr>l_addr4 := Some a\<rparr>; res = k_res2 k;
                  s = (if 0 \<le> res then s\<lparr>l_mask4 := Some (prefix_mask prefix)\<rparr> else s);
                  res = (if res < 0 \<and> k_exist k then 0 else res)
              in (res, shut_fd fd s))"

text \<open>\<open>inet_pton\<close> for IPv6 is an argument.\<close>

definition hev_tunnel_set_ipv6 ::
  "(cstr \<Rightarrow> byte list option) \<Rightarrow> lin_env \<Rightarrow> cstr \<Rightarrow> int \<Rightarrow> lin \<Rightarrow> int \<times> lin" where
  "hev_tunnel_set_ipv6 pton6 k addr prefix s =
     (let fd = k_fd k in
      if fd < 0 then (- 1, s)
      else
        let s = open_fd fd s; res = k_res1 k in
        if res < 0 then (res, shut_fd fd s)
        else case pton6 addr of
          None \<Rightarrow> (0, shut_fd fd s)
        | Some a \<Rightarrow>
            let res = k_res2 k; s = (if 0 \<le> res then s\<lparr>l_addr6 := Some (a, prefix)\<rparr> else s);
                res = (if res < 0 \<and> k_exist k then 0 else res)
            in (res, shut_fd fd s))"

section \<open>Correctness\<close>

lemma shut_open [simp]: "shut_fd fd (open_fd fd s) = s"
  by (simp add: shut_fd_def open_fd_def)

lemma request_name_length: "length (request_name name) = IFNAMSIZ \<and> last (request_name name) = 0"
  by (auto simp: request_name_def IFNAMSIZ_def last_append min_def split: option.split)

text \<open>Whatever the kernel answers, a function that sets something leaves no socket open, and \<open>open\<close>
  leaves exactly the descriptor it returns.\<close>

lemma linux_sockets_closed:
  "l_fds (snd (hev_tunnel_set_mtu k mtu s)) = l_fds s"
  "l_fds (snd (hev_tunnel_set_state k state s)) = l_fds s"
  "l_fds (snd (hev_tunnel_set_ipv4 k addr prefix s)) = l_fds s"
  "l_fds (snd (hev_tunnel_set_ipv6 pton6 k addr prefix6 s)) = l_fds s"
  "hev_tunnel_open k name s = (res, req, s') \<Longrightarrow> l_fds s' = (if res < 0 then l_fds s else res # l_fds s)"
  by (auto simp: hev_tunnel_set_mtu_def hev_tunnel_set_state_def hev_tunnel_set_ipv4_def hev_tunnel_set_ipv6_def
      hev_tunnel_open_def Let_def shut_fd_def open_fd_def split: option.split if_splits)

text \<open>What was set is in effect when a function succeeds, for an address that is one.\<close>

lemma linux_settings_in_effect:
  "hev_tunnel_set_mtu k mtu s = (res, s') \<Longrightarrow> 0 \<le> res \<Longrightarrow> l_mtu s' = Some mtu"
  "hev_tunnel_set_state k state s = (res, s') \<Longrightarrow> 0 \<le> res \<Longrightarrow> l_up s' = (state \<noteq> 0)"
  "hev_tunnel_set_ipv4 k addr prefix s = (res, s') \<Longrightarrow> 0 \<le> res \<Longrightarrow> inet_pton addr = Some a \<Longrightarrow>
     l_addr4 s' = Some a \<and> (l_mask4 s' = Some (prefix_mask prefix) \<or> k_exist k)"
  "hev_tunnel_set_ipv6 pton6 k addr prefix6 s = (res, s') \<Longrightarrow> 0 \<le> res \<Longrightarrow> pton6 addr = Some a6 \<Longrightarrow>
     l_addr6 s' = Some (a6, prefix6) \<or> k_exist k"
  by (auto simp: hev_tunnel_set_mtu_def hev_tunnel_set_state_def hev_tunnel_set_ipv4_def hev_tunnel_set_ipv6_def
      Let_def shut_fd_def open_fd_def split: if_splits)

text \<open>An address that \<open>inet_pton\<close> rejects is not an error: its result 0 is returned as success, and
  the interface is brought up without an address.\<close>

lemma linux_bad_address_accepted:
  assumes "inet_pton addr = None" "0 \<le> k_fd k"
  shows "hev_tunnel_set_ipv4 k addr prefix s = (0, s)"
  using assms by (simp add: hev_tunnel_set_ipv4_def Let_def)

lemma linux_bad_address_sample: "inet_pton (str ''10.0.0.256'') = None"
  by code_simp

lemma prefix_mask_host: "prefix_mask 32 = - 1"
  by code_simp

end
