(* ===== verification/Service.thy ===== *)
theory Service
  imports Reachability
begin

text \<open>
  The service the Android application calls, \<open>hev-jni.c\<close>: \<open>native_start_service\<close>,
  \<open>native_stop_service\<close> and the thread that runs \<open>hev_socks5_tunnel_main\<close>. Any number of threads
  of the application call the service at any time; a mutex keeps them apart, but not from the thread
  of the tunnel. Each function is a step function over the points at which another thread may act.
  The tunnel keeps its state in static variables, so there must never be two of its threads.
\<close>

section \<open>State\<close>

text \<open>Where a caller is: outside; in \<open>start\<close> after the lock, before the join, before the allocation
  and after \<open>is_running\<close> has been set; in \<open>stop\<close> after the lock, before the join and after it.\<close>

datatype call_pc = CIdle | StartIn | StartJoin | StartNew | StartCreate | StopIn | StopJoin | StopClear

text \<open>A thread of the tunnel: in \<open>hev_socks5_tunnel_main\<close>, returned from it, after \<open>is_running\<close> has
  been reset, ended, and joined.\<close>

datatype thread_state = Unborn | InMain | Returned | Cleared | Ended | Joined

text \<open>\<open>tdata_live\<close> counts the allocated \<open>ThreadData\<close>, and \<open>quits\<close> the calls of
  \<open>hev_socks5_tunnel_quit\<close>; the results of the last calls are kept for each caller.\<close>

record service =
  is_running :: bool
  thread_joinable :: bool
  work_thread :: nat
  svc_lock :: "nat option"
  calls :: "nat \<Rightarrow> call_pc"
  threads :: "nat \<Rightarrow> thread_state"
  next_thread :: nat
  tdata_live :: nat
  quits :: nat
  results :: "nat \<Rightarrow> bool option"

section \<open>Operations\<close>

definition at_pc :: "nat \<Rightarrow> call_pc \<Rightarrow> service \<Rightarrow> service" where
  "at_pc c pc s = s\<lparr>calls := (calls s)(c := pc)\<rparr>"

text \<open>The label \<open>exit\<close>: unlock and return.\<close>

definition leave :: "nat \<Rightarrow> bool \<Rightarrow> service \<Rightarrow> service" where
  "leave c result s = s\<lparr>calls := (calls s)(c := CIdle), svc_lock := None, results := (results s)(c := Some result)\<rparr>"

definition set_thread :: "nat \<Rightarrow> thread_state \<Rightarrow> service \<Rightarrow> service" where
  "set_thread t st s = s\<lparr>threads := (threads s)(t := st)\<rparr>"

text \<open>\<open>mem\<close> is whether \<open>malloc\<close>, \<open>GetStringUTFChars\<close> and \<open>strdup\<close> succeed; what was allocated before
  one that fails is freed in the same step. \<open>created\<close> is whether \<open>pthread_create\<close> succeeds. A join
  waits until the thread has ended.\<close>

definition native_start_service :: "bool \<Rightarrow> bool \<Rightarrow> nat \<Rightarrow> service \<Rightarrow> service" where
  "native_start_service mem created c s =
     (case calls s c of
        CIdle \<Rightarrow> if svc_lock s = None then at_pc c StartIn (s\<lparr>svc_lock := Some c\<rparr>) else s
      | StartIn \<Rightarrow>
          if is_running s then leave c False s
          else at_pc c (if thread_joinable s then StartJoin else StartNew) s
      | StartJoin \<Rightarrow>
          if threads s (work_thread s) = Ended
          then at_pc c StartNew (set_thread (work_thread s) Joined (s\<lparr>thread_joinable := False\<rparr>))
          else s
      | StartNew \<Rightarrow>
          if \<not> mem then leave c False s
          else at_pc c StartCreate (s\<lparr>tdata_live := tdata_live s + 1, is_running := True\<rparr>)
      | StartCreate \<Rightarrow>
          if \<not> created then leave c False (s\<lparr>is_running := False, tdata_live := tdata_live s - 1\<rparr>)
          else
            let t = next_thread s in
            leave c True (set_thread t InMain (s\<lparr>work_thread := t, next_thread := t + 1, thread_joinable := True\<rparr>))
      | _ \<Rightarrow> s)"

definition native_stop_service :: "nat \<Rightarrow> service \<Rightarrow> service" where
  "native_stop_service c s =
     (case calls s c of
        CIdle \<Rightarrow> if svc_lock s = None then at_pc c StopIn (s\<lparr>svc_lock := Some c\<rparr>) else s
      | StopIn \<Rightarrow>
          if \<not> thread_joinable s then leave c True s
          else at_pc c StopJoin (if is_running s then s\<lparr>quits := quits s + 1\<rparr> else s)
      | StopJoin \<Rightarrow>
          if threads s (work_thread s) = Ended
          then at_pc c StopClear (set_thread (work_thread s) Joined (s\<lparr>thread_joinable := False\<rparr>))
          else s
      | StopClear \<Rightarrow> leave c True (s\<lparr>is_running := False\<rparr>)
      | _ \<Rightarrow> s)"

text \<open>\<open>hev_socks5_tunnel_main\<close> may return at any time.\<close>

definition thread_handler :: "nat \<Rightarrow> service \<Rightarrow> service" where
  "thread_handler t s =
     (case threads s t of
        InMain \<Rightarrow> set_thread t Returned s
      | Returned \<Rightarrow> set_thread t Cleared (s\<lparr>is_running := False\<rparr>)
      | Cleared \<Rightarrow> set_thread t Ended (s\<lparr>tdata_live := tdata_live s - 1\<rparr>)
      | _ \<Rightarrow> s)"

definition native_is_running :: "service \<Rightarrow> bool" where
  "native_is_running s = is_running s"

inductive service_step :: "service \<Rightarrow> service \<Rightarrow> bool" where
  start_step: "service_step s (native_start_service mem created c s)"
| stop_step: "service_step s (native_stop_service c s)"
| thread_step: "service_step s (thread_handler t s)"

inductive_cases service_stepE: "service_step s s'"

definition service0 :: service where
  "service0 = \<lparr>is_running = False, thread_joinable = False, work_thread = 0, svc_lock = None, calls = (\<lambda>_. CIdle),
     threads = (\<lambda>_. Unborn), next_thread = 1, tdata_live = 0, quits = 0, results = (\<lambda>_. None)\<rparr>"

abbreviation (input) service_init :: "service \<Rightarrow> bool" where
  "service_init s \<equiv> s = service0"

section \<open>Invariant\<close>

definition unjoined :: "thread_state \<Rightarrow> bool" where
  "unjoined st \<longleftrightarrow> st \<notin> {Unborn, Joined}"

text \<open>What each point of a call says of the variables.\<close>

definition point_ok :: "service \<Rightarrow> call_pc \<Rightarrow> bool" where
  "point_ok s pc \<longleftrightarrow>
     (case pc of
        StartJoin \<Rightarrow> thread_joinable s \<and> \<not> is_running s
      | StartNew \<Rightarrow> \<not> thread_joinable s \<and> \<not> is_running s
      | StartCreate \<Rightarrow> \<not> thread_joinable s \<and> is_running s
      | StopJoin \<Rightarrow> thread_joinable s
      | StopClear \<Rightarrow> \<not> thread_joinable s \<and> \<not> is_running s
      | _ \<Rightarrow> True)"

definition creating :: "service \<Rightarrow> bool" where
  "creating s \<longleftrightarrow> (\<exists>c. svc_lock s = Some c \<and> calls s c = StartCreate)"

definition service_inv :: "service \<Rightarrow> bool" where
  "service_inv s \<longleftrightarrow>
     (\<forall>c. calls s c \<noteq> CIdle \<longleftrightarrow> svc_lock s = Some c) \<and>
     (\<forall>t. unjoined (threads s t) \<longleftrightarrow> thread_joinable s \<and> t = work_thread s) \<and>
     (\<forall>t. next_thread s \<le> t \<longrightarrow> threads s t = Unborn) \<and>
     (\<forall>c. svc_lock s = Some c \<longrightarrow> point_ok s (calls s c)) \<and>
     (is_running s \<longleftrightarrow> creating s \<or> thread_joinable s \<and> threads s (work_thread s) \<in> {InMain, Returned}) \<and>
     tdata_live s = (if creating s then 1 else 0) +
       (if thread_joinable s \<and> threads s (work_thread s) \<noteq> Ended then 1 else 0)"

lemmas service_defs = at_pc_def leave_def set_thread_def

lemma service0_inv: "service_inv service0"
  by (simp add: service_inv_def service0_def unjoined_def creating_def)

lemma holder:
  assumes "service_inv s" "calls s c \<noteq> CIdle"
  shows "svc_lock s = Some c" "point_ok s (calls s c)" "creating s \<longleftrightarrow> calls s c = StartCreate"
    "\<And>d. d \<noteq> c \<Longrightarrow> calls s d = CIdle"
  using assms by (auto simp: service_inv_def creating_def)

lemma no_lock: "service_inv s \<Longrightarrow> svc_lock s = None \<Longrightarrow> calls s c = CIdle \<and> \<not> creating s"
  by (auto simp: service_inv_def creating_def)

lemmas service_cases = service_defs service_inv_def creating_def point_ok_def unjoined_def Let_def

lemma start_service_inv: "service_inv s \<Longrightarrow> service_inv (native_start_service mem created c s)"
proof -
  assume inv: "service_inv s"
  note D = inv [unfolded service_inv_def] and steps = native_start_service_def service_cases
  show ?thesis
  proof (cases "calls s c")
    case CIdle
    then show ?thesis using D no_lock [OF inv] by (auto simp: steps)
  next
    case StartIn
    then show ?thesis using D holder [OF inv, of c, unfolded StartIn, simplified] by (auto simp: steps)
  next
    case StartJoin
    then show ?thesis using D holder [OF inv, of c, unfolded StartJoin, simplified] by (auto simp: steps)
  next
    case StartNew
    then show ?thesis using D holder [OF inv, of c, unfolded StartNew, simplified] by (auto simp: steps)
  next
    case StartCreate
    then show ?thesis using D holder [OF inv, of c, unfolded StartCreate, simplified] by (auto simp: steps)
  qed (use inv in \<open>simp_all add: native_start_service_def\<close>)
qed

lemma stop_service_inv: "service_inv s \<Longrightarrow> service_inv (native_stop_service c s)"
proof -
  assume inv: "service_inv s"
  note D = inv [unfolded service_inv_def] and steps = native_stop_service_def service_cases
  show ?thesis
  proof (cases "calls s c")
    case CIdle
    then show ?thesis using D no_lock [OF inv] by (auto simp: steps)
  next
    case StopIn
    then show ?thesis using D holder [OF inv, of c, unfolded StopIn, simplified] by (auto simp: steps)
  next
    case StopJoin
    then show ?thesis using D holder [OF inv, of c, unfolded StopJoin, simplified] by (auto simp: steps)
  next
    case StopClear
    then show ?thesis using D holder [OF inv, of c, unfolded StopClear, simplified] by (auto simp: steps)
  qed (use inv in \<open>simp_all add: native_stop_service_def\<close>)
qed

text \<open>The thread that acts is the one that can be joined.\<close>

lemma acting_thread:
  assumes "service_inv s" "threads s t \<in> {InMain, Returned, Cleared, Ended}"
  shows "thread_joinable s" "work_thread s = t" "\<not> creating s"
proof -
  show j: "thread_joinable s" "work_thread s = t"
    using assms unfolding service_inv_def unjoined_def by (metis insertE singletonD thread_state.distinct)+
  show "\<not> creating s" using assms(1) j(1) by (auto simp: service_inv_def creating_def point_ok_def)
qed

lemma thread_inv: "service_inv s \<Longrightarrow> service_inv (thread_handler t s)"
proof -
  assume inv: "service_inv s"
  note D = inv [unfolded service_inv_def] and steps = thread_handler_def set_thread_def service_inv_def unjoined_def creating_def
  have pt: "point_ok s (calls s c)" if "svc_lock s = Some c" for c using D that by blast
  show ?thesis
  proof (cases "threads s t")
    case InMain
    then show ?thesis using D acting_thread [OF inv, of t] pt by (auto simp: steps point_ok_def split: call_pc.splits)
  next
    case Returned
    then show ?thesis using D acting_thread [OF inv, of t] pt by (auto simp: steps point_ok_def split: call_pc.splits)
  next
    case Cleared
    then show ?thesis using D acting_thread [OF inv, of t] pt by (auto simp: steps point_ok_def split: call_pc.splits)
  qed (use inv in \<open>simp_all add: thread_handler_def\<close>)
qed

interpretation svc: inductive_invariant service_init service_step service_inv
  by unfold_locales (auto simp: service0_inv start_service_inv stop_service_inv thread_inv elim!: service_stepE)

section \<open>Completion\<close>












section \<open>Properties\<close>

text \<open>C12: however the application's calls interleave with the tunnel, there is never more than one
  thread of the tunnel, ended but unjoined ones included; a join is only ever made for a thread that
  exists and has not been joined; what \<open>native_is_running\<close> answers is whether a thread is being
  created or has not yet returned from the tunnel; and when nobody is inside the service and no thread
  can be joined, nothing is allocated.\<close>

theorem service_one_tunnel:
  assumes "reach service_init service_step s"
  shows "(\<forall>t u. threads s t \<notin> {Unborn, Joined} \<longrightarrow> threads s u \<notin> {Unborn, Joined} \<longrightarrow> t = u) \<and>
    (\<forall>c. calls s c \<in> {StartJoin, StopJoin} \<longrightarrow> threads s (work_thread s) \<notin> {Unborn, Joined}) \<and>
    (native_is_running s \<longleftrightarrow> (\<exists>c. calls s c = StartCreate) \<or> (\<exists>t. threads s t \<in> {InMain, Returned})) \<and>
    (\<forall>c d. calls s c \<noteq> CIdle \<longrightarrow> calls s d \<noteq> CIdle \<longrightarrow> c = d) \<and>
    (svc_lock s = None \<and> \<not> thread_joinable s \<longrightarrow> tdata_live s = 0 \<and> \<not> native_is_running s)"
proof -
  have inv: "service_inv s" by (rule svc.reach_inv [OF assms])
  note D = inv [unfolded service_inv_def]
  have one: "threads s t \<notin> {Unborn, Joined} \<longleftrightarrow> thread_joinable s \<and> t = work_thread s" for t
    using D unfolding unjoined_def by blast
  have cr: "creating s \<longleftrightarrow> (\<exists>c. calls s c = StartCreate)"
    using D unfolding creating_def by (metis call_pc.distinct(7))
  have m: "(\<exists>t. threads s t \<in> {InMain, Returned}) \<longleftrightarrow> thread_joinable s \<and> threads s (work_thread s) \<in> {InMain, Returned}"
    using one by (metis insertE insertI1 insert_iff singletonD thread_state.distinct)
  have j: "thread_joinable s" if "calls s c \<in> {StartJoin, StopJoin}" for c
    using holder(2) [OF inv, of c] that by (auto simp: point_ok_def)
  have "native_is_running s \<longleftrightarrow> (\<exists>c. calls s c = StartCreate) \<or> (\<exists>t. threads s t \<in> {InMain, Returned})"
    unfolding m native_is_running_def cr [symmetric] using D by blast
  moreover have "\<forall>c d. calls s c \<noteq> CIdle \<longrightarrow> calls s d \<noteq> CIdle \<longrightarrow> c = d" using D by auto
  moreover have "svc_lock s = None \<and> \<not> thread_joinable s \<longrightarrow> tdata_live s = 0 \<and> \<not> native_is_running s"
    using D no_lock [OF inv] by (auto simp: native_is_running_def)
  moreover have "\<forall>t u. threads s t \<notin> {Unborn, Joined} \<longrightarrow> threads s u \<notin> {Unborn, Joined} \<longrightarrow> t = u"
    unfolding one by blast
  moreover have "\<forall>c. calls s c \<in> {StartJoin, StopJoin} \<longrightarrow> threads s (work_thread s) \<notin> {Unborn, Joined}"
    unfolding one using j by blast
  ultimately show ?thesis by (intro conjI)
qed


section \<open>Samples\<close>

text \<open>One caller has started the tunnel, and another one is stopping it.\<close>

definition service1 :: service where
  "service1 = native_stop_service 1 (native_start_service True True 0 (native_start_service True True 0
     (native_start_service True True 0 (native_start_service True True 0 service0))))"

lemma reach_start: "reach service_init service_step s \<Longrightarrow> reach service_init service_step (native_start_service mem created c s)"
  by (erule reach_step) (rule start_step)

lemma reach_stop: "reach service_init service_step s \<Longrightarrow> reach service_init service_step (native_stop_service c s)"
  by (erule reach_step) (rule stop_step)

lemma service1_reach: "reach service_init service_step service1"
  unfolding service1_def by (intro reach_stop reach_start reach_init refl)

lemma service1_eval:
  "calls service1 1 = StopIn" "threads service1 1 = InMain" "work_thread service1 = 1" "native_is_running service1"
  by (simp_all add: service1_def service0_def native_start_service_def native_stop_service_def service_defs native_is_running_def
      Let_def)

theorem service_one_tunnel_witness:
  "threads service1 1 = InMain \<and> threads service1 2 \<in> {Unborn, Joined} \<and> native_is_running service1"
proof -
  have "threads service1 2 \<notin> {Unborn, Joined} \<longrightarrow> threads service1 1 \<notin> {Unborn, Joined} \<longrightarrow> (2 :: nat) = 1"
    using service_one_tunnel [OF service1_reach] by blast
  then show ?thesis using service1_eval by auto
qed


end
