(* ===== verification/Spec2Isabelle.thy ===== *)
theory Spec2Isabelle
  imports RBTreeWalk Authenticator Socks5Server StreamRelay Tunnel TunnelStop TunnelInit TunnelMain TunnelDevice TunnelLinux Service
begin

text \<open>
  A verification library for the tunnel core of the repository, the C sources under
  \<open>src/hev-socks5-tunnel/src\<close> (below: \<open>H\<close>), with the parts of the vendored task library
  (\<open>third-part/hev-task-system\<close>, below: \<open>T\<close>) and of lwIP that they lean on.

  \<^bold>\<open>The program.\<close> An Android application gives a tunnel device to the native service
  (\<open>H/hev-jni.c\<close>), which runs the tunnel in a thread of its own (\<open>H/hev-main.c\<close>,
  \<open>H/hev-socks5-tunnel.c\<close>). Packets read from the device go to a user-space TCP/IP stack; its
  callbacks make a session of every TCP connection and of every UDP flow
  (\<open>H/hev-socks5-session*.c\<close>). A session is a SOCKS5 client (\<open>H/core/src/hev-socks5-client*.c\<close>): it
  connects to the configured server, logs in, requests its destination and relays, TCP through a
  ring buffer (\<open>H/misc/hev-ring-buffer.c\<close>) and packet buffers, UDP through a queue of frames and the
  datagram relay (\<open>H/core/src/hev-socks5-udp.c\<close>). The mapped DNS (\<open>H/hev-mapped-dns.c\<close>) answers name
  queries with made-up addresses and gives the names back when traffic for them arrives. The core
  also holds the server side of the protocol (\<open>hev-socks5-server.c\<close>, the users in
  \<open>hev-socks5-authenticator.c\<close>, the stream relay \<open>hev-socks5-tcp.c\<close>). Everything is configured by a YAML
  document (\<open>H/hev-config.c\<close>).

  \<^bold>\<open>Conventions.\<close> C integers are words of their width (\<open>cint\<close>, \<open>u16\<close>, \<open>u32\<close>, \<open>size_t\<close>) wherever
  they are computed with; descriptors and results, which are only compared, are \<open>int\<close>. Structs
  are records, enums datatypes. Memory that is shared by pointers is a partial map from addresses;
  a read or write outside of it, an access outside of a buffer and a division by zero have no
  result (\<open>None\<close>), so a theorem that a function returns \<open>Some\<close> says that it has no undefined
  behaviour. Errors of the code are return values of the model. The kernel, the resolver, the
  allocator and the scheduler are arguments: scripts of the answers to the calls on one socket, or
  functions; a statement for all of them is one for every fragmentation, failure and schedule.
  Logging and the class tables of the object system are left out, a virtual call is a case
  distinction.

  \<^bold>\<open>Theories.\<close>
  \<^item> \<open>Prelude\<close>: types, memory, runs of operations, the locale \<open>data_refinement\<close>, lemmas on words
    and lists. \<open>CString\<close>: C strings and byte access. \<open>Reachability\<close>: transition systems and the
    locale \<open>inductive_invariant\<close>.
  \<^item> \<open>RingBuffer\<close> (\<open>H/misc/hev-ring-buffer.c\<close>): a FIFO with bytes in flight; \<open>CircularBuffer\<close>
    (\<open>T/src/lib/io/buffer\<close>): the same buffer with nothing in flight.
  \<^item> \<open>IntrusiveList\<close> (\<open>H/misc/hev-list.*\<close>): the doubly linked list on a heap of nodes represents a
    sequence; its contract is a locale.
  \<^item> \<open>RBTree\<close> (the operations of \<open>H/core/src/hev-rbtree.*\<close> on packed parent and colour words),
    \<open>RBTreeShape\<close> (trees and contexts), \<open>RBTreeInsert\<close>, \<open>RBTreeErase\<close>, \<open>RBTreeWalk\<close>: insertion and
    removal keep the order, the colours and the heights; traversal; \<open>TreeSearch\<close>: the search loops
    of the clients, once for all.
  \<^item> \<open>MappedDNS\<close>, \<open>MappedDNSPacket\<close> (\<open>H/hev-mapped-dns.c\<close>): the cache refines a bounded
    least-recently-used map from names to indices; the responder stays inside its buffers for every
    request and answers with addresses that lead back to the name.
  \<^item> \<open>Authenticator\<close> (users and authenticator): a map from names to reference-counted users.
  \<^item> \<open>TaskIO\<close>, \<open>TaskIOMsg\<close> (\<open>T/src/lib/io/socket\<close>): the transfer loops against scripts.
  \<^item> \<open>Socks5Addr\<close>, \<open>Socks5\<close>, \<open>Socks5Client\<close>, \<open>Socks5Server\<close>, \<open>Socks5UDP\<close>, \<open>Socks5UDPSplice\<close>: addresses,
    the session record, both handshakes, the datagram framing and its relay. A client is never
    through without the server's consent, a server never without a valid login; frames survive the
    transport; the relays end.
  \<^item> \<open>StreamRelay\<close> (\<open>hev_task_io_splice\<close> and \<open>H/core/src/hev-socks5-tcp.c\<close>): the locales \<open>splicer\<close> and
    \<open>relay_of\<close> state what a splicer promises and prove the loop from it; they are interpreted on the
    splicer with a circular buffer and on the one with pipes.
  \<^item> \<open>Config\<close> (\<open>H/hev-config.c\<close>): parsing, defaults, reloading, terminated strings.
  \<^item> \<open>Pbuf\<close>, \<open>Session\<close>, \<open>SessionTCP\<close>, \<open>SessionUDP\<close>: packet buffers, the life of a session, and the two
    relays, in which the callbacks of the stack run whenever the task waits. Streams arrive intact
    in both directions, nothing undefined is reached, a terminated session ends.
  \<^item> \<open>Tunnel\<close>, \<open>TunnelStop\<close>, \<open>TunnelInit\<close> (\<open>H/hev-socks5-tunnel.c\<close>): the sessions ordered by
    activity, the callbacks that create them, the protocol between \<open>stop\<close>, \<open>run\<close> and \<open>fini\<close> with any
    number of threads, and a ledger of what \<open>init\<close> acquires and \<open>fini\<close> releases.
  \<^item> \<open>TunnelDevice\<close>, \<open>TunnelLinux\<close> (\<open>H/hev-tunnel.h\<close>, \<open>H/hev-tunnel-linux.c\<close>): packets between
    device and stack, timers, counters, the set-up of the device.
  \<^item> \<open>TunnelMain\<close> (\<open>H/hev-main.c\<close> and the loggers) and \<open>Service\<close> (\<open>H/hev-jni.c\<close>): a run leaves nothing
    behind; the service never has two tunnels and its calls complete.
  \<^item> This theory: the client and the server together, and the server with its relay.

  \<^bold>\<open>Loops.\<close> A loop whose recursion is not structural has a termination proof or, where only an
  invariant makes it end, is a \<open>partial_function\<close> into \<open>option\<close> with a theorem that it returns: the
  loops over the tree and those of its clients, \<open>terminate_loop\<close>, \<open>splice_loop\<close> and
  \<open>lwip_io_task_entry\<close>. The scripts decrease with every call that does not end a loop, so their size
  is the measure for \<open>splice_loop\<close> and for the datagram splicer, and enough fuel where a loop has
  fuel. The relays of the sessions and the protocols of \<open>TunnelStop\<close> and \<open>Service\<close> are step
  relations without a bound; that they get to their ends is shown as reachability from every
  reachable state, with a rank of the steps that are left.

  \<^bold>\<open>Not modelled.\<close> The rest of lwIP, libyaml and the task library (vendored; what the core uses of
  them is an argument or in the theories above); \<open>H/hev-tunnel-macos.c\<close> and its relatives and
  \<open>H/misc/hev-wintun.c\<close> (requests to other kernels); \<open>H/misc/hev-exec.c\<close> (fork and exec); the command line
  entry; textual addresses for log messages; the Kotlin application. The atomicity of
  reference counts and the weak memory order of the atomic variables are not modelled: the steps of
  \<open>TunnelStop\<close> and \<open>Service\<close> are sequentially consistent.
\<close>

section \<open>Client and server\<close>

text \<open>The two ends agree on the login: the client has credentials exactly when the server asks for
  them, and they are those of a registered user.\<close>

definition same_login :: "HevSocks5Client \<Rightarrow> HevSocks5Server \<Rightarrow> rbt \<Rightarrow> bool" where
  "same_login cl sv t \<longleftrightarrow> (if v_obj sv = NoObj then \<not> has_creds cl
     else \<exists>user pass p. c_user cl = Some user \<and> c_pass cl = Some pass \<and> login (v_auth sv) t user pass p \<and>
       0 < length user \<and> length user < 256 \<and> 0 < length pass \<and> length pass < 256)"

lemma client_bytes_authenticated:
  assumes "same_login cl sv t" "s_type cl \<noteq> TYPE_NONE"
  shows "\<exists>bs. client_bytes cl addr = bs @ [5, cmd_of (s_type cl), 0] @ addr \<and> authenticated sv t bs"
proof (cases "v_obj sv = NoObj")
  case True
  then have "authenticated sv t (offer_bytes [0])"
    unfolding authenticated_def by (intro exI [of _ "[0]"]) simp
  moreover have "client_bytes cl addr = offer_bytes [0] @ [5, cmd_of (s_type cl), 0] @ addr"
    using assms(1) True creds_bytes_none [of cl]
    by (simp add: same_login_def client_bytes_def methods_bytes_def request_bytes_def offer_bytes_def)
  ultimately show ?thesis by blast
next
  case False
  then obtain user pass p where u: "c_user cl = Some user" "c_pass cl = Some pass" "login (v_auth sv) t user pass p"
      "0 < length user" "length user < 256" "0 < length pass" "length pass < 256"
    using assms(1) by (auto simp: same_login_def)
  have "authenticated sv t (offer_bytes [2] @ login_bytes user pass)"
    unfolding authenticated_def using False u(3-) by (intro exI [of _ "[2]"]) auto
  moreover have "client_bytes cl addr = (offer_bytes [2] @ login_bytes user pass) @ [5, cmd_of (s_type cl), 0] @ addr"
    using u(1,2) by (simp add: has_creds_def client_bytes_def methods_bytes_def request_bytes_def offer_bytes_def login_bytes_def)
  ultimately show ?thesis by blast
qed

lemma auth_reply_replies:
  "same_login cl sv t \<Longrightarrow> auth_reply sv @ [5, 0, rsv] @ a = server_replies (has_creds cl) rsv a"
  by (auto simp: same_login_def auth_reply_def server_replies_def has_creds_def)

lemma command_type_cmd_of: "type \<noteq> TYPE_NONE \<Longrightarrow> command_type (cmd_of type) = type"
  by (cases type) (simp_all add: command_type_def)

text \<open>C1: The client and the server implement the same protocol: joined by two byte streams, and
  whatever the fragmentation and the waits on either side, a client whose login the server knows
  and a server that can carry out the command both complete their handshakes, in the standard and
  in the pipelined form. Each side consumes exactly the bytes the other one sends, the data that
  follows is left unread on both sides, and the server's session has the kind the client asked for.\<close>

theorem client_server_agree:
  assumes client: "cl0 = hev_socks5_set_timeout cl (tcp_timeout m)" "client_ready mem net1 cl0 addr"
    and server: "sv0 = hev_socks5_set_timeout sv (tcp_timeout m)" "srv_inv sv0 t \<or> v_obj sv0 = NoObj"
      "v_obj sv0 \<in> {NoObj, AuthObj}" "26 \<le> tx_room sv0"
    and command: "hev_socks5_addr_into_sockaddr6 rs addr \<lparr>sin6_port = 0, sin6_addr = replicate 16 0\<rparr> (s_family sv0) = Some (sa, fam, 0)"
      "command_ok m net net2 b (s_timeout sv0) (cmd_of (s_type cl0)) sa sa'" "connect_timeout m \<noteq> 0" "length (sin6_addr sa') = 16"
    and login: "same_login cl0 sv0 t"
    and streams: "inp sv0 = client_bytes cl0 addr @ up" "inp cl0 = auth_reply sv0 @ [5, 0, 0] @ wire_sockaddr sa' @ down"
  shows "\<exists>cl1 sv1 cb sb.
    (if pipeline then hev_socks5_client_handshake_pipeline mem rs1 net1 cl0
      else hev_socks5_client_handshake_standard mem rs1 net1 cl0) = Some (0, cl1) \<and>
    hev_socks5_server_handshake m rs net net2 b sv = Some (0, sv1) \<and>
    sent cl1 = sent cl @ cb \<and> inp sv0 = cb @ inp sv1 \<and> inp sv1 = up \<and>
    sent sv1 = sent sv @ sb \<and> inp cl0 = sb @ inp cl1 \<and> inp cl1 = down \<and> s_type sv1 = s_type cl"
proof -
  have ty: "s_type cl0 = s_type cl" "s_type cl0 \<noteq> TYPE_NONE" "wire_addr addr"
    using client by (auto simp: hev_socks5_set_timeout_def client_ready_def)
  obtain bs where bs: "client_bytes cl0 addr = bs @ [5, cmd_of (s_type cl0), 0] @ addr" "authenticated sv0 t bs"
    using client_bytes_authenticated [OF login ty(2)] by blast
  have i: "inp sv0 = bs @ [5, cmd_of (s_type cl0), 0] @ addr @ up" using streams(1) bs(1) by simp
  obtain sv1 where sv1: "hev_socks5_server_handshake m rs net net2 b sv = Some (0, sv1)"
      "sent sv1 = sent sv @ auth_reply sv0 @ [5, 0, 0] @ wire_sockaddr sa'" "inp sv1 = up"
      "s_type sv1 = command_type (cmd_of (s_type cl0))"
    using server_handshake_ok [OF server(1-3) bs(2) i ty(3) command server(4)] by blast
  have ci: "inp cl0 = server_replies (has_creds cl0) 0 (wire_sockaddr sa') @ down"
    using streams(2) auth_reply_replies [OF login, of 0 "wire_sockaddr sa'"] by simp
  obtain cl1 where "(if pipeline then hev_socks5_client_handshake_pipeline mem rs1 net1 cl0
      else hev_socks5_client_handshake_standard mem rs1 net1 cl0) = Some (0, cl1)"
      "sent cl1 = sent cl @ client_bytes cl0 addr" "inp cl1 = down"
    using client_handshake_ok [OF client ci wire_sockaddr_reply [OF command(4)], of pipeline rs1] by blast
  then show ?thesis using sv1 streams ty command_type_cmd_of [OF ty(2)]
    by (intro exI [of _ cl1] exI [of _ sv1] exI [of _ "client_bytes cl0 addr"]
        exI [of _ "auth_reply sv0 @ [5, 0, 0] @ wire_sockaddr sa'"]) simp
qed

text \<open>The witness: a client logs in as the user of \<^const>\<open>server0\<close> and connects to \<open>1.2.3.4\<close>; each
  side has one byte of payload waiting.\<close>

definition client1 :: HevSocks5Client where
  "client1 = client0\<lparr>c_user := Some [97, 108], c_pass := Some [120],
     s_sock := \<lparr>rx = [Chunk [5, 2, 1], RxAgain 3, Chunk ([0, 5, 0, 0] @ wire_sockaddr sa1234 @ [42])], tx = [], txs = [Accept 100]\<rparr>\<rparr>"

lemma client1_ready:
  "client_ready True net0 (hev_socks5_set_timeout client1 300000) (wire_ipv4 [1, 2, 3, 4] 0x5000)"
proof -
  have r: "tx_room (hev_socks5_set_timeout client1 300000) = 100"
    by (simp add: tx_room_def hev_socks5_set_timeout_def client1_def client0_def)
  then have "length (client_bytes (hev_socks5_set_timeout client1 300000) (wire_ipv4 [1, 2, 3, 4] 0x5000)) \<le>
      tx_room (hev_socks5_set_timeout client1 300000)"
    by (simp add: client_bytes_def methods_bytes_def request_bytes_def hev_socks5_set_timeout_def client1_def client0_def)
  then show ?thesis using wire_ipv4_addr [of "[1, 2, 3, 4]" "0x5000"]
    by (simp add: client_ready_def hev_socks5_set_timeout_def client1_def client0_def get_upstream_addr_def
        hev_socks5_client_tcp_get_upstream_addr_def)
qed

lemma sample_login: "same_login (hev_socks5_set_timeout client1 300000) (hev_socks5_set_timeout server0 300000) tree_al"
  using server0_inv(2) auth0_registered auth0_users
  by (simp add: same_login_def login_def hev_socks5_set_timeout_def client1_def client0_def server0_def user_pass_def user_al_def)

lemma sample_address:
  "hev_socks5_addr_into_sockaddr6 rs_none (wire_ipv4 [1, 2, 3, 4] 0x5000) \<lparr>sin6_port = 0, sin6_addr = replicate 16 0\<rparr> family =
   Some (sa1234, FAMILY_IPV4, 0)"
  using into_sockaddr6_ipv4 [of "[1, 2, 3, 4]" "\<lparr>sin6_port = 0, sin6_addr = replicate 16 0\<rparr>" rs_none "0x5000" "[]"]
  by (simp add: sa1234_def)

lemma sample_command:
  "command_ok misc_default netc netc bind0 (s_timeout (hev_socks5_set_timeout server0 300000)) 1 sa1234 sa1234"
  by (simp add: command_ok_def sock_up_def netc_def hev_socks5_set_timeout_def server0_def
      hev_socks5_task_io_yielder_def hev_task_sleep_def misc_default_def)

lemma sample_inp:
  "inp (hev_socks5_set_timeout server0 300000) =
   client_bytes (hev_socks5_set_timeout client1 300000) (wire_ipv4 [1, 2, 3, 4] 0x5000) @ [42]"
  unfolding server0_inp
  by (simp add: client_bytes_def methods_bytes_def request_bytes_def hev_socks5_set_timeout_def client1_def client0_def
      has_creds_def offer_bytes_def login_bytes_def)

lemma sample_type: "s_type (hev_socks5_set_timeout client1 300000) = TYPE_TCP"
  by (simp add: hev_socks5_set_timeout_def client1_def client0_def)

theorem client_server_agree_witness:
  "\<exists>cl1 sv1 cb sb.
    (if True then hev_socks5_client_handshake_pipeline True rs_none net0 (hev_socks5_set_timeout client1 300000)
      else hev_socks5_client_handshake_standard True rs_none net0 (hev_socks5_set_timeout client1 300000)) = Some (0, cl1) \<and>
    hev_socks5_server_handshake misc_default rs_none netc netc bind0 server0 = Some (0, sv1) \<and>
    sent cl1 = sent client1 @ cb \<and> inp (hev_socks5_set_timeout server0 300000) = cb @ inp sv1 \<and> inp sv1 = [42] \<and>
    sent sv1 = sent server0 @ sb \<and> inp (hev_socks5_set_timeout client1 300000) = sb @ inp cl1 \<and> inp cl1 = [42] \<and>
    s_type sv1 = s_type client1"
proof (rule client_server_agree [where m = misc_default and t = tree_al and addr = "wire_ipv4 [1, 2, 3, 4] 0x5000"
      and sa = sa1234 and sa' = sa1234 and fam = FAMILY_IPV4 and rs = rs_none])
  let ?s = "hev_socks5_set_timeout server0 300000"
  show "client_ready True net0 (hev_socks5_set_timeout client1 300000) (wire_ipv4 [1, 2, 3, 4] 0x5000)"
    by (rule client1_ready)
  show "srv_inv ?s tree_al \<or> v_obj ?s = NoObj" "v_obj ?s \<in> {NoObj, AuthObj}" using server0_inv by auto
  show "hev_socks5_addr_into_sockaddr6 rs_none (wire_ipv4 [1, 2, 3, 4] 0x5000) \<lparr>sin6_port = 0, sin6_addr = replicate 16 0\<rparr> (s_family ?s)
      = Some (sa1234, FAMILY_IPV4, 0)"
    by (rule sample_address)
  show "command_ok misc_default netc netc bind0 (s_timeout ?s) (cmd_of (s_type (hev_socks5_set_timeout client1 300000))) sa1234 sa1234"
    unfolding sample_type using sample_command by simp
  show "same_login (hev_socks5_set_timeout client1 300000) ?s tree_al" by (rule sample_login)
  show "inp ?s = client_bytes (hev_socks5_set_timeout client1 300000) (wire_ipv4 [1, 2, 3, 4] 0x5000) @ [42]"
    by (rule sample_inp)
  show "inp (hev_socks5_set_timeout client1 300000) = auth_reply ?s @ [5, 0, 0] @ wire_sockaddr sa1234 @ [42]"
    using server0_inv(2)
    by (simp add: auth_reply_def inp_def hev_socks5_set_timeout_def client1_def client0_def hev_socks5_task_io_yielder_def hev_task_sleep_def)
qed (simp_all add: misc_default_def sa1234_def tx_room_def hev_socks5_set_timeout_def server0_def)

section \<open>The server and its relay\<close>



lemma relayed_self: "\<not> s_shut w \<Longrightarrow> relayed evs w w"
  by (auto simp: relayed_def intro: exI [of _ 0])




end
